(* ===== verification/Prelude.thy ===== *)
theory Prelude
  imports Main "HOL-Library.Word"
begin

text \<open>
  Shared vocabulary of the development: the C integer types as words, the outcome of a kernel
  operation (\<open>res\<close>: a value with the new state, a panic, a sleep, a spin that nobody ends), the
  combinator that sequences operations, little-endian byte encodings, and the address arithmetic
  (modular distance, 8-byte and page alignment) that the memory models of the components share.
\<close>

unbundle bit_operations_syntax

section \<open>C integer types\<close>

type_synonym u8 = "8 word"
type_synonym u16 = "16 word"
type_synonym u32 = "32 word"
type_synonym u64 = "64 word"

text \<open>Byte-addressed memory; a pointer is a 64-bit address and pointer arithmetic wraps.\<close>

type_synonym memory = "u64 \<Rightarrow> u8"

section \<open>Outcomes of kernel operations\<close>

text \<open>
  \<open>Ok x s\<close>: the call returns \<open>x\<close> and leaves the state \<open>s\<close>.  \<open>Panic m\<close>: \<^verbatim>\<open>panic(m)\<close>, which never
  returns.  \<open>Block c s\<close>: the calling process gave up the CPU in state \<open>s\<close>; \<open>c\<close> says where, for a sleeping
  process the channel.
  \<open>Hang\<close>: the CPU spins in a loop that its own execution cannot leave.
\<close>

datatype ('a, 'c, 's) res = Ok 'a 's | Panic string | Block 'c 's | Hang

definition bindr :: "('a, 'c, 's) res \<Rightarrow> ('a \<Rightarrow> 's \<Rightarrow> ('b, 'c, 's) res) \<Rightarrow> ('b, 'c, 's) res" where
  "bindr r f = (case r of Ok x s \<Rightarrow> f x s | Panic m \<Rightarrow> Panic m | Block c s \<Rightarrow> Block c s | Hang \<Rightarrow> Hang)"

lemma bindr_simps [simp]:
  "bindr (Ok x s) f = f x s"
  "bindr (Panic m) f = Panic m"
  "bindr (Block c s) f = Block c s"
  "bindr Hang f = Hang"
  by (simp_all add: bindr_def)

lemma bindr_Ok_iff:
  "bindr r f = Ok y t \<longleftrightarrow> (\<exists>x s. r = Ok x s \<and> f x s = Ok y t)"
  by (cases r) auto

lemma bindr_assoc: "bindr (bindr r f) g = bindr r (\<lambda>x s. bindr (f x s) g)"
  by (cases r) auto

lemma bindr_cong [fundef_cong]:
  "\<lbrakk>r = r'; \<And>x s. r' = Ok x s \<Longrightarrow> f x s = f' x s\<rbrakk> \<Longrightarrow> bindr r f = bindr r' f'"
  by (cases r') auto

text \<open>\<open>n\<close> calls in a row, and a call for each element of a list.\<close>

fun repeat_res :: "nat \<Rightarrow> ('s \<Rightarrow> ('a, 'c, 's) res) \<Rightarrow> 's \<Rightarrow> ('a list, 'c, 's) res" where
  "repeat_res 0 f s = Ok [] s"
| "repeat_res (Suc n) f s = bindr (f s) (\<lambda>x s. bindr (repeat_res n f s) (\<lambda>xs s. Ok (x # xs) s))"

fun each_res :: "('a \<Rightarrow> 's \<Rightarrow> (unit, 'c, 's) res) \<Rightarrow> 'a list \<Rightarrow> 's \<Rightarrow> (unit, 'c, 's) res" where
  "each_res f [] s = Ok () s"
| "each_res f (x # xs) s = bindr (f x s) (\<lambda>_ s. each_res f xs s)"

lemma each_res_append:
  "each_res f (xs @ ys) s = bindr (each_res f xs s) (\<lambda>_ s. each_res f ys s)"
  by (induction xs arbitrary: s) (simp_all add: bindr_assoc fun_eq_iff cong: bindr_cong)

text \<open>A loop over a list that returns early: the first call that gives \<open>Some\<close> ends it.\<close>

fun scan_res :: "('a \<Rightarrow> 's \<Rightarrow> ('b option, 'c, 's) res) \<Rightarrow> 'a list \<Rightarrow> 's \<Rightarrow> ('b option, 'c, 's) res" where
  "scan_res f [] s = Ok None s"
| "scan_res f (x # xs) s =
     bindr (f x s) (\<lambda>r s. case r of None \<Rightarrow> scan_res f xs s | Some y \<Rightarrow> Ok (Some y) s)"

text \<open>C leaves an access outside an array undefined; the helper routines that can meet one return
  \<open>None\<close> there, and the call never comes back.\<close>

definition of_option :: "'a option \<Rightarrow> 's \<Rightarrow> ('a, 'c, 's) res" where
  "of_option x s = (case x of None \<Rightarrow> Hang | Some y \<Rightarrow> Ok y s)"

lemma of_option_simps [simp]: "of_option (Some y) s = Ok y s" "of_option None s = Hang"
  by (simp_all add: of_option_def)

text \<open>The bytes of a C string literal, without the terminating NUL.\<close>

definition bytes_of :: "string \<Rightarrow> u8 list" where
  "bytes_of cs = map of_char cs"

text \<open>An assertion that holds in the state after every step of a loop over a list.\<close>

lemma each_res_inv:
  assumes "I [] s" "\<And>ys x zs s. xs = ys @ x # zs \<Longrightarrow> I ys s \<Longrightarrow> \<exists>s'. f x s = Ok () s' \<and> I (ys @ [x]) s'"
  shows "\<exists>s'. each_res f xs s = Ok () s' \<and> I xs s'"
  using assms
proof (induction xs arbitrary: s I)
  case (Cons x xs)
  from Cons.prems(2) [of "[]" x xs s] Cons.prems(1) obtain s1 where s1: "f x s = Ok () s1" "I [x] s1"
    by auto
  have "\<exists>s'. each_res f xs s1 = Ok () s' \<and> I (x # xs) s'"
    using s1(2) Cons.prems(2) [of "x # ys" for ys] by (intro Cons.IH) auto
  with s1 show ?case by auto
qed auto

lemma each_res_upto:
  assumes "I 0 s" "\<And>i s. i < n \<Longrightarrow> I i s \<Longrightarrow> \<exists>s'. f i s = Ok () s' \<and> I (Suc i) s'"
  shows "\<exists>s'. each_res f [0..<n] s = Ok () s' \<and> I n s'"
proof -
  have "\<exists>s'. each_res f [0..<n] s = Ok () s' \<and> I (length [0..<n]) s'"
  proof (rule each_res_inv [where I = "\<lambda>ys. I (length ys)"])
    fix ys x zs s assume e: "[0..<n] = ys @ x # zs" and I: "I (length ys) s"
    have n: "length ys < n" using arg_cong [OF e, of length] by simp
    have "[0..<n] ! length ys = x" by (simp add: e)
    with n have "x = length ys" by simp
    then show "\<exists>s'. f x s = Ok () s' \<and> I (length (ys @ [x])) s'" using assms(2) [OF n I] by simp
  qed (use assms(1) in simp)
  then show ?thesis by simp
qed

section \<open>Collections of rewrite rules\<close>

named_theorems c_defs \<open>constants of the C headers\<close>
named_theorems frame \<open>fields an operation leaves alone\<close>

section \<open>Word arithmetic without wrap-around\<close>

lemma unat_bound: "unat (x :: 'a::len word) < 2 ^ LENGTH('a)"
  by (rule unsigned_less)

lemma sint_small: "n < 2 ^ 31 \<Longrightarrow> sint (of_nat n :: u32) = int n"
  by (simp add: signed_of_nat signed_take_bit_int_eq_self)

lemma sint_nonneg:
  assumes "0 \<le> sint (x :: u32)"
  shows "int (unat x) = sint x" "unat x < 2 ^ 31"
proof -
  have b: "sint x < 2 ^ 31" using sint_less [of x] by simp
  have "uint x = uint (of_int (sint x) :: u32)" by simp
  also have "\<dots> = sint x mod 2 ^ 32" by (simp only: uint_word_of_int) simp
  also have "\<dots> = sint x" using assms b by simp
  finally show e: "int (unat x) = sint x" by simp
  then have "int (unat x) < int (2 ^ 31)" using b by simp
  then show "unat x < 2 ^ 31" by (simp only: of_nat_less_iff)
qed

lemma unat_add_no_wrap:
  "unat a + unat b < 2 ^ LENGTH('a) \<Longrightarrow> unat (a + b :: 'a::len word) = unat a + unat b"
  by (simp add: unat_plus_if')

lemma unat_Suc_less: "(i :: 'a::len word) < n \<Longrightarrow> unat (i + 1) = Suc (unat i)"
proof -
  assume "i < n"
  then have "Suc (unat i) < 2 ^ LENGTH('a)"
    using unat_bound [of n] unfolding word_less_nat_alt by linarith
  then show ?thesis by (simp add: unat_word_ariths)
qed

lemma unat_sub_le: "(b :: 'a::len word) \<le> a \<Longrightarrow> unat (a - b) = unat a - unat b"
  by (rule unat_sub)

lemma unat_ucast_up:
  assumes "LENGTH('a) \<le> LENGTH('b)"
  shows "unat (ucast (x :: 'a::len word) :: 'b::len word) = unat x"
proof -
  have "unat x < 2 ^ LENGTH('b)"
    using unat_bound [of x] assms by (meson less_le_trans one_le_numeral power_increasing)
  then show ?thesis by (simp add: unsigned_ucast_eq take_bit_nat_eq_self)
qed

section \<open>Little-endian encodings\<close>

fun to_le :: "nat \<Rightarrow> 'a::len word \<Rightarrow> u8 list" where
  "to_le 0 w = []"
| "to_le (Suc n) w = ucast w # to_le n (drop_bit 8 w)"

fun from_le :: "u8 list \<Rightarrow> 'a::len word" where
  "from_le [] = 0"
| "from_le (b # bs) = ucast b OR push_bit 8 (from_le bs)"

lemma length_to_le [simp]: "length (to_le n w) = n"
  by (induction n w rule: to_le.induct) auto

lemma nth_to_le: "i < n \<Longrightarrow> to_le n w ! i = ucast (drop_bit (8 * i) w)"
proof (induction n w arbitrary: i rule: to_le.induct)
  case (1 w)
  then show ?case by simp
next
  case (2 n w)
  then show ?case
    by (cases i) (auto simp: drop_bit_drop_bit add.commute)
qed

lemma bit_from_le:
  "bit (from_le bs :: 'a::len word) k \<longleftrightarrow>
     k < LENGTH('a) \<and> k div 8 < length bs \<and> bit (bs ! (k div 8)) (k mod 8)"
proof (induction bs arbitrary: k)
  case Nil
  then show ?case by simp
next
  case (Cons b bs)
  show ?case
  proof (cases "k < 8")
    case True
    then show ?thesis
      by (auto simp: bit_simps)
  next
    case False
    then obtain j where j: "k = j + 8" by (metis add.commute le_Suc_ex not_less)
    have "\<not> bit (ucast b :: 'a word) k" using False by (auto simp: bit_simps dest: bit_imp_le_length)
    moreover have "(j + 8) div 8 = Suc (j div 8)" by simp
    ultimately show ?thesis
      by (auto simp: bit_or_iff bit_push_bit_iff Cons j dest: bit_imp_le_length)
  qed
qed

lemma bit_to_le: "i < n \<Longrightarrow> bit (to_le n w ! i) k \<longleftrightarrow> k < 8 \<and> bit w (8 * i + k)"
  by (auto simp: nth_to_le bit_simps add.commute)

lemma from_le_to_le:
  assumes "LENGTH('a) = 8 * n"
  shows "from_le (to_le n (w :: 'a::len word)) = w"
proof (rule bit_word_eqI)
  fix k assume k: "k < LENGTH('a)"
  then have "k div 8 < n" using assms by auto
  with k show "bit (from_le (to_le n w) :: 'a word) k = bit w k"
    by (simp add: bit_from_le bit_to_le)
qed

lemma to_le_from_le:
  assumes "8 * length bs \<le> LENGTH('a)"
  shows "to_le (length bs) (from_le bs :: 'a::len word) = bs"
proof (rule nth_equalityI)
  fix i assume i: "i < length (to_le (length bs) (from_le bs :: 'a word))"
  show "to_le (length bs) (from_le bs :: 'a word) ! i = bs ! i"
  proof (rule bit_word_eqI)
    fix k :: nat assume "k < LENGTH(8)"
    then show "bit (to_le (length bs) (from_le bs :: 'a word) ! i) k = bit (bs ! i) k"
      using i assms by (simp add: bit_to_le bit_from_le)
  qed
qed simp

section \<open>Addresses\<close>

text \<open>Modular distance from a base: the offset of \<open>x\<close> in the object at \<open>a\<close>.\<close>

definition off_in :: "u64 \<Rightarrow> u64 \<Rightarrow> nat" where
  "off_in a x = unat (x - a)"

lemma off_in_add [simp]: "i < 2 ^ 64 \<Longrightarrow> off_in a (a + of_nat i) = i"
  by (simp add: off_in_def unat_of_nat)

lemma off_in_self [simp]: "off_in a a = 0"
  by (simp add: off_in_def)

lemma off_in_eq_0 [simp]: "off_in a x = 0 \<longleftrightarrow> x = a"
  by (simp add: off_in_def unat_eq_0)

lemma off_in_less: "off_in a x < 2 ^ 64"
  using unat_bound [of "x - a"] by (simp add: off_in_def)

lemma off_in_shift: "off_in (a + 1) x = (if x = a then 2 ^ 64 - 1 else off_in a x - 1)"
proof (cases "x = a")
  case True
  then show ?thesis by (simp add: off_in_def unsigned_minus_1_eq_mask mask_eq_exp_minus_1)
next
  case False
  then have "unat (x - a - 1) = unat (x - a) - 1" by (intro unat_minus_one) simp
  with False show ?thesis by (simp add: off_in_def diff_diff_eq)
qed

lemma add_off_in [simp]: "a + of_nat (off_in a x) = x"
  by (simp add: off_in_def)

lemma off_in_iff: "i < 2 ^ 64 \<Longrightarrow> off_in a x = i \<longleftrightarrow> x = a + of_nat i"
  by (metis add_off_in off_in_add)

lemma off_in_trans:
  assumes "off_in a b + off_in b x < 2 ^ 64"
  shows "off_in a x = off_in a b + off_in b x"
proof -
  have "x - a = (b - a) + (x - b)" by simp
  then have "off_in a x = unat ((b - a) + (x - b))" by (simp only: off_in_def)
  also have "\<dots> = off_in a b + off_in b x"
    using assms unat_add_no_wrap [of "b - a" "x - b"] by (simp add: off_in_def)
  finally show ?thesis .
qed

text \<open>\<open>rd m a n\<close>: the \<open>n\<close> bytes at \<open>a\<close>; \<open>wr m a bs\<close>: memory with \<open>bs\<close> stored at \<open>a\<close>.\<close>

definition rd :: "memory \<Rightarrow> u64 \<Rightarrow> nat \<Rightarrow> u8 list" where
  "rd m a n = map (\<lambda>i. m (a + of_nat i)) [0..<n]"

definition wr :: "memory \<Rightarrow> u64 \<Rightarrow> u8 list \<Rightarrow> memory" where
  "wr m a bs = (\<lambda>x. if off_in a x < length bs then bs ! off_in a x else m x)"

lemma length_rd [simp]: "length (rd m a n) = n"
  by (simp add: rd_def)

lemma rd_0 [simp]: "rd m a 0 = []"
  by (simp add: rd_def)

lemma nth_rd [simp]: "i < n \<Longrightarrow> rd m a n ! i = m (a + of_nat i)"
  by (simp add: rd_def)

lemma wr_apply_in: "off_in a x < length bs \<Longrightarrow> wr m a bs x = bs ! off_in a x"
  by (simp add: wr_def)

lemma wr_apply_out: "length bs \<le> off_in a x \<Longrightarrow> wr m a bs x = m x"
  by (simp add: wr_def)

lemma wr_Nil [simp]: "wr m a [] = m"
  by (simp add: wr_def)

lemma rd_wr_same: "length bs \<le> 2 ^ 64 \<Longrightarrow> rd (wr m a bs) a (length bs) = bs"
  by (rule nth_equalityI) (auto simp: wr_def)

lemma rd_cong: "(\<And>i. i < n \<Longrightarrow> m (a + of_nat i) = m' (a + of_nat i)) \<Longrightarrow> rd m a n = rd m' a n"
  by (simp add: rd_def)

text \<open>64-bit loads and stores of the little-endian machine.\<close>

definition load64 :: "memory \<Rightarrow> u64 \<Rightarrow> u64" where
  "load64 m a = from_le (rd m a 8)"

definition store64 :: "memory \<Rightarrow> u64 \<Rightarrow> u64 \<Rightarrow> memory" where
  "store64 m a v = wr m a (to_le 8 v)"

lemma load64_store64_same [simp]: "load64 (store64 m a v) a = v"
  using rd_wr_same [of "to_le 8 v" m a]
  by (simp add: load64_def store64_def from_le_to_le)

text \<open>Alignment to \<open>2 ^ k\<close> bytes: the low \<open>k\<close> bits are zero.\<close>

definition aligned :: "nat \<Rightarrow> u64 \<Rightarrow> bool" where
  "aligned k a \<longleftrightarrow> take_bit k a = 0"

text \<open>The index of the \<open>2 ^ k\<close>-byte slot an address lies in.\<close>

abbreviation slot :: "nat \<Rightarrow> u64 \<Rightarrow> u64" where
  "slot k a \<equiv> drop_bit k a"

lemma aligned_dvd: "k < 64 \<Longrightarrow> aligned k a \<longleftrightarrow> 2 ^ k dvd unat a"
proof -
  have "aligned k a \<longleftrightarrow> unat (take_bit k a) = 0" 
    by (auto simp: aligned_def unat_eq_0)
  also have "unat (take_bit k a) = unat a mod 2 ^ k"
    by (simp only: unsigned_take_bit_eq) (simp add: take_bit_eq_mod)
  finally show ?thesis by (simp add: dvd_eq_mod_eq_0)
qed

lemma unat_slot: "unat (slot k a) = unat a div 2 ^ k"
  by (simp only: unat_drop_bit_eq) (simp add: drop_bit_eq_div)

text \<open>In an aligned slot the modular distance is the plain one, so membership in the object of
  \<open>2 ^ k\<close> bytes at an aligned base is equality of slot indices.\<close>

lemma off_in_aligned:
  assumes "aligned k a" "k < 64"
  shows "off_in a x < 2 ^ k \<longleftrightarrow> slot k x = slot k a"
proof -
  obtain q where q: "unat a = 2 ^ k * q"
    using assms by (auto simp: aligned_dvd)
  have "unat a < 2 ^ 64" "unat x < 2 ^ 64"
    using unsigned_less [of a] unsigned_less [of x] by simp_all
  then have "2 ^ k * q + 2 ^ k \<le> 2 ^ 64"
  proof -
    have "2 ^ k * q < 2 ^ k * 2 ^ (64 - k)"
      using \<open>unat a < 2 ^ 64\<close> q assms(2) by (simp flip: power_add)
    then have "q < 2 ^ (64 - k)" by simp
    then have "2 ^ k * Suc q \<le> 2 ^ k * 2 ^ (64 - k)" by (intro mult_le_mono2) simp
    then show ?thesis using assms(2) by (simp flip: power_add)
  qed
  note top = this
  have eq: "slot k x = slot k a \<longleftrightarrow> 2 ^ k * q \<le> unat x \<and> unat x < 2 ^ k * q + 2 ^ k"
  proof -
    have "slot k x = slot k a \<longleftrightarrow> unat x div 2 ^ k = q"
      by (simp only: word_unat_eq_iff unat_slot q) simp
    also have "\<dots> \<longleftrightarrow> 2 ^ k * q \<le> unat x \<and> unat x < 2 ^ k * q + 2 ^ k"
      using times_div_less_eq_dividend [of "2 ^ k" "unat x"]
        dividend_less_times_div [of "2 ^ k" "unat x"] div_nat_eqI [of "2 ^ k" q "unat x"]
      by auto
    finally show ?thesis .
  qed
  show ?thesis
  proof (cases "unat a \<le> unat x")
    case True
    then have off: "off_in a x = unat x - unat a"
      by (simp add: off_in_def unat_sub word_le_nat_alt)
    then show ?thesis using True q eq by auto
  next
    case False
    then have "off_in a x = unat x + 2 ^ 64 - unat a"
      by (simp add: off_in_def unat_sub_if_size word_size)
    then show ?thesis using False q eq top by auto
  qed
qed

lemma aligned_mono:
  assumes "aligned j a" "k \<le> j"
  shows "aligned k a"
proof -
  have "take_bit k a = take_bit k (take_bit j a)" using assms(2) by (simp add: min_def)
  also have "take_bit j a = 0" using assms(1) by (simp add: aligned_def)
  finally show ?thesis by (simp add: aligned_def)
qed

lemma slot_mono:
  assumes "slot k x = slot k y" "k \<le> j"
  shows "slot j x = slot j y"
proof -
  have "slot j z = slot (j - k) (slot k z)" for z
    using assms(2) by (simp only: drop_bit_drop_bit) simp
  then show ?thesis using assms(1) by metis
qed

lemma aligned_slot_eq:
  assumes "aligned k a" "aligned k b"
  shows "slot k a = slot k b \<longleftrightarrow> a = b"
proof
  have "push_bit k (slot k x) = x" if "aligned k x" for x
    using bits_ident [of k x] that by (simp only: aligned_def add_0_right)
  then show "a = b" if "slot k a = slot k b" using that assms by metis
qed simp

lemma load64_cong:
  assumes "\<And>x. slot 3 x = slot 3 a \<Longrightarrow> m x = m' x" "aligned 3 a"
  shows "load64 m a = load64 m' a"
proof -
  have "m (a + of_nat i) = m' (a + of_nat i)" if "i < 8" for i
  proof (rule assms(1))
    have "off_in a (a + of_nat i) < 2 ^ 3" using that by simp
    then show "slot 3 (a + of_nat i) = slot 3 a"
      using off_in_aligned [OF assms(2)] by (simp del: off_in_add)
  qed
  then have "rd m a 8 = rd m' a 8" by (intro rd_cong)
  then show ?thesis by (simp add: load64_def)
qed

lemma store64_other: "aligned 3 a \<Longrightarrow> slot 3 x \<noteq> slot 3 a \<Longrightarrow> store64 m a v x = m x"
  using off_in_aligned [of 3 a x] by (simp add: store64_def wr_def)

lemma load64_store64_other [simp]:
  "aligned 3 a \<Longrightarrow> aligned 3 b \<Longrightarrow> a \<noteq> b \<Longrightarrow> load64 (store64 m a v) b = load64 m b"
  by (rule load64_cong) (auto simp: store64_other aligned_slot_eq)

section \<open>Bounded quantifiers\<close>

lemma all_less_split:
  fixes len n :: nat
  assumes "n \<le> len"
  shows "(\<forall>i < len. Q i) \<longleftrightarrow> (\<forall>i < n. Q i) \<and> (\<forall>i < len - n. Q (n + i))"
proof (intro iffI conjI allI impI)
  fix i assume "(\<forall>i < n. Q i) \<and> (\<forall>i < len - n. Q (n + i))" "i < len"
  moreover have "i = n + (i - n)" "i - n < len - n" if "\<not> i < n" using that \<open>i < len\<close> by simp_all
  ultimately show "Q i" by metis
qed (use assms in auto)

end
