(* ===== verification/Spinlock.thy ===== *)
theory Spinlock
  imports Prelude
begin

text \<open>
  \<^verbatim>\<open>kernel/spinlock.c\<close> and the part of the machine it touches: the interrupt-enable bit of each
  hart, the per-CPU structure, and the lock words.  \<open>machine\<close> is the bottom layer of the kernel
  state; every later component extends the record, and its operations act on any extension.

  The kernel's spin locks and sleep channels are named by datatypes: two C objects have different
  addresses, so two constructors (or arguments) are different locks or channels.  \<open>Ch_yield\<close> and \<open>Ch_exit\<close>
  are not channels anybody sleeps on: they say that a process left the CPU in \<open>yield\<close> or in \<open>exit\<close>.  The addresses the
  linker script defines (\<open>end\<close>, \<open>etext\<close>, \<open>trampoline\<close>) are fields that no operation writes.
\<close>

section \<open>State\<close>

datatype lockid =
    L_kmem | L_pid | L_wait | L_proc nat | L_ticks | L_pipe u64 | L_bcache | L_buf nat
  | L_log | L_itable | L_inode nat | L_ftable | L_cons | L_uart | L_vdisk | L_pr

datatype chan =
    Ch_proc nat | Ch_ticks | Ch_pipe_read u64 | Ch_pipe_write u64 | Ch_sleeplock lockid
  | Ch_log | Ch_cons | Ch_uart | Ch_disk_free | Ch_buf nat | Ch_yield | Ch_exit

type_synonym ('a, 's) kres = "('a, chan, 's) res"

record spinlock =
  locked :: bool
  lname :: string
  lcpu :: "nat option"

record cpu =
  cproc :: "nat option"
  noff :: int
  intena :: bool

record machine =
  mem :: memory
  tp :: nat
  sie :: "nat \<Rightarrow> bool"
  cpus :: "nat \<Rightarrow> cpu"
  locks :: "lockid \<Rightarrow> spinlock"
  sym_end :: u64
  sym_etext :: u64
  sym_trampoline :: u64

section \<open>Interrupts\<close>

definition intr_get :: "'z machine_scheme \<Rightarrow> bool" where
  "intr_get s = sie s (tp s)"

definition intr_on :: "'z machine_scheme \<Rightarrow> 'z machine_scheme" where
  "intr_on s = s\<lparr>sie := (sie s)(tp s := True)\<rparr>"

definition intr_off :: "'z machine_scheme \<Rightarrow> 'z machine_scheme" where
  "intr_off s = s\<lparr>sie := (sie s)(tp s := False)\<rparr>"

definition mycpu :: "'z machine_scheme \<Rightarrow> cpu" where
  "mycpu s = cpus s (tp s)"

definition set_mycpu :: "cpu \<Rightarrow> 'z machine_scheme \<Rightarrow> 'z machine_scheme" where
  "set_mycpu c s = s\<lparr>cpus := (cpus s)(tp s := c)\<rparr>"

definition push_off :: "'z machine_scheme \<Rightarrow> 'z machine_scheme" where
  "push_off s =
     (let old = intr_get s;
          s = intr_off s;
          s = (if noff (mycpu s) = 0 then set_mycpu ((mycpu s)\<lparr>intena := old\<rparr>) s else s)
      in set_mycpu ((mycpu s)\<lparr>noff := noff (mycpu s) + 1\<rparr>) s)"

definition pop_off :: "'z machine_scheme \<Rightarrow> (unit, 'z machine_scheme) kres" where
  "pop_off s =
     (if intr_get s then Panic ''pop_off - interruptible''
      else if noff (mycpu s) < 1 then Panic ''pop_off''
      else let s = set_mycpu ((mycpu s)\<lparr>noff := noff (mycpu s) - 1\<rparr>) s
           in Ok () (if noff (mycpu s) = 0 \<and> intena (mycpu s) then intr_on s else s))"

section \<open>Locks\<close>

definition set_lock :: "lockid \<Rightarrow> spinlock \<Rightarrow> 'z machine_scheme \<Rightarrow> 'z machine_scheme" where
  "set_lock l k s = s\<lparr>locks := (locks s)(l := k)\<rparr>"

definition initlock :: "lockid \<Rightarrow> string \<Rightarrow> 'z machine_scheme \<Rightarrow> 'z machine_scheme" where
  "initlock l name s = set_lock l \<lparr>locked = False, lname = name, lcpu = None\<rparr> s"

definition holding :: "lockid \<Rightarrow> 'z machine_scheme \<Rightarrow> bool" where
  "holding l s \<longleftrightarrow> locked (locks s l) \<and> lcpu (locks s l) = Some (tp s)"

text \<open>The memory accesses of \<open>acquire\<close> and \<open>release\<close>, one definition each, because other harts run
  between them: the atomic swap, and the stores to \<^verbatim>\<open>lk->cpu\<close> and \<^verbatim>\<open>lk->locked\<close>.\<close>

definition test_and_set :: "lockid \<Rightarrow> 'z machine_scheme \<Rightarrow> bool \<times> 'z machine_scheme" where
  "test_and_set l s = (locked (locks s l), set_lock l ((locks s l)\<lparr>locked := True\<rparr>) s)"

definition set_owner :: "lockid \<Rightarrow> nat option \<Rightarrow> 'z machine_scheme \<Rightarrow> 'z machine_scheme" where
  "set_owner l c s = set_lock l ((locks s l)\<lparr>lcpu := c\<rparr>) s"

definition lock_release :: "lockid \<Rightarrow> 'z machine_scheme \<Rightarrow> 'z machine_scheme" where
  "lock_release l s = set_lock l ((locks s l)\<lparr>locked := False\<rparr>) s"

text \<open>A hart that finds the lock taken spins; nothing it does itself frees the lock, so its
  sequential run hangs there.\<close>

definition acquire :: "lockid \<Rightarrow> 'z machine_scheme \<Rightarrow> (unit, 'z machine_scheme) kres" where
  "acquire l s =
     (let s = push_off s
      in if holding l s then Panic ''acquire''
         else let (old, s) = test_and_set l s
              in if old then Hang else Ok () (set_owner l (Some (tp s)) s))"

definition release :: "lockid \<Rightarrow> 'z machine_scheme \<Rightarrow> (unit, 'z machine_scheme) kres" where
  "release l s =
     (if \<not> holding l s then Panic ''release''
      else pop_off (lock_release l (set_owner l None s)))"

section \<open>Critical sections of one hart\<close>

definition unheld :: "lockid \<Rightarrow> 'z machine_scheme \<Rightarrow> bool" where
  "unheld l s \<longleftrightarrow> \<not> locked (locks s l) \<and> lcpu (locks s l) = None"

text \<open>What \<open>push_off\<close> nesting keeps true: a positive depth means interrupts are off.\<close>

definition cpu_ok :: "'z machine_scheme \<Rightarrow> bool" where
  "cpu_ok s \<longleftrightarrow> 0 \<le> noff (mycpu s) \<and> (0 < noff (mycpu s) \<longrightarrow> \<not> intr_get s)"

text \<open>A matched \<open>push_off\<close>/\<open>pop_off\<close> pair leaves one trace: at depth 0 it has recorded the
  interrupt-enable bit in \<open>intena\<close>.\<close>

definition touch :: "'z machine_scheme \<Rightarrow> 'z machine_scheme" where
  "touch s = (if noff (mycpu s) = 0 then set_mycpu ((mycpu s)\<lparr>intena := intr_get s\<rparr>) s else s)"

definition take_lock :: "lockid \<Rightarrow> 'z machine_scheme \<Rightarrow> 'z machine_scheme" where
  "take_lock l s = set_lock l ((locks s l)\<lparr>locked := True, lcpu := Some (tp s)\<rparr>) (push_off s)"

lemmas lock_defs = set_lock_def set_mycpu_def mycpu_def intr_get_def intr_on_def intr_off_def

lemma push_off_eq:
  "push_off s = s\<lparr>sie := (sie s)(tp s := False),
     cpus := (cpus s)(tp s := (mycpu s)\<lparr>intena := (if noff (mycpu s) = 0 then intr_get s else intena (mycpu s)),
                                      noff := noff (mycpu s) + 1\<rparr>)\<rparr>"
  by (simp add: push_off_def Let_def lock_defs)

lemma touch_simps [simp]:
  "tp (touch s) = tp s" "mem (touch s) = mem s" "locks (touch s) = locks s" "sie (touch s) = sie s"
  "sym_end (touch s) = sym_end s" "sym_etext (touch s) = sym_etext s"
  "sym_trampoline (touch s) = sym_trampoline s"
  "noff (mycpu (touch s)) = noff (mycpu s)" "intr_get (touch s) = intr_get s"
  "cproc (cpus (touch s) i) = cproc (cpus s i)"
  by (simp_all add: touch_def lock_defs)

lemma touch_touch [simp]: "touch (touch s) = touch s"
  by (simp add: touch_def lock_defs)

lemma cpu_ok_touch [simp]: "cpu_ok (touch s) = cpu_ok s"
  by (simp add: cpu_ok_def)

lemma unheld_touch [simp]: "unheld l (touch s) = unheld l s"
  by (simp add: unheld_def)

lemma take_lock_simps [simp]:
  "tp (take_lock l s) = tp s" "mem (take_lock l s) = mem s"
  "sym_end (take_lock l s) = sym_end s" "sym_etext (take_lock l s) = sym_etext s"
  "sym_trampoline (take_lock l s) = sym_trampoline s"
  "cproc (cpus (take_lock l s) i) = cproc (cpus s i)"
  by (simp_all add: take_lock_def push_off_eq lock_defs)

lemma cpu_ok_take_lock [simp]: "cpu_ok s \<Longrightarrow> cpu_ok (take_lock l s)"
  by (simp add: cpu_ok_def take_lock_def push_off_eq lock_defs)

lemma unheld_take_lock [simp]: "k \<noteq> l \<Longrightarrow> unheld k (take_lock l s) = unheld k s"
  by (simp add: unheld_def take_lock_def push_off_eq lock_defs)

lemma holding_take_lock [simp]: "holding l (take_lock l s)"
  by (simp add: holding_def take_lock_def push_off_eq lock_defs)

lemma touch_take_lock [simp]: "cpu_ok s \<Longrightarrow> touch (take_lock l s) = take_lock l s"
  by (simp add: touch_def cpu_ok_def take_lock_def push_off_eq lock_defs)

lemma acquire_Ok [simp]: "unheld l s \<Longrightarrow> acquire l s = Ok () (take_lock l s)"
  by (simp add: acquire_def take_lock_def unheld_def holding_def test_and_set_def set_owner_def
      push_off_eq Let_def lock_defs)

lemma acquire_held: "holding l s \<Longrightarrow> acquire l s = Panic ''acquire''"
  by (simp add: acquire_def holding_def push_off_eq Let_def lock_defs)

lemma acquire_taken:
  "locked (locks s l) \<Longrightarrow> \<not> holding l s \<Longrightarrow> acquire l s = Hang"
  by (simp add: acquire_def holding_def test_and_set_def push_off_eq Let_def lock_defs)

lemma noff_idem: "noff c = n \<Longrightarrow> c\<lparr>intena := x, noff := n\<rparr> = c\<lparr>intena := x\<rparr>" for c :: cpu
  by (cases c) simp

text \<open>Leaving a critical section whose body kept the lock state: the locks, the nesting depth and
  the interrupt bit are those from before it.\<close>

lemma release_Ok:
  assumes "unheld l s" "cpu_ok s"
    and "tp t = tp s" "locks t = locks (take_lock l s)" "cpus t = cpus (take_lock l s)"
      "sie t = sie (take_lock l s)"
  shows "release l t = Ok () (t\<lparr>sie := sie s, cpus := cpus (touch s), locks := locks s\<rparr>)"
proof -
  let ?c = "mycpu s"
  have locks: "lock_release l (set_owner l None t) = t\<lparr>locks := locks s\<rparr>"
  proof -
    have "(locks s l)\<lparr>lcpu := None, locked := False\<rparr> = locks s l"
      using assms(1) by (simp add: unheld_def)
    then show ?thesis
      using assms(4) by (simp add: lock_release_def set_owner_def take_lock_def push_off_eq lock_defs)
  qed
  have cpu: "mycpu t = ?c\<lparr>intena := (if noff ?c = 0 then intr_get s else intena ?c), noff := noff ?c + 1\<rparr>"
    using assms(3,5) by (simp add: take_lock_def push_off_eq lock_defs)
  have sie: "sie t = (sie s)(tp s := False)"
    using assms(6) by (simp add: take_lock_def push_off_eq lock_defs)
  have cpus: "(cpus t)(tp s := c) = (cpus s)(tp s := c)" for c
    using assms(5) by (simp add: take_lock_def push_off_eq lock_defs)
  have "holding l t" using assms(3,4) by (simp add: holding_def take_lock_def push_off_eq lock_defs)
  then have "release l t = pop_off (t\<lparr>locks := locks s\<rparr>)" by (simp add: release_def locks)
  also have "\<dots> = (let u = t\<lparr>locks := locks s, cpus := cpus (touch s)\<rparr> in
      Ok () (if noff ?c = 0 \<and> intr_get s then intr_on u else u))"
    using assms(2) cpu sie cpus assms(3)
    by (cases "noff ?c = 0") (auto simp: pop_off_def cpu_ok_def touch_def lock_defs Let_def noff_idem)
  also have "\<dots> = Ok () (t\<lparr>sie := sie s, cpus := cpus (touch s), locks := locks s\<rparr>)"
  proof (cases "noff ?c = 0 \<and> intr_get s")
    case True
    then have "(sie t)(tp t := True) = sie s" using sie assms(3) by (auto simp: intr_get_def fun_eq_iff)
    then show ?thesis using True by (simp add: Let_def intr_on_def)
  next
    case False
    then have "\<not> intr_get s" using assms(2) by (auto simp: cpu_ok_def)
    then have "sie t = sie s" using sie by (auto simp: intr_get_def fun_eq_iff)
    then show ?thesis using False by (auto simp: Let_def)
  qed
  finally show ?thesis .
qed

text \<open>A critical section whose body \<open>f\<close> changes neither the locks nor the CPU state.\<close>

lemma take_lock_eq: "take_lock l s = s\<lparr>sie := sie (take_lock l s), cpus := cpus (take_lock l s), locks := locks (take_lock l s)\<rparr>"
  by (simp add: take_lock_def push_off_eq lock_defs)

lemma touch_eq: "touch s = s\<lparr>cpus := cpus (touch s)\<rparr>"
  by (simp add: touch_def lock_defs)

lemma critical_section:
  assumes "unheld l s" "cpu_ok s"
    and f: "\<And>a b c. f (s\<lparr>sie := a, cpus := b, locks := c\<rparr>) = (f s)\<lparr>sie := a, cpus := b, locks := c\<rparr>"
    and tp: "tp (f s) = tp s"
  shows "release l (f (take_lock l s)) = Ok () (f (touch s))"
proof -
  have eq: "f (take_lock l s) = (f s)\<lparr>sie := sie (take_lock l s), cpus := cpus (take_lock l s), locks := locks (take_lock l s)\<rparr>"
    using f take_lock_eq by metis
  have "release l (f (take_lock l s)) = Ok () ((f s)\<lparr>sie := sie s, cpus := cpus (touch s), locks := locks s\<rparr>)"
    by (subst release_Ok [OF assms(1,2)]) (simp_all add: eq tp)
  also have "(f s)\<lparr>sie := sie s, cpus := cpus (touch s), locks := locks s\<rparr> = f (s\<lparr>cpus := cpus (touch s)\<rparr>)"
    using f [where a = "sie s" and b = "cpus (touch s)" and c = "locks s"] by simp
  finally show ?thesis by (simp flip: touch_eq)
qed


section \<open>Mutual exclusion between harts\<close>

text \<open>
  Where a hart stands in \<open>acquire(l)\<close> / \<open>release(l)\<close> for one lock \<open>l\<close>.  Each step is one memory
  access of the source, run by hart \<open>i\<close> on the shared machine, and any hart may move next.
  \<open>Stopped\<close> is a panic.
\<close>

datatype lock_pc = Outside | Spinning | Swapped | Inside | Disowned | Stopped

definition on_hart :: "nat \<Rightarrow> machine \<Rightarrow> machine" where
  "on_hart i s = s\<lparr>tp := i\<rparr>"

inductive hart_step :: "lockid \<Rightarrow> machine \<times> (nat \<Rightarrow> lock_pc) \<Rightarrow> machine \<times> (nat \<Rightarrow> lock_pc) \<Rightarrow> bool"
  for l where
  enter: "\<lbrakk>pc i = Outside; s' = push_off (on_hart i s)\<rbrakk> \<Longrightarrow>
     hart_step l (s, pc) (s', pc(i := if holding l s' then Stopped else Spinning))"
| swap: "\<lbrakk>pc i = Spinning; test_and_set l (on_hart i s) = (old, s')\<rbrakk> \<Longrightarrow>
     hart_step l (s, pc) (s', pc(i := if old then Spinning else Swapped))"
| own: "pc i = Swapped \<Longrightarrow>
     hart_step l (s, pc) (set_owner l (Some i) (on_hart i s), pc(i := Inside))"
| leave: "\<lbrakk>pc i = Inside; holding l (on_hart i s)\<rbrakk> \<Longrightarrow>
     hart_step l (s, pc) (set_owner l None (on_hart i s), pc(i := Disowned))"
| leave_panic: "\<lbrakk>pc i = Inside; \<not> holding l (on_hart i s)\<rbrakk> \<Longrightarrow>
     hart_step l (s, pc) (s, pc(i := Stopped))"
| unlock: "\<lbrakk>pc i = Disowned; pop_off (lock_release l (on_hart i s)) = Ok () s'\<rbrakk> \<Longrightarrow>
     hart_step l (s, pc) (s', pc(i := Outside))"
| unlock_panic: "\<lbrakk>pc i = Disowned; pop_off (lock_release l (on_hart i s)) = Panic m\<rbrakk> \<Longrightarrow>
     hart_step l (s, pc) (s, pc(i := Stopped))"

definition owns :: "lock_pc \<Rightarrow> bool" where
  "owns p \<longleftrightarrow> p \<in> {Swapped, Inside, Disowned}"

text \<open>The invariant: one optional owner \<open>h\<close> explains the lock word and the harts' positions, no
  hart has panicked, and a hart that is not outside has interrupts off.\<close>

definition own_inv :: "lockid \<Rightarrow> nat option \<Rightarrow> machine \<Rightarrow> (nat \<Rightarrow> lock_pc) \<Rightarrow> bool" where
  "own_inv l h s pc \<longleftrightarrow>
     (\<forall>i. owns (pc i) \<longleftrightarrow> h = Some i) \<and> (locked (locks s l) \<longleftrightarrow> h \<noteq> None)
   \<and> (\<forall>i. lcpu (locks s l) = Some i \<longleftrightarrow> pc i = Inside)"

definition cpu_inv :: "machine \<Rightarrow> (nat \<Rightarrow> lock_pc) \<Rightarrow> bool" where
  "cpu_inv s pc \<longleftrightarrow> (\<forall>i. pc i \<noteq> Stopped \<and> 0 \<le> noff (cpus s i)
     \<and> (pc i \<noteq> Outside \<longrightarrow> 0 < noff (cpus s i)) \<and> (0 < noff (cpus s i) \<longrightarrow> \<not> sie s i))"

lemma owns_simps [simp]:
  "\<not> owns Outside" "\<not> owns Spinning" "owns Swapped" "owns Inside" "owns Disowned" "\<not> owns Stopped"
  by (simp_all add: owns_def)

lemma own_invD:
  assumes "own_inv l h s pc"
  shows "owns (pc i) \<longleftrightarrow> h = Some i" "locked (locks s l) \<longleftrightarrow> h \<noteq> None"
    "lcpu (locks s l) = Some i \<longleftrightarrow> pc i = Inside"
  using assms by (auto simp: own_inv_def)

lemma hart_step_inv:
  assumes "hart_step l (s, pc) (s', pc')" "own_inv l h s pc" "cpu_inv s pc"
  shows "\<exists>h'. own_inv l h' s' pc' \<and> cpu_inv s' pc'"
  using assms(1)
proof (cases rule: hart_step.cases)
  case (enter i)
  then have "\<not> holding l s'"
    using own_invD(1,3) [OF assms(2), of i] own_invD(2) [OF assms(2)] by (auto simp: holding_def push_off_eq on_hart_def)
  then have "own_inv l h s' pc'" 
    using enter assms(2) own_invD(1) [OF assms(2), of i] unfolding own_inv_def by (auto simp: push_off_eq on_hart_def)
  moreover have "cpu_inv s' pc'"
    using enter assms(3) \<open>\<not> holding l s'\<close> by (auto simp: cpu_inv_def push_off_eq on_hart_def mycpu_def add_nonneg_pos)
  ultimately show ?thesis by blast
next
  case (swap i old)
  have c: "cpu_inv s' pc'"
    using swap assms(3) by (auto simp: cpu_inv_def test_and_set_def on_hart_def lock_defs)
  show ?thesis
  proof (cases h)
    case None
    then have "own_inv l (Some i) s' pc'"
      using swap assms(2) own_invD(1) [OF assms(2), of i] unfolding own_inv_def by (auto simp: test_and_set_def on_hart_def lock_defs)
    with c show ?thesis by blast
  next
    case (Some j)
    then have "own_inv l (Some j) s' pc'"
      using swap assms(2) own_invD(1) [OF assms(2), of i] unfolding own_inv_def by (auto simp: test_and_set_def on_hart_def lock_defs)
    with c show ?thesis by blast
  qed
next
  case (own i)
  have "h = Some i" using own own_invD(1) [OF assms(2), of i] by simp
  then have "own_inv l h s' pc'"
    using own assms(2) own_invD(1) [OF assms(2), of i] unfolding own_inv_def by (auto simp: set_owner_def on_hart_def lock_defs)
  moreover have "cpu_inv s' pc'"
    using own assms(3) by (auto simp: cpu_inv_def set_owner_def on_hart_def lock_defs)
  ultimately show ?thesis by blast
next
  case (leave i)
  have "h = Some i" using leave own_invD(1) [OF assms(2), of i] by simp
  then have "own_inv l h s' pc'"
    using leave assms(2) own_invD(1) [OF assms(2), of i] unfolding own_inv_def by (auto simp: set_owner_def on_hart_def lock_defs)
  moreover have "cpu_inv s' pc'"
    using leave assms(3) by (auto simp: cpu_inv_def set_owner_def on_hart_def lock_defs)
  ultimately show ?thesis by blast
next
  case (leave_panic i)
  then have False
    using own_invD(1,3) [OF assms(2), of i] own_invD(2) [OF assms(2)] by (auto simp: holding_def on_hart_def)
  then show ?thesis ..
next
  case (unlock i)
  have h: "h = Some i" using unlock own_invD(1) [OF assms(2), of i] by simp
  have s': "locks s' = (locks s)(l := (locks s l)\<lparr>locked := False\<rparr>)"
     "cpus s' = (cpus s)(i := (cpus s i)\<lparr>noff := noff (cpus s i) - 1\<rparr>)"
     "\<forall>j. j \<noteq> i \<longrightarrow> sie s' j = sie s j" "sie s' i \<longrightarrow> noff (cpus s i) = 1"
    using unlock(3) by (auto simp: pop_off_def lock_release_def on_hart_def lock_defs Let_def split: if_splits)
  have "own_inv l None s' pc'"
    using unlock(1,2) assms(2) h own_invD(1) [OF assms(2), of i] unfolding own_inv_def by (auto simp: s')
  moreover have "cpu_inv s' pc'"
    using unlock(1,2) assms(3) s'(3,4) by (auto simp: cpu_inv_def s'(2))
  ultimately show ?thesis by blast
next
  case (unlock_panic i m)
  then have False
    using assms(3) [unfolded cpu_inv_def, THEN spec, of i]
    by (auto simp: lock_release_def pop_off_def on_hart_def lock_defs Let_def split: if_splits)
  then show ?thesis ..
qed

definition lock_start :: "lockid \<Rightarrow> machine \<times> (nat \<Rightarrow> lock_pc) \<Rightarrow> bool" where
  "lock_start l = (\<lambda>(s, pc). unheld l s \<and> (\<forall>i. pc i = Outside) \<and> cpu_inv s pc)"

lemma hart_steps_inv:
  assumes "(hart_step l)\<^sup>*\<^sup>* a b" "lock_start l a"
  shows "\<exists>h. own_inv l h (fst b) (snd b) \<and> cpu_inv (fst b) (snd b)"
  using assms
proof (induction rule: rtranclp_induct)
  case base
  then have "own_inv l None (fst a) (snd a)" "cpu_inv (fst a) (snd a)"
    by (auto simp: lock_start_def own_inv_def unheld_def split: prod.splits)
  then show ?case by blast
next
  case (step b c)
  then show ?case using hart_step_inv [of l "fst b" "snd b" "fst c" "snd c"] by auto
qed

text \<open>\<open>acquire\<close> and \<open>release\<close>, run by one hart without interference, are runs of these steps.\<close>

lemma acquire_steps:
  assumes "acquire l (on_hart i s) = Ok () s'" "pc i = Outside"
  shows "(hart_step l)\<^sup>*\<^sup>* (s, pc) (s', pc(i := Inside))"
proof -
  let ?s1 = "push_off (on_hart i s)"
  have tp: "tp ?s1 = i" by (simp add: push_off_eq on_hart_def)
  have nh: "\<not> holding l ?s1" and nl: "\<not> locked (locks ?s1 l)"
    and s': "s' = set_owner l (Some i) (snd (test_and_set l ?s1))"
    using assms(1) tp by (auto simp: acquire_def Let_def test_and_set_def set_owner_def lock_defs split: if_splits)
  have idem: "on_hart i ?s1 = ?s1" "on_hart i (snd (test_and_set l ?s1)) = snd (test_and_set l ?s1)"
    using tp by (simp_all add: on_hart_def test_and_set_def lock_defs push_off_eq)
  have 1: "hart_step l (s, pc) (?s1, pc(i := Spinning))"
    using hart_step.enter [of pc i ?s1 s l] assms(2) nh by simp
  have 2: "hart_step l (?s1, pc(i := Spinning)) (snd (test_and_set l ?s1), pc(i := Swapped))"
    using hart_step.swap [of "pc(i := Spinning)" i l ?s1 False "snd (test_and_set l ?s1)"] nl idem(1)
    by (simp add: test_and_set_def)
  have 3: "hart_step l (snd (test_and_set l ?s1), pc(i := Swapped)) (s', pc(i := Inside))"
    using hart_step.own [of "pc(i := Swapped)" i l "snd (test_and_set l ?s1)"] idem(2) s' by simp
  from 1 2 3 show ?thesis by (meson converse_rtranclp_into_rtranclp rtranclp.rtrancl_refl)
qed

lemma release_steps:
  assumes "release l (on_hart i s) = Ok () s'" "pc i = Inside"
  shows "(hart_step l)\<^sup>*\<^sup>* (s, pc) (s', pc(i := Outside))"
proof -
  let ?s1 = "set_owner l None (on_hart i s)"
  have h: "holding l (on_hart i s)" and p: "pop_off (lock_release l ?s1) = Ok () s'"
    using assms(1) by (auto simp: release_def split: if_splits)
  have idem: "on_hart i ?s1 = ?s1" by (simp add: on_hart_def set_owner_def lock_defs)
  have 1: "hart_step l (s, pc) (?s1, pc(i := Disowned))"
    using hart_step.leave [of pc i l s] assms(2) h by simp
  have 2: "hart_step l (?s1, pc(i := Disowned)) (s', pc(i := Outside))"
    using hart_step.unlock [of "pc(i := Disowned)" i l ?s1 s'] p idem by simp
  from 1 2 show ?thesis by (meson converse_rtranclp_into_rtranclp rtranclp.rtrancl_refl)
qed

text \<open>C3: Mutual exclusion of \<open>acquire\<close>/\<open>release\<close> on any number of harts.  From a state where
  the lock is free and no hart is in it, however the harts' memory accesses interleave, at most one
  hart is between its successful swap and its release store, \<open>holding\<close> is true on exactly the hart
  inside, and neither the panics of \<open>acquire\<close> and \<open>release\<close> nor those of \<open>pop_off\<close> are reached.\<close>

theorem spinlock_mutual_exclusion:
  assumes "lock_start l (s\<^sub>0, pc\<^sub>0)" "(hart_step l)\<^sup>*\<^sup>* (s\<^sub>0, pc\<^sub>0) (s, pc)"
  shows "(owns (pc i) \<longrightarrow> owns (pc j) \<longrightarrow> i = j)
    \<and> (holding l (on_hart i s) \<longleftrightarrow> pc i = Inside) \<and> pc i \<noteq> Stopped"
proof -
  obtain h where h: "own_inv l h s pc" "cpu_inv s pc"
    using hart_steps_inv [OF assms(2,1)] by auto
  have "holding l (on_hart i s) \<longleftrightarrow> pc i = Inside"
    using own_invD(1,3) [OF h(1), of i] own_invD(2) [OF h(1)] by (auto simp: holding_def on_hart_def)
  then show ?thesis
    using own_invD(1) [OF h(1), of i] own_invD(1) [OF h(1), of j] h(2) by (auto simp: cpu_inv_def)
qed

definition idle_machine :: machine where
  "idle_machine = \<lparr>mem = (\<lambda>_. 0), tp = 0, sie = (\<lambda>_. True), cpus = (\<lambda>_. \<lparr>cproc = None, noff = 0, intena = False\<rparr>),
     locks = (\<lambda>_. \<lparr>locked = False, lname = ''lock'', lcpu = None\<rparr>), sym_end = 0x80022000, sym_etext = 0x80008000,
     sym_trampoline = 0x80007000\<rparr>"

lemma idle_machine_start:
  "lock_start l (idle_machine, \<lambda>_. Outside)" "unheld l idle_machine" "on_hart 0 idle_machine = idle_machine"
  by (simp_all add: lock_start_def unheld_def cpu_inv_def idle_machine_def on_hart_def)

theorem spinlock_mutual_exclusion_witness:
  "holding L_kmem (on_hart 0 (take_lock L_kmem idle_machine))
    \<and> \<not> holding L_kmem (on_hart 1 (take_lock L_kmem idle_machine))"
proof -
  have "(hart_step L_kmem)\<^sup>*\<^sup>* (idle_machine, \<lambda>_. Outside)
          (take_lock L_kmem idle_machine, (\<lambda>_. Outside)(0 := Inside))"
    by (rule acquire_steps) (simp_all add: idle_machine_start)
  from spinlock_mutual_exclusion [OF idle_machine_start(1) this] show ?thesis by simp
qed

end
