(* ===== verification/Riscv.thy ===== *)
theory Riscv
  imports Prelude
begin

text \<open>
  The address and page-table macros of \<^verbatim>\<open>kernel/riscv.h\<close>, \<^verbatim>\<open>kernel/memlayout.h\<close>,
  \<^verbatim>\<open>kernel/param.h\<close> and \<^verbatim>\<open>kernel/fcntl.h\<close>, with the word-level facts the memory components share: rounding to pages, the
  packing of a physical page number and flags into a PTE, and the split of a virtual address into
  its three indices.
\<close>

section \<open>Parameters\<close>

definition NPROC :: nat where [c_defs]: "NPROC = 64"
definition NCPU :: nat where [c_defs]: "NCPU = 8"
definition NOFILE :: nat where [c_defs]: "NOFILE = 16"
definition NFILE :: nat where [c_defs]: "NFILE = 100"
definition NINODE :: nat where [c_defs]: "NINODE = 50"
definition NDEV :: nat where [c_defs]: "NDEV = 10"
definition ROOTDEV :: u32 where [c_defs]: "ROOTDEV = 1"
definition MAXARG :: nat where [c_defs]: "MAXARG = 32"
definition MAXOPBLOCKS :: nat where [c_defs]: "MAXOPBLOCKS = 10"
definition LOGSIZE :: nat where [c_defs]: "LOGSIZE = MAXOPBLOCKS * 3"
definition NBUF :: nat where [c_defs]: "NBUF = MAXOPBLOCKS * 3"
definition FSSIZE :: nat where [c_defs]: "FSSIZE = 2000"
definition MAXPATH :: nat where [c_defs]: "MAXPATH = 128"

section \<open>Open modes\<close>

definition O_RDONLY :: u32 where "O_RDONLY = 0"
definition O_WRONLY :: u32 where "O_WRONLY = 1"
definition O_RDWR :: u32 where "O_RDWR = 2"
definition O_CREATE :: u32 where "O_CREATE = 0x200"
definition O_TRUNC :: u32 where "O_TRUNC = 0x400"

section \<open>Pages\<close>

definition PGSIZE :: u64 where [c_defs]: "PGSIZE = 4096"

definition PGROUNDUP :: "u64 \<Rightarrow> u64" where
  "PGROUNDUP sz = (sz + PGSIZE - 1) AND NOT (PGSIZE - 1)"

definition PGROUNDDOWN :: "u64 \<Rightarrow> u64" where
  "PGROUNDDOWN a = a AND NOT (PGSIZE - 1)"

section \<open>Page-table entries\<close>

definition PTE_V :: u64 where [c_defs]: "PTE_V = 1"
definition PTE_R :: u64 where [c_defs]: "PTE_R = 2"
definition PTE_W :: u64 where [c_defs]: "PTE_W = 4"
definition PTE_X :: u64 where [c_defs]: "PTE_X = 8"
definition PTE_U :: u64 where [c_defs]: "PTE_U = 16"

definition PA2PTE :: "u64 \<Rightarrow> u64" where
  "PA2PTE pa = push_bit 10 (drop_bit 12 pa)"

definition PTE2PA :: "u64 \<Rightarrow> u64" where
  "PTE2PA pte = push_bit 12 (drop_bit 10 pte)"

definition PTE_FLAGS :: "u64 \<Rightarrow> u64" where
  "PTE_FLAGS pte = pte AND 0x3FF"

definition PXSHIFT :: "nat \<Rightarrow> nat" where
  "PXSHIFT level = 12 + 9 * level"

definition PX :: "nat \<Rightarrow> u64 \<Rightarrow> u64" where
  "PX level va = drop_bit (PXSHIFT level) va AND 0x1FF"

definition MAXVA :: u64 where [c_defs]: "MAXVA = push_bit (9 + 9 + 9 + 12 - 1) 1"

definition MAKE_SATP :: "u64 \<Rightarrow> u64" where
  "MAKE_SATP pagetable = push_bit 60 8 OR drop_bit 12 pagetable"

section \<open>Memory layout\<close>

definition UART0 :: u64 where [c_defs]: "UART0 = 0x10000000"
definition VIRTIO0 :: u64 where [c_defs]: "VIRTIO0 = 0x10001000"
definition CLINT :: u64 where [c_defs]: "CLINT = 0x2000000"
definition PLIC :: u64 where [c_defs]: "PLIC = 0x0c000000"
definition KERNBASE :: u64 where [c_defs]: "KERNBASE = 0x80000000"
definition PHYSTOP :: u64 where [c_defs]: "PHYSTOP = KERNBASE + 128 * 1024 * 1024"
definition TRAMPOLINE :: u64 where [c_defs]: "TRAMPOLINE = MAXVA - PGSIZE"
definition TRAPFRAME :: u64 where [c_defs]: "TRAPFRAME = TRAMPOLINE - PGSIZE"

definition KSTACK :: "nat \<Rightarrow> u64" where
  "KSTACK p = TRAMPOLINE - (of_nat p + 1) * 2 * PGSIZE"

section \<open>Rounding\<close>

lemma PGSIZE_mask: "PGSIZE - 1 = mask 12"
  by (simp add: PGSIZE_def mask_eq_exp_minus_1)

lemma PGROUNDDOWN_eq: "PGROUNDDOWN a = push_bit 12 (drop_bit 12 a)"
  unfolding PGROUNDDOWN_def PGSIZE_mask
  by (rule bit_word_eqI) (auto simp: bit_simps)

lemma aligned_push_bit [simp]: "aligned 12 (push_bit 12 x)"
  by (simp add: aligned_def take_bit_push_bit)

lemma aligned_PGROUNDDOWN [simp]: "aligned 12 (PGROUNDDOWN a)"
  by (simp add: PGROUNDDOWN_eq)

lemma PGROUNDUP_eq: "PGROUNDUP a = PGROUNDDOWN (a + 4095)"
  by (simp add: PGROUNDUP_def PGROUNDDOWN_def PGSIZE_def add.commute)

lemma aligned_PGROUNDUP [simp]: "aligned 12 (PGROUNDUP a)"
  by (simp add: PGROUNDUP_eq)

lemma unat_PGROUNDDOWN: "unat (PGROUNDDOWN a) = unat a div 4096 * 4096"
proof -
  have "unat (PGROUNDDOWN a) = take_bit 64 (unat a div 4096 * 4096)"
    by (simp only: PGROUNDDOWN_eq unsigned_push_bit_eq unat_drop_bit_eq)
      (simp add: push_bit_eq_mult drop_bit_eq_div)
  also have "\<dots> = unat a div 4096 * 4096"
    using unat_bound [of a] by (intro take_bit_nat_eq_self) (simp add: div_times_less_eq_dividend order_le_less_trans)
  finally show ?thesis .
qed

lemma unat_PGROUNDUP:
  "unat a + 4095 < 2 ^ 64 \<Longrightarrow> unat (PGROUNDUP a) = (unat a + 4095) div 4096 * 4096"
  by (simp add: PGROUNDUP_eq unat_PGROUNDDOWN unat_add_no_wrap)

lemma PGROUNDDOWN_le: "PGROUNDDOWN a \<le> a"
  by (simp add: word_le_nat_alt unat_PGROUNDDOWN)

lemma PGROUNDUP_ge: "unat a + 4095 < 2 ^ 64 \<Longrightarrow> a \<le> PGROUNDUP a"
  by (simp add: word_le_nat_alt unat_PGROUNDUP)

lemma PGROUNDUP_le_iff:
  assumes "unat a + 4095 < 2 ^ 64" "aligned 12 q"
  shows "PGROUNDUP a \<le> q \<longleftrightarrow> a \<le> q"
proof -
  obtain k where k: "unat q = 4096 * k" using assms(2) by (auto simp: aligned_dvd)
  have "(unat a + 4095) div 4096 < Suc k \<longleftrightarrow> unat a + 4095 < Suc k * 4096"
    by (intro div_less_iff_less_mult) simp
  then show ?thesis by (auto simp: word_le_nat_alt unat_PGROUNDUP [OF assms(1)] k)
qed

lemma aligned_iff_mod: "a mod PGSIZE = 0 \<longleftrightarrow> aligned 12 a"
  by (simp add: aligned_def PGSIZE_def take_bit_eq_mod)

lemma PGROUNDDOWN_aligned: "aligned 12 a \<Longrightarrow> PGROUNDDOWN a = a"
  using bits_ident [of 12 a] by (simp add: PGROUNDDOWN_eq aligned_def)

lemma PGROUNDUP_aligned:
  assumes "aligned 12 a"
  shows "PGROUNDUP a = a"
proof -
  obtain q where "unat a = 4096 * q" using assms by (auto simp: aligned_dvd)
  moreover from this have "4096 * q + 4095 < 2 ^ 64" using unat_bound [of a] by simp
  ultimately have "unat (PGROUNDUP a) = unat a" by (simp add: unat_PGROUNDUP)
  then show ?thesis by (simp only: word_unat_eq_iff)
qed

lemma slot_PGROUNDDOWN: "slot 12 (PGROUNDDOWN a) = slot 12 a"
  unfolding PGROUNDDOWN_eq by (rule bit_word_eqI) (auto simp: bit_simps dest: bit_imp_le_length)

section \<open>Entries\<close>

lemma flag_bits:
  assumes "drop_bit 10 f = 0" "bit (f :: u64) n"
  shows "n < 10"
proof (rule ccontr)
  assume "\<not> n < 10"
  then have "bit (drop_bit 10 f) (n - 10)" using assms(2) by (simp add: bit_simps)
  then show False by (simp add: assms(1))
qed

lemma aligned_bits:
  assumes "aligned k a" "n < k"
  shows "\<not> bit a n"
proof
  assume "bit a n"
  then have "bit (take_bit k a) n" using assms(2) by (simp add: bit_simps)
  then show False using assms(1) by (simp add: aligned_def)
qed

lemma PTE2PA_PA2PTE [simp]:
  assumes "aligned 12 pa" "drop_bit 10 f = 0"
  shows "PTE2PA (PA2PTE pa OR f) = pa"
proof -
  note lo = aligned_bits [OF assms(1)]
  show ?thesis
  proof (rule bit_word_eqI)
    fix n :: nat assume "n < LENGTH(64)"
    then show "bit (PTE2PA (PA2PTE pa OR f)) n = bit pa n"
      using lo [of n] flag_bits [OF assms(2), of "n - 2"]
      by (cases "n < 12") (auto simp: PTE2PA_def PA2PTE_def bit_simps)
  qed
qed

lemma PTE_FLAGS_PA2PTE [simp]:
  assumes "drop_bit 10 f = 0"
  shows "PTE_FLAGS (PA2PTE pa OR f) = f"
proof -
  have m: "(0x3FF :: u64) = mask 10" by (simp add: mask_eq_exp_minus_1)
  show ?thesis
  proof (rule bit_word_eqI)
    fix n :: nat assume "n < LENGTH(64)"
    then show "bit (PTE_FLAGS (PA2PTE pa OR f)) n = bit f n"
      using flag_bits [OF assms, of n] by (auto simp: PTE_FLAGS_def m PA2PTE_def bit_simps)
  qed
qed

text \<open>A flag test on a whole entry is a test on its flag bits.\<close>

lemma PTE_flag_and:
  assumes "drop_bit 10 k = 0"
  shows "pte AND k = PTE_FLAGS pte AND k"
proof (rule bit_word_eqI)
  fix n :: nat
  have m: "(0x3FF :: u64) = mask 10" by (simp add: mask_eq_exp_minus_1)
  show "bit (pte AND k) n = bit (PTE_FLAGS pte AND k) n"
    using flag_bits [OF assms, of n] by (auto simp: PTE_FLAGS_def m bit_simps)
qed

lemma aligned_PTE2PA [simp]: "aligned 12 (PTE2PA pte)"
  by (simp add: PTE2PA_def)

lemma PX_less: "unat (PX l va) < 512"
proof -
  have "PX l va = take_bit 9 (drop_bit (PXSHIFT l) va)"
    by (simp add: PX_def take_bit_eq_mask mask_eq_exp_minus_1)
  then have "unat (PX l va) = take_bit 9 (unat (drop_bit (PXSHIFT l) va))"
    by (simp only: unsigned_take_bit_eq)
  then show ?thesis using take_bit_nat_less_exp [of 9] by simp
qed

text \<open>Two virtual addresses below \<open>MAXVA\<close> with equal indices at every level lie in one page.\<close>

lemma PX_inj:
  assumes "va < MAXVA" "vb < MAXVA" "PX 2 va = PX 2 vb" "PX 1 va = PX 1 vb" "PX 0 va = PX 0 vb"
  shows "slot 12 va = slot 12 vb"
proof -
  have px: "PX l v = take_bit 9 (drop_bit (12 + 9 * l) v)" for l v
    by (simp add: PX_def PXSHIFT_def take_bit_eq_mask mask_eq_exp_minus_1)
  have hi: "\<not> bit v n" if "v < MAXVA" "39 \<le> n" for v :: u64 and n
  proof -
    have "unat v < 2 ^ 39" using that(1) by (simp add: MAXVA_def word_less_nat_alt)
    then have "take_bit 39 (unat v) = unat v" by (rule take_bit_nat_eq_self)
    then have "take_bit 39 v = v" by (metis unsigned_take_bit_eq word_unat_eq_iff)
    then show ?thesis using that(2) by (metis bit_take_bit_iff not_le)
  qed
  have "bit va n = bit vb n" if "12 \<le> n" for n
  proof (cases "39 \<le> n")
    case True
    then show ?thesis using hi assms by blast
  next
    case False
    define l k where "l = (n - 12) div 9" and "k = (n - 12) mod 9"
    have n: "n = 12 + 9 * l + k" "k < 9" using that by (simp_all add: l_def k_def)
    have "l = 0 \<or> l = 1 \<or> l = 2" using False that by (auto simp: l_def)
    then have "PX l va = PX l vb" using assms by auto
    then have "bit (PX l va) k = bit (PX l vb) k" by simp
    then show ?thesis using n by (simp add: px bit_simps)
  qed
  then show ?thesis by (auto intro!: bit_word_eqI simp: bit_simps)
qed

end
