(* ===== verification/Kstring.thy ===== *)
theory Kstring
  imports Prelude
begin

text \<open>
  \<^verbatim>\<open>kernel/string.c\<close>.  \<open>memset\<close> and \<open>memmove\<close> act on byte-addressed memory, so the overlap test of
  \<open>memmove\<close> is the source's pointer comparison.  The string functions take a character buffer as
  the list of its remaining bytes: a pointer increment is the tail, and a read or write past the
  end of the buffer is \<open>None\<close>.  The functions that return their first argument return the new
  memory or buffer here.
\<close>

section \<open>Memory routines\<close>

function memset_loop :: "u64 \<Rightarrow> u32 \<Rightarrow> u32 \<Rightarrow> u32 \<Rightarrow> memory \<Rightarrow> memory" where
  "memset_loop dst c n i m =
     (if i < n then memset_loop dst c n (i + 1) (m(dst + scast i := ucast c)) else m)"
  by pat_completeness auto
termination
proof (relation "measure (\<lambda>(dst, c, n, i, m). unat n - unat i)")
  fix dst c n i m assume "(i :: u32) < n"
  then have "unat (i + 1) = Suc (unat i)" "unat i < unat n"
    by (auto simp: unat_Suc_less word_less_nat_alt)
  then show "((dst, c, n, i + 1, m(dst + scast i := ucast c)), dst, c, n, i, m)
      \<in> measure (\<lambda>(dst, c, n, i, m). unat n - unat i)"
    by simp
qed simp

declare memset_loop.simps [simp del]

definition memset :: "u64 \<Rightarrow> u32 \<Rightarrow> u32 \<Rightarrow> memory \<Rightarrow> memory" where
  "memset dst c n m = memset_loop dst c n 0 m"

fun copy_fwd :: "nat \<Rightarrow> u64 \<Rightarrow> u64 \<Rightarrow> memory \<Rightarrow> memory" where
  "copy_fwd 0 d s m = m"
| "copy_fwd (Suc n) d s m = copy_fwd n (d + 1) (s + 1) (m(d := m s))"

fun copy_bwd :: "nat \<Rightarrow> u64 \<Rightarrow> u64 \<Rightarrow> memory \<Rightarrow> memory" where
  "copy_bwd 0 d s m = m"
| "copy_bwd (Suc n) d s m = copy_bwd n (d - 1) (s - 1) (m(d - 1 := m (s - 1)))"

definition memmove :: "u64 \<Rightarrow> u64 \<Rightarrow> u32 \<Rightarrow> memory \<Rightarrow> memory" where
  "memmove dst src n m =
     (if n = 0 then m
      else if src < dst \<and> src + ucast n > dst
      then copy_bwd (unat n) (dst + ucast n) (src + ucast n) m
      else copy_fwd (unat n) dst src m)"

definition memcpy :: "u64 \<Rightarrow> u64 \<Rightarrow> u32 \<Rightarrow> memory \<Rightarrow> memory" where
  "memcpy dst src n m = memmove dst src n m"

fun memcmp :: "u8 list \<Rightarrow> u8 list \<Rightarrow> nat \<Rightarrow> int option" where
  "memcmp s1 s2 0 = Some 0"
| "memcmp (a # s1) (b # s2) (Suc n) = (if a \<noteq> b then Some (uint a - uint b) else memcmp s1 s2 n)"
| "memcmp s1 s2 (Suc n) = None"

section \<open>String routines\<close>

fun strncmp :: "u8 list \<Rightarrow> u8 list \<Rightarrow> nat \<Rightarrow> int option" where
  "strncmp p q 0 = Some 0"
| "strncmp (a # p) (b # q) (Suc n) =
     (if a \<noteq> 0 \<and> a = b then strncmp p q n else Some (uint a - uint b))"
| "strncmp p q (Suc n) = None"

fun zero_fill :: "u8 list \<Rightarrow> nat \<Rightarrow> u8 list option" where
  "zero_fill s 0 = Some s"
| "zero_fill (x # s) (Suc n) = map_option ((#) 0) (zero_fill s n)"
| "zero_fill [] (Suc n) = None"

fun strncpy_loop :: "u8 list \<Rightarrow> u8 list \<Rightarrow> nat \<Rightarrow> u8 list option" where
  "strncpy_loop s t 0 = Some s"
| "strncpy_loop (x # s) (c # t) (Suc n) =
     map_option ((#) c) (if c \<noteq> 0 then strncpy_loop s t n else zero_fill s n)"
| "strncpy_loop s t (Suc n) = None"

definition strncpy :: "u8 list \<Rightarrow> u8 list \<Rightarrow> int \<Rightarrow> u8 list option" where
  "strncpy s t n = strncpy_loop s t (nat n)"

fun set_nul :: "u8 list \<Rightarrow> u8 list option" where
  "set_nul [] = None"
| "set_nul (x # s) = Some (0 # s)"

fun safestrcpy_loop :: "u8 list \<Rightarrow> u8 list \<Rightarrow> nat \<Rightarrow> u8 list option" where
  "safestrcpy_loop s t 0 = set_nul s"
| "safestrcpy_loop (x # s) (c # t) (Suc n) =
     map_option ((#) c) (if c \<noteq> 0 then safestrcpy_loop s t n else set_nul s)"
| "safestrcpy_loop s t (Suc n) = None"

definition safestrcpy :: "u8 list \<Rightarrow> u8 list \<Rightarrow> int \<Rightarrow> u8 list option" where
  "safestrcpy s t n = (if n \<le> 0 then Some s else safestrcpy_loop s t (nat (n - 1)))"

fun strlen :: "u8 list \<Rightarrow> nat option" where
  "strlen [] = None"
| "strlen (c # s) = (if c = 0 then Some 0 else map_option Suc (strlen s))"

text \<open>The C string a buffer holds: its bytes before the first NUL.\<close>

definition cstr :: "u8 list \<Rightarrow> u8 list" where
  "cstr bs = takeWhile (\<lambda>c. c \<noteq> 0) bs"

lemma cstr_simps [simp]:
  "cstr [] = []" "cstr (c # bs) = (if c = 0 then [] else c # cstr bs)"
  by (simp_all add: cstr_def)

lemma cstr_nul:
  assumes "0 \<in> set bs"
  shows "length (cstr bs) < length bs" "bs ! length (cstr bs) = 0" "\<forall>i < length (cstr bs). bs ! i \<noteq> 0"
    "cstr bs = take (length (cstr bs)) bs"
  using assms
proof (induction bs)
  case (Cons b bs)
  { case 1 with Cons show ?case by auto }
  { case 2 with Cons show ?case by auto }
  { case 3 with Cons show ?case by (auto simp: nth_Cons split: nat.splits) }
  { case 4 with Cons show ?case by auto }
qed simp_all

section \<open>Correctness of the memory routines\<close>

lemma scast_small:
  assumes "unat (i :: u32) < 2 ^ 31"
  shows "(scast i :: u64) = of_nat (unat i)"
proof -
  have "int (unat i) < int (2 ^ 31)" using assms by (simp only: of_nat_less_iff)
  then have "uint i < 2 ^ 31" by simp
  then have "signed_take_bit 31 (uint i) = uint i"
    by (intro signed_take_bit_int_eq_self) (auto intro: order_trans [of _ 0])
  then have "sint i = uint i" by (simp only: sint_uint) simp
  then have "(of_int (sint i) :: u64) = of_int (uint i)" by (rule arg_cong)
  then show ?thesis by simp
qed

lemma memset_loop_apply:
  assumes "i \<le> n" "unat n < 2 ^ 31"
  shows "memset_loop dst c n i m x =
    (if unat i \<le> off_in dst x \<and> off_in dst x < unat n then ucast c else m x)"
  using assms
proof (induction dst c n i m rule: memset_loop.induct)
  case (1 dst c n i m)
  show ?case
  proof (cases "i < n")
    case True
    then have Si: "unat (i + 1) = Suc (unat i)" and lt: "unat i < unat n"
      by (auto simp: unat_Suc_less word_less_nat_alt)
    then have le: "i + 1 \<le> n" by (simp add: word_le_nat_alt)
    from lt have sc: "(scast i :: u64) = of_nat (unat i)"
      using "1.prems"(2) by (intro scast_small) simp
    have at: "off_in dst x = unat i \<longleftrightarrow> x = dst + of_nat (unat i)"
      using lt "1.prems"(2) by (intro off_in_iff) simp
    have "memset_loop dst c n i m x =
        memset_loop dst c n (i + 1) (m(dst + scast i := ucast c)) x"
      using True by (simp add: memset_loop.simps [of dst c n i m])
    also have "\<dots> = (if Suc (unat i) \<le> off_in dst x \<and> off_in dst x < unat n then ucast c
        else (m(dst + scast i := ucast c)) x)"
      by (simp only: "1.IH" [OF True le "1.prems"(2)] Si)
    also have "\<dots> = (if unat i \<le> off_in dst x \<and> off_in dst x < unat n then ucast c else m x)"
      using at lt by (auto simp: sc)
    finally show ?thesis .
  next
    case False
    with "1.prems" have "i = n" by simp
    then show ?thesis by (auto simp: memset_loop.simps [of dst c n n m])
  qed
qed

lemma memset_eq:
  "unat n < 2 ^ 31 \<Longrightarrow> memset dst c n m = wr m dst (replicate (unat n) (ucast c))"
  by (rule ext) (simp add: memset_def memset_loop_apply wr_def)

lemma copy_fwd_apply:
  assumes "d = s \<or> n \<le> off_in s d" "n < 2 ^ 64"
  shows "copy_fwd n d s m x = (if off_in d x < n then m (s + of_nat (off_in d x)) else m x)"
  using assms
proof (induction n arbitrary: d s m)
  case 0
  then show ?case by simp
next
  case (Suc n)
  let ?m = "m(d := m s)"
  have off: "off_in (s + 1) (d + 1) = off_in s d" by (simp add: off_in_def)
  have IH: "copy_fwd (Suc n) d s m x =
      (if off_in (d + 1) x < n then ?m (s + 1 + of_nat (off_in (d + 1) x)) else ?m x)"
    unfolding copy_fwd.simps using Suc.prems by (intro Suc.IH) (auto simp: off)
  show ?case
  proof (cases "x = d")
    case True
    then show ?thesis using IH Suc.prems(2) by (simp add: off_in_shift)
  next
    case False
    then obtain k where k: "off_in d x = Suc k" by (metis off_in_eq_0 not0_implies_Suc)
    have "s + of_nat (Suc k) \<noteq> d" if "k < n"
    proof
      assume "s + of_nat (Suc k) = d"
      then have "off_in s d = Suc k" using that Suc.prems(2) by (auto simp: off_in_iff)
      with Suc.prems(1) that show False by auto
    qed
    with IH False k show ?thesis by (auto simp: off_in_shift add.assoc)
  qed
qed

lemma copy_bwd_apply:
  assumes "d = s \<or> n \<le> off_in d s" "n < 2 ^ 64"
  shows "copy_bwd n (d + of_nat n) (s + of_nat n) m x =
    (if off_in d x < n then m (s + of_nat (off_in d x)) else m x)"
  using assms
proof (induction n arbitrary: m)
  case 0
  then show ?case by simp
next
  case (Suc n)
  let ?m = "m(d + of_nat n := m (s + of_nat n))"
  have IH: "copy_bwd (Suc n) (d + of_nat (Suc n)) (s + of_nat (Suc n)) m x =
      (if off_in d x < n then ?m (s + of_nat (off_in d x)) else ?m x)"
  proof -
    have "d + of_nat (Suc n) - 1 = d + of_nat n" "s + of_nat (Suc n) - 1 = s + of_nat n"
      by simp_all
    then have "copy_bwd (Suc n) (d + of_nat (Suc n)) (s + of_nat (Suc n)) m =
        copy_bwd n (d + of_nat n) (s + of_nat n) ?m"
      by (simp only: copy_bwd.simps)
    moreover have "d = s \<or> n \<le> off_in d s" "n < 2 ^ 64" using Suc.prems by auto
    ultimately show ?thesis by (simp only: Suc.IH)
  qed
  have ne: "s + of_nat j \<noteq> d + of_nat n \<or> d = s" if "j < n" for j
  proof (rule ccontr)
    assume *: "\<not> (s + of_nat j \<noteq> d + of_nat n \<or> d = s)"
    then have "s = d + of_nat (n - j)" using that by (simp add: of_nat_diff algebra_simps)
    then have "off_in d s = n - j" using that Suc.prems(2) by (simp add: off_in_iff)
    with Suc.prems(1) * that show False by auto
  qed
  have at: "off_in d x = n \<longleftrightarrow> x = d + of_nat n"
    using Suc.prems(2) by (intro off_in_iff) simp
  show ?case
    using IH ne [of "off_in d x"] at by (auto simp: less_Suc_eq)
qed

text \<open>\<open>memmove\<close> copies the source bytes as they were before the call, however the two regions overlap.\<close>

lemma memmove_apply:
  assumes "unat src + unat n \<le> 2 ^ 64" "unat dst + unat n \<le> 2 ^ 64"
  shows "memmove dst src n m x =
    (if off_in dst x < unat n then m (src + of_nat (off_in dst x)) else m x)"
proof -
  have n: "unat n < 2 ^ 32" using unat_bound [of n] by simp
  have uc: "(ucast n :: u64) = of_nat (unat n)" by simp
  consider "n = 0" | "n \<noteq> 0" "src < dst \<and> src + ucast n > dst" | "n \<noteq> 0" "\<not> (src < dst \<and> src + ucast n > dst)"
    by blast
  then show ?thesis
  proof cases
    case 1
    then show ?thesis by (simp add: memmove_def)
  next
    case 2
    have "off_in dst src = unat src + 2 ^ 64 - unat dst"
      using 2 by (simp add: off_in_def unat_sub_if' word_less_nat_alt)
    then have "unat n \<le> off_in dst src" using assms by simp
    then show ?thesis
      using 2 n copy_bwd_apply [of dst src "unat n" m x] by (simp add: memmove_def)
  next
    case 3
    have "dst = src \<or> unat n \<le> off_in src dst"
    proof (cases "dst \<le> src")
      case True
      then show ?thesis
        using assms by (auto simp: off_in_def unat_sub_if' word_le_nat_alt word_unat_eq_iff)
    next
      case False
      then have "unat (src + ucast n) = unat src + unat n \<or> unat src + unat n = 2 ^ 64"
        using assms n by (auto simp: unat_plus_if' unat_ucast_up)
      with 3 False assms(2) show ?thesis
        by (auto simp: off_in_def unat_sub_if' word_le_nat_alt word_less_nat_alt)
    qed
    then show ?thesis
      using 3 n copy_fwd_apply [of dst src "unat n" m x] by (auto simp: memmove_def)
  qed
qed


section \<open>Correctness of the string routines\<close>

lemma strlen_iff: "strlen bs = Some n \<longleftrightarrow> 0 \<in> set bs \<and> n = length (cstr bs)"
  by (induction bs arbitrary: n) auto

lemma strncmp_zero_iff:
  assumes "n \<le> length p" "n \<le> length q"
  shows "strncmp p q n = Some 0 \<longleftrightarrow> take n (cstr p) = take n (cstr q)"
  using assms
proof (induction p q n rule: strncmp.induct)
  case (2 a p b q n)
  then show ?case by (auto simp: word_uint_eq_iff [of a b] simp flip: uint_0_iff)
qed auto

lemma strncmp_defined: "n \<le> length p \<Longrightarrow> n \<le> length q \<Longrightarrow> \<exists>r. strncmp p q n = Some r"
  by (induction p q n rule: strncmp.induct) auto

lemma zero_fill_eq: "n \<le> length s \<Longrightarrow> zero_fill s n = Some (replicate n 0 @ drop n s)"
  by (induction s n rule: zero_fill.induct) auto

lemma strncpy_loop_eq:
  assumes "n \<le> length s" "n \<le> length t \<or> 0 \<in> set t"
  shows "strncpy_loop s t n =
    Some (take n (cstr t) @ replicate (n - length (cstr t)) 0 @ drop n s)"
  using assms
  by (induction s t n rule: strncpy_loop.induct) (auto simp: zero_fill_eq)

lemma safestrcpy_loop_eq:
  assumes "n < length s" "n \<le> length t \<or> 0 \<in> set t"
  shows "\<exists>r. safestrcpy_loop s t n = Some r \<and> length r = length s
    \<and> cstr r = take n (cstr t) \<and> 0 \<in> set (take (Suc n) r) \<and> drop (Suc n) r = drop (Suc n) s"
  using assms
proof (induction s t n rule: safestrcpy_loop.induct)
  case (1 s t)
  then show ?case by (cases s) auto
next
  case (2 x s c t n)
  then show ?case by (cases s) auto
qed auto

section \<open>Properties\<close>

text \<open>C24: \<open>memmove(dst, src, n)\<close> leaves at \<open>dst\<close> the \<open>n\<close> bytes that were at \<open>src\<close> before the call and
  changes no other byte, however the two regions overlap, as long as neither region runs past the
  end of the address space.\<close>

theorem memmove_correct:
  assumes "unat src + unat n \<le> 2 ^ 64" "unat dst + unat n \<le> 2 ^ 64"
  shows "memmove dst src n m = wr m dst (rd m src (unat n))"
  by (rule ext) (simp add: memmove_apply [OF assms] wr_def nth_rd)

theorem memmove_correct_witness:
  "rd (memmove 0x1002 0x1000 4 (wr (\<lambda>_. 0) 0x1000 [1, 2, 3, 4])) 0x1002 4 = [1, 2, 3, 4]"
proof -
  let ?m = "wr (\<lambda>_. 0) 0x1000 [1, 2, 3, 4] :: memory"
  have "memmove 0x1002 0x1000 4 ?m = wr ?m 0x1002 (rd ?m 0x1000 4)"
    using memmove_correct [of "0x1000" 4 "0x1002" ?m] by simp
  then show ?thesis by (simp only:) (simp add: rd_def wr_def off_in_def upt_rec)
qed

text \<open>C25: \<open>safestrcpy(s, t, n)\<close> into a buffer of at least \<open>n > 0\<close> bytes stays inside the buffer, leaves
  a NUL among its first \<open>n\<close> bytes, makes it hold the longest prefix of the string \<open>t\<close> that fits, and
  leaves the bytes after the first \<open>n\<close> alone.\<close>

theorem safestrcpy_correct:
  assumes "0 < n" "nat n \<le> length s" "0 \<in> set t"
  shows "\<exists>r. safestrcpy s t n = Some r \<and> length r = length s \<and> cstr r = take (nat n - 1) (cstr t)
    \<and> 0 \<in> set (take (nat n) r) \<and> drop (nat n) r = drop (nat n) s"
  using assms safestrcpy_loop_eq [of "nat (n - 1)" s t] by (auto simp: safestrcpy_def nat_diff_distrib)

theorem safestrcpy_correct_witness:
  "\<exists>r. safestrcpy [9, 9, 9, 9, 9] [104, 101, 108, 108, 111, 0] 4 = Some r \<and> cstr r = [104, 101, 108]
    \<and> drop 4 r = [9]"
  using safestrcpy_correct [of 4 "[9, 9, 9, 9, 9]" "[104, 101, 108, 108, 111, 0]"] by auto

end
