(* ===== verification/Kalloc.thy ===== *)
theory Kalloc
  imports Spinlock Riscv Kstring
begin

text \<open>
  \<^verbatim>\<open>kernel/kalloc.c\<close>: the physical page allocator.  The free list is what it is in the source, a
  chain of \<^verbatim>\<open>struct run\<close> nodes stored in the free pages themselves: \<open>freelist\<close> holds the address of
  the first free page and the 64-bit word at a free page is the address of the next.
\<close>

section \<open>State and operations\<close>

record kmem = machine +
  freelist :: u64

definition kfree :: "u64 \<Rightarrow> 'z kmem_scheme \<Rightarrow> (unit, 'z kmem_scheme) kres" where
  "kfree pa s =
     (if pa mod PGSIZE \<noteq> 0 \<or> pa < sym_end s \<or> PHYSTOP \<le> pa then Panic ''kfree''
      else bindr (acquire L_kmem (s\<lparr>mem := memset pa 1 (ucast PGSIZE) (mem s)\<rparr>)) (\<lambda>_ s.
        release L_kmem (s\<lparr>mem := store64 (mem s) pa (freelist s), freelist := pa\<rparr>)))"

definition kalloc :: "'z kmem_scheme \<Rightarrow> (u64, 'z kmem_scheme) kres" where
  "kalloc s =
     bindr (acquire L_kmem s) (\<lambda>_ s.
     let r = freelist s;
         s = (if r \<noteq> 0 then s\<lparr>freelist := load64 (mem s) r\<rparr> else s)
     in bindr (release L_kmem s) (\<lambda>_ s.
        Ok r (if r \<noteq> 0 then s\<lparr>mem := memset r 5 (ucast PGSIZE) (mem s)\<rparr> else s)))"

lemma kfree_Ok_below: "kfree pa s = Ok x s' \<Longrightarrow> pa < PHYSTOP"
  by (auto simp: kfree_def split: if_splits)

function freerange_loop :: "u64 \<Rightarrow> u64 \<Rightarrow> 'z kmem_scheme \<Rightarrow> (unit, 'z kmem_scheme) kres" where
  "freerange_loop p pa_end s =
     (if p + PGSIZE \<le> pa_end
      then bindr (kfree p s) (\<lambda>_ s. freerange_loop (p + PGSIZE) pa_end s)
      else Ok () s)"
  by pat_completeness auto
termination
proof (relation "measure (\<lambda>(p, pa_end, s). 2 ^ 64 - unat p)")
  fix p pa_end x and s s' :: "'z kmem_scheme"
  assume "kfree p s = Ok x s'"
  then have "unat p < 0x88000000"
    by (auto dest!: kfree_Ok_below simp: word_less_nat_alt PHYSTOP_def KERNBASE_def)
  then show "((p + PGSIZE, pa_end, s'), p, pa_end, s) \<in> measure (\<lambda>(p, pa_end, s). 2 ^ 64 - unat p)"
    by (simp add: PGSIZE_def unat_add_no_wrap)
qed simp

declare freerange_loop.simps [simp del]

definition freerange :: "u64 \<Rightarrow> u64 \<Rightarrow> 'z kmem_scheme \<Rightarrow> (unit, 'z kmem_scheme) kres" where
  "freerange pa_start pa_end s = freerange_loop (PGROUNDUP pa_start) pa_end s"

definition kinit :: "'z kmem_scheme \<Rightarrow> (unit, 'z kmem_scheme) kres" where
  "kinit s = freerange (sym_end s) PHYSTOP (initlock L_kmem ''kmem'' s)"

section \<open>Invariant\<close>

fun free_chain :: "memory \<Rightarrow> u64 \<Rightarrow> u64 list \<Rightarrow> bool" where
  "free_chain m r [] \<longleftrightarrow> r = 0"
| "free_chain m r (p # ps) \<longleftrightarrow> r = p \<and> p \<noteq> 0 \<and> free_chain m (load64 m p) ps"

definition is_page :: "'z machine_scheme \<Rightarrow> u64 \<Rightarrow> bool" where
  "is_page s p \<longleftrightarrow> aligned 12 p \<and> sym_end s \<le> p \<and> p < PHYSTOP"

text \<open>The allocator's lock is free between calls, and the list is a chain of distinct pages of the
  allocator's range.\<close>

definition kmem_inv :: "'z kmem_scheme \<Rightarrow> u64 list \<Rightarrow> bool" where
  "kmem_inv s ps \<longleftrightarrow> free_chain (mem s) (freelist s) ps \<and> distinct ps \<and> (\<forall>p \<in> set ps. is_page s p)
     \<and> KERNBASE \<le> sym_end s \<and> unheld L_kmem s \<and> cpu_ok s"

text \<open>What a call into the allocator can change: memory, the list head, and the CPU's record of the
  interrupt bit.\<close>

definition kstep :: "'z kmem_scheme \<Rightarrow> 'z kmem_scheme \<Rightarrow> bool" where
  "kstep s s' \<longleftrightarrow> (\<exists>m r. s' = s\<lparr>mem := m, freelist := r\<rparr> \<or> s' = (touch s)\<lparr>mem := m, freelist := r\<rparr>)"

section \<open>Frame facts\<close>

lemma freelist_frame [simp]:
  "freelist (touch s) = freelist s" "freelist (take_lock l s) = freelist s"
  by (simp_all add: touch_def take_lock_def push_off_eq lock_defs)

lemma upd_frame [simp]:
  "unheld l (s\<lparr>mem := m\<rparr>) = unheld l s" "unheld l (s\<lparr>freelist := r\<rparr>) = unheld l s"
  "cpu_ok (s\<lparr>mem := m\<rparr>) = cpu_ok s" "cpu_ok (s\<lparr>freelist := r\<rparr>) = cpu_ok s"
  "is_page (s\<lparr>mem := m\<rparr>) p = is_page s p" "is_page (s\<lparr>freelist := r\<rparr>) p = is_page s p"
  "is_page (touch s) p = is_page s p"
  by (simp_all add: unheld_def cpu_ok_def is_page_def lock_defs)

lemma touch_upd [simp]:
  "touch (s\<lparr>mem := m\<rparr>) = (touch s)\<lparr>mem := m\<rparr>" "touch (s\<lparr>freelist := r\<rparr>) = (touch s)\<lparr>freelist := r\<rparr>"
  by (simp_all add: touch_def lock_defs)

lemma kstep_refl [simp]: "kstep s s"
  unfolding kstep_def by (rule exI [of _ "mem s"], rule exI [of _ "freelist s"]) simp

lemma kstep_trans: "kstep s t \<Longrightarrow> kstep t u \<Longrightarrow> kstep s u"
  unfolding kstep_def by (elim exE disjE; simp; blast)

lemma kstep_updI [simp, intro]:
  "kstep s (s\<lparr>mem := m\<rparr>)" "kstep s (s\<lparr>freelist := r\<rparr>)" "kstep s (s\<lparr>mem := m, freelist := r\<rparr>)"
  "kstep s (touch s)" "kstep s ((touch s)\<lparr>mem := m\<rparr>)" "kstep s ((touch s)\<lparr>freelist := r\<rparr>)"
  "kstep s ((touch s)\<lparr>mem := m, freelist := r\<rparr>)"
proof -
  have upd: "\<exists>m' r'. t\<lparr>mem := m\<rparr> = t\<lparr>mem := m', freelist := r'\<rparr>"
    "\<exists>m' r'. t\<lparr>freelist := r\<rparr> = t\<lparr>mem := m', freelist := r'\<rparr>"
    "\<exists>m' r'. t = t\<lparr>mem := m', freelist := r'\<rparr>" for t :: "'a kmem_scheme"
    by (rule exI [of _ m], rule exI [of _ "freelist t"], simp)
      (rule exI [of _ "mem t"], rule exI [of _ r], simp,
       rule exI [of _ "mem t"], rule exI [of _ "freelist t"], simp)
  show "kstep s (s\<lparr>mem := m\<rparr>)" "kstep s (s\<lparr>freelist := r\<rparr>)" "kstep s (s\<lparr>mem := m, freelist := r\<rparr>)"
    "kstep s (touch s)" "kstep s ((touch s)\<lparr>mem := m\<rparr>)" "kstep s ((touch s)\<lparr>freelist := r\<rparr>)"
    "kstep s ((touch s)\<lparr>mem := m, freelist := r\<rparr>)"
    unfolding kstep_def using upd by blast+
qed

lemma kstepD:
  assumes "kstep s s'"
  shows "tp s' = tp s" "sie s' = sie s" "locks s' = locks s" "sym_end s' = sym_end s"
    "sym_etext s' = sym_etext s" "sym_trampoline s' = sym_trampoline s"
    "cpu_ok s' = cpu_ok s" "unheld l s' = unheld l s" "is_page s' p = is_page s p"
    "cproc (cpus s' i) = cproc (cpus s i)"
  using assms by (auto simp: kstep_def is_page_def)

lemma free_chain_cong:
  "(\<And>p. p \<in> set ps \<Longrightarrow> load64 m p = load64 m' p) \<Longrightarrow> free_chain m r ps = free_chain m' r ps"
  by (induction ps arbitrary: r) auto

text \<open>Memory that agrees outside a set of pages.\<close>

definition same_outside :: "u64 set \<Rightarrow> memory \<Rightarrow> memory \<Rightarrow> bool" where
  "same_outside P m m' \<longleftrightarrow> (\<forall>x. PGROUNDDOWN x \<notin> P \<longrightarrow> m' x = m x)"

lemma same_outside_refl [simp]: "same_outside P m m"
  by (simp add: same_outside_def)

lemma same_outside_trans:
  "same_outside P m m' \<Longrightarrow> same_outside Q m' m'' \<Longrightarrow> same_outside (P \<union> Q) m m''"
  by (simp add: same_outside_def)

lemma same_outside_mono: "same_outside P m m' \<Longrightarrow> P \<subseteq> Q \<Longrightarrow> same_outside Q m m'"
  by (auto simp: same_outside_def)

lemma in_page: "aligned 12 p \<Longrightarrow> off_in p x < 4096 \<longleftrightarrow> PGROUNDDOWN x = p"
  using off_in_aligned [of 12 p x] aligned_slot_eq [OF aligned_PGROUNDDOWN, of p x]
  by (simp add: slot_PGROUNDDOWN)

lemma same_outside_wr:
  "aligned 12 p \<Longrightarrow> length bs \<le> 4096 \<Longrightarrow> same_outside {p} m (wr m p bs)"
  using in_page by (fastforce simp: same_outside_def wr_def)

lemma same_outside_store64:
  "aligned 3 a \<Longrightarrow> same_outside {PGROUNDDOWN a} m (store64 m a v)"
  by (auto simp: same_outside_def PGROUNDDOWN_eq dest: slot_mono [of 3 _ a 12] intro!: store64_other)

lemma load64_same_outside:
  assumes "same_outside P m m'" "aligned 3 a" "PGROUNDDOWN a \<notin> P"
  shows "load64 m' a = load64 m a"
proof (rule load64_cong)
  fix x assume "slot 3 x = slot 3 a"
  then have "PGROUNDDOWN x = PGROUNDDOWN a" by (simp add: PGROUNDDOWN_eq slot_mono [of 3 x a 12])
  with assms show "m' x = m x" by (simp add: same_outside_def)
qed fact

lemma free_chain_same_outside:
  assumes "same_outside P m m'" "\<And>p. p \<in> set ps \<Longrightarrow> aligned 12 p \<and> p \<notin> P"
  shows "free_chain m' r ps = free_chain m r ps"
proof (rule free_chain_cong)
  fix p assume "p \<in> set ps"
  then show "load64 m' p = load64 m p"
    using assms by (intro load64_same_outside) (auto simp: aligned_mono [of 12 _ 3] PGROUNDDOWN_aligned)
qed

section \<open>Behaviour of the operations\<close>

lemma ucast_PGSIZE: "(ucast PGSIZE :: u32) = 4096"
  by (simp add: PGSIZE_def)

lemma kmem_invD:
  assumes "kmem_inv s ps"
  shows "unheld L_kmem s" "cpu_ok s" "distinct ps" "\<And>p. p \<in> set ps \<Longrightarrow> is_page s p"
    "free_chain (mem s) (freelist s) ps" "\<And>p. is_page s p \<Longrightarrow> p \<noteq> 0"
  using assms by (auto simp: kmem_inv_def is_page_def KERNBASE_def)

lemma kalloc_Nil:
  assumes "kmem_inv s []"
  shows "kalloc s = Ok 0 (touch s)" "kmem_inv (touch s) []"
proof -
  note inv = kmem_invD [OF assms]
  from inv(1,2) have "release L_kmem (take_lock L_kmem s) = Ok () (touch s)"
    by (rule critical_section [where f = "\<lambda>s. s"]) simp_all
  with inv(1,5) show "kalloc s = Ok 0 (touch s)" by (simp add: kalloc_def Let_def)
  from assms show "kmem_inv (touch s) []" by (simp add: kmem_inv_def)
qed

lemma kalloc_Cons:
  fixes s :: "'z kmem_scheme"
  assumes "kmem_inv s (p # ps)"
  defines "s' \<equiv> (touch s)\<lparr>mem := wr (mem s) p (replicate 4096 5), freelist := load64 (mem s) p\<rparr>"
  shows "kalloc s = Ok p s'" "kmem_inv s' ps"
proof -
  note inv = kmem_invD [OF assms(1)]
  have p: "is_page s p" "freelist s = p" "p \<noteq> 0" "aligned 12 p" using inv(4,5) by (auto simp: is_page_def)
  from inv(1,2) have "release L_kmem ((take_lock L_kmem s)\<lparr>freelist := load64 (mem s) p\<rparr>) =
      Ok () ((touch s)\<lparr>freelist := load64 (mem s) p\<rparr>)"
    by (rule critical_section [where f = "\<lambda>s. s\<lparr>freelist := load64 (mem s) p\<rparr>", simplified])
  with inv(1) p show "kalloc s = Ok p s'"
    by (simp add: kalloc_def Let_def s'_def memset_eq PGSIZE_def)
  have "same_outside {p} (mem s) (mem s')" using p(4) by (simp add: s'_def same_outside_wr)
  then have "free_chain (mem s') r ps = free_chain (mem s) r ps" for r
    using inv(3,4) by (intro free_chain_same_outside) (auto simp: is_page_def)
  with assms(1) show "kmem_inv s' ps" by (auto simp: kmem_inv_def s'_def)
qed

lemma junk_page_outside:
  assumes "aligned 12 p"
  shows "same_outside {p} m (store64 (wr m p (replicate 4096 c)) p v)"
proof -
  have "same_outside {p} (wr m p (replicate 4096 c)) (store64 (wr m p (replicate 4096 c)) p v)"
    using same_outside_store64 [of p] aligned_mono [OF assms, of 3] by (simp add: PGROUNDDOWN_aligned assms)
  then have "same_outside ({p} \<union> {p}) m (store64 (wr m p (replicate 4096 c)) p v)"
    using assms by (intro same_outside_trans [OF same_outside_wr]) simp_all
  then show ?thesis by simp
qed

lemma kfree_Ok:
  fixes s :: "'z kmem_scheme"
  assumes "kmem_inv s ps" "is_page s p" "p \<notin> set ps"
  defines "s' \<equiv> (touch s)\<lparr>mem := store64 (wr (mem s) p (replicate 4096 1)) p (freelist s), freelist := p\<rparr>"
  shows "kfree p s = Ok () s'" "kmem_inv s' (p # ps)"
proof -
  note inv = kmem_invD [OF assms(1)]
  have p: "aligned 12 p" "\<not> p < sym_end s" "\<not> PHYSTOP \<le> p" "aligned 3 p"
    using assms(2) aligned_mono [of 12 p 3] by (auto simp: is_page_def)
  let ?s1 = "s\<lparr>mem := wr (mem s) p (replicate 4096 1)\<rparr>"
  let ?f = "\<lambda>s :: 'z kmem_scheme. s\<lparr>mem := store64 (mem ?s1) p (freelist s), freelist := p\<rparr>"
  have "unheld L_kmem ?s1" "cpu_ok ?s1" using inv(1,2) by simp_all
  then have "release L_kmem (?f (take_lock L_kmem ?s1)) = Ok () (?f (touch ?s1))"
    by (rule critical_section) simp_all
  with inv(1) p show "kfree p s = Ok () s'"
    by (simp add: kfree_def s'_def memset_eq aligned_iff_mod ucast_PGSIZE)
  have "same_outside {p} (mem s) (mem s')" using p(1) by (simp add: s'_def junk_page_outside)
  then have "free_chain (mem s') r ps = free_chain (mem s) r ps" for r
    using inv(4) assms(3) by (intro free_chain_same_outside) (auto simp: is_page_def)
  moreover have "load64 (mem s') p = freelist s" by (simp add: s'_def)
  ultimately show "kmem_inv s' (p # ps)"
    using assms(1-3) inv(6) by (auto simp: kmem_inv_def s'_def)
qed

lemma next_page:
  assumes "aligned 12 p" "p < PHYSTOP"
  shows "unat (p + PGSIZE) = unat p + 4096" "aligned 12 (p + PGSIZE)" "p + PGSIZE \<le> PHYSTOP"
    "aligned 12 q \<Longrightarrow> p < q \<longleftrightarrow> p + PGSIZE \<le> q"
proof -
  have lt: "unat p < 0x88000000" using assms(2) by (simp add: word_less_nat_alt c_defs)
  show u: "unat (p + PGSIZE) = unat p + 4096" using lt by (simp add: PGSIZE_def unat_add_no_wrap)
  obtain k where k: "unat p = 4096 * k" using assms(1) by (auto simp: aligned_dvd)
  then show "aligned 12 (p + PGSIZE)" by (simp add: aligned_dvd u)
  from lt have "4096 * k < 4096 * 0x88000" by (simp add: k)
  then show "p + PGSIZE \<le> PHYSTOP"
    by (simp only: word_le_nat_alt u k) (simp add: c_defs)
  assume "aligned 12 q"
  then obtain j where "unat q = 4096 * j" by (auto simp: aligned_dvd)
  then show "p < q \<longleftrightarrow> p + PGSIZE \<le> q" by (simp add: word_less_nat_alt word_le_nat_alt u k) linarith
qed

lemma freerange_loop_Ok:
  assumes "kmem_inv s ps" "aligned 12 p" "sym_end s \<le> p" "p \<le> PHYSTOP" "\<And>q. q \<in> set ps \<Longrightarrow> q < p"
  shows "\<exists>s' ps'. freerange_loop p PHYSTOP s = Ok () s' \<and> kmem_inv s' ps' \<and> kstep s s'
    \<and> set ps' = set ps \<union> {q. aligned 12 q \<and> p \<le> q \<and> q < PHYSTOP}"
  using assms
proof (induction p PHYSTOP s arbitrary: ps rule: freerange_loop.induct)
  case (1 p s)
  show ?case
  proof (cases "p < PHYSTOP")
    case False
    then have "p = PHYSTOP" using "1.prems"(4) by simp
    moreover have "\<not> PHYSTOP + PGSIZE \<le> PHYSTOP" by (simp add: c_defs)
    ultimately show ?thesis
      using "1.prems"(1) by (intro exI [of _ s] exI [of _ ps]) (auto simp: freerange_loop.simps [of PHYSTOP])
  next
    case True
    note nx = next_page [OF "1.prems"(2) True]
    have pg: "is_page s p" using "1.prems"(2,3) True by (simp add: is_page_def)
    have "p \<notin> set ps" using "1.prems"(5) by auto
    from kfree_Ok [OF "1.prems"(1) pg this] obtain s1
      where s1: "kfree p s = Ok () s1" "kmem_inv s1 (p # ps)" "kstep s s1" by auto
    have lt: "p < p + PGSIZE" by (simp only: word_less_nat_alt nx(1))
    then have sym: "sym_end s1 \<le> p + PGSIZE" using "1.prems"(3) kstepD(4) [OF s1(3)] by simp
    have "\<exists>s' ps'. freerange_loop (p + PGSIZE) PHYSTOP s1 = Ok () s' \<and> kmem_inv s' ps' \<and> kstep s1 s'
        \<and> set ps' = set (p # ps) \<union> {q. aligned 12 q \<and> p + PGSIZE \<le> q \<and> q < PHYSTOP}"
      using nx lt s1 sym "1.prems"(5) by (intro "1.hyps") (auto dest: order_less_trans)
    then obtain s' ps' where r: "freerange_loop (p + PGSIZE) PHYSTOP s1 = Ok () s'" "kmem_inv s' ps'"
        "kstep s1 s'" "set ps' = set (p # ps) \<union> {q. aligned 12 q \<and> p + PGSIZE \<le> q \<and> q < PHYSTOP}"
      by blast
    have "{q. aligned 12 q \<and> p \<le> q \<and> q < PHYSTOP} =
        insert p {q. aligned 12 q \<and> p + PGSIZE \<le> q \<and> q < PHYSTOP}"
      using "1.prems"(2) True nx(4) by (auto simp: order_le_less)
    with r nx(3) s1 show ?thesis
      by (intro exI [of _ s'] exI [of _ ps']) (auto simp: freerange_loop.simps [of p] intro: kstep_trans)
  qed
qed

lemma kinit_Ok:
  assumes "KERNBASE \<le> sym_end s" "sym_end s \<le> PHYSTOP" "freelist s = 0" "cpu_ok s"
  shows "\<exists>s' ps. kinit s = Ok () s' \<and> kmem_inv s' ps \<and> set ps = {p. is_page s p}
    \<and> kstep (initlock L_kmem ''kmem'' s) s'"
proof -
  let ?s = "initlock L_kmem ''kmem'' s" and ?p = "PGROUNDUP (sym_end s)"
  have inv: "kmem_inv ?s []"
    using assms by (simp add: kmem_inv_def initlock_def unheld_def cpu_ok_def lock_defs)
  have sym: "sym_end ?s = sym_end s" by (simp add: initlock_def set_lock_def)
  have u: "unat (sym_end s) \<le> 0x88000000" using assms(2) by (simp add: word_le_nat_alt c_defs)
  have ge: "sym_end s \<le> ?p" using u by (intro PGROUNDUP_ge) simp
  have le: "?p \<le> q \<longleftrightarrow> sym_end s \<le> q" if "aligned 12 q" for q
    using u that by (intro PGROUNDUP_le_iff) simp_all
  have "aligned 12 PHYSTOP" by (simp add: aligned_def c_defs)
  with le assms(2) have "?p \<le> PHYSTOP" by simp
  with freerange_loop_Ok [OF inv aligned_PGROUNDUP, of "sym_end s"] ge sym obtain s' ps' where
    "freerange_loop ?p PHYSTOP ?s = Ok () s'" "kmem_inv s' ps'" "kstep ?s s'"
    "set ps' = {q. aligned 12 q \<and> ?p \<le> q \<and> q < PHYSTOP}" by auto
  moreover have "{q. aligned 12 q \<and> ?p \<le> q \<and> q < PHYSTOP} = {p. is_page s p}"
    using le by (auto simp: is_page_def)
  ultimately show ?thesis by (auto simp: kinit_def freerange_def sym)
qed

section \<open>The allocator as an interface\<close>

text \<open>What the rest of the kernel relies on: a pool of pages, from which \<open>alloc\<close> takes one (or answers
  0 when it is empty) and to which \<open>free\<close> gives one back.\<close>

locale page_pool =
  fixes alloc :: "'s \<Rightarrow> (u64, 's) kres"
    and free :: "u64 \<Rightarrow> 's \<Rightarrow> (unit, 's) kres"
    and pool :: "'s \<Rightarrow> u64 list \<Rightarrow> bool"
    and good :: "'s \<Rightarrow> u64 \<Rightarrow> bool"
  assumes alloc_empty: "pool s [] \<Longrightarrow> \<exists>s'. alloc s = Ok 0 s' \<and> pool s' [] \<and> good s' = good s"
    and alloc_page: "pool s (p # ps) \<Longrightarrow> \<exists>s'. alloc s = Ok p s' \<and> pool s' ps \<and> good s' = good s"
    and free_page: "pool s ps \<Longrightarrow> good s p \<Longrightarrow> p \<notin> set ps \<Longrightarrow>
      \<exists>s'. free p s = Ok () s' \<and> pool s' (p # ps) \<and> good s' = good s"
    and pool_good: "pool s ps \<Longrightarrow> distinct ps \<and> 0 \<notin> set ps \<and> (\<forall>p \<in> set ps. good s p)"

context page_pool
begin

lemma alloc_many:
  assumes "pool s ps" "n \<le> length ps"
  shows "\<exists>s'. repeat_res n alloc s = Ok (take n ps) s' \<and> pool s' (drop n ps) \<and> good s' = good s"
  using assms
proof (induction n arbitrary: s ps)
  case 0
  then show ?case by auto
next
  case (Suc n)
  then obtain p qs where ps: "ps = p # qs" by (cases ps) auto
  then obtain s1 where "alloc s = Ok p s1" "pool s1 qs" "good s1 = good s"
    using alloc_page Suc.prems(1) by blast
  with Suc.IH [of s1 qs] Suc.prems ps show ?case by auto
qed

lemma free_many:
  assumes "pool s ps" "distinct qs" "set qs \<inter> set ps = {}" "\<forall>q \<in> set qs. good s q"
  shows "\<exists>s'. each_res free qs s = Ok () s' \<and> pool s' (rev qs @ ps) \<and> good s' = good s"
  using assms
proof (induction qs arbitrary: s ps)
  case Nil
  then show ?case by auto
next
  case (Cons q qs)
  then obtain s1 where s1: "free q s = Ok () s1" "pool s1 (q # ps)" "good s1 = good s"
    using free_page [of s ps q] by auto
  with Cons.IH [of s1 "q # ps"] Cons.prems show ?case by auto
qed

text \<open>Pages taken and given back leave the pool with the same pages, in another order.\<close>

lemma take_and_return:
  assumes "pool s ps" "n \<le> length ps"
  shows "\<exists>s1 s2. repeat_res n alloc s = Ok (take n ps) s1 \<and> each_res free (take n ps) s1 = Ok () s2
    \<and> pool s2 (rev (take n ps) @ drop n ps)"
proof -
  obtain s1 where s1: "repeat_res n alloc s = Ok (take n ps) s1" "pool s1 (drop n ps)" "good s1 = good s"
    using alloc_many [OF assms] by blast
  have "distinct (take n ps @ drop n ps)" using pool_good [OF assms(1)] by simp
  then have "distinct (take n ps)" "set (take n ps) \<inter> set (drop n ps) = {}"
    by (simp_all only: distinct_append)
  moreover have "\<forall>q \<in> set (take n ps). good s1 q"
    using pool_good [OF assms(1)] s1(3) by (auto dest: in_set_takeD)
  ultimately obtain s2 where "each_res free (take n ps) s1 = Ok () s2" "pool s2 (rev (take n ps) @ drop n ps)"
    using free_many [OF s1(2)] by blast
  with s1 show ?thesis by blast
qed

end

interpretation kpool: page_pool kalloc kfree kmem_inv is_page
proof
  fix s :: "'a kmem_scheme"
  assume "kmem_inv s []"
  then show "\<exists>s'. kalloc s = Ok 0 s' \<and> kmem_inv s' [] \<and> is_page s' = is_page s"
    using kalloc_Nil [of s] by (auto simp: fun_eq_iff)
next
  fix s :: "'a kmem_scheme" and p ps
  assume "kmem_inv s (p # ps)"
  then show "\<exists>s'. kalloc s = Ok p s' \<and> kmem_inv s' ps \<and> is_page s' = is_page s"
    using kalloc_Cons [of s p ps] by (auto simp: fun_eq_iff)
next
  fix s :: "'a kmem_scheme" and p ps
  assume "kmem_inv s ps" "is_page s p" "p \<notin> set ps"
  then show "\<exists>s'. kfree p s = Ok () s' \<and> kmem_inv s' (p # ps) \<and> is_page s' = is_page s"
    using kfree_Ok [of s ps p] by (auto simp: fun_eq_iff)
next
  fix s :: "'a kmem_scheme" and ps
  assume "kmem_inv s ps"
  then show "distinct ps \<and> 0 \<notin> set ps \<and> (\<forall>p \<in> set ps. is_page s p)"
    using kmem_invD(3,4,6) by blast
qed

section \<open>Properties\<close>

text \<open>C22: \<open>kinit\<close> on a booting kernel returns without panicking and leaves a well-formed free list
  that holds every page of physical memory from \<open>end\<close> to \<open>PHYSTOP\<close> exactly once, and nothing else.\<close>

theorem kinit_free_pages:
  assumes "KERNBASE \<le> sym_end s" "sym_end s \<le> PHYSTOP" "freelist s = 0" "cpu_ok s"
  shows "\<exists>s' ps. kinit s = Ok () s' \<and> kmem_inv s' ps \<and> set ps = {p. aligned 12 p \<and> sym_end s \<le> p \<and> p < PHYSTOP}"
  using kinit_Ok [OF assms] by (auto simp: is_page_def)

definition boot_kmem :: kmem where
  "boot_kmem = machine.extend idle_machine \<lparr>freelist = 0\<rparr>"

lemma boot_kmem_simps:
  "sym_end boot_kmem = 0x80022000" "freelist boot_kmem = 0" "cpu_ok boot_kmem" "unheld l boot_kmem"
  by (simp_all add: boot_kmem_def machine.defs idle_machine_def cpu_ok_def lock_defs unheld_def)

theorem kinit_free_pages_witness:
  "\<exists>s' ps. kinit boot_kmem = Ok () s' \<and> kmem_inv s' ps \<and> 0x80022000 \<in> set ps \<and> 0x80021000 \<notin> set ps"
proof -
  have "KERNBASE \<le> sym_end boot_kmem" "sym_end boot_kmem \<le> PHYSTOP"
    by (simp_all add: boot_kmem_simps c_defs)
  from kinit_free_pages [OF this boot_kmem_simps(2,3)] obtain s' ps where
    *: "kinit boot_kmem = Ok () s'" "kmem_inv s' ps"
      "set ps = {p. aligned 12 p \<and> sym_end boot_kmem \<le> p \<and> p < PHYSTOP}" by blast
  moreover have "aligned 12 0x80022000" by (simp add: aligned_def)
  ultimately have "0x80022000 \<in> set ps \<and> 0x80021000 \<notin> set ps" by (simp add: boot_kmem_simps c_defs)
  with * show ?thesis by blast
qed

text \<open>C17: The page allocator hands every page out at most once: from a state with free list \<open>ps\<close>,
  \<open>n \<le> length ps\<close> calls of \<open>kalloc\<close> return the \<open>n\<close> distinct, non-null, page-aligned pages at its head,
  one more call than there are pages returns 0, and giving the pages back with \<open>kfree\<close> restores the
  free list up to order.\<close>

theorem kalloc_kfree_pages:
  assumes "kmem_inv s ps" "n \<le> length ps"
  shows "\<exists>s1 s2. repeat_res n kalloc s = Ok (take n ps) s1 \<and> distinct (take n ps) \<and> 0 \<notin> set (take n ps)
    \<and> (n = length ps \<longrightarrow> kalloc s1 = Ok 0 (touch s1))
    \<and> each_res kfree (take n ps) s1 = Ok () s2 \<and> kmem_inv s2 (rev (take n ps) @ drop n ps)"
proof -
  obtain s1 where s1: "repeat_res n kalloc s = Ok (take n ps) s1" "kmem_inv s1 (drop n ps)"
    using kpool.alloc_many [OF assms] by blast
  obtain s2 where s2: "each_res kfree (take n ps) s1 = Ok () s2" "kmem_inv s2 (rev (take n ps) @ drop n ps)"
    using kpool.take_and_return [OF assms] s1(1) by auto
  have "n = length ps \<longrightarrow> kalloc s1 = Ok 0 (touch s1)" using kalloc_Nil(1) [of s1] s1(2) by auto
  moreover have "distinct (take n ps)" "0 \<notin> set (take n ps)"
    using kpool.pool_good [OF assms(1)] by (auto dest: in_set_takeD)
  ultimately show ?thesis using s1(1) s2 by blast
qed

definition two_pages :: kmem where
  "two_pages = boot_kmem\<lparr>mem := store64 (store64 (\<lambda>_. 0) 0x80023000 0x80024000) 0x80024000 0, freelist := 0x80023000\<rparr>"

lemma two_pages_inv: "kmem_inv two_pages [0x80023000, 0x80024000]"
  by (simp add: kmem_inv_def two_pages_def is_page_def boot_kmem_simps c_defs aligned_def)

theorem kalloc_kfree_pages_witness:
  "\<exists>s1 s2. repeat_res 2 kalloc two_pages = Ok [0x80023000, 0x80024000] s1 \<and> kalloc s1 = Ok 0 (touch s1)
    \<and> each_res kfree [0x80023000, 0x80024000] s1 = Ok () s2 \<and> kmem_inv s2 [0x80024000, 0x80023000]"
  using kalloc_kfree_pages [OF two_pages_inv, of 2] by auto

end
