(* ===== verification/Vm.thy ===== *)
theory Vm
  imports Kalloc
begin

text \<open>
  \<^verbatim>\<open>kernel/vm.c\<close>: Sv39 page tables in physical memory.  A page table is the address of its root
  page; entries are 64-bit words in memory, read and written in place.  Kernel buffers on one side of
  \<open>copyout\<close>, \<open>copyin\<close> and \<open>copyinstr\<close> are byte lists; a C \<open>int\<close> status is an \<open>int\<close>.
\<close>

section \<open>Walking a page table\<close>

fun walk_loop :: "nat \<Rightarrow> u64 \<Rightarrow> u64 \<Rightarrow> bool \<Rightarrow> 'z kmem_scheme \<Rightarrow> (u64, 'z kmem_scheme) kres" where
  "walk_loop 0 pagetable va alloc s = Ok (pagetable + 8 * PX 0 va) s"
| "walk_loop (Suc l) pagetable va alloc s =
     (let pte = pagetable + 8 * PX (Suc l) va
      in if load64 (mem s) pte AND PTE_V \<noteq> 0
         then walk_loop l (PTE2PA (load64 (mem s) pte)) va alloc s
         else if \<not> alloc then Ok 0 s
         else bindr (kalloc s) (\<lambda>pg s.
           if pg = 0 then Ok 0 s
           else let m = memset pg 0 (ucast PGSIZE) (mem s)
                in walk_loop l pg va alloc (s\<lparr>mem := store64 m pte (PA2PTE pg OR PTE_V)\<rparr>)))"

definition walk :: "u64 \<Rightarrow> u64 \<Rightarrow> bool \<Rightarrow> 'z kmem_scheme \<Rightarrow> (u64, 'z kmem_scheme) kres" where
  "walk pagetable va alloc s = (if MAXVA \<le> va then Panic ''walk'' else walk_loop 2 pagetable va alloc s)"

definition walkaddr :: "u64 \<Rightarrow> u64 \<Rightarrow> 'z kmem_scheme \<Rightarrow> (u64, 'z kmem_scheme) kres" where
  "walkaddr pagetable va s =
     (if MAXVA \<le> va then Ok 0 s
      else bindr (walk pagetable va False s) (\<lambda>pte s.
        if pte = 0 then Ok 0 s
        else if load64 (mem s) pte AND PTE_V = 0 then Ok 0 s
        else if load64 (mem s) pte AND PTE_U = 0 then Ok 0 s
        else Ok (PTE2PA (load64 (mem s) pte)) s))"

lemma walk_Ok_below: "walk pt va alloc s = Ok x s' \<Longrightarrow> va < MAXVA"
  by (auto simp: walk_def split: if_splits)

lemma step_below_MAXVA:
  assumes "a < MAXVA"
  shows "2 ^ 64 - unat (a + PGSIZE) < 2 ^ 64 - unat a"
proof -
  have "unat a < 2 ^ 38" using assms by (simp add: word_less_nat_alt MAXVA_def)
  then show ?thesis by (simp add: PGSIZE_def unat_add_no_wrap)
qed

section \<open>Mapping and unmapping\<close>

function mappages_loop ::
    "u64 \<Rightarrow> u64 \<Rightarrow> u64 \<Rightarrow> u64 \<Rightarrow> u64 \<Rightarrow> 'z kmem_scheme \<Rightarrow> (int, 'z kmem_scheme) kres" where
  "mappages_loop pagetable a alast pa perm s =
     bindr (walk pagetable a True s) (\<lambda>pte s.
       if pte = 0 then Ok (- 1) s
       else if load64 (mem s) pte AND PTE_V \<noteq> 0 then Panic ''mappages: remap''
       else let s = s\<lparr>mem := store64 (mem s) pte (PA2PTE pa OR perm OR PTE_V)\<rparr>
            in if a = alast then Ok 0 s
               else mappages_loop pagetable (a + PGSIZE) alast (pa + PGSIZE) perm s)"
  by pat_completeness auto
termination
  by (relation "measure (\<lambda>(pagetable, a, alast, pa, perm, s). 2 ^ 64 - unat a)")
    (auto dest!: walk_Ok_below step_below_MAXVA)

declare mappages_loop.simps [simp del]

definition mappages ::
    "u64 \<Rightarrow> u64 \<Rightarrow> u64 \<Rightarrow> u64 \<Rightarrow> u64 \<Rightarrow> 'z kmem_scheme \<Rightarrow> (int, 'z kmem_scheme) kres" where
  "mappages pagetable va sz pa perm s =
     (if va mod PGSIZE \<noteq> 0 then Panic ''mappages: va not aligned''
      else if sz mod PGSIZE \<noteq> 0 then Panic ''mappages: size not aligned''
      else if sz = 0 then Panic ''mappages: size''
      else mappages_loop pagetable va (va + sz - PGSIZE) pa perm s)"

definition kvmmap :: "u64 \<Rightarrow> u64 \<Rightarrow> u64 \<Rightarrow> u64 \<Rightarrow> u64 \<Rightarrow> 'z kmem_scheme \<Rightarrow> (unit, 'z kmem_scheme) kres" where
  "kvmmap kpgtbl va pa sz perm s =
     bindr (mappages kpgtbl va sz pa perm s) (\<lambda>r s. if r \<noteq> 0 then Panic ''kvmmap'' else Ok () s)"

function uvmunmap_loop ::
    "u64 \<Rightarrow> u64 \<Rightarrow> u64 \<Rightarrow> bool \<Rightarrow> 'z kmem_scheme \<Rightarrow> (unit, 'z kmem_scheme) kres" where
  "uvmunmap_loop pagetable a stop do_free s =
     (if a < stop then
        bindr (walk pagetable a False s) (\<lambda>pte s.
          if pte = 0 then Panic ''uvmunmap: walk''
          else if load64 (mem s) pte AND PTE_V = 0 then Panic ''uvmunmap: not mapped''
          else if PTE_FLAGS (load64 (mem s) pte) = PTE_V then Panic ''uvmunmap: not a leaf''
          else bindr (if do_free then kfree (PTE2PA (load64 (mem s) pte)) s else Ok () s) (\<lambda>_ s.
            uvmunmap_loop pagetable (a + PGSIZE) stop do_free (s\<lparr>mem := store64 (mem s) pte 0\<rparr>)))
      else Ok () s)"
  by pat_completeness auto
termination
  by (relation "measure (\<lambda>(pagetable, a, stop, do_free, s). 2 ^ 64 - unat a)")
    (auto dest!: walk_Ok_below step_below_MAXVA)

declare uvmunmap_loop.simps [simp del]

definition uvmunmap ::
    "u64 \<Rightarrow> u64 \<Rightarrow> u64 \<Rightarrow> bool \<Rightarrow> 'z kmem_scheme \<Rightarrow> (unit, 'z kmem_scheme) kres" where
  "uvmunmap pagetable va npages do_free s =
     (if va mod PGSIZE \<noteq> 0 then Panic ''uvmunmap: not aligned''
      else uvmunmap_loop pagetable va (va + npages * PGSIZE) do_free s)"

section \<open>User address spaces\<close>

definition uvmcreate :: "'z kmem_scheme \<Rightarrow> (u64, 'z kmem_scheme) kres" where
  "uvmcreate s = bindr (kalloc s) (\<lambda>pagetable s.
     if pagetable = 0 then Ok 0 s
     else Ok pagetable (s\<lparr>mem := memset pagetable 0 (ucast PGSIZE) (mem s)\<rparr>))"

definition uvmfirst :: "u64 \<Rightarrow> u8 list \<Rightarrow> 'z kmem_scheme \<Rightarrow> (unit, 'z kmem_scheme) kres" where
  "uvmfirst pagetable src s =
     (if 4096 \<le> length src then Panic ''uvmfirst: more than a page''
      else bindr (kalloc s) (\<lambda>pg s.
        let s = s\<lparr>mem := memset pg 0 (ucast PGSIZE) (mem s)\<rparr>
        in bindr (mappages pagetable 0 PGSIZE pg (PTE_W OR PTE_R OR PTE_X OR PTE_U) s) (\<lambda>_ s.
           Ok () (s\<lparr>mem := wr (mem s) pg src\<rparr>))))"

definition uvmdealloc :: "u64 \<Rightarrow> u64 \<Rightarrow> u64 \<Rightarrow> 'z kmem_scheme \<Rightarrow> (u64, 'z kmem_scheme) kres" where
  "uvmdealloc pagetable oldsz newsz s =
     (if oldsz \<le> newsz then Ok oldsz s
      else if PGROUNDUP newsz < PGROUNDUP oldsz
      then let npages = (ucast ((PGROUNDUP oldsz - PGROUNDUP newsz) div PGSIZE) :: u32)
           in bindr (uvmunmap pagetable (PGROUNDUP newsz) (scast npages) True s) (\<lambda>_ s. Ok newsz s)
      else Ok newsz s)"

lemma mappages_Ok_below: "mappages pt va sz pa perm s = Ok r s' \<Longrightarrow> va < MAXVA"
  by (auto simp: mappages_def mappages_loop.simps [of _ va] bindr_Ok_iff dest: walk_Ok_below split: if_splits)

function uvmalloc_loop ::
    "u64 \<Rightarrow> u64 \<Rightarrow> u64 \<Rightarrow> u64 \<Rightarrow> u64 \<Rightarrow> 'z kmem_scheme \<Rightarrow> (u64, 'z kmem_scheme) kres" where
  "uvmalloc_loop pagetable a oldsz newsz xperm s =
     (if a < newsz then
        bindr (kalloc s) (\<lambda>pg s.
          if pg = 0 then bindr (uvmdealloc pagetable a oldsz s) (\<lambda>_ s. Ok 0 s)
          else bindr (mappages pagetable a PGSIZE pg (PTE_R OR PTE_U OR xperm)
                        (s\<lparr>mem := memset pg 0 (ucast PGSIZE) (mem s)\<rparr>)) (\<lambda>r s.
            if r \<noteq> 0
            then bindr (kfree pg s) (\<lambda>_ s. bindr (uvmdealloc pagetable a oldsz s) (\<lambda>_ s. Ok 0 s))
            else uvmalloc_loop pagetable (a + PGSIZE) oldsz newsz xperm s))
      else Ok newsz s)"
  by pat_completeness auto
termination
  by (relation "measure (\<lambda>(pagetable, a, oldsz, newsz, xperm, s). 2 ^ 64 - unat a)")
    (auto dest!: mappages_Ok_below step_below_MAXVA)

declare uvmalloc_loop.simps [simp del]

definition uvmalloc :: "u64 \<Rightarrow> u64 \<Rightarrow> u64 \<Rightarrow> u64 \<Rightarrow> 'z kmem_scheme \<Rightarrow> (u64, 'z kmem_scheme) kres" where
  "uvmalloc pagetable oldsz newsz xperm s =
     (if newsz < oldsz then Ok oldsz s
      else uvmalloc_loop pagetable (PGROUNDUP oldsz) (PGROUNDUP oldsz) newsz xperm s)"

text \<open>The recursion of \<open>freewalk\<close> is bounded by fuel: a table that contains itself would make the
  source recurse for ever, which is \<open>Hang\<close> here.\<close>

fun freewalk :: "nat \<Rightarrow> u64 \<Rightarrow> 'z kmem_scheme \<Rightarrow> (unit, 'z kmem_scheme) kres" where
  "freewalk 0 pagetable s = Hang"
| "freewalk (Suc fuel) pagetable s =
     bindr (each_res (\<lambda>i s.
         let slot = pagetable + 8 * of_nat i; pte = load64 (mem s) slot
         in if pte AND PTE_V \<noteq> 0 \<and> pte AND (PTE_R OR PTE_W OR PTE_X) = 0
            then bindr (freewalk fuel (PTE2PA pte) s) (\<lambda>_ s. Ok () (s\<lparr>mem := store64 (mem s) slot 0\<rparr>))
            else if pte AND PTE_V \<noteq> 0 then Panic ''freewalk: leaf''
            else Ok () s) [0..<512] s)
       (\<lambda>_ s. kfree pagetable s)"

definition uvmfree :: "u64 \<Rightarrow> u64 \<Rightarrow> 'z kmem_scheme \<Rightarrow> (unit, 'z kmem_scheme) kres" where
  "uvmfree pagetable sz s =
     bindr (if 0 < sz then uvmunmap pagetable 0 (PGROUNDUP sz div PGSIZE) True s else Ok () s) (\<lambda>_ s.
       freewalk 3 pagetable s)"

function uvmcopy_loop :: "u64 \<Rightarrow> u64 \<Rightarrow> u64 \<Rightarrow> u64 \<Rightarrow> 'z kmem_scheme \<Rightarrow> (int, 'z kmem_scheme) kres" where
  "uvmcopy_loop old new i sz s =
     (if i < sz then
        bindr (walk old i False s) (\<lambda>pte s.
          if pte = 0 then Panic ''uvmcopy: pte should exist''
          else if load64 (mem s) pte AND PTE_V = 0 then Panic ''uvmcopy: page not present''
          else
            let pa = PTE2PA (load64 (mem s) pte); flags = PTE_FLAGS (load64 (mem s) pte)
            in bindr (kalloc s) (\<lambda>pg s.
              if pg = 0 then bindr (uvmunmap new 0 (i div PGSIZE) True s) (\<lambda>_ s. Ok (- 1) s)
              else bindr (mappages new i PGSIZE pg flags
                            (s\<lparr>mem := memmove pg pa (ucast PGSIZE) (mem s)\<rparr>)) (\<lambda>r s.
                if r \<noteq> 0
                then bindr (kfree pg s) (\<lambda>_ s.
                     bindr (uvmunmap new 0 (i div PGSIZE) True s) (\<lambda>_ s. Ok (- 1) s))
                else uvmcopy_loop old new (i + PGSIZE) sz s)))
      else Ok 0 s)"
  by pat_completeness auto
termination
  by (relation "measure (\<lambda>(old, new, i, sz, s). 2 ^ 64 - unat i)")
    (auto dest!: walk_Ok_below step_below_MAXVA)

declare uvmcopy_loop.simps [simp del]

definition uvmcopy :: "u64 \<Rightarrow> u64 \<Rightarrow> u64 \<Rightarrow> 'z kmem_scheme \<Rightarrow> (int, 'z kmem_scheme) kres" where
  "uvmcopy old new sz s = uvmcopy_loop old new 0 sz s"

definition uvmclear :: "u64 \<Rightarrow> u64 \<Rightarrow> 'z kmem_scheme \<Rightarrow> (unit, 'z kmem_scheme) kres" where
  "uvmclear pagetable va s =
     bindr (walk pagetable va False s) (\<lambda>pte s.
       if pte = 0 then Panic ''uvmclear''
       else Ok () (s\<lparr>mem := store64 (mem s) pte (load64 (mem s) pte AND NOT PTE_U)\<rparr>))"

section \<open>Copying between kernel and user memory\<close>

lemma page_rest_pos: "0 < unat (PGSIZE - (va - PGROUNDDOWN va))"
proof -
  have "unat va mod 4096 < 4096" by simp
  then have "unat (va - PGROUNDDOWN va) < 4096"
    by (simp add: unat_sub_le [OF PGROUNDDOWN_le] unat_PGROUNDDOWN minus_div_mult_eq_mod)
  then have "va - PGROUNDDOWN va < PGSIZE" by (simp add: word_less_nat_alt PGSIZE_def)
  then show ?thesis by (simp add: unat_gt_0)
qed

function copyout :: "u64 \<Rightarrow> u64 \<Rightarrow> u8 list \<Rightarrow> 'z kmem_scheme \<Rightarrow> (int, 'z kmem_scheme) kres" where
  "copyout pagetable dstva src s =
     (if 0 < length src then
        let va0 = PGROUNDDOWN dstva
        in if MAXVA \<le> va0 then Ok (- 1) s
           else bindr (walk pagetable va0 False s) (\<lambda>pte s.
             if pte = 0 \<or> load64 (mem s) pte AND PTE_V = 0 \<or> load64 (mem s) pte AND PTE_U = 0
                \<or> load64 (mem s) pte AND PTE_W = 0
             then Ok (- 1) s
             else let pa0 = PTE2PA (load64 (mem s) pte);
                      n = min (unat (PGSIZE - (dstva - va0))) (length src)
                  in copyout pagetable (va0 + PGSIZE) (drop n src)
                       (s\<lparr>mem := wr (mem s) (pa0 + (dstva - va0)) (take n src)\<rparr>))
      else Ok 0 s)"
  by pat_completeness auto
termination
  by (relation "measure (\<lambda>(pagetable, dstva, src, s). length src)") (auto simp: page_rest_pos)

declare copyout.simps [simp del]

text \<open>\<open>copyin\<close> and \<open>copyinstr\<close> return the status and the bytes stored from \<open>dst\<close> on.\<close>

function copyin :: "u64 \<Rightarrow> u64 \<Rightarrow> nat \<Rightarrow> 'z kmem_scheme \<Rightarrow> (int \<times> u8 list, 'z kmem_scheme) kres" where
  "copyin pagetable srcva len s =
     (if 0 < len then
        let va0 = PGROUNDDOWN srcva
        in bindr (walkaddr pagetable va0 s) (\<lambda>pa0 s.
             if pa0 = 0 then Ok (- 1, []) s
             else let n = min (unat (PGSIZE - (srcva - va0))) len;
                      bs = rd (mem s) (pa0 + (srcva - va0)) n
                  in bindr (copyin pagetable (va0 + PGSIZE) (len - n) s) (\<lambda>(r, cs) s. Ok (r, bs @ cs) s))
      else Ok (0, []) s)"
  by pat_completeness auto
termination
  by (relation "measure (\<lambda>(pagetable, srcva, len, s). len)") (auto simp: page_rest_pos)

declare copyin.simps [simp del]

text \<open>The inner loop of \<open>copyinstr\<close>: up to \<open>n\<close> bytes from physical address \<open>p\<close>; the flag says that a
  NUL was met.\<close>

fun copy_until_nul :: "memory \<Rightarrow> u64 \<Rightarrow> nat \<Rightarrow> bool \<times> u8 list" where
  "copy_until_nul m p 0 = (False, [])"
| "copy_until_nul m p (Suc n) =
     (if m p = 0 then (True, [0])
      else let (got_null, bs) = copy_until_nul m (p + 1) n in (got_null, m p # bs))"

function copyinstr :: "u64 \<Rightarrow> u64 \<Rightarrow> nat \<Rightarrow> 'z kmem_scheme \<Rightarrow> (int \<times> u8 list, 'z kmem_scheme) kres" where
  "copyinstr pagetable srcva n_max s =
     (if 0 < n_max then
        let va0 = PGROUNDDOWN srcva
        in bindr (walkaddr pagetable va0 s) (\<lambda>pa0 s.
             if pa0 = 0 then Ok (- 1, []) s
             else let n = min (unat (PGSIZE - (srcva - va0))) n_max;
                      (got_null, bs) = copy_until_nul (mem s) (pa0 + (srcva - va0)) n
                  in if got_null then Ok (0, bs) s
                     else bindr (copyinstr pagetable (va0 + PGSIZE) (n_max - n) s) (\<lambda>(r, cs) s. Ok (r, bs @ cs) s))
      else Ok (- 1, []) s)"
  by pat_completeness auto
termination
  by (relation "measure (\<lambda>(pagetable, srcva, n_max, s). n_max)") (auto simp: page_rest_pos)

declare copyinstr.simps [simp del]

section \<open>The kernel page table\<close>

record vm = kmem +
  kernel_pagetable :: u64
  satp :: "nat \<Rightarrow> u64"

definition proc_mapstacks :: "u64 \<Rightarrow> 'z kmem_scheme \<Rightarrow> (unit, 'z kmem_scheme) kres" where
  "proc_mapstacks kpgtbl s =
     each_res (\<lambda>p s. bindr (kalloc s) (\<lambda>pa s.
       if pa = 0 then Panic ''kalloc''
       else kvmmap kpgtbl (KSTACK p) pa PGSIZE (PTE_R OR PTE_W) s)) [0..<NPROC] s"

definition kvmmake :: "'z kmem_scheme \<Rightarrow> (u64, 'z kmem_scheme) kres" where
  "kvmmake s =
     bindr (kalloc s) (\<lambda>kpgtbl s.
     bindr (kvmmap kpgtbl UART0 UART0 PGSIZE (PTE_R OR PTE_W)
              (s\<lparr>mem := memset kpgtbl 0 (ucast PGSIZE) (mem s)\<rparr>)) (\<lambda>_ s.
     bindr (kvmmap kpgtbl VIRTIO0 VIRTIO0 PGSIZE (PTE_R OR PTE_W) s) (\<lambda>_ s.
     bindr (kvmmap kpgtbl PLIC PLIC 0x400000 (PTE_R OR PTE_W) s) (\<lambda>_ s.
     bindr (kvmmap kpgtbl KERNBASE KERNBASE (sym_etext s - KERNBASE) (PTE_R OR PTE_X) s) (\<lambda>_ s.
     bindr (kvmmap kpgtbl (sym_etext s) (sym_etext s) (PHYSTOP - sym_etext s) (PTE_R OR PTE_W) s) (\<lambda>_ s.
     bindr (kvmmap kpgtbl TRAMPOLINE (sym_trampoline s) PGSIZE (PTE_R OR PTE_X) s) (\<lambda>_ s.
     bindr (proc_mapstacks kpgtbl s) (\<lambda>_ s. Ok kpgtbl s))))))))"

definition kvminit :: "'z vm_scheme \<Rightarrow> (unit, 'z vm_scheme) kres" where
  "kvminit s = bindr (kvmmake s) (\<lambda>kpgtbl s. Ok () (s\<lparr>kernel_pagetable := kpgtbl\<rparr>))"

definition kvminithart :: "'z vm_scheme \<Rightarrow> 'z vm_scheme" where
  "kvminithart s = s\<lparr>satp := (satp s)(tp s := MAKE_SATP (kernel_pagetable s))\<rparr>"

end
