(* ===== verification/Kprintf.thy ===== *)
theory Kprintf
  imports Vm
begin

text \<open>
  \<^verbatim>\<open>kernel/printf.c\<close> and the polled output path under it (\<open>uartputc_sync\<close> of \<^verbatim>\<open>uart.c\<close>, \<open>consputc\<close>
  of \<^verbatim>\<open>console.c\<close>).  The UART is a register file with a transmit side (\<open>uart_out\<close>, the bytes that have
  left through THR, and \<open>uart_room\<close>, how many more it takes before LSR_TX_IDLE drops) and a receive side
  (\<open>uart_in\<close>, the bytes waiting behind RHR).  The variable arguments of \<open>printf\<close> are a list.
\<close>

section \<open>UART registers\<close>

definition UART_TX_BUF_SIZE :: nat where "UART_TX_BUF_SIZE = 32"

record kdev = vm +
  uart_regs :: "nat \<Rightarrow> u8"
  uart_out :: "u8 list"
  uart_room :: nat
  uart_in :: "u8 list"
  uart_tx_buf :: "u8 list"
  uart_tx_w :: u64
  uart_tx_r :: u64
  panicked :: bool
  pr_locking :: bool

definition THR :: nat where "THR = 0"
definition IER :: nat where "IER = 1"
definition FCR :: nat where "FCR = 2"
definition LCR :: nat where "LCR = 3"
definition LCR_EIGHT_BITS :: u8 where "LCR_EIGHT_BITS = 3"
definition LCR_BAUD_LATCH :: u8 where "LCR_BAUD_LATCH = 0x80"
definition IER_RX_ENABLE :: u8 where "IER_RX_ENABLE = 1"
definition IER_TX_ENABLE :: u8 where "IER_TX_ENABLE = 2"
definition FCR_FIFO_ENABLE :: u8 where "FCR_FIFO_ENABLE = 1"
definition FCR_FIFO_CLEAR :: u8 where "FCR_FIFO_CLEAR = 6"

lemmas uart_consts [c_defs] = UART_TX_BUF_SIZE_def THR_def IER_def FCR_def LCR_def LCR_EIGHT_BITS_def
  LCR_BAUD_LATCH_def IER_RX_ENABLE_def IER_TX_ENABLE_def FCR_FIFO_ENABLE_def FCR_FIFO_CLEAR_def

text \<open>A store to register 0 sends a byte, unless the divisor latch is selected.\<close>

definition WriteReg :: "nat \<Rightarrow> u8 \<Rightarrow> 'z kdev_scheme \<Rightarrow> 'z kdev_scheme" where
  "WriteReg reg v s =
     (if reg = THR \<and> uart_regs s LCR AND LCR_BAUD_LATCH = 0
      then s\<lparr>uart_out := uart_out s @ [v], uart_room := uart_room s - 1\<rparr>
      else s\<lparr>uart_regs := (uart_regs s)(reg := v)\<rparr>)"

definition uartinit :: "'z kdev_scheme \<Rightarrow> 'z kdev_scheme" where
  "uartinit s =
     (let s = WriteReg IER 0 s;
          s = WriteReg LCR LCR_BAUD_LATCH s;
          s = WriteReg 0 0x03 s;
          s = WriteReg 1 0x00 s;
          s = WriteReg LCR LCR_EIGHT_BITS s;
          s = WriteReg FCR (FCR_FIFO_ENABLE OR FCR_FIFO_CLEAR) s;
          s = WriteReg IER (IER_TX_ENABLE OR IER_RX_ENABLE) s
      in initlock L_uart ''uart'' s)"

section \<open>Polled output\<close>

text \<open>The wait for LSR_TX_IDLE ends when the device has drained: the store happens then.\<close>

definition uartputc_sync :: "u32 \<Rightarrow> 'z kdev_scheme \<Rightarrow> (unit, 'z kdev_scheme) kres" where
  "uartputc_sync c s =
     (let s = push_off s
      in if panicked s then Hang else pop_off (WriteReg THR (ucast c) s))"

definition BACKSPACE :: u32 where "BACKSPACE = 0x100"

definition consputc :: "u32 \<Rightarrow> 'z kdev_scheme \<Rightarrow> (unit, 'z kdev_scheme) kres" where
  "consputc c s =
     (if c = BACKSPACE
      then bindr (uartputc_sync 8 s) (\<lambda>_ s. bindr (uartputc_sync 32 s) (\<lambda>_ s. uartputc_sync 8 s))
      else uartputc_sync c s)"

definition consputs :: "u8 list \<Rightarrow> 'z kdev_scheme \<Rightarrow> (unit, 'z kdev_scheme) kres" where
  "consputs cs s = each_res (\<lambda>c. consputc (ucast c)) cs s"

section \<open>Formatted output\<close>

definition digits :: "u8 list" where
  "digits = bytes_of ''0123456789abcdef''"

text \<open>The digit loop of \<open>printint\<close>, least significant digit first, into a buffer with room for \<open>k\<close> more
  characters; \<open>None\<close> if it overflows.\<close>

fun digit_loop :: "u8 list \<Rightarrow> nat \<Rightarrow> u32 \<Rightarrow> u32 \<Rightarrow> u8 list option" where
  "digit_loop ds 0 x base = None"
| "digit_loop ds (Suc k) x base =
     (let d = ds ! unat (x mod base); x = x div base
      in if x \<noteq> 0 then map_option ((#) d) (digit_loop ds k x base) else Some [d])"

definition int_chars :: "u8 list \<Rightarrow> u32 \<Rightarrow> u32 \<Rightarrow> bool \<Rightarrow> u8 list option" where
  "int_chars ds xx base sign =
     (let neg = sign \<and> sint xx < 0;
          x = (if neg then - xx else xx)
      in case digit_loop ds 16 x base of None \<Rightarrow> None
         | Some buf \<Rightarrow> if neg then if length buf < 16 then Some (rev (buf @ [0x2d])) else None
                     else Some (rev buf))"

definition printint :: "u32 \<Rightarrow> u32 \<Rightarrow> bool \<Rightarrow> 'z kdev_scheme \<Rightarrow> (unit, 'z kdev_scheme) kres" where
  "printint xx base sign s =
     bindr (of_option (int_chars digits xx base sign) s) (\<lambda>cs s. consputs cs s)"

fun ptr_digits :: "nat \<Rightarrow> u64 \<Rightarrow> u8 list" where
  "ptr_digits 0 x = []"
| "ptr_digits (Suc n) x = digits ! unat (drop_bit 60 x) # ptr_digits n (push_bit 4 x)"

definition printptr :: "u64 \<Rightarrow> 'z kdev_scheme \<Rightarrow> (unit, 'z kdev_scheme) kres" where
  "printptr x s = consputs (bytes_of ''0x'' @ ptr_digits 16 x) s"

datatype vararg = V_int u32 | V_ptr u64 | V_str "u8 list option"

text \<open>The format loop.  A conversion without an argument of its type is undefined in C.\<close>

fun format_loop :: "u8 list \<Rightarrow> vararg list \<Rightarrow> 'z kdev_scheme \<Rightarrow> (unit, 'z kdev_scheme) kres" where
  "format_loop [] ap s = Ok () s"
| "format_loop (c # fmt) ap s =
     (if c = 0 then Ok () s
      else if c \<noteq> of_char CHR ''%'' then bindr (consputc (ucast c) s) (\<lambda>_ s. format_loop fmt ap s)
      else case fmt of [] \<Rightarrow> Ok () s
        | c # fmt \<Rightarrow>
          if c = 0 then Ok () s
          else if c = of_char CHR ''d'' then
            (case ap of V_int x # ap \<Rightarrow> bindr (printint x 10 True s) (\<lambda>_ s. format_loop fmt ap s) | _ \<Rightarrow> Hang)
          else if c = of_char CHR ''x'' then
            (case ap of V_int x # ap \<Rightarrow> bindr (printint x 16 True s) (\<lambda>_ s. format_loop fmt ap s) | _ \<Rightarrow> Hang)
          else if c = of_char CHR ''p'' then
            (case ap of V_ptr x # ap \<Rightarrow> bindr (printptr x s) (\<lambda>_ s. format_loop fmt ap s) | _ \<Rightarrow> Hang)
          else if c = of_char CHR ''s'' then
            (case ap of V_str x # ap \<Rightarrow>
               bindr (consputs (case x of None \<Rightarrow> bytes_of ''(null)'' | Some cs \<Rightarrow> takeWhile (\<lambda>c. c \<noteq> 0) cs) s)
                 (\<lambda>_ s. format_loop fmt ap s) | _ \<Rightarrow> Hang)
          else if c = of_char CHR ''%'' then
            bindr (consputc (of_char CHR ''%'') s) (\<lambda>_ s. format_loop fmt ap s)
          else bindr (consputc (of_char CHR ''%'') s) (\<lambda>_ s.
               bindr (consputc (ucast c) s) (\<lambda>_ s. format_loop fmt ap s)))"

definition printf :: "u8 list option \<Rightarrow> vararg list \<Rightarrow> 'z kdev_scheme \<Rightarrow> (unit, 'z kdev_scheme) kres" where
  "printf fmt ap s =
     (let locking = pr_locking s
      in bindr (if locking then acquire L_pr s else Ok () s) (\<lambda>_ s.
         case fmt of None \<Rightarrow> Panic ''null fmt''
         | Some fmt \<Rightarrow> bindr (format_loop fmt ap s) (\<lambda>_ s.
             if locking then release L_pr s else Ok () s)))"

abbreviation kprintf :: "string \<Rightarrow> vararg list \<Rightarrow> 'z kdev_scheme \<Rightarrow> (unit, 'z kdev_scheme) kres" where
  "kprintf fmt ap s \<equiv> printf (Some (bytes_of fmt)) ap s"

text \<open>What \<open>panic\<close> does before it spins for ever; the operations of the model stop with \<open>Panic\<close> instead.\<close>

definition panic :: "string \<Rightarrow> 'z kdev_scheme \<Rightarrow> (unit, 'z kdev_scheme) kres" where
  "panic msg s =
     bindr (kprintf ''panic: '' [] (s\<lparr>pr_locking := False\<rparr>)) (\<lambda>_ s.
     bindr (kprintf msg [] s) (\<lambda>_ s.
     bindr (kprintf [CHR 0x0A] [] s) (\<lambda>_ s. Ok () (s\<lparr>panicked := True\<rparr>))))"

definition printfinit :: "'z kdev_scheme \<Rightarrow> 'z kdev_scheme" where
  "printfinit s = (initlock L_pr ''pr'' s)\<lparr>pr_locking := True\<rparr>"

end
