(* ===== verification/Proc.thy ===== *)
theory Proc
  imports Kprintf
begin

text \<open>
  \<^verbatim>\<open>kernel/proc.c\<close> without the functions that call into the file system (those are in
  \<^verbatim>\<open>Procfs\<close>).  \<open>procs\<close> is the process table; a pointer into it is an index.  The trapframe is memory, the page
  \<open>p_trapframe\<close> points to.

  \<^verbatim>\<open>swtch\<close> saves one register context and loads another.  A function that calls \<open>sched\<close> is cut there: the
  part up to \<^verbatim>\<open>swtch\<close> ends in the state in which the scheduler takes over (\<open>Block\<close> when the process
  sleeps), and the part after it is a definition of its own (\<open>sched_return\<close>, \<open>sleep_return\<close>,
  \<open>yield_return\<close>) that runs when the scheduler switches back.  The local variable \<open>intena\<close> of \<open>sched\<close>
  stays on the process's kernel stack meanwhile; it is the field \<open>p_intena\<close>.  A load through a null process
  pointer traps in the kernel, which panics with \<^verbatim>\<open>kerneltrap\<close>.
\<close>

section \<open>State\<close>

datatype procstate = UNUSED | USED | SLEEPING | RUNNABLE | RUNNING | ZOMBIE

record kcontext =
  ctx_ra :: u64
  ctx_sp :: u64
  ctx_s :: "u64 list"

record proc =
  p_state :: procstate
  p_chan :: "chan option"
  p_killed :: u32
  p_xstate :: u32
  p_pid :: u32
  p_parent :: "nat option"
  p_kstack :: u64
  p_sz :: u64
  p_pagetable :: u64
  p_trapframe :: u64
  p_context :: kcontext
  p_ofile :: "nat option list"
  p_cwd :: "nat option"
  p_name :: "u8 list"
  p_intena :: bool

record kproc = kdev +
  procs :: "nat \<Rightarrow> proc"
  initproc :: "nat option"
  nextpid :: u32
  sym_forkret :: u64

definition upd_proc :: "nat \<Rightarrow> (proc \<Rightarrow> proc) \<Rightarrow> 'z kproc_scheme \<Rightarrow> 'z kproc_scheme" where
  "upd_proc p f s = s\<lparr>procs := (procs s)(p := f (procs s p))\<rparr>"

datatype trapframe_reg =
    T_kernel_satp | T_kernel_sp | T_kernel_trap | T_epc | T_kernel_hartid
  | T_ra | T_sp | T_gp | T_tp | T_t0 | T_t1 | T_t2 | T_s0 | T_s1
  | T_a0 | T_a1 | T_a2 | T_a3 | T_a4 | T_a5 | T_a6 | T_a7
  | T_s2 | T_s3 | T_s4 | T_s5 | T_s6 | T_s7 | T_s8 | T_s9 | T_s10 | T_s11
  | T_t3 | T_t4 | T_t5 | T_t6

fun tf_offset :: "trapframe_reg \<Rightarrow> u64" where
  "tf_offset T_kernel_satp = 0" | "tf_offset T_kernel_sp = 8" | "tf_offset T_kernel_trap = 16"
| "tf_offset T_epc = 24" | "tf_offset T_kernel_hartid = 32" | "tf_offset T_ra = 40"
| "tf_offset T_sp = 48" | "tf_offset T_gp = 56" | "tf_offset T_tp = 64" | "tf_offset T_t0 = 72"
| "tf_offset T_t1 = 80" | "tf_offset T_t2 = 88" | "tf_offset T_s0 = 96" | "tf_offset T_s1 = 104"
| "tf_offset T_a0 = 112" | "tf_offset T_a1 = 120" | "tf_offset T_a2 = 128" | "tf_offset T_a3 = 136"
| "tf_offset T_a4 = 144" | "tf_offset T_a5 = 152" | "tf_offset T_a6 = 160" | "tf_offset T_a7 = 168"
| "tf_offset T_s2 = 176" | "tf_offset T_s3 = 184" | "tf_offset T_s4 = 192" | "tf_offset T_s5 = 200"
| "tf_offset T_s6 = 208" | "tf_offset T_s7 = 216" | "tf_offset T_s8 = 224" | "tf_offset T_s9 = 232"
| "tf_offset T_s10 = 240" | "tf_offset T_s11 = 248" | "tf_offset T_t3 = 256" | "tf_offset T_t4 = 264"
| "tf_offset T_t5 = 272" | "tf_offset T_t6 = 280"

definition sizeof_trapframe :: nat where "sizeof_trapframe = 288"

definition tf_get :: "u64 \<Rightarrow> trapframe_reg \<Rightarrow> 'z machine_scheme \<Rightarrow> u64" where
  "tf_get tf r s = load64 (mem s) (tf + tf_offset r)"

definition tf_set :: "u64 \<Rightarrow> trapframe_reg \<Rightarrow> u64 \<Rightarrow> 'z machine_scheme \<Rightarrow> 'z machine_scheme" where
  "tf_set tf r v s = s\<lparr>mem := store64 (mem s) (tf + tf_offset r) v\<rparr>"

section \<open>The process table\<close>

definition procinit :: "'z kproc_scheme \<Rightarrow> 'z kproc_scheme" where
  "procinit s =
     fold (\<lambda>p s. upd_proc p (\<lambda>q. q\<lparr>p_state := UNUSED, p_kstack := KSTACK p\<rparr>) (initlock (L_proc p) ''proc'' s))
       [0..<NPROC] (initlock L_wait ''wait_lock'' (initlock L_pid ''nextpid'' s))"

definition cpuid :: "'z machine_scheme \<Rightarrow> nat" where
  "cpuid s = tp s"

definition myproc :: "'z machine_scheme \<Rightarrow> (nat option, 'z machine_scheme) kres" where
  "myproc s =
     (let s = push_off s; p = cproc (mycpu s)
      in bindr (pop_off s) (\<lambda>_ s. Ok p s))"

definition curproc :: "'z machine_scheme \<Rightarrow> (nat, 'z machine_scheme) kres" where
  "curproc s = bindr (myproc s) (\<lambda>p s. case p of None \<Rightarrow> Panic ''kerneltrap'' | Some p \<Rightarrow> Ok p s)"

definition allocpid :: "'z kproc_scheme \<Rightarrow> (u32, 'z kproc_scheme) kres" where
  "allocpid s =
     bindr (acquire L_pid s) (\<lambda>_ s.
     let pid = nextpid s; s = s\<lparr>nextpid := nextpid s + 1\<rparr>
     in bindr (release L_pid s) (\<lambda>_ s. Ok pid s))"

definition proc_pagetable :: "nat \<Rightarrow> 'z kproc_scheme \<Rightarrow> (u64, 'z kproc_scheme) kres" where
  "proc_pagetable p s =
     bindr (uvmcreate s) (\<lambda>pt s.
     if pt = 0 then Ok 0 s
     else bindr (mappages pt TRAMPOLINE PGSIZE (sym_trampoline s) (PTE_R OR PTE_X) s) (\<lambda>r s.
     if r < 0 then bindr (uvmfree pt 0 s) (\<lambda>_ s. Ok 0 s)
     else bindr (mappages pt TRAPFRAME PGSIZE (p_trapframe (procs s p)) (PTE_R OR PTE_W) s) (\<lambda>r s.
     if r < 0 then bindr (uvmunmap pt TRAMPOLINE 1 False s) (\<lambda>_ s. bindr (uvmfree pt 0 s) (\<lambda>_ s. Ok 0 s))
     else Ok pt s)))"

definition proc_freepagetable :: "u64 \<Rightarrow> u64 \<Rightarrow> 'z kmem_scheme \<Rightarrow> (unit, 'z kmem_scheme) kres" where
  "proc_freepagetable pt sz s =
     bindr (uvmunmap pt TRAMPOLINE 1 False s) (\<lambda>_ s.
     bindr (uvmunmap pt TRAPFRAME 1 False s) (\<lambda>_ s. uvmfree pt sz s))"

definition freeproc :: "nat \<Rightarrow> 'z kproc_scheme \<Rightarrow> (unit, 'z kproc_scheme) kres" where
  "freeproc p s =
     bindr (if p_trapframe (procs s p) \<noteq> 0 then kfree (p_trapframe (procs s p)) s else Ok () s) (\<lambda>_ s.
     let s = upd_proc p (\<lambda>q. q\<lparr>p_trapframe := 0\<rparr>) s
     in bindr (if p_pagetable (procs s p) \<noteq> 0
               then proc_freepagetable (p_pagetable (procs s p)) (p_sz (procs s p)) s else Ok () s) (\<lambda>_ s.
        Ok () (upd_proc p (\<lambda>q. q\<lparr>p_pagetable := 0, p_sz := 0, p_pid := 0, p_parent := None,
          p_name := (p_name q)[0 := 0], p_chan := None, p_killed := 0, p_xstate := 0, p_state := UNUSED\<rparr>) s)))"

text \<open>The part of \<open>allocproc\<close> after the label \<open>found\<close>: the lock of \<open>p\<close> is held, and stays held when the call
  succeeds.\<close>

definition allocproc_found :: "nat \<Rightarrow> 'z kproc_scheme \<Rightarrow> (nat option, 'z kproc_scheme) kres" where
  "allocproc_found p s =
     bindr (allocpid s) (\<lambda>pid s.
     let s = upd_proc p (\<lambda>q. q\<lparr>p_pid := pid, p_state := USED\<rparr>) s
     in bindr (kalloc s) (\<lambda>tf s.
        let s = upd_proc p (\<lambda>q. q\<lparr>p_trapframe := tf\<rparr>) s
        in if tf = 0
           then bindr (freeproc p s) (\<lambda>_ s. bindr (release (L_proc p) s) (\<lambda>_ s. Ok None s))
           else bindr (proc_pagetable p s) (\<lambda>pt s.
             let s = upd_proc p (\<lambda>q. q\<lparr>p_pagetable := pt\<rparr>) s
             in if pt = 0
                then bindr (freeproc p s) (\<lambda>_ s. bindr (release (L_proc p) s) (\<lambda>_ s. Ok None s))
                else Ok (Some p) (upd_proc p (\<lambda>q. q\<lparr>p_context :=
                       \<lparr>ctx_ra = sym_forkret s, ctx_sp = p_kstack q + PGSIZE, ctx_s = replicate 12 0\<rparr>\<rparr>) s))))"

definition allocproc :: "'z kproc_scheme \<Rightarrow> (nat option, 'z kproc_scheme) kres" where
  "allocproc s =
     bindr (scan_res (\<lambda>p s. bindr (acquire (L_proc p) s) (\<lambda>_ s.
         if p_state (procs s p) = UNUSED then Ok (Some p) s
         else bindr (release (L_proc p) s) (\<lambda>_ s. Ok None s))) [0..<NPROC] s) (\<lambda>r s.
       case r of None \<Rightarrow> Ok None s | Some p \<Rightarrow> allocproc_found p s)"

definition growproc :: "u32 \<Rightarrow> 'z kproc_scheme \<Rightarrow> (int, 'z kproc_scheme) kres" where
  "growproc n s =
     bindr (curproc s) (\<lambda>p s.
     let sz = p_sz (procs s p); pt = p_pagetable (procs s p)
     in if 0 < sint n then
          bindr (uvmalloc pt sz (sz + scast n) PTE_W s) (\<lambda>sz s.
            if sz = 0 then Ok (- 1) s else Ok 0 (upd_proc p (\<lambda>q. q\<lparr>p_sz := sz\<rparr>) s))
        else if sint n < 0 then
          bindr (uvmdealloc pt sz (sz + scast n) s) (\<lambda>sz s. Ok 0 (upd_proc p (\<lambda>q. q\<lparr>p_sz := sz\<rparr>) s))
        else Ok 0 (upd_proc p (\<lambda>q. q\<lparr>p_sz := sz\<rparr>) s))"

section \<open>Scheduling\<close>

text \<open>\<open>sched\<close> up to \<^verbatim>\<open>swtch\<close>, and what is left of it afterwards.\<close>

definition sched :: "'z kproc_scheme \<Rightarrow> (unit, 'z kproc_scheme) kres" where
  "sched s =
     bindr (curproc s) (\<lambda>p s.
     if \<not> holding (L_proc p) s then Panic ''sched p->lock''
     else if noff (mycpu s) \<noteq> 1 then Panic ''sched locks''
     else if p_state (procs s p) = RUNNING then Panic ''sched running''
     else if intr_get s then Panic ''sched interruptible''
     else Ok () (upd_proc p (\<lambda>q. q\<lparr>p_intena := intena (mycpu s)\<rparr>) s))"

definition sched_return :: "nat \<Rightarrow> 'z kproc_scheme \<Rightarrow> 'z kproc_scheme" where
  "sched_return p s = set_mycpu ((mycpu s)\<lparr>intena := p_intena (procs s p)\<rparr>) s"

definition yield :: "'z kproc_scheme \<Rightarrow> ('a, 'z kproc_scheme) kres" where
  "yield s =
     bindr (curproc s) (\<lambda>p s.
     bindr (acquire (L_proc p) s) (\<lambda>_ s.
     bindr (sched (upd_proc p (\<lambda>q. q\<lparr>p_state := RUNNABLE\<rparr>) s)) (\<lambda>_ s. Block Ch_yield s)))"

definition yield_return :: "nat \<Rightarrow> 'z kproc_scheme \<Rightarrow> (unit, 'z kproc_scheme) kres" where
  "yield_return p s = release (L_proc p) (sched_return p s)"

definition sleep :: "chan \<Rightarrow> lockid \<Rightarrow> 'z kproc_scheme \<Rightarrow> ('a, 'z kproc_scheme) kres" where
  "sleep ch lk s =
     bindr (curproc s) (\<lambda>p s.
     bindr (acquire (L_proc p) s) (\<lambda>_ s.
     bindr (release lk s) (\<lambda>_ s.
     bindr (sched (upd_proc p (\<lambda>q. q\<lparr>p_chan := Some ch, p_state := SLEEPING\<rparr>) s)) (\<lambda>_ s. Block ch s))))"

definition sleep_return :: "nat \<Rightarrow> lockid \<Rightarrow> 'z kproc_scheme \<Rightarrow> (unit, 'z kproc_scheme) kres" where
  "sleep_return p lk s =
     bindr (release (L_proc p) (upd_proc p (\<lambda>q. q\<lparr>p_chan := None\<rparr>) (sched_return p s))) (\<lambda>_ s.
     acquire lk s)"

definition wakeup :: "chan option \<Rightarrow> 'z kproc_scheme \<Rightarrow> (unit, 'z kproc_scheme) kres" where
  "wakeup ch s =
     each_res (\<lambda>p s.
       bindr (myproc s) (\<lambda>me s.
       if me = Some p then Ok () s
       else bindr (acquire (L_proc p) s) (\<lambda>_ s.
         release (L_proc p)
           (if p_state (procs s p) = SLEEPING \<and> p_chan (procs s p) = ch
            then upd_proc p (\<lambda>q. q\<lparr>p_state := RUNNABLE\<rparr>) s else s)))) [0..<NPROC] s"

text \<open>One round of the inner loop of \<open>scheduler\<close> for slot \<open>p\<close>: it either switches to \<open>p\<close>, whose lock is then
  held, or passes on; and what the scheduler does when \<open>p\<close> switches back.\<close>

definition scheduler_pick :: "nat \<Rightarrow> 'z kproc_scheme \<Rightarrow> (bool, 'z kproc_scheme) kres" where
  "scheduler_pick p s =
     bindr (acquire (L_proc p) s) (\<lambda>_ s.
     if p_state (procs s p) = RUNNABLE
     then let s = upd_proc p (\<lambda>q. q\<lparr>p_state := RUNNING\<rparr>) s
          in Ok True (set_mycpu ((mycpu s)\<lparr>cproc := Some p\<rparr>) s)
     else bindr (release (L_proc p) s) (\<lambda>_ s. Ok False s))"

definition scheduler_back :: "nat \<Rightarrow> 'z kproc_scheme \<Rightarrow> (unit, 'z kproc_scheme) kres" where
  "scheduler_back p s = release (L_proc p) (set_mycpu ((mycpu s)\<lparr>cproc := None\<rparr>) s)"

definition scheduler_start :: "'z kproc_scheme \<Rightarrow> 'z kproc_scheme" where
  "scheduler_start s = set_mycpu ((mycpu s)\<lparr>cproc := None\<rparr>) s"

text \<open>The scheduler from slot \<open>i\<close> to the end of the table: the process it switches to, if any.\<close>

definition scheduler_scan :: "nat \<Rightarrow> 'z kproc_scheme \<Rightarrow> (nat option, 'z kproc_scheme) kres" where
  "scheduler_scan i s =
     scan_res (\<lambda>p s. bindr (scheduler_pick p s) (\<lambda>r s. Ok (if r then Some p else None) s)) [i..<NPROC] s"

text \<open>\<open>k\<close> turns of the scheduler's loops from slot \<open>i\<close> on: the processes it switches to.  \<open>run p\<close> is whatever
  happens between the switch to \<open>p\<close> and the switch back.\<close>

fun scheduler_run ::
    "(nat \<Rightarrow> 'z kproc_scheme \<Rightarrow> 'z kproc_scheme) \<Rightarrow> nat \<Rightarrow> nat \<Rightarrow> 'z kproc_scheme \<Rightarrow> nat list" where
  "scheduler_run run 0 i s = []"
| "scheduler_run run (Suc k) i s =
     (case scheduler_scan i s of
        Ok (Some p) s \<Rightarrow>
          p # (case scheduler_back p (run p s) of Ok _ s \<Rightarrow> scheduler_run run k (Suc p) s | _ \<Rightarrow> [])
      | Ok None s \<Rightarrow> scheduler_run run k 0 (intr_on s)
      | _ \<Rightarrow> [])"

section \<open>Killing, reparenting and waiting\<close>

definition kill :: "u32 \<Rightarrow> 'z kproc_scheme \<Rightarrow> (int, 'z kproc_scheme) kres" where
  "kill pid s =
     bindr (scan_res (\<lambda>p s. bindr (acquire (L_proc p) s) (\<lambda>_ s.
         if p_pid (procs s p) = pid
         then let s = upd_proc p (\<lambda>q. q\<lparr>p_killed := 1\<rparr>) s;
                  s = (if p_state (procs s p) = SLEEPING then upd_proc p (\<lambda>q. q\<lparr>p_state := RUNNABLE\<rparr>) s else s)
              in bindr (release (L_proc p) s) (\<lambda>_ s. Ok (Some 0) s)
         else bindr (release (L_proc p) s) (\<lambda>_ s. Ok None s))) [0..<NPROC] s) (\<lambda>r s.
       Ok (case r of None \<Rightarrow> - 1 | Some x \<Rightarrow> x) s)"

definition setkilled :: "nat \<Rightarrow> 'z kproc_scheme \<Rightarrow> (unit, 'z kproc_scheme) kres" where
  "setkilled p s =
     bindr (acquire (L_proc p) s) (\<lambda>_ s. release (L_proc p) (upd_proc p (\<lambda>q. q\<lparr>p_killed := 1\<rparr>) s))"

definition killed :: "nat \<Rightarrow> 'z kproc_scheme \<Rightarrow> (u32, 'z kproc_scheme) kres" where
  "killed p s =
     bindr (acquire (L_proc p) s) (\<lambda>_ s.
     let k = p_killed (procs s p) in bindr (release (L_proc p) s) (\<lambda>_ s. Ok k s))"

definition reparent :: "nat \<Rightarrow> 'z kproc_scheme \<Rightarrow> (unit, 'z kproc_scheme) kres" where
  "reparent p s =
     each_res (\<lambda>pp s.
       if p_parent (procs s pp) = Some p
       then let s = upd_proc pp (\<lambda>q. q\<lparr>p_parent := initproc s\<rparr>) s in wakeup (map_option Ch_proc (initproc s)) s
       else Ok () s) [0..<NPROC] s"

text \<open>The scan of \<open>wait\<close> over the table.  \<open>Inl havekids\<close>: no zombie child found; \<open>Inr r\<close>: the call returns \<open>r\<close>
  (\<open>wait_lock\<close> already released).\<close>

fun wait_scan :: "nat \<Rightarrow> u64 \<Rightarrow> nat list \<Rightarrow> bool \<Rightarrow> 'z kproc_scheme \<Rightarrow> (bool + u32, 'z kproc_scheme) kres" where
  "wait_scan p addr [] havekids s = Ok (Inl havekids) s"
| "wait_scan p addr (pp # pps) havekids s =
     (if p_parent (procs s pp) = Some p then
        bindr (acquire (L_proc pp) s) (\<lambda>_ s.
        if p_state (procs s pp) = ZOMBIE then
          let pid = p_pid (procs s pp)
          in bindr (if addr \<noteq> 0
                    then copyout (p_pagetable (procs s p)) addr (to_le 4 (p_xstate (procs s pp))) s
                    else Ok 0 s) (\<lambda>r s.
             if r < 0
             then bindr (release (L_proc pp) s) (\<lambda>_ s. bindr (release L_wait s) (\<lambda>_ s. Ok (Inr (- 1)) s))
             else bindr (freeproc pp s) (\<lambda>_ s.
                  bindr (release (L_proc pp) s) (\<lambda>_ s. bindr (release L_wait s) (\<lambda>_ s. Ok (Inr pid) s))))
        else bindr (release (L_proc pp) s) (\<lambda>_ s. wait_scan p addr pps True s))
      else wait_scan p addr pps havekids s)"

text \<open>One turn of the loop of \<open>wait\<close>, entered with \<open>wait_lock\<close> held; \<open>wait\<close> runs its first turn, and the turn
  runs again after each wakeup.\<close>

definition wait_turn :: "nat \<Rightarrow> u64 \<Rightarrow> 'z kproc_scheme \<Rightarrow> (u32, 'z kproc_scheme) kres" where
  "wait_turn p addr s =
     bindr (wait_scan p addr [0..<NPROC] False s) (\<lambda>r s.
       case r of Inr pid \<Rightarrow> Ok pid s
       | Inl havekids \<Rightarrow>
           if \<not> havekids then bindr (release L_wait s) (\<lambda>_ s. Ok (- 1) s)
           else bindr (killed p s) (\<lambda>k s.
             if k \<noteq> 0 then bindr (release L_wait s) (\<lambda>_ s. Ok (- 1) s)
             else sleep (Ch_proc p) L_wait s))"

definition wait :: "u64 \<Rightarrow> 'z kproc_scheme \<Rightarrow> (u32, 'z kproc_scheme) kres" where
  "wait addr s =
     bindr (curproc s) (\<lambda>p s. bindr (acquire L_wait s) (\<lambda>_ s. wait_turn p addr s))"

section \<open>Copying to and from the kernel\<close>

text \<open>A destination or source of \<open>either_copyout\<close> and \<open>either_copyin\<close>: a user virtual address, a kernel address in
  physical memory, or a kernel object, whose bytes the caller keeps.\<close>

datatype kdst = To_user u64 | To_mem u64 | To_obj

datatype ksrc = From_user u64 | From_mem u64 | From_obj "u8 list"

definition either_copyout :: "kdst \<Rightarrow> u8 list \<Rightarrow> 'z kproc_scheme \<Rightarrow> (int, 'z kproc_scheme) kres" where
  "either_copyout dst src s =
     bindr (myproc s) (\<lambda>p s.
     case dst of
       To_user a \<Rightarrow> (case p of None \<Rightarrow> Panic ''kerneltrap'' | Some p \<Rightarrow> copyout (p_pagetable (procs s p)) a src s)
     | To_mem a \<Rightarrow> Ok 0 (s\<lparr>mem := wr (mem s) a src\<rparr>)
     | To_obj \<Rightarrow> Ok 0 s)"

definition either_copyin :: "ksrc \<Rightarrow> nat \<Rightarrow> 'z kproc_scheme \<Rightarrow> (int \<times> u8 list, 'z kproc_scheme) kres" where
  "either_copyin src n s =
     bindr (myproc s) (\<lambda>p s.
     case src of
       From_user a \<Rightarrow> (case p of None \<Rightarrow> Panic ''kerneltrap'' | Some p \<Rightarrow> copyin (p_pagetable (procs s p)) a n s)
     | From_mem a \<Rightarrow> Ok (0, rd (mem s) a n) s
     | From_obj bs \<Rightarrow> if n \<le> length bs then Ok (0, take n bs) s else Hang)"

fun kdst_plus :: "kdst \<Rightarrow> nat \<Rightarrow> kdst" where
  "kdst_plus (To_user a) n = To_user (a + of_nat n)"
| "kdst_plus (To_mem a) n = To_mem (a + of_nat n)"
| "kdst_plus To_obj n = To_obj"

fun ksrc_plus :: "ksrc \<Rightarrow> nat \<Rightarrow> ksrc" where
  "ksrc_plus (From_user a) n = From_user (a + of_nat n)"
| "ksrc_plus (From_mem a) n = From_mem (a + of_nat n)"
| "ksrc_plus (From_obj bs) n = From_obj (drop n bs)"

fun state_name :: "procstate \<Rightarrow> string" where
  "state_name UNUSED = ''unused''"
| "state_name USED = ''used''"
| "state_name SLEEPING = ''sleep ''"
| "state_name RUNNABLE = ''runble''"
| "state_name RUNNING = ''run   ''"
| "state_name ZOMBIE = ''zombie''"

definition procdump :: "'z kproc_scheme \<Rightarrow> (unit, 'z kproc_scheme) kres" where
  "procdump s =
     bindr (kprintf [CHR 0x0A] [] s) (\<lambda>_ s.
     each_res (\<lambda>p s.
       if p_state (procs s p) = UNUSED then Ok () s
       else bindr (kprintf ''%d %s %s'' [V_int (p_pid (procs s p)),
              V_str (Some (bytes_of (state_name (p_state (procs s p))))), V_str (Some (p_name (procs s p)))] s) (\<lambda>_ s.
            kprintf [CHR 0x0A] [] s)) [0..<NPROC] s)"

end
