(* ===== verification/Lockset.thy ===== *)
theory Lockset
  imports Proc
begin

text \<open>
  Reasoning about critical sections.  A CPU is \<open>settled\<close> when its nesting depth, its interrupt bit and its record of
  that bit agree, which is how every matched pair of \<open>acquire\<close> and \<open>release\<close> leaves it; then taking a lock and
  releasing it again gives the same state back.  Stores to other fields commute with all lock operations, so the
  simplifier moves them out of a critical section.
\<close>

definition map_state :: "('s \<Rightarrow> 's) \<Rightarrow> ('a, 'c, 's) res \<Rightarrow> ('a, 'c, 's) res" where
  "map_state f r = (case r of Ok x s \<Rightarrow> Ok x (f s) | Panic m \<Rightarrow> Panic m | Block c s \<Rightarrow> Block c (f s) | Hang \<Rightarrow> Hang)"

lemma map_state_simps [simp]:
  "map_state f (Ok x s) = Ok x (f s)" "map_state f (Panic m) = Panic m"
  "map_state f (Block c s) = Block c (f s)" "map_state f Hang = Hang"
  by (simp_all add: map_state_def)

lemma map_state_Ok_iff: "map_state f r = Ok x t \<longleftrightarrow> (\<exists>s. r = Ok x s \<and> t = f s)"
  by (cases r) auto

definition settled :: "'z machine_scheme \<Rightarrow> bool" where
  "settled s \<longleftrightarrow> 0 \<le> noff (cpus s (tp s)) \<and> (0 < noff (cpus s (tp s)) \<longrightarrow> \<not> sie s (tp s))
     \<and> (noff (cpus s (tp s)) = 0 \<longrightarrow> intena (cpus s (tp s)) = sie s (tp s))"

lemma settled_cpu_ok: "settled s \<Longrightarrow> cpu_ok s"
  by (auto simp: settled_def cpu_ok_def lock_defs)

lemma intena_idem: "intena c = x \<Longrightarrow> c\<lparr>intena := x\<rparr> = c" for c :: cpu
  by (cases c) simp

lemma cpu_idem: "noff c = n \<Longrightarrow> intena c = x \<Longrightarrow> c\<lparr>intena := x, noff := n\<rparr> = c" for c :: cpu
  by (cases c) simp

lemma settled_touch: "settled s \<Longrightarrow> touch s = s"
  by (simp add: settled_def touch_def lock_defs intena_idem)

lemma touch_settled: "cpu_ok s \<Longrightarrow> settled (touch s)"
  by (auto simp: settled_def touch_def cpu_ok_def lock_defs)

lemma settled_take_lock [simp]: "settled s \<Longrightarrow> settled (take_lock l s)"
  by (auto simp: settled_def take_lock_def push_off_eq lock_defs)

lemma release_take_lock [simp]:
  assumes "unheld l s" "settled s"
  shows "release l (take_lock l s) = Ok () s"
  using critical_section [of l s "\<lambda>s. s"] assms by (simp add: settled_cpu_ok settled_touch)

lemma take_lock_commute: "l \<noteq> k \<Longrightarrow> take_lock l (take_lock k s) = take_lock k (take_lock l s)"
  by (simp add: take_lock_def push_off_eq lock_defs fun_upd_twist)

lemma release_take_other [simp]:
  assumes "l \<noteq> k" "unheld l s" "settled s"
  shows "release l (take_lock k (take_lock l s)) = Ok () (take_lock k s)"
  using assms by (simp add: take_lock_commute [of k l])

lemma pop_push: "settled s \<Longrightarrow> pop_off (push_off s) = Ok () s"
proof -
  assume st: "settled s"
  let ?c = "cpus s (tp s)"
  show ?thesis
  proof (cases "noff ?c = 0")
    case True
    have "(sie s)(tp s := intena ?c) = sie s" using st True by (auto simp: settled_def)
    then show ?thesis using st True
      by (cases "sie s (tp s)") (auto simp: settled_def push_off_eq pop_off_def Let_def lock_defs cpu_idem)
  next
    case False
    then have "(sie s)(tp s := False) = sie s" using st by (auto simp: settled_def fun_eq_iff)
    then show ?thesis using st False
      by (auto simp: settled_def push_off_eq pop_off_def Let_def lock_defs cpu_idem)
  qed
qed

lemma myproc_settled [simp]: "settled s \<Longrightarrow> myproc s = Ok (cproc (cpus s (tp s))) s"
  using pop_push [of s] by (simp add: myproc_def push_off_eq lock_defs Let_def)

lemma curproc_settled [simp]:
  "settled s \<Longrightarrow> cproc (cpus s (tp s)) = Some p \<Longrightarrow> curproc s = Ok p s"
  by (simp add: curproc_def)

lemmas lock_op_defs = push_off_eq release_def holding_def pop_off_def lock_release_def set_owner_def Let_def lock_defs

lemma mem_lock [simp]:
  "mem (take_lock l s) = mem s"
  "take_lock l (s\<lparr>mem := x\<rparr>) = (take_lock l s)\<lparr>mem := x\<rparr>"
  "unheld l (s\<lparr>mem := x\<rparr>) = unheld l s" "settled (s\<lparr>mem := x\<rparr>) = settled s"
  "release l (s\<lparr>mem := x\<rparr>) = map_state (\<lambda>s. s\<lparr>mem := x\<rparr>) (release l s)"
  by (simp_all add: take_lock_def unheld_def settled_def lock_op_defs)

lemma freelist_lock [simp]:
  "freelist (take_lock l s) = freelist s"
  "take_lock l (s\<lparr>freelist := x\<rparr>) = (take_lock l s)\<lparr>freelist := x\<rparr>"
  "unheld l (s\<lparr>freelist := x\<rparr>) = unheld l s" "settled (s\<lparr>freelist := x\<rparr>) = settled s"
  "release l (s\<lparr>freelist := x\<rparr>) = map_state (\<lambda>s. s\<lparr>freelist := x\<rparr>) (release l s)"
  by (simp_all add: take_lock_def unheld_def settled_def lock_op_defs)

lemma procs_lock [simp]:
  "procs (take_lock l s) = procs s"
  "take_lock l (s\<lparr>procs := x\<rparr>) = (take_lock l s)\<lparr>procs := x\<rparr>"
  "unheld l (s\<lparr>procs := x\<rparr>) = unheld l s" "settled (s\<lparr>procs := x\<rparr>) = settled s"
  "release l (s\<lparr>procs := x\<rparr>) = map_state (\<lambda>s. s\<lparr>procs := x\<rparr>) (release l s)"
  by (simp_all add: take_lock_def unheld_def settled_def lock_op_defs)

lemma nextpid_lock [simp]:
  "nextpid (take_lock l s) = nextpid s"
  "take_lock l (s\<lparr>nextpid := x\<rparr>) = (take_lock l s)\<lparr>nextpid := x\<rparr>"
  "unheld l (s\<lparr>nextpid := x\<rparr>) = unheld l s" "settled (s\<lparr>nextpid := x\<rparr>) = settled s"
  "release l (s\<lparr>nextpid := x\<rparr>) = map_state (\<lambda>s. s\<lparr>nextpid := x\<rparr>) (release l s)"
  by (simp_all add: take_lock_def unheld_def settled_def lock_op_defs)

lemma initproc_lock [simp]:
  "initproc (take_lock l s) = initproc s"
  "take_lock l (s\<lparr>initproc := x\<rparr>) = (take_lock l s)\<lparr>initproc := x\<rparr>"
  "unheld l (s\<lparr>initproc := x\<rparr>) = unheld l s" "settled (s\<lparr>initproc := x\<rparr>) = settled s"
  "release l (s\<lparr>initproc := x\<rparr>) = map_state (\<lambda>s. s\<lparr>initproc := x\<rparr>) (release l s)"
  by (simp_all add: take_lock_def unheld_def settled_def lock_op_defs)

lemma uart_out_lock [simp]:
  "uart_out (take_lock l s) = uart_out s"
  "take_lock l (s\<lparr>uart_out := x\<rparr>) = (take_lock l s)\<lparr>uart_out := x\<rparr>"
  "unheld l (s\<lparr>uart_out := x\<rparr>) = unheld l s" "settled (s\<lparr>uart_out := x\<rparr>) = settled s"
  "release l (s\<lparr>uart_out := x\<rparr>) = map_state (\<lambda>s. s\<lparr>uart_out := x\<rparr>) (release l s)"
  by (simp_all add: take_lock_def unheld_def settled_def lock_op_defs)

lemma uart_room_lock [simp]:
  "uart_room (take_lock l s) = uart_room s"
  "take_lock l (s\<lparr>uart_room := x\<rparr>) = (take_lock l s)\<lparr>uart_room := x\<rparr>"
  "unheld l (s\<lparr>uart_room := x\<rparr>) = unheld l s" "settled (s\<lparr>uart_room := x\<rparr>) = settled s"
  "release l (s\<lparr>uart_room := x\<rparr>) = map_state (\<lambda>s. s\<lparr>uart_room := x\<rparr>) (release l s)"
  by (simp_all add: take_lock_def unheld_def settled_def lock_op_defs)

lemma uart_regs_lock [simp]:
  "uart_regs (take_lock l s) = uart_regs s"
  "take_lock l (s\<lparr>uart_regs := x\<rparr>) = (take_lock l s)\<lparr>uart_regs := x\<rparr>"
  "unheld l (s\<lparr>uart_regs := x\<rparr>) = unheld l s" "settled (s\<lparr>uart_regs := x\<rparr>) = settled s"
  "release l (s\<lparr>uart_regs := x\<rparr>) = map_state (\<lambda>s. s\<lparr>uart_regs := x\<rparr>) (release l s)"
  by (simp_all add: take_lock_def unheld_def settled_def lock_op_defs)

lemma upd_proc_lock [simp]:
  "take_lock l (upd_proc p f s) = upd_proc p f (take_lock l s)"
  "unheld l (upd_proc p f s) = unheld l s" "settled (upd_proc p f s) = settled s"
  "release l (upd_proc p f s) = map_state (upd_proc p f) (release l s)"
  by (simp_all add: upd_proc_def take_lock_def unheld_def settled_def lock_op_defs)

lemma upd_proc_simps [simp]:
  "procs (upd_proc p f s) = (procs s)(p := f (procs s p))" "cpus (upd_proc p f s) = cpus s" "tp (upd_proc p f s) = tp s"
  "sie (upd_proc p f s) = sie s" "locks (upd_proc p f s) = locks s" "mem (upd_proc p f s) = mem s"
  "freelist (upd_proc p f s) = freelist s" "nextpid (upd_proc p f s) = nextpid s" "initproc (upd_proc p f s) = initproc s"
  "sym_trampoline (upd_proc p f s) = sym_trampoline s" "sym_forkret (upd_proc p f s) = sym_forkret s"
  by (simp_all add: upd_proc_def)

lemma upd_proc_eq_upd: "upd_proc p f s = s\<lparr>procs := (procs s)(p := f (procs s p))\<rparr>"
  by (simp add: upd_proc_def)

lemma upd_proc_twice [simp]: "upd_proc p f (upd_proc p g s) = upd_proc p (\<lambda>q. f (g q)) s"
  by (simp add: upd_proc_def)

lemma upd_proc_same: "f (procs s p) = procs s p \<Longrightarrow> upd_proc p f s = s"
  by (simp add: upd_proc_def)

section \<open>Loops\<close>

text \<open>A scan whose body leaves the state alone until it finds something is a search.\<close>

lemma scan_res_find:
  assumes "\<And>x. x \<in> set xs \<Longrightarrow> \<not> P x \<Longrightarrow> f x s = Ok None s"
    and "\<And>x. x \<in> set xs \<Longrightarrow> P x \<Longrightarrow> \<exists>y t. f x s = Ok (Some y) t"
  shows "scan_res f xs s = (case find P xs of None \<Rightarrow> Ok None s | Some x \<Rightarrow> f x s)"
  using assms
proof (induction xs)
  case (Cons x xs)
  then show ?case by (cases "P x") fastforce+
qed simp

end
