(* ===== verification/Proc_Facts.thy ===== *)
theory Proc_Facts
  imports Lockset
begin

text \<open>
  Properties of \<^verbatim>\<open>kernel/proc.c\<close>: waking and killing processes, and the scheduler.
\<close>

section \<open>Waking\<close>

abbreviation cur :: "'z machine_scheme \<Rightarrow> nat option" where
  "cur s \<equiv> cproc (cpus s (tp s))"

definition proc_locks_free :: "'z machine_scheme \<Rightarrow> bool" where
  "proc_locks_free s \<longleftrightarrow> (\<forall>p < NPROC. unheld (L_proc p) s)"

lemma proc_locks_freeD: "proc_locks_free s \<Longrightarrow> p < NPROC \<Longrightarrow> unheld (L_proc p) s"
  by (simp add: proc_locks_free_def)

definition wake :: "chan option \<Rightarrow> proc \<Rightarrow> proc" where
  "wake ch q = (if p_state q = SLEEPING \<and> p_chan q = ch then q\<lparr>p_state := RUNNABLE\<rparr> else q)"

lemma wakeup_Ok:
  assumes "settled s" "\<And>p. p < NPROC \<Longrightarrow> cur s \<noteq> Some p \<Longrightarrow> unheld (L_proc p) s"
  shows "wakeup ch s = Ok () (s\<lparr>procs := (\<lambda>p. if p < NPROC \<and> cur s \<noteq> Some p then wake ch (procs s p) else procs s p)\<rparr>)"
proof -
  let ?I = "\<lambda>ys t. t = s\<lparr>procs := (\<lambda>p. if p \<in> set ys \<and> cur s \<noteq> Some p then wake ch (procs s p) else procs s p)\<rparr>"
  have "\<exists>s'. wakeup ch s = Ok () s' \<and> ?I [0..<NPROC] s'"
    unfolding wakeup_def
  proof (rule each_res_inv)
    fix ys x zs t assume xs: "[0..<NPROC] = ys @ x # zs" and I: "?I ys t"
    have x: "x < NPROC" "x \<notin> set ys"
      using arg_cong [OF xs, of set] arg_cong [OF xs, of distinct] by auto
    show "\<exists>s'. bindr (myproc t) (\<lambda>me s. if me = Some x then Ok () s
            else bindr (acquire (L_proc x) s) (\<lambda>_ s. release (L_proc x)
              (if p_state (procs s x) = SLEEPING \<and> p_chan (procs s x) = ch
               then upd_proc x (\<lambda>q. q\<lparr>p_state := RUNNABLE\<rparr>) s else s))) = Ok () s' \<and> ?I (ys @ [x]) s'"
      using I x assms by (auto simp: wake_def upd_proc_def fun_eq_iff intro!: arg_cong [of _ _ "\<lambda>z. s\<lparr>procs := z\<rparr>"])
  qed simp
  then show ?thesis by (auto simp: fun_eq_iff intro!: arg_cong [of _ _ "\<lambda>z. s\<lparr>procs := z\<rparr>"])
qed

section \<open>Killing\<close>

definition mark_killed :: "proc \<Rightarrow> proc" where
  "mark_killed q = q\<lparr>p_killed := 1, p_state := (if p_state q = SLEEPING then RUNNABLE else p_state q)\<rparr>"

lemma kill_eq:
  assumes "settled s" "proc_locks_free s"
  shows "kill pid s = (case find (\<lambda>p. p_pid (procs s p) = pid) [0..<NPROC] of
     None \<Rightarrow> Ok (- 1) s | Some p \<Rightarrow> Ok 0 (upd_proc p mark_killed s))"
proof -
  have state_idem: "p_state q = x \<Longrightarrow> q\<lparr>p_killed := 1, p_state := x\<rparr> = q\<lparr>p_killed := 1\<rparr>" for q :: proc and x
    by (cases q) simp
  show ?thesis unfolding kill_def
    by (subst scan_res_find [where P = "\<lambda>p. p_pid (procs s p) = pid"])
      (use assms in \<open>auto simp: proc_locks_freeD Let_def mark_killed_def upd_proc_def state_idem
        dest!: find_Some_iff [THEN iffD1] split: option.splits\<close>)
qed

section \<open>The scheduler\<close>

definition set_cproc :: "nat option \<Rightarrow> 'z machine_scheme \<Rightarrow> 'z machine_scheme" where
  "set_cproc x s = set_mycpu ((mycpu s)\<lparr>cproc := x\<rparr>) s"

lemma cpu_twist:
  "c\<lparr>cproc := x, noff := n\<rparr> = c\<lparr>noff := n, cproc := x\<rparr>" "c\<lparr>cproc := x, intena := i\<rparr> = c\<lparr>intena := i, cproc := x\<rparr>"
  for c :: cpu by (cases c; simp)+

lemma machine_twist: "s\<lparr>cpus := a, sie := b\<rparr> = s\<lparr>sie := b, cpus := a\<rparr>" for s :: "'z machine_scheme"
  by simp

lemma set_cproc_lock [simp]:
  "take_lock l (set_cproc x s) = set_cproc x (take_lock l s)"
  "unheld l (set_cproc x s) = unheld l s" "settled (set_cproc x s) = settled s"
  "release l (set_cproc x s) = map_state (set_cproc x) (release l s)"
  by (simp_all add: set_cproc_def take_lock_def unheld_def settled_def lock_op_defs cpu_twist machine_twist)

lemma set_cproc_simps [simp]:
  "cproc (cpus (set_cproc x s) (tp s)) = x" "tp (set_cproc x s) = tp s" "locks (set_cproc x s) = locks s" "sie (set_cproc x s) = sie s"
  "mem (set_cproc x s) = mem s" "set_cproc x (set_cproc y s) = set_cproc x s"
  by (simp_all add: set_cproc_def lock_defs)

lemma set_cproc_procs [simp]:
  "procs (set_cproc x s) = procs s" "set_cproc x (upd_proc p f s) = upd_proc p f (set_cproc x s)"
  "set_cproc x (s\<lparr>procs := t\<rparr>) = (set_cproc x s)\<lparr>procs := t\<rparr>"
  by (simp_all add: set_cproc_def upd_proc_def lock_defs)

lemma set_cproc_cpu [simp]: "noff (mycpu (set_cproc x s)) = noff (mycpu s)" "intr_get (set_cproc x s) = intr_get s"
  by (simp_all add: set_cproc_def lock_defs)

lemma set_cproc_same: "cur s = x \<Longrightarrow> set_cproc x s = s"
proof -
  assume "cur s = x"
  moreover have "c\<lparr>cproc := cproc c\<rparr> = c" for c :: cpu by (cases c) simp
  ultimately show ?thesis by (auto simp: set_cproc_def lock_defs)
qed

definition run_proc :: "nat \<Rightarrow> 'z kproc_scheme \<Rightarrow> 'z kproc_scheme" where
  "run_proc p s = set_cproc (Some p) (upd_proc p (\<lambda>q. q\<lparr>p_state := RUNNING\<rparr>) (take_lock (L_proc p) s))"

lemma scheduler_pick_eq:
  assumes "settled s" "unheld (L_proc p) s"
  shows "scheduler_pick p s = (if p_state (procs s p) = RUNNABLE then Ok True (run_proc p s) else Ok False s)"
  using assms by (simp add: scheduler_pick_def run_proc_def set_cproc_def upd_proc_def lock_defs Let_def)

lemma scheduler_scan_eq:
  assumes "settled s" "proc_locks_free s"
  shows "scheduler_scan i s = (case find (\<lambda>p. p_state (procs s p) = RUNNABLE) [i..<NPROC] of
     None \<Rightarrow> Ok None s | Some p \<Rightarrow> Ok (Some p) (run_proc p s))"
  unfolding scheduler_scan_def
  by (subst scan_res_find [where P = "\<lambda>p. p_state (procs s p) = RUNNABLE"])
    (use assms in \<open>auto simp: proc_locks_freeD scheduler_pick_eq dest!: find_Some_iff [THEN iffD1] split: option.splits\<close>)

lemma acquire_touch: "acquire l (touch s) = acquire l s"
proof -
  have "push_off (touch s) = push_off s" by (simp add: push_off_eq touch_def lock_defs)
  then show ?thesis by (simp add: acquire_def)
qed

lemma scheduler_pick_touch: "scheduler_pick p (touch s) = scheduler_pick p s"
  by (simp add: scheduler_pick_def acquire_touch)

section \<open>Sleeping\<close>

lemma holding_upd_proc [simp]: "holding l (upd_proc p f s) = holding l s"
  by (simp add: holding_def)

lemma take_lock_cpu [simp]:
  "noff (mycpu (take_lock l s)) = noff (mycpu s) + 1"
  "intena (mycpu (take_lock l s)) = (if noff (mycpu s) = 0 then intr_get s else intena (mycpu s))"
  "intr_get (take_lock l s) = False"
  by (simp_all add: take_lock_def push_off_eq lock_defs)

lemma upd_proc_cpu [simp]: "mycpu (upd_proc p f s) = mycpu s" "intr_get (upd_proc p f s) = intr_get s"
  "mycpu (s\<lparr>procs := f'\<rparr>) = mycpu s" "intr_get (s\<lparr>procs := f'\<rparr>) = intr_get s"
  by (simp_all add: lock_defs)

definition go_to_sleep :: "nat \<Rightarrow> chan \<Rightarrow> 'z kproc_scheme \<Rightarrow> 'z kproc_scheme" where
  "go_to_sleep p ch s = upd_proc p (\<lambda>q. q\<lparr>p_chan := Some ch, p_state := SLEEPING, p_intena := intr_get s\<rparr>) s"

lemma go_to_sleep_lock [simp]: "unheld l (go_to_sleep p ch s) = unheld l s" "settled (go_to_sleep p ch s) = settled s"
  by (simp_all add: go_to_sleep_def)

lemma sleep_Block:
  assumes "settled s" "noff (mycpu s) = 0" "cur s = Some p" "unheld lk s" "unheld (L_proc p) s" "lk \<noteq> L_proc p"
  shows "sleep ch lk (take_lock lk s) = Block ch (take_lock (L_proc p) (go_to_sleep p ch s))"
  using assms by (simp add: sleep_def sched_def go_to_sleep_def)

lemma scheduler_back_eq:
  assumes "settled s" "unheld (L_proc p) s"
  shows "scheduler_back p (take_lock (L_proc p) s) = Ok () (set_cproc None s)"
  using assms unfolding scheduler_back_def by (simp flip: set_cproc_def)

lemma sleep_return_eq:
  assumes "settled s" "noff (mycpu s) = 0" "unheld lk s" "unheld (L_proc p) s" "lk \<noteq> L_proc p"
    "p_intena (procs s p) = intr_get s"
  shows "sleep_return p lk (take_lock (L_proc p) s) = Ok () (upd_proc p (\<lambda>q. q\<lparr>p_chan := None\<rparr>) (take_lock lk s))"
proof -
  have "sched_return p (take_lock (L_proc p) s) = take_lock (L_proc p) s"
    using assms by (simp add: sched_return_def set_mycpu_def intena_idem) (simp add: mycpu_def)
  then show ?thesis using assms by (simp add: sleep_return_def)
qed

section \<open>Waking with a lock held\<close>

lemma killed_eq [simp]: "settled s \<Longrightarrow> unheld (L_proc p) s \<Longrightarrow> killed p s = Ok (p_killed (procs s p)) s"
  by (simp add: killed_def)

definition woken :: "chan \<Rightarrow> 'z kproc_scheme \<Rightarrow> 'z kproc_scheme" where
  "woken ch s = s\<lparr>procs := (\<lambda>p. if p < NPROC \<and> cur s \<noteq> Some p then wake (Some ch) (procs s p) else procs s p)\<rparr>"

lemma take_lock_cur [simp]: "cproc (cpus (take_lock l s) (tp s)) = cur s"
  by (simp add: take_lock_def push_off_eq lock_defs)

lemma wakeup_locked [simp]:
  assumes "settled s" "proc_locks_free s" "\<And>p. lk \<noteq> L_proc p"
  shows "wakeup (Some ch) (take_lock lk s) = Ok () (take_lock lk (woken ch s))"
proof -
  have "unheld (L_proc p) (take_lock lk s)" if "p < NPROC" for p
    using assms(2,3) that by (metis proc_locks_freeD unheld_take_lock)
  then have "wakeup (Some ch) (take_lock lk s) = Ok () (woken ch (take_lock lk s))"
    using wakeup_Ok [of "take_lock lk s" "Some ch"] assms(1) by (simp add: woken_def)
  moreover have "woken ch (take_lock lk s) = take_lock lk (woken ch s)" by (simp add: woken_def cong: if_cong)
  ultimately show ?thesis by simp
qed

lemma woken_simps [simp]:
  "settled (woken ch s) = settled s" "unheld l (woken ch s) = unheld l s" "mem (woken ch s) = mem s"
  "mycpu (woken ch s) = mycpu s" "cpus (woken ch s) = cpus s" "tp (woken ch s) = tp s"
  "proc_locks_free (woken ch s) = proc_locks_free s"
  by (simp_all add: woken_def proc_locks_free_def lock_defs)

end
