(* ===== verification/Ring.thy ===== *)
theory Ring
  imports Prelude
begin

text \<open>
  Ring buffers with free-running counters: the pipe of \<^verbatim>\<open>kernel/pipe.c\<close>, the input buffer of \<^verbatim>\<open>kernel/console.c\<close> and the
  transmit buffer of \<^verbatim>\<open>kernel/uart.c\<close> index an array of \<open>N\<close> slots with machine-word counters that are never
  reset.  Wrapping is harmless because \<open>N\<close> divides the range of the counter.  \<open>bounded_queue\<close> is the contract of
  such a buffer for its clients.
\<close>

section \<open>The contract\<close>

locale bounded_queue =
  fixes items :: "'q \<Rightarrow> 'b list" and ok :: "'q \<Rightarrow> bool" and cap :: nat
    and put :: "'b \<Rightarrow> 'q \<Rightarrow> 'q" and get :: "'q \<Rightarrow> 'b \<times> 'q" and is_full is_empty :: "'q \<Rightarrow> bool"
  assumes bound: "ok q \<Longrightarrow> length (items q) \<le> cap"
    and full_iff: "ok q \<Longrightarrow> is_full q \<longleftrightarrow> length (items q) = cap"
    and empty_iff: "ok q \<Longrightarrow> is_empty q \<longleftrightarrow> items q = []"
    and put_law: "ok q \<Longrightarrow> \<not> is_full q \<Longrightarrow> ok (put b q) \<and> items (put b q) = items q @ [b]"
    and get_law: "ok q \<Longrightarrow> \<not> is_empty q \<Longrightarrow> ok (snd (get q)) \<and> items q = fst (get q) # items (snd (get q))"
begin

lemma put_room: "ok q \<Longrightarrow> length (items q) < cap \<Longrightarrow> ok (put b q) \<and> items (put b q) = items q @ [b]"
  using put_law full_iff by (metis nat_neq_iff)

lemma fold_put:
  "ok q \<Longrightarrow> length (items q) + length bs \<le> cap \<Longrightarrow> ok (fold put bs q) \<and> items (fold put bs q) = items q @ bs"
proof (induction bs arbitrary: q)
  case (Cons b bs)
  then show ?case using put_room [of q b] by auto
qed simp

inductive trace :: "'q \<Rightarrow> 'b list \<Rightarrow> 'b list \<Rightarrow> 'q \<Rightarrow> bool" where
  trace_refl: "trace q [] [] q"
| trace_put: "trace q xs ys q' \<Longrightarrow> \<not> is_full q' \<Longrightarrow> trace q (xs @ [b]) ys (put b q')"
| trace_get: "trace q xs ys q' \<Longrightarrow> \<not> is_empty q' \<Longrightarrow> trace q xs (ys @ [fst (get q')]) (snd (get q'))"

lemma trace_fifo: "trace q xs ys q' \<Longrightarrow> ok q \<Longrightarrow> ok q' \<and> items q @ xs = ys @ items q'"
proof (induction rule: trace.induct)
  case (trace_put q xs ys q' b)
  then show ?case using put_law [of q' b] by (metis append.assoc)
next
  case (trace_get q xs ys q')
  then have "ok (snd (get q'))" "items q' = fst (get q') # items (snd (get q'))" "items q @ xs = ys @ items q'"
    using get_law [of q'] by blast+
  then show ?case by simp
qed simp

end

section \<open>Counters and slots\<close>

definition ring_items :: "nat \<Rightarrow> 'b list \<Rightarrow> 'w::len word \<Rightarrow> 'w word \<Rightarrow> 'b list" where
  "ring_items N d r w = map (\<lambda>k. d ! (unat (r + of_nat k) mod N)) [0..<unat (w - r)]"

definition ring_ok :: "nat \<Rightarrow> 'b list \<Rightarrow> 'w::len word \<Rightarrow> 'w word \<Rightarrow> bool" where
  "ring_ok N d r w \<longleftrightarrow> length d = N \<and> unat (w - r) \<le> N"

lemma length_ring_items [simp]: "length (ring_items N d r w) = unat (w - r)"
  by (simp add: ring_items_def)

lemma unat_diff_zero_iff: "unat (w - r) = 0 \<longleftrightarrow> w = r" for w r :: "'w::len word"
  by (simp add: unat_eq_0)

lemma unat_diff_full_iff:
  fixes w r :: "'w::len word"
  assumes "N < 2 ^ LENGTH('w)"
  shows "unat (w - r) = N \<longleftrightarrow> w = r + of_nat N"
proof
  assume "unat (w - r) = N"
  then have "of_nat (unat (w - r)) = (of_nat N :: 'w word)" by simp
  then have "w - r = of_nat N" by simp
  then show "w = r + of_nat N" by (simp add: algebra_simps)
next
  assume "w = r + of_nat N"
  then show "unat (w - r) = N" using assms by (simp add: unat_of_nat)
qed

lemma unat_suc_diff:
  fixes w r :: "'w::len word"
  assumes "unat (w - r) < N" "N < 2 ^ LENGTH('w)"
  shows "unat (w + 1 - r) = Suc (unat (w - r))"
proof -
  have "unat (w - r + 1) = Suc (unat (w - r))" using assms by (simp add: unat_word_ariths)
  moreover have "w - r + 1 = w + 1 - r" by (simp add: algebra_simps)
  ultimately show ?thesis by simp
qed

lemma unat_diff_suc:
  fixes w r :: "'w::len word"
  assumes "w \<noteq> r"
  shows "unat (w - r) = Suc (unat (w - (r + 1)))"
proof -
  have "w - r \<noteq> 0" using assms by simp
  then have "unat (w - r) \<noteq> 0" by (simp add: unat_eq_0)
  moreover have "unat (w - r - 1) = unat (w - r) - 1" using \<open>w - r \<noteq> 0\<close> by (simp add: unat_minus_one)
  moreover have "w - r - 1 = w - (r + 1)" by (simp add: algebra_simps)
  ultimately show ?thesis by simp
qed

lemma mod_word_add:
  fixes r :: "'w::len word"
  assumes "N dvd 2 ^ LENGTH('w)"
  shows "unat (r + of_nat k) mod N = (unat r + k) mod N"
proof -
  have "unat (r + of_nat k) = (unat r + k) mod 2 ^ LENGTH('w)"
    by (simp add: unat_word_ariths unat_of_nat mod_simps)
  then show ?thesis using assms by (simp add: mod_mod_cancel)
qed

lemma slot_distinct:
  fixes r :: "'w::len word"
  assumes "N dvd 2 ^ LENGTH('w)" "k < unat (w - r)" "unat (w - r) < N"
  shows "unat (r + of_nat k) mod N \<noteq> unat w mod N"
proof
  assume eq: "unat (r + of_nat k) mod N = unat w mod N"
  have "w = r + of_nat (unat (w - r))" by simp
  then have "unat w mod N = (unat r + unat (w - r)) mod N" using mod_word_add [OF assms(1), of r "unat (w - r)"] by simp
  with eq have "(unat r + unat (w - r)) mod N = (unat r + k) mod N" by (simp add: mod_word_add [OF assms(1)])
  then have "N dvd (unat r + unat (w - r)) - (unat r + k)" using assms(2) by (subst (asm) mod_eq_dvd_iff_nat) simp_all
  then have "N \<le> unat (w - r) - k" using assms(2) by (intro dvd_imp_le) simp_all
  then show False using assms(3) by simp
qed

lemma ring_put:
  fixes r :: "'w::len word"
  assumes "ring_ok N d r w" "N dvd 2 ^ LENGTH('w)" "N < 2 ^ LENGTH('w)" "unat (w - r) < N"
  shows "ring_ok N (d[unat w mod N := b]) r (w + 1)" "ring_items N (d[unat w mod N := b]) r (w + 1) = ring_items N d r w @ [b]"
proof -
  note suc = unat_suc_diff [OF assms(4,3)]
  show "ring_ok N (d[unat w mod N := b]) r (w + 1)" using assms suc by (simp add: ring_ok_def)
  have "d[unat w mod N := b] ! (unat (r + of_nat k) mod N) = d ! (unat (r + of_nat k) mod N)" if "k < unat (w - r)" for k
    using slot_distinct [OF assms(2) that assms(4)] by simp
  moreover have "d[unat w mod N := b] ! (unat w mod N) = b" using assms(1,4) by (simp add: ring_ok_def)
  ultimately show "ring_items N (d[unat w mod N := b]) r (w + 1) = ring_items N d r w @ [b]"
    by (simp add: ring_items_def suc)
qed

lemma ring_get:
  fixes r :: "'w::len word"
  assumes "ring_ok N d r w" "w \<noteq> r"
  shows "ring_ok N d (r + 1) w" "ring_items N d r w = d ! (unat r mod N) # ring_items N d (r + 1) w"
proof -
  note suc = unat_diff_suc [OF assms(2)]
  show "ring_ok N d (r + 1) w" using assms(1) suc by (simp add: ring_ok_def)
  have "[0..<Suc n] = 0 # map Suc [0..<n]" for n by (simp add: map_Suc_upt upt_conv_Cons)
  then show "ring_items N d r w = d ! (unat r mod N) # ring_items N d (r + 1) w"
    by (simp add: ring_items_def suc add.assoc del: upt_Suc)
qed

lemma ring_unput:
  fixes r :: "'w::len word"
  assumes "ring_ok N d r w" "w \<noteq> r"
  shows "ring_ok N d r (w - 1)" "ring_items N d r w = ring_items N d r (w - 1) @ [d ! (unat (w - 1) mod N)]"
proof -
  have suc: "unat (w - r) = Suc (unat (w - 1 - r))" using unat_diff_suc [OF assms(2)] by (simp add: algebra_simps)
  show "ring_ok N d r (w - 1)" using assms(1) suc by (simp add: ring_ok_def)
  have "r + of_nat (unat (w - 1 - r)) = w - 1" by simp
  then show "ring_items N d r w = ring_items N d r (w - 1) @ [d ! (unat (w - 1) mod N)]"
    unfolding ring_items_def suc by simp
qed

section \<open>Ring buffers are queues\<close>

locale ring_buffer =
  fixes N :: nat and dat :: "'q \<Rightarrow> 'b list" and rc wc :: "'q \<Rightarrow> 'w::len word"
    and put :: "'b \<Rightarrow> 'q \<Rightarrow> 'q" and get :: "'q \<Rightarrow> 'b \<times> 'q" and is_full is_empty :: "'q \<Rightarrow> bool"
  assumes size: "N dvd 2 ^ LENGTH('w)" "N < 2 ^ LENGTH('w)"
    and put_fields: "dat (put b q) = (dat q)[unat (wc q) mod N := b]" "rc (put b q) = rc q" "wc (put b q) = wc q + 1"
    and get_fields: "fst (get q) = dat q ! (unat (rc q) mod N)" "dat (snd (get q)) = dat q" "rc (snd (get q)) = rc q + 1"
      "wc (snd (get q)) = wc q"
    and full_def: "is_full q \<longleftrightarrow> wc q = rc q + of_nat N"
    and empty_def: "is_empty q \<longleftrightarrow> rc q = wc q"

sublocale ring_buffer \<subseteq> bounded_queue "\<lambda>q. ring_items N (dat q) (rc q) (wc q)" "\<lambda>q. ring_ok N (dat q) (rc q) (wc q)"
  N put get is_full is_empty
proof
  fix q b
  assume ok: "ring_ok N (dat q) (rc q) (wc q)"
  show "length (ring_items N (dat q) (rc q) (wc q)) \<le> N" using ok by (simp add: ring_ok_def)
  show full: "is_full q \<longleftrightarrow> length (ring_items N (dat q) (rc q) (wc q)) = N"
    using unat_diff_full_iff [OF size(2)] by (simp add: full_def)
  show "is_empty q \<longleftrightarrow> ring_items N (dat q) (rc q) (wc q) = []" by (auto simp: empty_def ring_items_def unat_eq_0)
  show "ring_ok N (dat (put b q)) (rc (put b q)) (wc (put b q))
      \<and> ring_items N (dat (put b q)) (rc (put b q)) (wc (put b q)) = ring_items N (dat q) (rc q) (wc q) @ [b]" if "\<not> is_full q"
  proof -
    have "unat (wc q - rc q) < N" using that full ok by (simp add: ring_ok_def)
    then show ?thesis using ring_put [OF ok size] by (simp add: put_fields)
  qed
  show "ring_ok N (dat (snd (get q))) (rc (snd (get q))) (wc (snd (get q)))
      \<and> ring_items N (dat q) (rc q) (wc q) = fst (get q) # ring_items N (dat (snd (get q))) (rc (snd (get q))) (wc (snd (get q)))"
    if "\<not> is_empty q"
    using that ring_get [OF ok] by (simp add: get_fields empty_def)
qed

text \<open>A ring with a mark between its two counters.\<close>

lemma ring_split:
  fixes r w e :: "'w::len word"
  assumes "unat (w - r) \<le> unat (e - r)"
  shows "ring_items N d r e = ring_items N d r w @ ring_items N d w e" "unat (e - r) = unat (w - r) + unat (e - w)"
proof -
  have "w - r \<le> e - r" using assms by (simp add: word_le_nat_alt)
  then have "unat (e - r - (w - r)) = unat (e - r) - unat (w - r)" by (rule unat_sub)
  then show s: "unat (e - r) = unat (w - r) + unat (e - w)" using assms by simp
  have "[0..<unat (e - r)] = [0..<unat (w - r)] @ map (\<lambda>k. k + unat (w - r)) [0..<unat (e - w)]"
    using upt_add_eq_append [of 0 "unat (w - r)" "unat (e - w)"] by (simp add: s map_add_upt add.commute)
  then show "ring_items N d r e = ring_items N d r w @ ring_items N d w e"
    by (simp add: ring_items_def comp_def add.commute)
qed

end
