(* ===== verification/Sleeplock.thy ===== *)
theory Sleeplock
  imports Proc
begin

text \<open>
  \<^verbatim>\<open>kernel/sleeplock.c\<close>.  A sleep lock is named by the identifier of the spin lock inside it (\<open>L_buf\<close>,
  \<open>L_inode\<close>).  \<open>acquiresleep\<close> on a taken lock goes to sleep; when the process is woken it runs the loop
  \<open>acquiresleep_turn\<close> again.
\<close>

record sleeplock =
  sl_locked :: bool
  sl_name :: string
  sl_pid :: u32

record ksleep = kproc +
  sleeplocks :: "lockid \<Rightarrow> sleeplock"

definition upd_sleeplock :: "lockid \<Rightarrow> (sleeplock \<Rightarrow> sleeplock) \<Rightarrow> 'z ksleep_scheme \<Rightarrow> 'z ksleep_scheme" where
  "upd_sleeplock lk f s = s\<lparr>sleeplocks := (sleeplocks s)(lk := f (sleeplocks s lk))\<rparr>"

definition initsleeplock :: "lockid \<Rightarrow> string \<Rightarrow> 'z ksleep_scheme \<Rightarrow> 'z ksleep_scheme" where
  "initsleeplock lk name s =
     upd_sleeplock lk (\<lambda>_. \<lparr>sl_locked = False, sl_name = name, sl_pid = 0\<rparr>) (initlock lk ''sleep lock'' s)"

definition acquiresleep_turn :: "lockid \<Rightarrow> 'z ksleep_scheme \<Rightarrow> (unit, 'z ksleep_scheme) kres" where
  "acquiresleep_turn lk s =
     (if sl_locked (sleeplocks s lk) then sleep (Ch_sleeplock lk) lk s
      else let s = upd_sleeplock lk (\<lambda>l. l\<lparr>sl_locked := True\<rparr>) s
           in bindr (curproc s) (\<lambda>p s.
              release lk (upd_sleeplock lk (\<lambda>l. l\<lparr>sl_pid := p_pid (procs s p)\<rparr>) s)))"

definition acquiresleep :: "lockid \<Rightarrow> 'z ksleep_scheme \<Rightarrow> (unit, 'z ksleep_scheme) kres" where
  "acquiresleep lk s = bindr (acquire lk s) (\<lambda>_ s. acquiresleep_turn lk s)"

definition releasesleep :: "lockid \<Rightarrow> 'z ksleep_scheme \<Rightarrow> (unit, 'z ksleep_scheme) kres" where
  "releasesleep lk s =
     bindr (acquire lk s) (\<lambda>_ s.
     let s = upd_sleeplock lk (\<lambda>l. l\<lparr>sl_locked := False, sl_pid := 0\<rparr>) s
     in bindr (wakeup (Some (Ch_sleeplock lk)) s) (\<lambda>_ s. release lk s))"

definition holdingsleep :: "lockid \<Rightarrow> 'z ksleep_scheme \<Rightarrow> (bool, 'z ksleep_scheme) kres" where
  "holdingsleep lk s =
     bindr (acquire lk s) (\<lambda>_ s.
     bindr (if sl_locked (sleeplocks s lk)
            then bindr (curproc s) (\<lambda>p s. Ok (sl_pid (sleeplocks s lk) = p_pid (procs s p)) s)
            else Ok False s) (\<lambda>r s.
     bindr (release lk s) (\<lambda>_ s. Ok r s)))"

end
