(* ===== verification/Virtio.thy ===== *)
theory Virtio
  imports Sleeplock
begin

text \<open>
  \<^verbatim>\<open>kernel/virtio_disk.c\<close>: the driver's descriptors and rings, and the buffers (\<^verbatim>\<open>buf.h\<close>) it transfers.  The
  three queue pages are typed tables here; their page addresses are kept as the driver passes them to the device.
  A descriptor's address names the object it points to.

  The device itself is hardware: \<open>virtio_device\<close> serves one request of the available ring as the virtio
  specification describes it.  The disk is byte-addressed, and \<open>disk_trace\<close> records the writes the device has
  completed, oldest first; a block is written as a whole.
\<close>

section \<open>State\<close>

definition BSIZE :: nat where "BSIZE = 1024"
definition NUM :: nat where "NUM = 8"

record buf =
  b_valid :: bool
  b_disk :: bool
  b_dev :: u32
  b_blockno :: u32
  b_refcnt :: u32
  b_prev :: nat
  b_next :: nat
  b_data :: "u8 list"

datatype dma_addr = D_null | D_req nat | D_data nat | D_status nat

record virtq_desc =
  d_addr :: dma_addr
  d_len :: u32
  d_flags :: u16
  d_next :: u16

record virtio_blk_req =
  rq_type :: u32
  rq_reserved :: u32
  rq_sector :: u64

record kdisk = ksleep +
  bufs :: "nat \<Rightarrow> buf"
  vd_mmio :: "u64 \<Rightarrow> u32"
  vd_desc_page :: u64
  vd_avail_page :: u64
  vd_used_page :: u64
  vd_desc :: "nat \<Rightarrow> virtq_desc"
  vd_avail_idx :: u16
  vd_avail_ring :: "nat \<Rightarrow> u16"
  vd_used_idx_dev :: u16
  vd_used_ring :: "nat \<Rightarrow> u32"
  vd_free :: "nat \<Rightarrow> bool"
  vd_used_idx :: u16
  vd_info_b :: "nat \<Rightarrow> nat option"
  vd_info_status :: "nat \<Rightarrow> u8"
  vd_ops :: "nat \<Rightarrow> virtio_blk_req"
  vd_seen :: u16
  disk :: "u64 \<Rightarrow> u8"
  disk_trace :: "(u64 \<times> u8 list) list"

definition upd_buf :: "nat \<Rightarrow> (buf \<Rightarrow> buf) \<Rightarrow> 'z kdisk_scheme \<Rightarrow> 'z kdisk_scheme" where
  "upd_buf b f s = s\<lparr>bufs := (bufs s)(b := f (bufs s b))\<rparr>"

definition upd_desc :: "nat \<Rightarrow> (virtq_desc \<Rightarrow> virtq_desc) \<Rightarrow> 'z kdisk_scheme \<Rightarrow> 'z kdisk_scheme" where
  "upd_desc i f s = s\<lparr>vd_desc := (vd_desc s)(i := f (vd_desc s i))\<rparr>"

definition VRING_DESC_F_NEXT :: u16 where "VRING_DESC_F_NEXT = 1"
definition VRING_DESC_F_WRITE :: u16 where "VRING_DESC_F_WRITE = 2"
definition VIRTIO_BLK_T_IN :: u32 where "VIRTIO_BLK_T_IN = 0"
definition VIRTIO_BLK_T_OUT :: u32 where "VIRTIO_BLK_T_OUT = 1"

lemmas virtio_consts [c_defs] = BSIZE_def NUM_def VRING_DESC_F_NEXT_def VRING_DESC_F_WRITE_def
  VIRTIO_BLK_T_IN_def VIRTIO_BLK_T_OUT_def

section \<open>The device\<close>

text \<open>One request: the chain is a header, the data and a status byte.  The device answers 0 in the status byte and
  appends the head of the chain to the used ring.\<close>

definition virtio_device :: "'z kdisk_scheme \<Rightarrow> 'z kdisk_scheme" where
  "virtio_device s =
     (if vd_seen s = vd_avail_idx s then s
      else
        let h = unat (vd_avail_ring s (unat (vd_seen s) mod NUM));
            d0 = vd_desc s h; d1 = vd_desc s (unat (d_next d0)); d2 = vd_desc s (unat (d_next d1))
        in case (d_addr d0, d_addr d1, d_addr d2) of
             (D_req r, D_data b, D_status i) \<Rightarrow>
               let a = 512 * rq_sector (vd_ops s r);
                   s = (if rq_type (vd_ops s r) = VIRTIO_BLK_T_OUT
                        then s\<lparr>disk := wr (disk s) a (b_data (bufs s b)),
                               disk_trace := disk_trace s @ [(a, b_data (bufs s b))]\<rparr>
                        else upd_buf b (\<lambda>c. c\<lparr>b_data := rd (disk s) a BSIZE\<rparr>) s)
               in s\<lparr>vd_info_status := (vd_info_status s)(i := 0),
                    vd_used_ring := (vd_used_ring s)(unat (vd_used_idx_dev s) mod NUM := of_nat h),
                    vd_used_idx_dev := vd_used_idx_dev s + 1, vd_seen := vd_seen s + 1\<rparr>
           | _ \<Rightarrow> s)"

section \<open>Descriptors\<close>

definition alloc_desc :: "'z kdisk_scheme \<Rightarrow> nat option \<times> 'z kdisk_scheme" where
  "alloc_desc s =
     (case find (vd_free s) [0..<NUM] of
        None \<Rightarrow> (None, s)
      | Some i \<Rightarrow> (Some i, s\<lparr>vd_free := (vd_free s)(i := False)\<rparr>))"

definition free_desc :: "nat \<Rightarrow> 'z kdisk_scheme \<Rightarrow> (unit, 'z kdisk_scheme) kres" where
  "free_desc i s =
     (if NUM \<le> i then Panic ''free_desc 1''
      else if vd_free s i then Panic ''free_desc 2''
      else let s = upd_desc i (\<lambda>_. \<lparr>d_addr = D_null, d_len = 0, d_flags = 0, d_next = 0\<rparr>) s
           in wakeup (Some Ch_disk_free) (s\<lparr>vd_free := (vd_free s)(i := True)\<rparr>))"

text \<open>A chain has at most \<open>NUM\<close> descriptors: \<open>free_desc\<close> panics when one comes round again.\<close>

fun free_desc_chain :: "nat \<Rightarrow> nat \<Rightarrow> 'z kdisk_scheme \<Rightarrow> (unit, 'z kdisk_scheme) kres" where
  "free_desc_chain 0 i s = Hang"
| "free_desc_chain (Suc fuel) i s =
     (let flag = d_flags (vd_desc s i); nxt = unat (d_next (vd_desc s i))
      in bindr (free_desc i s) (\<lambda>_ s.
         if flag AND VRING_DESC_F_NEXT \<noteq> 0 then free_desc_chain fuel nxt s else Ok () s))"

definition alloc3_desc :: "'z kdisk_scheme \<Rightarrow> ((nat \<times> nat \<times> nat) option, 'z kdisk_scheme) kres" where
  "alloc3_desc s =
     (case alloc_desc s of (None, s) \<Rightarrow> Ok None s
      | (Some i, s) \<Rightarrow>
        (case alloc_desc s of (None, s) \<Rightarrow> bindr (free_desc i s) (\<lambda>_ s. Ok None s)
         | (Some j, s) \<Rightarrow>
           (case alloc_desc s of
              (None, s) \<Rightarrow> bindr (free_desc i s) (\<lambda>_ s. bindr (free_desc j s) (\<lambda>_ s. Ok None s))
            | (Some k, s) \<Rightarrow> Ok (Some (i, j, k)) s)))"

section \<open>Requests and interrupts\<close>

definition R_NOTIFY :: u64 where "R_NOTIFY = VIRTIO0 + 0x50"
definition R_INTERRUPT_STATUS :: u64 where "R_INTERRUPT_STATUS = VIRTIO0 + 0x60"
definition R_INTERRUPT_ACK :: u64 where "R_INTERRUPT_ACK = VIRTIO0 + 0x64"

definition mmio_write :: "u64 \<Rightarrow> u32 \<Rightarrow> 'z kdisk_scheme \<Rightarrow> 'z kdisk_scheme" where
  "mmio_write r v s = s\<lparr>vd_mmio := (vd_mmio s)(r := v)\<rparr>"

text \<open>\<open>virtio_disk_rw\<close> with the descriptors \<open>i\<close>, \<open>j\<close>, \<open>k\<close> in hand, up to the wait.\<close>

definition virtio_disk_submit :: "nat \<Rightarrow> bool \<Rightarrow> nat \<times> nat \<times> nat \<Rightarrow> 'z kdisk_scheme \<Rightarrow> 'z kdisk_scheme" where
  "virtio_disk_submit b write = (\<lambda>(i, j, k) s.
     let sector = ucast (b_blockno (bufs s b) * 2) :: u64;
         s = s\<lparr>vd_ops := (vd_ops s)(i := \<lparr>rq_type = (if write then VIRTIO_BLK_T_OUT else VIRTIO_BLK_T_IN),
                                       rq_reserved = 0, rq_sector = sector\<rparr>)\<rparr>;
         s = upd_desc i (\<lambda>_. \<lparr>d_addr = D_req i, d_len = 16, d_flags = VRING_DESC_F_NEXT, d_next = of_nat j\<rparr>) s;
         s = upd_desc j (\<lambda>_. \<lparr>d_addr = D_data b, d_len = of_nat BSIZE,
               d_flags = (if write then 0 else VRING_DESC_F_WRITE) OR VRING_DESC_F_NEXT, d_next = of_nat k\<rparr>) s;
         s = s\<lparr>vd_info_status := (vd_info_status s)(i := 0xff)\<rparr>;
         s = upd_desc k (\<lambda>_. \<lparr>d_addr = D_status i, d_len = 1, d_flags = VRING_DESC_F_WRITE, d_next = 0\<rparr>) s;
         s = upd_buf b (\<lambda>c. c\<lparr>b_disk := True\<rparr>) s;
         s = s\<lparr>vd_info_b := (vd_info_b s)(i := Some b)\<rparr>;
         s = s\<lparr>vd_avail_ring := (vd_avail_ring s)(unat (vd_avail_idx s) mod NUM := of_nat i)\<rparr>;
         s = s\<lparr>vd_avail_idx := vd_avail_idx s + 1\<rparr>
     in mmio_write R_NOTIFY 0 s)"

text \<open>The completion loop of the interrupt handler; it runs once per entry between the driver's index and the
  device's.\<close>

fun complete_loop :: "nat \<Rightarrow> 'z kdisk_scheme \<Rightarrow> (unit, 'z kdisk_scheme) kres" where
  "complete_loop 0 s = Ok () s"
| "complete_loop (Suc n) s =
     (let i = unat (vd_used_ring s (unat (vd_used_idx s) mod NUM))
      in if vd_info_status s i \<noteq> 0 then Panic ''virtio_disk_intr status''
         else case vd_info_b s i of None \<Rightarrow> Panic ''kerneltrap''
           | Some b \<Rightarrow> bindr (wakeup (Some (Ch_buf b)) (upd_buf b (\<lambda>c. c\<lparr>b_disk := False\<rparr>) s)) (\<lambda>_ s.
               complete_loop n (s\<lparr>vd_used_idx := vd_used_idx s + 1\<rparr>)))"

definition virtio_disk_intr :: "'z kdisk_scheme \<Rightarrow> (unit, 'z kdisk_scheme) kres" where
  "virtio_disk_intr s =
     bindr (acquire L_vdisk s) (\<lambda>_ s.
     let s = mmio_write R_INTERRUPT_ACK (vd_mmio s R_INTERRUPT_STATUS AND 0x3) s
     in bindr (complete_loop (unat (vd_used_idx_dev s - vd_used_idx s)) s) (\<lambda>_ s. release L_vdisk s))"

text \<open>
  The wait \<^verbatim>\<open>while(b->disk == 1) sleep(b, &disk.vdisk_lock)\<close> in the run in which nothing else happens on this
  CPU: the process switches to the scheduler, the device serves the request and interrupts, the handler wakes the
  process, and the scheduler switches back to it.  Should the buffer still belong to the disk then, the process
  sleeps on.
\<close>

definition virtio_disk_wait :: "nat \<Rightarrow> 'z kdisk_scheme \<Rightarrow> (unit, 'z kdisk_scheme) kres" where
  "virtio_disk_wait b s =
     (if \<not> b_disk (bufs s b) then Ok () s
      else case sleep (Ch_buf b) L_vdisk s :: (unit, 'z kdisk_scheme) kres of
        Block ch s \<Rightarrow>
          (case cproc (mycpu s) of None \<Rightarrow> Panic ''kerneltrap''
           | Some p \<Rightarrow>
             bindr (scheduler_back p s) (\<lambda>_ s.
             bindr (virtio_disk_intr (intr_off (virtio_device (intr_on s)))) (\<lambda>_ s.
             bindr (scheduler_pick p (intr_on s)) (\<lambda>r s.
             if \<not> r then Hang
             else bindr (sleep_return p L_vdisk s) (\<lambda>_ s.
                  if b_disk (bufs s b) then sleep (Ch_buf b) L_vdisk s else Ok () s)))))
      | r \<Rightarrow> r)"

definition virtio_disk_rw :: "nat \<Rightarrow> bool \<Rightarrow> 'z kdisk_scheme \<Rightarrow> (unit, 'z kdisk_scheme) kres" where
  "virtio_disk_rw b write s =
     bindr (acquire L_vdisk s) (\<lambda>_ s.
     bindr (alloc3_desc s) (\<lambda>idx s.
       case idx of None \<Rightarrow> sleep Ch_disk_free L_vdisk s
       | Some (i, j, k) \<Rightarrow>
         bindr (virtio_disk_wait b (virtio_disk_submit b write (i, j, k) s)) (\<lambda>_ s.
         bindr (free_desc_chain NUM i (s\<lparr>vd_info_b := (vd_info_b s)(i := None)\<rparr>)) (\<lambda>_ s.
         release L_vdisk s))))"

section \<open>Initialisation\<close>

definition virtio_disk_init :: "'z kdisk_scheme \<Rightarrow> (unit, 'z kdisk_scheme) kres" where
  "virtio_disk_init s =
     (let R = (\<lambda>r. VIRTIO0 + r); s = initlock L_vdisk ''virtio_disk'' s
      in if vd_mmio s (R 0x000) \<noteq> 0x74726976 \<or> vd_mmio s (R 0x004) \<noteq> 2 \<or> vd_mmio s (R 0x008) \<noteq> 2
            \<or> vd_mmio s (R 0x00c) \<noteq> 0x554d4551
         then Panic ''could not find virtio disk''
         else
           let s = mmio_write (R 0x070) 0 s;
               s = mmio_write (R 0x070) 1 s;
               s = mmio_write (R 0x070) 3 s;
               features = fold (\<lambda>i f. f AND NOT (push_bit i 1)) [5, 7, 11, 12, 27, 29, 28] (vd_mmio s (R 0x010));
               s = mmio_write (R 0x020) features s;
               s = mmio_write (R 0x070) 11 s;
               status = vd_mmio s (R 0x070)
           in if status AND 8 = 0 then Panic ''virtio disk FEATURES_OK unset''
              else
                let s = mmio_write (R 0x030) 0 s
                in if vd_mmio s (R 0x044) \<noteq> 0 then Panic ''virtio disk should not be ready''
                   else if vd_mmio s (R 0x034) = 0 then Panic ''virtio disk has no queue 0''
                   else if vd_mmio s (R 0x034) < of_nat NUM then Panic ''virtio disk max queue too short''
                   else
                     bindr (kalloc s) (\<lambda>desc s. bindr (kalloc s) (\<lambda>avail s. bindr (kalloc s) (\<lambda>used s.
                     if desc = 0 \<or> avail = 0 \<or> used = 0 then Panic ''virtio disk kalloc''
                     else
                       let zero = (\<lambda>a s. s\<lparr>mem := memset a 0 (ucast PGSIZE) (mem s)\<rparr>);
                           s = (zero used (zero avail (zero desc s)))\<lparr>
                                  vd_desc_page := desc, vd_avail_page := avail, vd_used_page := used,
                                  vd_desc := (\<lambda>_. \<lparr>d_addr = D_null, d_len = 0, d_flags = 0, d_next = 0\<rparr>),
                                  vd_avail_idx := 0, vd_avail_ring := (\<lambda>_. 0),
                                  vd_used_idx_dev := 0, vd_used_ring := (\<lambda>_. 0)\<rparr>;
                           s = mmio_write (R 0x038) (of_nat NUM) s;
                           s = mmio_write (R 0x080) (ucast desc) s;
                           s = mmio_write (R 0x084) (ucast (drop_bit 32 desc)) s;
                           s = mmio_write (R 0x090) (ucast avail) s;
                           s = mmio_write (R 0x094) (ucast (drop_bit 32 avail)) s;
                           s = mmio_write (R 0x0a0) (ucast used) s;
                           s = mmio_write (R 0x0a4) (ucast (drop_bit 32 used)) s;
                           s = mmio_write (R 0x044) 1 s;
                           s = s\<lparr>vd_free := (\<lambda>i. if i < NUM then True else vd_free s i)\<rparr>
                       in Ok () (mmio_write (R 0x070) (status OR 4) s)))))"

end
