(* ===== verification/Bio.thy ===== *)
theory Bio
  imports Virtio
begin

text \<open>
  \<^verbatim>\<open>kernel/bio.c\<close>: the buffer cache.  The buffers are linked into a ring through \<open>b_prev\<close> and \<open>b_next\<close>; \<open>bhead\<close> is
  \<^verbatim>\<open>bcache.head\<close>, so \<open>b_next\<close> of it is the most recently used buffer and \<open>b_prev\<close> the least recently used one.
\<close>

definition bhead :: nat where
  "bhead = NBUF"

definition set_prev :: "nat \<Rightarrow> nat \<Rightarrow> 'z kdisk_scheme \<Rightarrow> 'z kdisk_scheme" where
  "set_prev b x s = upd_buf b (\<lambda>c. c\<lparr>b_prev := x\<rparr>) s"

definition set_next :: "nat \<Rightarrow> nat \<Rightarrow> 'z kdisk_scheme \<Rightarrow> 'z kdisk_scheme" where
  "set_next b x s = upd_buf b (\<lambda>c. c\<lparr>b_next := x\<rparr>) s"

definition link_front :: "nat \<Rightarrow> 'z kdisk_scheme \<Rightarrow> 'z kdisk_scheme" where
  "link_front b s =
     (let s = set_next b (b_next (bufs s bhead)) s;
          s = set_prev b bhead s;
          s = set_prev (b_next (bufs s bhead)) b s
      in set_next bhead b s)"

definition binit :: "'z kdisk_scheme \<Rightarrow> 'z kdisk_scheme" where
  "binit s =
     fold (\<lambda>b s. initsleeplock (L_buf b) ''buffer'' (link_front b s)) [0..<NBUF]
       (set_next bhead bhead (set_prev bhead bhead (initlock L_bcache ''bcache'' s)))"

text \<open>Walk the ring from \<open>b\<close> along \<open>nx\<close> until the head comes round, for the first buffer with \<open>P\<close>.  The ring has
  \<open>NBUF\<close> buffers, so \<open>NBUF + 1\<close> steps reach the head; a ring that does not close would keep the CPU in the loop.\<close>

fun ring_find :: "nat \<Rightarrow> (buf \<Rightarrow> nat) \<Rightarrow> (buf \<Rightarrow> bool) \<Rightarrow> nat \<Rightarrow> 'z kdisk_scheme \<Rightarrow> (nat option, 'z kdisk_scheme) kres" where
  "ring_find 0 nx P b s = Hang"
| "ring_find (Suc fuel) nx P b s =
     (if b = bhead then Ok None s
      else if P (bufs s b) then Ok (Some b) s
      else ring_find fuel nx P (nx (bufs s b)) s)"

definition bget :: "u32 \<Rightarrow> u32 \<Rightarrow> 'z kdisk_scheme \<Rightarrow> (nat, 'z kdisk_scheme) kres" where
  "bget dev blockno s =
     bindr (acquire L_bcache s) (\<lambda>_ s.
     bindr (ring_find (NBUF + 1) b_next (\<lambda>c. b_dev c = dev \<and> b_blockno c = blockno) (b_next (bufs s bhead)) s) (\<lambda>r s.
     case r of
       Some b \<Rightarrow>
         bindr (release L_bcache (upd_buf b (\<lambda>c. c\<lparr>b_refcnt := b_refcnt c + 1\<rparr>) s)) (\<lambda>_ s.
         bindr (acquiresleep (L_buf b) s) (\<lambda>_ s. Ok b s))
     | None \<Rightarrow>
         bindr (ring_find (NBUF + 1) b_prev (\<lambda>c. b_refcnt c = 0) (b_prev (bufs s bhead)) s) (\<lambda>r s.
         case r of
           Some b \<Rightarrow>
             bindr (release L_bcache (upd_buf b (\<lambda>c. c\<lparr>b_dev := dev, b_blockno := blockno, b_valid := False,
                                                     b_refcnt := 1\<rparr>) s)) (\<lambda>_ s.
             bindr (acquiresleep (L_buf b) s) (\<lambda>_ s. Ok b s))
         | None \<Rightarrow> Panic ''bget: no buffers'')))"

definition bread :: "u32 \<Rightarrow> u32 \<Rightarrow> 'z kdisk_scheme \<Rightarrow> (nat, 'z kdisk_scheme) kres" where
  "bread dev blockno s =
     bindr (bget dev blockno s) (\<lambda>b s.
     if \<not> b_valid (bufs s b)
     then bindr (virtio_disk_rw b False s) (\<lambda>_ s. Ok b (upd_buf b (\<lambda>c. c\<lparr>b_valid := True\<rparr>) s))
     else Ok b s)"

definition bwrite :: "nat \<Rightarrow> 'z kdisk_scheme \<Rightarrow> (unit, 'z kdisk_scheme) kres" where
  "bwrite b s =
     bindr (holdingsleep (L_buf b) s) (\<lambda>h s. if \<not> h then Panic ''bwrite'' else virtio_disk_rw b True s)"

definition brelse :: "nat \<Rightarrow> 'z kdisk_scheme \<Rightarrow> (unit, 'z kdisk_scheme) kres" where
  "brelse b s =
     bindr (holdingsleep (L_buf b) s) (\<lambda>h s.
     if \<not> h then Panic ''brelse''
     else bindr (releasesleep (L_buf b) s) (\<lambda>_ s.
       bindr (acquire L_bcache s) (\<lambda>_ s.
       let s = upd_buf b (\<lambda>c. c\<lparr>b_refcnt := b_refcnt c - 1\<rparr>) s;
           s = (if b_refcnt (bufs s b) = 0
                then let s = set_prev (b_next (bufs s b)) (b_prev (bufs s b)) s;
                         s = set_next (b_prev (bufs s b)) (b_next (bufs s b)) s
                     in link_front b s
                else s)
       in release L_bcache s)))"

definition bpin :: "nat \<Rightarrow> 'z kdisk_scheme \<Rightarrow> (unit, 'z kdisk_scheme) kres" where
  "bpin b s =
     bindr (acquire L_bcache s) (\<lambda>_ s. release L_bcache (upd_buf b (\<lambda>c. c\<lparr>b_refcnt := b_refcnt c + 1\<rparr>) s))"

definition bunpin :: "nat \<Rightarrow> 'z kdisk_scheme \<Rightarrow> (unit, 'z kdisk_scheme) kres" where
  "bunpin b s =
     bindr (acquire L_bcache s) (\<lambda>_ s. release L_bcache (upd_buf b (\<lambda>c. c\<lparr>b_refcnt := b_refcnt c - 1\<rparr>) s))"

section \<open>Typed views of a block\<close>

definition get_bytes :: "nat \<Rightarrow> nat \<Rightarrow> u8 list \<Rightarrow> u8 list" where
  "get_bytes off n data = take n (drop off data)"

definition put_bytes :: "nat \<Rightarrow> u8 list \<Rightarrow> u8 list \<Rightarrow> u8 list" where
  "put_bytes off bs data = take off data @ bs @ drop (off + length bs) data"

definition get_u32 :: "nat \<Rightarrow> u8 list \<Rightarrow> u32" where
  "get_u32 off data = from_le (get_bytes off 4 data)"

definition put_u32 :: "nat \<Rightarrow> u32 \<Rightarrow> u8 list \<Rightarrow> u8 list" where
  "put_u32 off v data = put_bytes off (to_le 4 v) data"

definition get_u16 :: "nat \<Rightarrow> u8 list \<Rightarrow> u16" where
  "get_u16 off data = from_le (get_bytes off 2 data)"

definition put_u16 :: "nat \<Rightarrow> u16 \<Rightarrow> u8 list \<Rightarrow> u8 list" where
  "put_u16 off v data = put_bytes off (to_le 2 v) data"

definition upd_data :: "nat \<Rightarrow> (u8 list \<Rightarrow> u8 list) \<Rightarrow> 'z kdisk_scheme \<Rightarrow> 'z kdisk_scheme" where
  "upd_data b f s = upd_buf b (\<lambda>c. c\<lparr>b_data := f (b_data c)\<rparr>) s"

end
