(* ===== verification/Log.thy ===== *)
theory Log
  imports Bio
begin

text \<open>
  \<^verbatim>\<open>kernel/log.c\<close>: the redo log.  The on-disk header block holds the count at byte 0 and the block numbers from byte
  4; \<open>lh_block\<close> is the array of the in-memory header, and an access outside it is undefined.
\<close>

record klog = kdisk +
  log_start :: int
  log_size :: int
  log_outstanding :: int
  log_committing :: bool
  log_dev :: u32
  lh_n :: int
  lh_block :: "u32 list"

text \<open>\<open>sizeof(struct logheader)\<close>: a count and \<open>LOGSIZE\<close> block numbers.\<close>

definition sizeof_logheader :: nat where
  "sizeof_logheader = 4 + 4 * LOGSIZE"

definition log_block_at :: "nat \<Rightarrow> 'z klog_scheme \<Rightarrow> (u32, 'z klog_scheme) kres" where
  "log_block_at i s = (if i < length (lh_block s) then Ok (lh_block s ! i) s else Hang)"

definition install_trans :: "bool \<Rightarrow> 'z klog_scheme \<Rightarrow> (unit, 'z klog_scheme) kres" where
  "install_trans recovering s =
     each_res (\<lambda>tail s.
       bindr (bread (log_dev s) (of_int (log_start s + int tail + 1)) s) (\<lambda>lbuf s.
       bindr (log_block_at tail s) (\<lambda>bno s.
       bindr (bread (log_dev s) bno s) (\<lambda>dbuf s.
       bindr (bwrite dbuf (upd_data dbuf (\<lambda>_. b_data (bufs s lbuf)) s)) (\<lambda>_ s.
       bindr (if \<not> recovering then bunpin dbuf s else Ok () s) (\<lambda>_ s.
       bindr (brelse lbuf s) (\<lambda>_ s. brelse dbuf s)))))))
       [0..<nat (lh_n s)] s"

definition read_head :: "'z klog_scheme \<Rightarrow> (unit, 'z klog_scheme) kres" where
  "read_head s =
     bindr (bread (log_dev s) (of_int (log_start s)) s) (\<lambda>b s.
     let data = b_data (bufs s b); s = s\<lparr>lh_n := sint (get_u32 0 data)\<rparr>
     in bindr (each_res (\<lambda>i s.
           if i < length (lh_block s) then Ok () (s\<lparr>lh_block := (lh_block s)[i := get_u32 (4 + 4 * i) data]\<rparr>)
           else Hang) [0..<nat (lh_n s)] s) (\<lambda>_ s.
        brelse b s))"

definition write_head :: "'z klog_scheme \<Rightarrow> (unit, 'z klog_scheme) kres" where
  "write_head s =
     bindr (bread (log_dev s) (of_int (log_start s)) s) (\<lambda>b s.
     let s = upd_data b (put_u32 0 (of_int (lh_n s))) s
     in bindr (each_res (\<lambda>i s.
           bindr (log_block_at i s) (\<lambda>bno s. Ok () (upd_data b (put_u32 (4 + 4 * i) bno) s)))
           [0..<nat (lh_n s)] s) (\<lambda>_ s.
        bindr (bwrite b s) (\<lambda>_ s. brelse b s)))"

definition recover_from_log :: "'z klog_scheme \<Rightarrow> (unit, 'z klog_scheme) kres" where
  "recover_from_log s =
     bindr (read_head s) (\<lambda>_ s.
     bindr (install_trans True s) (\<lambda>_ s.
     write_head (s\<lparr>lh_n := 0\<rparr>)))"

definition initlog :: "u32 \<Rightarrow> u32 \<Rightarrow> u32 \<Rightarrow> 'z klog_scheme \<Rightarrow> (unit, 'z klog_scheme) kres" where
  "initlog dev logstart nlog s =
     (if BSIZE \<le> sizeof_logheader then Panic ''initlog: too big logheader''
      else recover_from_log ((initlock L_log ''log'' s)\<lparr>log_start := sint logstart, log_size := sint nlog, log_dev := dev\<rparr>))"

text \<open>One turn of the loop of \<open>begin_op\<close>, with \<open>log.lock\<close> held; a process that slept runs it again.\<close>

definition begin_op_turn :: "'z klog_scheme \<Rightarrow> (unit, 'z klog_scheme) kres" where
  "begin_op_turn s =
     (if log_committing s then sleep Ch_log L_log s
      else if lh_n s + (log_outstanding s + 1) * int MAXOPBLOCKS > int LOGSIZE then sleep Ch_log L_log s
      else release L_log (s\<lparr>log_outstanding := log_outstanding s + 1\<rparr>))"

definition begin_op :: "'z klog_scheme \<Rightarrow> (unit, 'z klog_scheme) kres" where
  "begin_op s = bindr (acquire L_log s) (\<lambda>_ s. begin_op_turn s)"

definition write_log :: "'z klog_scheme \<Rightarrow> (unit, 'z klog_scheme) kres" where
  "write_log s =
     each_res (\<lambda>tail s.
       bindr (bread (log_dev s) (of_int (log_start s + int tail + 1)) s) (\<lambda>to s.
       bindr (log_block_at tail s) (\<lambda>bno s.
       bindr (bread (log_dev s) bno s) (\<lambda>from s.
       bindr (bwrite to (upd_data to (\<lambda>_. b_data (bufs s from)) s)) (\<lambda>_ s.
       bindr (brelse from s) (\<lambda>_ s. brelse to s))))))
       [0..<nat (lh_n s)] s"

definition commit :: "'z klog_scheme \<Rightarrow> (unit, 'z klog_scheme) kres" where
  "commit s =
     (if 0 < lh_n s
      then bindr (write_log s) (\<lambda>_ s.
           bindr (write_head s) (\<lambda>_ s.
           bindr (install_trans False s) (\<lambda>_ s.
           write_head (s\<lparr>lh_n := 0\<rparr>))))
      else Ok () s)"

definition end_op :: "'z klog_scheme \<Rightarrow> (unit, 'z klog_scheme) kres" where
  "end_op s =
     bindr (acquire L_log s) (\<lambda>_ s.
     let s = s\<lparr>log_outstanding := log_outstanding s - 1\<rparr>
     in if log_committing s then Panic ''log.committing''
        else
          let do_commit = (log_outstanding s = 0)
          in bindr (if do_commit then Ok () (s\<lparr>log_committing := True\<rparr>) else wakeup (Some Ch_log) s) (\<lambda>_ s.
             bindr (release L_log s) (\<lambda>_ s.
             if do_commit then
               bindr (commit s) (\<lambda>_ s.
               bindr (acquire L_log s) (\<lambda>_ s.
               bindr (wakeup (Some Ch_log) (s\<lparr>log_committing := False\<rparr>)) (\<lambda>_ s.
               release L_log s)))
             else Ok () s)))"

text \<open>The index at which \<open>log_write\<close> records a block: its place in the header (absorption) or the next free one.\<close>

definition log_slot :: "u32 \<Rightarrow> 'z klog_scheme \<Rightarrow> nat" where
  "log_slot bno s =
     (case find (\<lambda>i. lh_block s ! i = bno) [0..<nat (lh_n s)] of Some i \<Rightarrow> i | None \<Rightarrow> nat (lh_n s))"

definition log_write :: "nat \<Rightarrow> 'z klog_scheme \<Rightarrow> (unit, 'z klog_scheme) kres" where
  "log_write b s =
     bindr (acquire L_log s) (\<lambda>_ s.
     if lh_n s \<ge> int LOGSIZE \<or> lh_n s \<ge> log_size s - 1 then Panic ''too big a transaction''
     else if log_outstanding s < 1 then Panic ''log_write outside of trans''
     else
       let bno = b_blockno (bufs s b); i = log_slot bno s;
           s = s\<lparr>lh_block := (lh_block s)[i := bno]\<rparr>
       in bindr (if i = nat (lh_n s)
                 then bindr (bpin b s) (\<lambda>_ s. Ok () (s\<lparr>lh_n := lh_n s + 1\<rparr>))
                 else Ok () s) (\<lambda>_ s.
          release L_log s))"

end
