(* ===== verification/Fs.thy ===== *)
theory Fs
  imports Log
begin

text \<open>
  \<^verbatim>\<open>kernel/fs.c\<close>: block allocator, inodes, file contents, directories and path names.  An in-memory inode is named by
  its index in \<^verbatim>\<open>itable\<close>.  On-disk structures are bytes of a block at the offsets of the C structs: 64 bytes per
  \<^verbatim>\<open>struct dinode\<close> (type, major, minor, nlink, size, 13 addresses), 16 per \<^verbatim>\<open>struct dirent\<close> (inum, name).
  A path is the list of its bytes up to the NUL; \<open>name\<close> is the \<open>DIRSIZ\<close>-byte buffer \<open>skipelem\<close> fills.
\<close>

section \<open>State\<close>

definition ROOTINO :: u32 where "ROOTINO = 1"
definition FSMAGIC :: u32 where "FSMAGIC = 0x10203040"
definition NDIRECT :: nat where "NDIRECT = 12"
definition NINDIRECT :: nat where "NINDIRECT = BSIZE div 4"
definition MAXFILE :: nat where "MAXFILE = NDIRECT + NINDIRECT"
definition IPB :: nat where "IPB = BSIZE div 64"
definition BPB :: nat where "BPB = BSIZE * 8"
definition DIRSIZ :: nat where "DIRSIZ = 14"
definition T_DIR :: u16 where "T_DIR = 1"
definition T_FILE :: u16 where "T_FILE = 2"
definition T_DEVICE :: u16 where "T_DEVICE = 3"

lemmas fs_consts [c_defs] = ROOTINO_def FSMAGIC_def NDIRECT_def NINDIRECT_def MAXFILE_def IPB_def BPB_def
  DIRSIZ_def T_DIR_def T_FILE_def T_DEVICE_def

record superblock =
  sb_magic :: u32
  sb_size :: u32
  sb_nblocks :: u32
  sb_ninodes :: u32
  sb_nlog :: u32
  sb_logstart :: u32
  sb_inodestart :: u32
  sb_bmapstart :: u32

record inode =
  i_dev :: u32
  i_inum :: u32
  i_ref :: int
  i_valid :: bool
  i_type :: u16
  i_major :: u16
  i_minor :: u16
  i_nlink :: u16
  i_size :: u32
  i_addrs :: "u32 list"

record kfs = klog +
  sb :: superblock
  itable :: "nat \<Rightarrow> inode"

definition IBLOCK :: "u32 \<Rightarrow> superblock \<Rightarrow> u32" where
  "IBLOCK i b = i div of_nat IPB + sb_inodestart b"

definition BBLOCK :: "u32 \<Rightarrow> superblock \<Rightarrow> u32" where
  "BBLOCK i b = i div of_nat BPB + sb_bmapstart b"

definition upd_inode :: "nat \<Rightarrow> (inode \<Rightarrow> inode) \<Rightarrow> 'z kfs_scheme \<Rightarrow> 'z kfs_scheme" where
  "upd_inode ip f s = s\<lparr>itable := (itable s)(ip := f (itable s ip))\<rparr>"

section \<open>Super block and block allocator\<close>

definition readsb :: "u32 \<Rightarrow> 'z kfs_scheme \<Rightarrow> (superblock, 'z kfs_scheme) kres" where
  "readsb dev s =
     bindr (bread dev 1 s) (\<lambda>bp s.
     let d = b_data (bufs s bp);
         x = \<lparr>sb_magic = get_u32 0 d, sb_size = get_u32 4 d, sb_nblocks = get_u32 8 d, sb_ninodes = get_u32 12 d,
              sb_nlog = get_u32 16 d, sb_logstart = get_u32 20 d, sb_inodestart = get_u32 24 d, sb_bmapstart = get_u32 28 d\<rparr>
     in bindr (brelse bp s) (\<lambda>_ s. Ok x s))"

definition fsinit :: "u32 \<Rightarrow> 'z kfs_scheme \<Rightarrow> (unit, 'z kfs_scheme) kres" where
  "fsinit dev s =
     bindr (readsb dev s) (\<lambda>x s.
     let s = s\<lparr>sb := x\<rparr>
     in if sb_magic (sb s) \<noteq> FSMAGIC then Panic ''invalid file system''
        else initlog dev (sb_logstart (sb s)) (sb_nlog (sb s)) s)"

definition bzero :: "u32 \<Rightarrow> u32 \<Rightarrow> 'z kfs_scheme \<Rightarrow> (unit, 'z kfs_scheme) kres" where
  "bzero dev bno s =
     bindr (bread dev bno s) (\<lambda>bp s.
     bindr (log_write bp (upd_data bp (\<lambda>_. replicate BSIZE 0) s)) (\<lambda>_ s. brelse bp s))"

text \<open>The bit of block \<open>bi\<close> in a bitmap block.\<close>

definition bit_mask :: "nat \<Rightarrow> u8" where
  "bit_mask bi = push_bit (bi mod 8) 1"

definition bit_free :: "u8 list \<Rightarrow> nat \<Rightarrow> bool" where
  "bit_free data bi \<longleftrightarrow> data ! (bi div 8) AND bit_mask bi = 0"

definition balloc :: "u32 \<Rightarrow> 'z kfs_scheme \<Rightarrow> (u32, 'z kfs_scheme) kres" where
  "balloc dev s =
     (let sz = unat (sb_size (sb s))
      in bindr (scan_res (\<lambda>k s.
           let b = k * BPB
           in bindr (bread dev (BBLOCK (of_nat b) (sb s)) s) (\<lambda>bp s.
              case find (bit_free (b_data (bufs s bp))) [0..<min BPB (sz - b)] of
                Some bi \<Rightarrow>
                  bindr (log_write bp (upd_data bp (\<lambda>d. d[bi div 8 := d ! (bi div 8) OR bit_mask bi]) s)) (\<lambda>_ s.
                  bindr (brelse bp s) (\<lambda>_ s.
                  bindr (bzero dev (of_nat (b + bi)) s) (\<lambda>_ s. Ok (Some (of_nat (b + bi))) s)))
              | None \<Rightarrow> bindr (brelse bp s) (\<lambda>_ s. Ok None s)))
           [0..<(sz + BPB - 1) div BPB] s) (\<lambda>r s.
         case r of Some x \<Rightarrow> Ok x s
         | None \<Rightarrow> bindr (kprintf (''balloc: out of blocks'' @ [CHR 0x0A]) [] s) (\<lambda>_ s. Ok 0 s)))"

definition bfree :: "u32 \<Rightarrow> u32 \<Rightarrow> 'z kfs_scheme \<Rightarrow> (unit, 'z kfs_scheme) kres" where
  "bfree dev b s =
     bindr (bread dev (BBLOCK b (sb s)) s) (\<lambda>bp s.
     let bi = unat b mod BPB
     in if bit_free (b_data (bufs s bp)) bi then Panic ''freeing free block''
        else bindr (log_write bp (upd_data bp (\<lambda>d. d[bi div 8 := d ! (bi div 8) AND NOT (bit_mask bi)]) s)) (\<lambda>_ s.
             brelse bp s))"

section \<open>Inodes\<close>

definition iinit :: "'z kfs_scheme \<Rightarrow> 'z kfs_scheme" where
  "iinit s = fold (\<lambda>i s. initsleeplock (L_inode i) ''inode'' s) [0..<NINODE] (initlock L_itable ''itable'' s)"

definition iget :: "u32 \<Rightarrow> u32 \<Rightarrow> 'z kfs_scheme \<Rightarrow> (nat, 'z kfs_scheme) kres" where
  "iget dev inum s =
     bindr (acquire L_itable s) (\<lambda>_ s.
     case find (\<lambda>ip. i_ref (itable s ip) > 0 \<and> i_dev (itable s ip) = dev \<and> i_inum (itable s ip) = inum) [0..<NINODE] of
       Some ip \<Rightarrow>
         bindr (release L_itable (upd_inode ip (\<lambda>n. n\<lparr>i_ref := i_ref n + 1\<rparr>) s)) (\<lambda>_ s. Ok ip s)
     | None \<Rightarrow>
         (case find (\<lambda>ip. i_ref (itable s ip) = 0) [0..<NINODE] of
            None \<Rightarrow> Panic ''iget: no inodes''
          | Some ip \<Rightarrow>
              bindr (release L_itable
                 (upd_inode ip (\<lambda>n. n\<lparr>i_dev := dev, i_inum := inum, i_ref := 1, i_valid := False\<rparr>) s)) (\<lambda>_ s.
              Ok ip s)))"

definition dinode_off :: "u32 \<Rightarrow> nat" where
  "dinode_off inum = 64 * (unat inum mod IPB)"

definition ialloc :: "u32 \<Rightarrow> u16 \<Rightarrow> 'z kfs_scheme \<Rightarrow> (nat option, 'z kfs_scheme) kres" where
  "ialloc dev type s =
     bindr (scan_res (\<lambda>inum s.
         let off = dinode_off (of_nat inum)
         in bindr (bread dev (IBLOCK (of_nat inum) (sb s)) s) (\<lambda>bp s.
            if get_u16 off (b_data (bufs s bp)) = 0
            then bindr (log_write bp (upd_data bp (\<lambda>d. put_u16 off type (put_bytes off (replicate 64 0) d)) s)) (\<lambda>_ s.
                 bindr (brelse bp s) (\<lambda>_ s.
                 bindr (iget dev (of_nat inum) s) (\<lambda>ip s. Ok (Some ip) s)))
            else bindr (brelse bp s) (\<lambda>_ s. Ok None s)))
       [1..<unat (sb_ninodes (sb s))] s) (\<lambda>r s.
     case r of Some ip \<Rightarrow> Ok (Some ip) s
     | None \<Rightarrow> bindr (kprintf (''ialloc: no inodes'' @ [CHR 0x0A]) [] s) (\<lambda>_ s. Ok None s))"

definition put_dinode :: "nat \<Rightarrow> inode \<Rightarrow> u8 list \<Rightarrow> u8 list" where
  "put_dinode off n d =
     put_bytes (off + 12) (concat (map (to_le 4) (i_addrs n)))
       (put_u32 (off + 8) (i_size n) (put_u16 (off + 6) (i_nlink n)
         (put_u16 (off + 4) (i_minor n) (put_u16 (off + 2) (i_major n) (put_u16 off (i_type n) d)))))"

definition get_dinode :: "nat \<Rightarrow> u8 list \<Rightarrow> inode \<Rightarrow> inode" where
  "get_dinode off d n =
     n\<lparr>i_type := get_u16 off d, i_major := get_u16 (off + 2) d, i_minor := get_u16 (off + 4) d,
       i_nlink := get_u16 (off + 6) d, i_size := get_u32 (off + 8) d,
       i_addrs := map (\<lambda>k. get_u32 (off + 12 + 4 * k) d) [0..<NDIRECT + 1]\<rparr>"

definition iupdate :: "nat \<Rightarrow> 'z kfs_scheme \<Rightarrow> (unit, 'z kfs_scheme) kres" where
  "iupdate ip s =
     bindr (bread (i_dev (itable s ip)) (IBLOCK (i_inum (itable s ip)) (sb s)) s) (\<lambda>bp s.
     bindr (log_write bp (upd_data bp (put_dinode (dinode_off (i_inum (itable s ip))) (itable s ip)) s)) (\<lambda>_ s.
     brelse bp s))"

definition idup :: "nat \<Rightarrow> 'z kfs_scheme \<Rightarrow> (nat, 'z kfs_scheme) kres" where
  "idup ip s =
     bindr (acquire L_itable s) (\<lambda>_ s.
     bindr (release L_itable (upd_inode ip (\<lambda>n. n\<lparr>i_ref := i_ref n + 1\<rparr>) s)) (\<lambda>_ s. Ok ip s))"

definition ilock :: "nat option \<Rightarrow> 'z kfs_scheme \<Rightarrow> (unit, 'z kfs_scheme) kres" where
  "ilock ip s =
     (case ip of None \<Rightarrow> Panic ''ilock''
      | Some ip \<Rightarrow>
        if i_ref (itable s ip) < 1 then Panic ''ilock''
        else bindr (acquiresleep (L_inode ip) s) (\<lambda>_ s.
          if \<not> i_valid (itable s ip)
          then bindr (bread (i_dev (itable s ip)) (IBLOCK (i_inum (itable s ip)) (sb s)) s) (\<lambda>bp s.
               let s = upd_inode ip (get_dinode (dinode_off (i_inum (itable s ip))) (b_data (bufs s bp))) s
               in bindr (brelse bp s) (\<lambda>_ s.
                  let s = upd_inode ip (\<lambda>n. n\<lparr>i_valid := True\<rparr>) s
                  in if i_type (itable s ip) = 0 then Panic ''ilock: no type'' else Ok () s))
          else Ok () s))"

definition iunlock :: "nat option \<Rightarrow> 'z kfs_scheme \<Rightarrow> (unit, 'z kfs_scheme) kres" where
  "iunlock ip s =
     (case ip of None \<Rightarrow> Panic ''iunlock''
      | Some ip \<Rightarrow>
        bindr (holdingsleep (L_inode ip) s) (\<lambda>h s.
        if \<not> h \<or> i_ref (itable s ip) < 1 then Panic ''iunlock'' else releasesleep (L_inode ip) s))"

definition itrunc :: "nat \<Rightarrow> 'z kfs_scheme \<Rightarrow> (unit, 'z kfs_scheme) kres" where
  "itrunc ip s =
     bindr (each_res (\<lambda>i s.
         if i_addrs (itable s ip) ! i \<noteq> 0
         then bindr (bfree (i_dev (itable s ip)) (i_addrs (itable s ip) ! i) s) (\<lambda>_ s.
              Ok () (upd_inode ip (\<lambda>n. n\<lparr>i_addrs := (i_addrs n)[i := 0]\<rparr>) s))
         else Ok () s) [0..<NDIRECT] s) (\<lambda>_ s.
     bindr (if i_addrs (itable s ip) ! NDIRECT \<noteq> 0
            then bindr (bread (i_dev (itable s ip)) (i_addrs (itable s ip) ! NDIRECT) s) (\<lambda>bp s.
                 bindr (each_res (\<lambda>j s.
                     let a = get_u32 (4 * j) (b_data (bufs s bp))
                     in if a \<noteq> 0 then bfree (i_dev (itable s ip)) a s else Ok () s) [0..<NINDIRECT] s) (\<lambda>_ s.
                 bindr (brelse bp s) (\<lambda>_ s.
                 bindr (bfree (i_dev (itable s ip)) (i_addrs (itable s ip) ! NDIRECT) s) (\<lambda>_ s.
                 Ok () (upd_inode ip (\<lambda>n. n\<lparr>i_addrs := (i_addrs n)[NDIRECT := 0]\<rparr>) s)))))
            else Ok () s) (\<lambda>_ s.
     iupdate ip (upd_inode ip (\<lambda>n. n\<lparr>i_size := 0\<rparr>) s)))"

definition iput :: "nat \<Rightarrow> 'z kfs_scheme \<Rightarrow> (unit, 'z kfs_scheme) kres" where
  "iput ip s =
     bindr (acquire L_itable s) (\<lambda>_ s.
     bindr (if i_ref (itable s ip) = 1 \<and> i_valid (itable s ip) \<and> i_nlink (itable s ip) = 0
            then bindr (acquiresleep (L_inode ip) s) (\<lambda>_ s.
                 bindr (release L_itable s) (\<lambda>_ s.
                 bindr (itrunc ip s) (\<lambda>_ s.
                 bindr (iupdate ip (upd_inode ip (\<lambda>n. n\<lparr>i_type := 0\<rparr>) s)) (\<lambda>_ s.
                 bindr (releasesleep (L_inode ip) (upd_inode ip (\<lambda>n. n\<lparr>i_valid := False\<rparr>) s)) (\<lambda>_ s.
                 acquire L_itable s)))))
            else Ok () s) (\<lambda>_ s.
     release L_itable (upd_inode ip (\<lambda>n. n\<lparr>i_ref := i_ref n - 1\<rparr>) s)))"

definition iunlockput :: "nat \<Rightarrow> 'z kfs_scheme \<Rightarrow> (unit, 'z kfs_scheme) kres" where
  "iunlockput ip s = bindr (iunlock (Some ip) s) (\<lambda>_ s. iput ip s)"

section \<open>File contents\<close>

definition bmap :: "nat \<Rightarrow> u32 \<Rightarrow> 'z kfs_scheme \<Rightarrow> (u32, 'z kfs_scheme) kres" where
  "bmap ip bn s =
     (if bn < of_nat NDIRECT then
        let addr = i_addrs (itable s ip) ! unat bn
        in if addr = 0
           then bindr (balloc (i_dev (itable s ip)) s) (\<lambda>addr s.
                if addr = 0 then Ok 0 s
                else Ok addr (upd_inode ip (\<lambda>n. n\<lparr>i_addrs := (i_addrs n)[unat bn := addr]\<rparr>) s))
           else Ok addr s
      else
        let bn = bn - of_nat NDIRECT
        in if bn < of_nat NINDIRECT then
             bindr (let addr = i_addrs (itable s ip) ! NDIRECT
                    in if addr = 0
                       then bindr (balloc (i_dev (itable s ip)) s) (\<lambda>addr s.
                            if addr = 0 then Ok 0 s
                            else Ok addr (upd_inode ip (\<lambda>n. n\<lparr>i_addrs := (i_addrs n)[NDIRECT := addr]\<rparr>) s))
                       else Ok addr s) (\<lambda>addr s.
             if addr = 0 then Ok 0 s
             else bindr (bread (i_dev (itable s ip)) addr s) (\<lambda>bp s.
                  let a = get_u32 (4 * unat bn) (b_data (bufs s bp))
                  in bindr (if a = 0
                            then bindr (balloc (i_dev (itable s ip)) s) (\<lambda>a s.
                                 if a \<noteq> 0
                                 then bindr (log_write bp (upd_data bp (put_u32 (4 * unat bn) a) s)) (\<lambda>_ s. Ok a s)
                                 else Ok a s)
                            else Ok a s) (\<lambda>a s.
                     bindr (brelse bp s) (\<lambda>_ s. Ok a s))))
           else Panic ''bmap: out of range'')"

record stat =
  st_dev :: u32
  st_ino :: u32
  st_type :: u16
  st_nlink :: u16
  st_size :: u64

definition stati :: "nat \<Rightarrow> 'z kfs_scheme \<Rightarrow> stat" where
  "stati ip s =
     (let n = itable s ip
      in \<lparr>st_dev = i_dev n, st_ino = i_inum n, st_type = i_type n, st_nlink = i_nlink n, st_size = ucast (i_size n)\<rparr>)"

text \<open>The loop of \<open>readi\<close> with \<open>rest\<close> bytes to go.  The result is the bytes that were read (their number is what \<open>tot\<close>
  has grown by), or \<open>None\<close> where the source sets \<open>tot = -1\<close>.\<close>

definition chunk :: "u32 \<Rightarrow> nat \<Rightarrow> nat" where
  "chunk off rest = min rest (BSIZE - unat off mod BSIZE)"

lemma chunk_pos: "0 < rest \<Longrightarrow> 0 < chunk off rest"
  by (simp add: chunk_def BSIZE_def)

function readi_loop :: "nat \<Rightarrow> kdst \<Rightarrow> u32 \<Rightarrow> nat \<Rightarrow> 'z kfs_scheme \<Rightarrow> (u8 list option, 'z kfs_scheme) kres" where
  "readi_loop ip dst off rest s =
     (if rest = 0 then Ok (Some []) s
      else bindr (bmap ip (off div of_nat BSIZE) s) (\<lambda>addr s.
        if addr = 0 then Ok (Some []) s
        else bindr (bread (i_dev (itable s ip)) addr s) (\<lambda>bp s.
          let m = chunk off rest; bs = get_bytes (unat off mod BSIZE) m (b_data (bufs s bp))
          in bindr (either_copyout dst bs s) (\<lambda>r s.
             if r = - 1 then bindr (brelse bp s) (\<lambda>_ s. Ok None s)
             else bindr (brelse bp s) (\<lambda>_ s.
                  bindr (readi_loop ip (kdst_plus dst m) (off + of_nat m) (rest - m) s) (\<lambda>cs s.
                  Ok (map_option ((@) bs) cs) s))))))"
  by pat_completeness auto
termination
  by (relation "measure (\<lambda>(ip, dst, off, rest, s). rest)") (auto simp: chunk_pos)

declare readi_loop.simps [simp del]

definition readi :: "nat \<Rightarrow> kdst \<Rightarrow> u32 \<Rightarrow> u32 \<Rightarrow> 'z kfs_scheme \<Rightarrow> (int \<times> u8 list, 'z kfs_scheme) kres" where
  "readi ip dst off n s =
     (if off > i_size (itable s ip) \<or> off + n < off then Ok (0, []) s
      else let n = (if off + n > i_size (itable s ip) then i_size (itable s ip) - off else n)
           in bindr (readi_loop ip dst off (unat n) s) (\<lambda>r s.
              Ok (case r of None \<Rightarrow> (- 1, []) | Some bs \<Rightarrow> (int (length bs), bs)) s))"

text \<open>The loop of \<open>writei\<close>: the number of bytes it wrote.\<close>

function writei_loop :: "nat \<Rightarrow> ksrc \<Rightarrow> u32 \<Rightarrow> nat \<Rightarrow> 'z kfs_scheme \<Rightarrow> (nat, 'z kfs_scheme) kres" where
  "writei_loop ip src off rest s =
     (if rest = 0 then Ok 0 s
      else bindr (bmap ip (off div of_nat BSIZE) s) (\<lambda>addr s.
        if addr = 0 then Ok 0 s
        else bindr (bread (i_dev (itable s ip)) addr s) (\<lambda>bp s.
          let m = chunk off rest
          in bindr (either_copyin src m s) (\<lambda>(r, bs) s.
             let s = upd_data bp (put_bytes (unat off mod BSIZE) bs) s
             in if r = - 1 then bindr (brelse bp s) (\<lambda>_ s. Ok 0 s)
                else bindr (log_write bp s) (\<lambda>_ s.
                     bindr (brelse bp s) (\<lambda>_ s.
                     bindr (writei_loop ip (ksrc_plus src m) (off + of_nat m) (rest - m) s) (\<lambda>tot s.
                     Ok (m + tot) s)))))))"
  by pat_completeness auto
termination
  by (relation "measure (\<lambda>(ip, src, off, rest, s). rest)") (auto simp: chunk_pos)

declare writei_loop.simps [simp del]

definition writei :: "nat \<Rightarrow> ksrc \<Rightarrow> u32 \<Rightarrow> u32 \<Rightarrow> 'z kfs_scheme \<Rightarrow> (int, 'z kfs_scheme) kres" where
  "writei ip src off n s =
     (if off > i_size (itable s ip) \<or> off + n < off then Ok (- 1) s
      else if off + n > of_nat (MAXFILE * BSIZE) then Ok (- 1) s
      else bindr (writei_loop ip src off (unat n) s) (\<lambda>tot s.
        let off = off + of_nat tot;
            s = (if off > i_size (itable s ip) then upd_inode ip (\<lambda>x. x\<lparr>i_size := off\<rparr>) s else s)
        in bindr (iupdate ip s) (\<lambda>_ s. Ok (int tot) s)))"

section \<open>Directories\<close>

definition namecmp :: "u8 list \<Rightarrow> u8 list \<Rightarrow> int option" where
  "namecmp x y = strncmp x y DIRSIZ"

definition dirlookup :: "nat \<Rightarrow> u8 list \<Rightarrow> 'z kfs_scheme \<Rightarrow> ((nat \<times> u32) option, 'z kfs_scheme) kres" where
  "dirlookup dp name s =
     (if i_type (itable s dp) \<noteq> T_DIR then Panic ''dirlookup not DIR''
      else scan_res (\<lambda>k s.
        let off = of_nat (16 * k)
        in bindr (readi dp To_obj off 16 s) (\<lambda>(r, de) s.
           if r \<noteq> 16 then Panic ''dirlookup read''
           else if get_u16 0 de = 0 then Ok None s
           else bindr (of_option (namecmp name (drop 2 de)) s) (\<lambda>c s.
             if c = 0
             then bindr (iget (i_dev (itable s dp)) (ucast (get_u16 0 de)) s) (\<lambda>ip s. Ok (Some (ip, off)) s)
             else Ok None s)))
        [0..<(unat (i_size (itable s dp)) + 15) div 16] s)"

definition dirlink :: "nat \<Rightarrow> u8 list \<Rightarrow> u32 \<Rightarrow> 'z kfs_scheme \<Rightarrow> (int, 'z kfs_scheme) kres" where
  "dirlink dp name inum s =
     bindr (dirlookup dp name s) (\<lambda>r s.
     case r of
       Some (ip, _) \<Rightarrow> bindr (iput ip s) (\<lambda>_ s. Ok (- 1) s)
     | None \<Rightarrow>
         let cnt = (unat (i_size (itable s dp)) + 15) div 16
         in bindr (scan_res (\<lambda>k s.
              bindr (readi dp To_obj (of_nat (16 * k)) 16 s) (\<lambda>(r, de) s.
                if r \<noteq> 16 then Panic ''dirlink read''
                else Ok (if get_u16 0 de = 0 then Some k else None) s)) [0..<cnt] s) (\<lambda>k s.
            let off = of_nat (16 * (case k of Some k \<Rightarrow> k | None \<Rightarrow> cnt))
            in bindr (of_option (strncpy (replicate DIRSIZ 0) name (int DIRSIZ)) s) (\<lambda>nm s.
               bindr (writei dp (From_obj (to_le 2 (ucast inum :: u16) @ nm)) off 16 s) (\<lambda>r s.
               if r \<noteq> 16 then Ok (- 1) s else Ok 0 s))))"

section \<open>Path names\<close>

definition slash :: u8 where "slash = of_char CHR ''/''"

text \<open>\<open>None\<close>: no element left.  Otherwise the rest of the path and the new contents of \<open>name\<close>.\<close>

definition skipelem :: "u8 list \<Rightarrow> u8 list \<Rightarrow> (u8 list \<times> u8 list) option" where
  "skipelem path name =
     (let path = dropWhile (\<lambda>c. c = slash) path
      in if path = [] then None
         else let elem = takeWhile (\<lambda>c. c \<noteq> slash) path;
                  path = dropWhile (\<lambda>c. c \<noteq> slash) path;
                  len = length elem;
                  name = (if DIRSIZ \<le> len then put_bytes 0 (take DIRSIZ elem) name
                          else (put_bytes 0 elem name)[len := 0])
              in Some (dropWhile (\<lambda>c. c = slash) path, name))"

lemma skipelem_shorter:
  assumes "skipelem path name = Some (path', name')"
  shows "length path' < length path"
proof -
  let ?d = "dropWhile (\<lambda>c. c = slash) path"
  have ne: "?d \<noteq> []" using assms by (auto simp: skipelem_def Let_def split: if_splits)
  then have "hd ?d \<noteq> slash" using hd_dropWhile by blast
  with ne have "length (dropWhile (\<lambda>c. c \<noteq> slash) ?d) < length ?d"
    by (cases ?d) (auto simp: le_imp_less_Suc length_dropWhile_le)
  moreover have "length path' \<le> length (dropWhile (\<lambda>c. c \<noteq> slash) ?d)"
    using assms by (auto simp: skipelem_def Let_def length_dropWhile_le split: if_splits)
  moreover have "length ?d \<le> length path" by (rule length_dropWhile_le)
  ultimately show ?thesis by linarith
qed

function namex_loop ::
    "u8 list \<Rightarrow> bool \<Rightarrow> u8 list \<Rightarrow> nat \<Rightarrow> 'z kfs_scheme \<Rightarrow> (nat option \<times> u8 list, 'z kfs_scheme) kres" where
  "namex_loop path parent name ip s =
     (case skipelem path name of
        None \<Rightarrow> if parent then bindr (iput ip s) (\<lambda>_ s. Ok (None, name) s) else Ok (Some ip, name) s
      | Some (path, name) \<Rightarrow>
          bindr (ilock (Some ip) s) (\<lambda>_ s.
          if i_type (itable s ip) \<noteq> T_DIR then bindr (iunlockput ip s) (\<lambda>_ s. Ok (None, name) s)
          else if parent \<and> path = [] then bindr (iunlock (Some ip) s) (\<lambda>_ s. Ok (Some ip, name) s)
          else bindr (dirlookup ip name s) (\<lambda>nx s.
            case nx of None \<Rightarrow> bindr (iunlockput ip s) (\<lambda>_ s. Ok (None, name) s)
            | Some (nip, _) \<Rightarrow> bindr (iunlockput ip s) (\<lambda>_ s. namex_loop path parent name nip s))))"
  by pat_completeness auto
termination
  by (relation "measure (\<lambda>(path, parent, name, ip, s). length path)") (auto dest: skipelem_shorter)

declare namex_loop.simps [simp del]

definition namex :: "u8 list \<Rightarrow> bool \<Rightarrow> u8 list \<Rightarrow> 'z kfs_scheme \<Rightarrow> (nat option \<times> u8 list, 'z kfs_scheme) kres" where
  "namex path parent name s =
     bindr (if path \<noteq> [] \<and> hd path = slash then iget ROOTDEV ROOTINO s
            else bindr (curproc s) (\<lambda>p s.
                 case p_cwd (procs s p) of None \<Rightarrow> Panic ''kerneltrap'' | Some ip \<Rightarrow> idup ip s)) (\<lambda>ip s.
     namex_loop path parent name ip s)"

definition namei :: "u8 list \<Rightarrow> 'z kfs_scheme \<Rightarrow> (nat option, 'z kfs_scheme) kres" where
  "namei path s = bindr (namex path False (replicate DIRSIZ 0) s) (\<lambda>(ip, _) s. Ok ip s)"

definition nameiparent :: "u8 list \<Rightarrow> 'z kfs_scheme \<Rightarrow> (nat option \<times> u8 list, 'z kfs_scheme) kres" where
  "nameiparent path s = namex path True (replicate DIRSIZ 0) s"

end
