(* ===== verification/Pipe.thy ===== *)
theory Pipe
  imports Fs
begin

text \<open>
  \<^verbatim>\<open>kernel/pipe.c\<close> without \<open>pipealloc\<close> (which is in \<^verbatim>\<open>File\<close>).  A pipe occupies the page \<open>kalloc\<close> returned for it and is
  named by the address of that page; \<open>pipes\<close> is the typed view of those pages.  \<open>nread\<close> and \<open>nwrite\<close> are
  \<^verbatim>\<open>uint\<close> counters that wrap.
\<close>

definition PIPESIZE :: nat where "PIPESIZE = 512"

record pipe =
  pi_data :: "u8 list"
  pi_nread :: u32
  pi_nwrite :: u32
  pi_readopen :: bool
  pi_writeopen :: bool

record kpipe = kfs +
  pipes :: "u64 \<Rightarrow> pipe"

definition upd_pipe :: "u64 \<Rightarrow> (pipe \<Rightarrow> pipe) \<Rightarrow> 'z kpipe_scheme \<Rightarrow> 'z kpipe_scheme" where
  "upd_pipe pi f s = s\<lparr>pipes := (pipes s)(pi := f (pipes s pi))\<rparr>"

definition pipeclose :: "u64 \<Rightarrow> bool \<Rightarrow> 'z kpipe_scheme \<Rightarrow> (unit, 'z kpipe_scheme) kres" where
  "pipeclose pi writable s =
     bindr (acquire (L_pipe pi) s) (\<lambda>_ s.
     bindr (if writable then wakeup (Some (Ch_pipe_read pi)) (upd_pipe pi (\<lambda>q. q\<lparr>pi_writeopen := False\<rparr>) s)
            else wakeup (Some (Ch_pipe_write pi)) (upd_pipe pi (\<lambda>q. q\<lparr>pi_readopen := False\<rparr>) s)) (\<lambda>_ s.
     if \<not> pi_readopen (pipes s pi) \<and> \<not> pi_writeopen (pipes s pi)
     then bindr (release (L_pipe pi) s) (\<lambda>_ s. kfree pi s)
     else release (L_pipe pi) s))"

definition pipe_full :: "pipe \<Rightarrow> bool" where
  "pipe_full q \<longleftrightarrow> pi_nwrite q = pi_nread q + of_nat PIPESIZE"

definition pipe_put :: "u8 \<Rightarrow> pipe \<Rightarrow> pipe" where
  "pipe_put ch q = q\<lparr>pi_data := (pi_data q)[unat (pi_nwrite q) mod PIPESIZE := ch], pi_nwrite := pi_nwrite q + 1\<rparr>"

definition pipe_empty :: "pipe \<Rightarrow> bool" where
  "pipe_empty q \<longleftrightarrow> pi_nread q = pi_nwrite q"

definition pipe_get :: "pipe \<Rightarrow> u8 \<times> pipe" where
  "pipe_get q = (pi_data q ! (unat (pi_nread q) mod PIPESIZE), q\<lparr>pi_nread := pi_nread q + 1\<rparr>)"

text \<open>The loop of \<open>pipewrite\<close> with \<open>rest = n - i\<close> bytes to go, entered with the lock held; the result is the value the
  call returns.  A writer that slept continues with the same \<open>i\<close>.\<close>

fun pipewrite_loop :: "u64 \<Rightarrow> nat \<Rightarrow> u64 \<Rightarrow> nat \<Rightarrow> nat \<Rightarrow> 'z kpipe_scheme \<Rightarrow> (int, 'z kpipe_scheme) kres" where
  "pipewrite_loop pi pr addr i 0 s =
     bindr (wakeup (Some (Ch_pipe_read pi)) s) (\<lambda>_ s. bindr (release (L_pipe pi) s) (\<lambda>_ s. Ok (int i) s))"
| "pipewrite_loop pi pr addr i (Suc rest) s =
     bindr (if \<not> pi_readopen (pipes s pi) then Ok True s else bindr (killed pr s) (\<lambda>k s. Ok (k \<noteq> 0) s)) (\<lambda>stop s.
     if stop then bindr (release (L_pipe pi) s) (\<lambda>_ s. Ok (- 1) s)
     else if pipe_full (pipes s pi)
     then bindr (wakeup (Some (Ch_pipe_read pi)) s) (\<lambda>_ s. sleep (Ch_pipe_write pi) (L_pipe pi) s)
     else bindr (copyin (p_pagetable (procs s pr)) (addr + of_nat i) 1 s) (\<lambda>(r, bs) s.
       if r = - 1
       then bindr (wakeup (Some (Ch_pipe_read pi)) s) (\<lambda>_ s. bindr (release (L_pipe pi) s) (\<lambda>_ s. Ok (int i) s))
       else pipewrite_loop pi pr addr (Suc i) rest (upd_pipe pi (pipe_put (hd bs)) s)))"

definition pipewrite :: "u64 \<Rightarrow> u64 \<Rightarrow> u32 \<Rightarrow> 'z kpipe_scheme \<Rightarrow> (int, 'z kpipe_scheme) kres" where
  "pipewrite pi addr n s =
     bindr (curproc s) (\<lambda>pr s. bindr (acquire (L_pipe pi) s) (\<lambda>_ s.
     pipewrite_loop pi pr addr 0 (nat (sint n)) s))"

fun piperead_copy :: "u64 \<Rightarrow> nat \<Rightarrow> u64 \<Rightarrow> nat \<Rightarrow> nat \<Rightarrow> 'z kpipe_scheme \<Rightarrow> (nat, 'z kpipe_scheme) kres" where
  "piperead_copy pi pr addr i 0 s = Ok i s"
| "piperead_copy pi pr addr i (Suc rest) s =
     (if pipe_empty (pipes s pi) then Ok i s
      else let (ch, q) = pipe_get (pipes s pi); s = upd_pipe pi (\<lambda>_. q) s
           in bindr (copyout (p_pagetable (procs s pr)) (addr + of_nat i) [ch] s) (\<lambda>r s.
              if r = - 1 then Ok i s else piperead_copy pi pr addr (Suc i) rest s))"

text \<open>\<open>piperead\<close> from the test of the waiting loop on, with the lock held; a reader that slept starts here again.\<close>

definition piperead_turn :: "u64 \<Rightarrow> nat \<Rightarrow> u64 \<Rightarrow> u32 \<Rightarrow> 'z kpipe_scheme \<Rightarrow> (int, 'z kpipe_scheme) kres" where
  "piperead_turn pi pr addr n s =
     (if pipe_empty (pipes s pi) \<and> pi_writeopen (pipes s pi)
      then bindr (killed pr s) (\<lambda>k s.
           if k \<noteq> 0 then bindr (release (L_pipe pi) s) (\<lambda>_ s. Ok (- 1) s)
           else sleep (Ch_pipe_read pi) (L_pipe pi) s)
      else bindr (piperead_copy pi pr addr 0 (nat (sint n)) s) (\<lambda>i s.
           bindr (wakeup (Some (Ch_pipe_write pi)) s) (\<lambda>_ s.
           bindr (release (L_pipe pi) s) (\<lambda>_ s. Ok (int i) s))))"

definition piperead :: "u64 \<Rightarrow> u64 \<Rightarrow> u32 \<Rightarrow> 'z kpipe_scheme \<Rightarrow> (int, 'z kpipe_scheme) kres" where
  "piperead pi addr n s =
     bindr (curproc s) (\<lambda>pr s. bindr (acquire (L_pipe pi) s) (\<lambda>_ s. piperead_turn pi pr addr n s))"

end
