(* ===== verification/Pagetable.thy ===== *)
theory Pagetable
  imports Vm
begin

text \<open>
  Page tables as finite maps.  \<open>pt_lookup\<close> reads a page table in memory as a partial map from virtual
  pages to leaf entries; \<open>wf_pt\<close> says that the tables form a tree of distinct pages.  The lemmas show
  what \<open>walk\<close> and \<open>mappages\<close> do to that map, and what they leave alone.
\<close>

section \<open>Tables in memory\<close>

abbreviation valid :: "u64 \<Rightarrow> bool" where
  "valid w \<equiv> w AND PTE_V \<noteq> 0"

definition ent :: "u64 \<Rightarrow> nat \<Rightarrow> u64" where
  "ent pt i = pt + 8 * of_nat i"

definition px :: "nat \<Rightarrow> u64 \<Rightarrow> nat" where
  "px l va = unat (PX l va)"

definition child :: "memory \<Rightarrow> u64 \<Rightarrow> nat \<Rightarrow> u64" where
  "child m pt i = PTE2PA (load64 m (ent pt i))"

text \<open>The address of the leaf entry for \<open>va\<close>, when the tables on the way exist.\<close>

fun pte_at :: "memory \<Rightarrow> nat \<Rightarrow> u64 \<Rightarrow> u64 \<Rightarrow> u64 option" where
  "pte_at m 0 pt va = Some (ent pt (px 0 va))"
| "pte_at m (Suc l) pt va =
     (if valid (load64 m (ent pt (px (Suc l) va))) then pte_at m l (child m pt (px (Suc l) va)) va else None)"

definition pt_lookup :: "memory \<Rightarrow> nat \<Rightarrow> u64 \<Rightarrow> u64 \<Rightarrow> u64 option" where
  "pt_lookup m l pt va = (case pte_at m l pt va of None \<Rightarrow> None
     | Some a \<Rightarrow> if valid (load64 m a) then Some (load64 m a) else None)"

text \<open>The pages that hold the tables of level \<open>l\<close> and below, and the tree property.\<close>

fun pages :: "memory \<Rightarrow> nat \<Rightarrow> u64 \<Rightarrow> u64 set" where
  "pages m 0 pt = {pt}"
| "pages m (Suc l) pt = insert pt (\<Union>i \<in> {i. i < 512 \<and> valid (load64 m (ent pt i))}. pages m l (child m pt i))"

fun wf_pt :: "memory \<Rightarrow> nat \<Rightarrow> u64 \<Rightarrow> bool" where
  "wf_pt m 0 pt \<longleftrightarrow> aligned 12 pt"
| "wf_pt m (Suc l) pt \<longleftrightarrow> aligned 12 pt \<and> (\<forall>i < 512. valid (load64 m (ent pt i)) \<longrightarrow>
     wf_pt m l (child m pt i) \<and> PTE_FLAGS (load64 m (ent pt i)) = PTE_V \<and> pt \<notin> pages m l (child m pt i)
     \<and> (\<forall>j < 512. j \<noteq> i \<longrightarrow> valid (load64 m (ent pt j)) \<longrightarrow> pages m l (child m pt i) \<inter> pages m l (child m pt j) = {}))"

section \<open>Addresses of entries\<close>

lemma px_less [simp]: "px l va < 512"
  by (simp add: px_def PX_less)

lemma ent_px: "pt + 8 * PX l va = ent pt (px l va)"
  by (simp add: ent_def px_def)

lemma off_in_ent: "i < 512 \<Longrightarrow> off_in pt (ent pt i) = 8 * i"
proof -
  assume "i < 512"
  then have lt: "8 * i < 2 ^ 64" by simp
  have "ent pt i = pt + of_nat (8 * i)" by (simp add: ent_def)
  then show ?thesis by (simp only: off_in_add [OF lt])
qed

lemma ent_page [simp]: "aligned 12 pt \<Longrightarrow> i < 512 \<Longrightarrow> PGROUNDDOWN (ent pt i) = pt"
  using in_page [of pt "ent pt i"] by (simp add: off_in_ent)

lemma ent_inj [simp]: "i < 512 \<Longrightarrow> j < 512 \<Longrightarrow> ent pt i = ent pt j \<longleftrightarrow> i = j"
  using off_in_ent [of i pt] off_in_ent [of j pt] by (metis mult_left_cancel numeral_eq_iff zero_neq_numeral)

lemma ent_aligned [simp]: "aligned 12 pt \<Longrightarrow> aligned 3 (ent pt i)"
proof -
  assume "aligned 12 pt"
  then have "8 dvd unat pt" using aligned_mono [of 12 pt 3] by (simp add: aligned_dvd)
  then have "8 dvd (unat pt + 8 * i) mod 2 ^ 64" by (intro dvd_mod) simp_all
  moreover have "unat (ent pt i) = (unat pt + 8 * i) mod 2 ^ 64"
    by (simp add: ent_def unat_word_ariths unat_of_nat mod_simps)
  ultimately show ?thesis by (simp add: aligned_dvd)
qed

lemma root_in_pages [simp]: "pt \<in> pages m l pt"
  by (cases l) auto

lemma wf_aligned: "wf_pt m l pt \<Longrightarrow> aligned 12 pt"
  by (cases l) auto

lemma wf_child:
  assumes "wf_pt m (Suc l) pt" "i < 512" "valid (load64 m (ent pt i))"
  shows "wf_pt m l (child m pt i)" "pt \<notin> pages m l (child m pt i)"
    "pages m l (child m pt i) \<subseteq> pages m (Suc l) pt" "PTE_FLAGS (load64 m (ent pt i)) = PTE_V"
    "\<And>j. j < 512 \<Longrightarrow> j \<noteq> i \<Longrightarrow> valid (load64 m (ent pt j)) \<Longrightarrow>
       pages m l (child m pt i) \<inter> pages m l (child m pt j) = {}"
  using assms by auto

lemma wf_SucI:
  assumes "aligned 12 pt"
    and "\<And>i. i < 512 \<Longrightarrow> valid (load64 m (ent pt i)) \<Longrightarrow> wf_pt m l (child m pt i)"
    and "\<And>i. i < 512 \<Longrightarrow> valid (load64 m (ent pt i)) \<Longrightarrow> PTE_FLAGS (load64 m (ent pt i)) = PTE_V"
    and "\<And>i. i < 512 \<Longrightarrow> valid (load64 m (ent pt i)) \<Longrightarrow> pt \<notin> pages m l (child m pt i)"
    and "\<And>i j. i < 512 \<Longrightarrow> valid (load64 m (ent pt i)) \<Longrightarrow> j < 512 \<Longrightarrow> j \<noteq> i \<Longrightarrow>
       valid (load64 m (ent pt j)) \<Longrightarrow> pages m l (child m pt i) \<inter> pages m l (child m pt j) = {}"
  shows "wf_pt m (Suc l) pt"
  using assms by simp

declare wf_pt.simps(2) [simp del]

lemma pages_child: "q \<in> pages m (Suc l) pt \<longleftrightarrow> q = pt \<or> (\<exists>i < 512. valid (load64 m (ent pt i)) \<and> q \<in> pages m l (child m pt i))"
  by auto

lemma pages_aligned: "wf_pt m l pt \<Longrightarrow> q \<in> pages m l pt \<Longrightarrow> aligned 12 q"
proof (induction l arbitrary: pt)
  case (Suc l)
  then show ?case using wf_child(1) [OF Suc.prems(1)] wf_aligned [OF Suc.prems(1)] by (metis pages_child)
qed simp

lemma pte_at_page:
  assumes "wf_pt m l pt" "pte_at m l pt va = Some a"
  shows "\<exists>q \<in> pages m l pt. aligned 12 q \<and> a = ent q (px 0 va)"
  using assms
proof (induction l arbitrary: pt)
  case (Suc l)
  let ?i = "px (Suc l) va"
  have v: "valid (load64 m (ent pt ?i))" "pte_at m l (child m pt ?i) va = Some a"
    using Suc.prems(2) by (auto split: if_splits)
  note wc = wf_child [OF Suc.prems(1) px_less v(1)]
  from Suc.IH [OF wc(1) v(2)] wc(3) show ?case by blast
qed auto

section \<open>What a change of memory keeps\<close>

lemma load_ent_outside:
  "same_outside P m m' \<Longrightarrow> aligned 12 pt \<Longrightarrow> pt \<notin> P \<Longrightarrow> i < 512 \<Longrightarrow> load64 m' (ent pt i) = load64 m (ent pt i)"
  by (rule load64_same_outside) auto

lemma pt_outside:
  assumes "same_outside P m m'" "wf_pt m l pt" "pages m l pt \<inter> P = {}"
  shows "pages m' l pt = pages m l pt" "wf_pt m' l pt" "pte_at m' l pt va = pte_at m l pt va"
proof -
  have "pages m' l pt = pages m l pt \<and> wf_pt m' l pt \<and> pte_at m' l pt va = pte_at m l pt va"
    using assms(2,3)
  proof (induction l arbitrary: pt)
    case (Suc l)
    have e: "load64 m' (ent pt i) = load64 m (ent pt i)" if "i < 512" for i
      using that Suc.prems wf_aligned by (intro load_ent_outside [OF assms(1)]) auto
    then have c: "child m' pt i = child m pt i" if "i < 512" for i using that by (simp add: child_def)
    have IH: "pages m' l (child m pt i) = pages m l (child m pt i)" "wf_pt m' l (child m pt i)"
        "pte_at m' l (child m pt i) va = pte_at m l (child m pt i) va"
      if "i < 512" "valid (load64 m (ent pt i))" for i
      using Suc.IH [of "child m pt i"] wf_child(1,3) [OF Suc.prems(1) that] Suc.prems(2) by auto
    have p: "pages m' (Suc l) pt = pages m (Suc l) pt" by (auto simp: e c IH)
    have w: "wf_pt m' (Suc l) pt"
    proof (rule wf_SucI)
      fix i assume i: "i < 512" "valid (load64 m' (ent pt i))"
      then have v: "valid (load64 m (ent pt i))" by (simp add: e)
      note wc = wf_child [OF Suc.prems(1) i(1) v]
      show "wf_pt m' l (child m' pt i)" "pt \<notin> pages m' l (child m' pt i)" "PTE_FLAGS (load64 m' (ent pt i)) = PTE_V"
        using i(1) v wc by (simp_all add: e c IH)
      show "pages m' l (child m' pt i) \<inter> pages m' l (child m' pt j) = {}"
        if "j < 512" "j \<noteq> i" "valid (load64 m' (ent pt j))" for j
        using i(1) v that wc(5) by (simp add: e c IH)
    qed (use Suc.prems(1) in \<open>simp add: wf_aligned\<close>)
    show ?case using p w by (simp add: e c IH)
  qed simp
  then show "pages m' l pt = pages m l pt" "wf_pt m' l pt" "pte_at m' l pt va = pte_at m l pt va" by auto
qed

lemma pt_lookup_outside:
  assumes "same_outside P m m'" "wf_pt m l pt" "pages m l pt \<inter> P = {}"
  shows "pt_lookup m' l pt va = pt_lookup m l pt va"
proof (cases "pte_at m l pt va")
  case None
  then show ?thesis using pt_outside(3) [OF assms] by (simp add: pt_lookup_def)
next
  case (Some a)
  with pte_at_page [OF assms(2)] obtain q where "q \<in> pages m l pt" "aligned 12 q" "a = ent q (px 0 va)" by blast
  then have "load64 m' a = load64 m a" using assms(3) by (auto intro!: load_ent_outside [OF assms(1)])
  then show ?thesis using Some pt_outside(3) [OF assms] by (simp add: pt_lookup_def)
qed

text \<open>A change below one child of a table.\<close>

lemma child_step:
  assumes wf: "wf_pt m (Suc l) pt" and i: "i < 512" "valid (load64 m (ent pt i))"
    and c: "c = child m pt i" "wf_pt m' l c" "pages m' l c = pages m l c \<union> U"
    and out: "same_outside (pages m' l c) m m'" "U \<inter> pages m (Suc l) pt = {}"
  shows "wf_pt m' (Suc l) pt" "pages m' (Suc l) pt = pages m (Suc l) pt \<union> U"
    "\<And>j. j < 512 \<Longrightarrow> load64 m' (ent pt j) = load64 m (ent pt j)"
    "\<And>j va. j < 512 \<Longrightarrow> j \<noteq> i \<Longrightarrow> valid (load64 m (ent pt j)) \<Longrightarrow>
       pt_lookup m' l (child m pt j) va = pt_lookup m l (child m pt j) va"
proof -
  note wc = wf_child [OF wf i]
  have "pt \<notin> pages m' l c" using wc(2) out(2) c by auto
  then show e: "load64 m' (ent pt j) = load64 m (ent pt j)" if "j < 512" for j
    using wf_aligned [OF wf] that by (intro load_ent_outside [OF out(1)]) auto
  then have ch: "child m' pt j = child m pt j" if "j < 512" for j using that by (simp add: child_def)
  have dis: "pages m l (child m pt j) \<inter> pages m' l c = {}" "wf_pt m l (child m pt j)"
    if "j < 512" "j \<noteq> i" "valid (load64 m (ent pt j))" for j
    using wc(5) [OF that] wf_child(1,3) [OF wf that(1,3)] c(1,3) out(2) by auto
  note o = pt_outside [OF out(1) dis(2) dis(1)]
  show "pt_lookup m' l (child m pt j) va = pt_lookup m l (child m pt j) va"
    if "j < 512" "j \<noteq> i" "valid (load64 m (ent pt j))" for j va
    using dis that by (intro pt_lookup_outside [OF out(1)])
  have pg: "pages m' l (child m pt j) = pages m l (child m pt j) \<union> (if j = i then U else {})"
    and w: "wf_pt m' l (child m pt j)" if "j < 512" "valid (load64 m (ent pt j))" for j
    using o(1,2) [of j] c that by auto
  show "pages m' (Suc l) pt = pages m (Suc l) pt \<union> U"
    using i by (auto simp: e ch pg split: if_splits)
  have u: "pt \<notin> U" "pages m l (child m pt j) \<inter> U = {}" if "j < 512" "valid (load64 m (ent pt j))" for j
    using out(2) wf_child(3) [OF wf that] by auto
  show "wf_pt m' (Suc l) pt"
  proof (rule wf_SucI)
    fix j assume j: "j < 512" "valid (load64 m' (ent pt j))"
    then have v: "valid (load64 m (ent pt j))" by (simp add: e)
    note wj = wf_child [OF wf j(1) v]
    show "wf_pt m' l (child m' pt j)" "PTE_FLAGS (load64 m' (ent pt j)) = PTE_V" "pt \<notin> pages m' l (child m' pt j)"
      using j(1) v wj u(1) [OF j(1) v] by (simp_all add: e ch pg w)
    show "pages m' l (child m' pt j) \<inter> pages m' l (child m' pt k) = {}"
      if "k < 512" "k \<noteq> j" "valid (load64 m' (ent pt k))" for k
      using j(1) v that wj(5) [of k] u [of k] u [of j] by (auto simp: e ch pg)
  qed (rule wf_aligned [OF wf])
qed

text \<open>A store to the leaf entry of one address.\<close>

lemma leaf_store:
  assumes "wf_pt m l pt" "pte_at m l pt va = Some a"
  shows "wf_pt (store64 m a v) l pt" "pages (store64 m a v) l pt = pages m l pt"
    "pte_at (store64 m a v) l pt vb = pte_at m l pt vb"
    "same_outside (pages m l pt) m (store64 m a v)"
proof -
  let ?m = "store64 m a v"
  have "wf_pt ?m l pt \<and> pages ?m l pt = pages m l pt \<and> pte_at ?m l pt vb = pte_at m l pt vb
      \<and> same_outside (pages m l pt) m ?m"
    using assms
  proof (induction l arbitrary: pt)
    case 0
    then show ?case using same_outside_store64 [of "ent pt (px 0 va)" m v] by auto
  next
    case (Suc l)
    let ?i = "px (Suc l) va" and ?c = "child m pt (px (Suc l) va)"
    have v: "valid (load64 m (ent pt ?i))" "pte_at m l ?c va = Some a"
      using Suc.prems(2) by (auto split: if_splits)
    note wc = wf_child [OF Suc.prems(1) px_less v(1)]
    from Suc.IH [OF wc(1) v(2)] have IH: "wf_pt ?m l ?c" "pages ?m l ?c = pages m l ?c"
      "pte_at ?m l ?c vb = pte_at m l ?c vb" "same_outside (pages m l ?c) m ?m" by auto
    have out: "same_outside (pages ?m l ?c) m ?m" using IH by simp
    note cs = child_step [OF Suc.prems(1) px_less v(1) refl IH(1), of "{}", unfolded IH(2), OF _ IH(4)]
    have e: "load64 ?m (ent pt j) = load64 m (ent pt j)" "child ?m pt j = child m pt j" if "j < 512" for j
      using cs(3) [OF _ _ that] by (auto simp: child_def)
    have "pte_at ?m (Suc l) pt vb = pte_at m (Suc l) pt vb"
    proof (cases "px (Suc l) vb = ?i \<or> \<not> valid (load64 m (ent pt (px (Suc l) vb)))")
      case True
      then show ?thesis using IH(3) by (auto simp: e)
    next
      case False
      then have "pages m l (child m pt (px (Suc l) vb)) \<inter> pages m l ?c = {}"
        using wc(5) [of "px (Suc l) vb"] by auto
      with False wf_child(1) [OF Suc.prems(1) px_less] show ?thesis
        using pt_outside(3) [OF IH(4)] by (simp add: e)
    qed
    with cs(1,2) IH(4) wc(3) show ?case by (auto intro: same_outside_mono)
  qed
  then show "wf_pt ?m l pt" "pages ?m l pt = pages m l pt" "pte_at ?m l pt vb = pte_at m l pt vb"
    "same_outside (pages m l pt) m ?m" by auto
qed

text \<open>Different virtual pages have different leaf entries.\<close>

lemma pte_at_inj:
  assumes "wf_pt m l pt" "pte_at m l pt va = Some a" "pte_at m l pt vb = Some a"
  shows "\<forall>k \<le> l. px k va = px k vb"
  using assms
proof (induction l arbitrary: pt)
  case 0
  then show ?case by auto
next
  case (Suc l)
  let ?i = "px (Suc l) va" and ?j = "px (Suc l) vb"
  have v: "valid (load64 m (ent pt ?i))" "pte_at m l (child m pt ?i) va = Some a"
    "valid (load64 m (ent pt ?j))" "pte_at m l (child m pt ?j) vb = Some a"
    using Suc.prems(2,3) by (auto split: if_splits)
  note wi = wf_child [OF Suc.prems(1) px_less v(1)] and wj = wf_child [OF Suc.prems(1) px_less v(3)]
  have ij: "?i = ?j"
  proof (rule ccontr)
    assume "?i \<noteq> ?j"
    then have d: "pages m l (child m pt ?i) \<inter> pages m l (child m pt ?j) = {}" using wi(5) v(3) by auto
    obtain q where "q \<in> pages m l (child m pt ?i)" "aligned 12 q" "a = ent q (px 0 va)"
      using pte_at_page [OF wi(1) v(2)] by blast
    moreover obtain r where "r \<in> pages m l (child m pt ?j)" "aligned 12 r" "a = ent r (px 0 vb)"
      using pte_at_page [OF wj(1) v(4)] by blast
    ultimately have "q = r" by (metis ent_page px_less)
    then show False using d \<open>q \<in> _\<close> \<open>r \<in> _\<close> by auto
  qed
  with Suc.IH [OF wi(1) v(2)] v(4) have "\<forall>k \<le> l. px k va = px k vb" by simp
  with ij show ?case by (auto simp: le_Suc_eq)
qed

text \<open>A zeroed page is an empty table, at every level.\<close>

definition zero_page :: "memory \<Rightarrow> u64 \<Rightarrow> bool" where
  "zero_page m p \<longleftrightarrow> (\<forall>x. PGROUNDDOWN x = p \<longrightarrow> m x = 0)"

lemma from_le_zero: "\<forall>b \<in> set bs. b = 0 \<Longrightarrow> from_le bs = 0"
  by (induction bs) auto

lemma load_zero_page:
  assumes "zero_page m p" "aligned 12 p" "i < 512"
  shows "load64 m (ent p i) = 0"
proof -
  have "m x = 0" if "slot 3 x = slot 3 (ent p i)" for x
  proof -
    have "PGROUNDDOWN x = PGROUNDDOWN (ent p i)" by (simp add: PGROUNDDOWN_eq slot_mono [OF that])
    then show ?thesis using assms by (simp add: zero_page_def)
  qed
  then have "load64 m (ent p i) = load64 (\<lambda>_. 0) (ent p i)"
    using assms(2) by (intro load64_cong) auto
  also have "\<dots> = 0" by (auto simp: load64_def rd_def intro!: from_le_zero)
  finally show ?thesis .
qed

lemma zero_table:
  assumes "zero_page m p" "aligned 12 p"
  shows "wf_pt m l p" "pages m l p = {p}" "pt_lookup m l p va = None"
proof -
  note z = load_zero_page [OF assms]
  show "wf_pt m l p" using assms(2) by (cases l) (auto intro!: wf_SucI simp: z)
  show "pages m l p = {p}" by (cases l) (auto simp: z)
  show "pt_lookup m l p va = None" by (cases l) (auto simp: z pt_lookup_def)
qed

text \<open>Hanging an empty table into an unused slot changes no mapping.\<close>

lemma insert_child:
  assumes wf: "wf_pt m (Suc l) pt" and i: "i < 512" "\<not> valid (load64 m (ent pt i))"
    and p: "aligned 12 p" "p \<notin> pages m (Suc l) pt"
    and m1: "same_outside {p} m m1" "zero_page m1 p"
  defines "m2 \<equiv> store64 m1 (ent pt i) (PA2PTE p OR PTE_V)"
  shows "wf_pt m2 (Suc l) pt" "pages m2 (Suc l) pt = pages m (Suc l) pt \<union> {p}"
    "pt_lookup m2 (Suc l) pt va = pt_lookup m (Suc l) pt va" "child m2 pt i = p"
    "valid (load64 m2 (ent pt i))" "same_outside (pages m (Suc l) pt \<union> {p}) m m2" "zero_page m2 p"
proof -
  note al = wf_aligned [OF wf]
  have pt: "pt \<noteq> p" using p(2) by auto
  have d10: "drop_bit 10 PTE_V = 0" by (simp add: PTE_V_def)
  have s2: "same_outside {pt} m1 m2"
    using same_outside_store64 [of "ent pt i" m1] al i(1) by (simp add: m2_def)
  have out: "same_outside {p, pt} m m2"
    using same_outside_trans [OF m1(1) s2] by (simp add: insert_commute)
  then show "same_outside (pages m (Suc l) pt \<union> {p}) m m2" by (rule same_outside_mono) auto
  show z: "zero_page m2 p" using m1(2) s2 pt by (auto simp: zero_page_def same_outside_def)
  have ei: "load64 m2 (ent pt i) = PA2PTE p OR PTE_V" by (simp add: m2_def)
  then show ci: "child m2 pt i = p" using p(1) d10 by (simp add: child_def)
  show vi: "valid (load64 m2 (ent pt i))"
    using PTE_flag_and [OF d10, of "PA2PTE p OR PTE_V"] d10 by (simp add: ei PTE_V_def)
  have e: "load64 m2 (ent pt j) = load64 m (ent pt j)" if "j < 512" "j \<noteq> i" for j
  proof -
    have "load64 m2 (ent pt j) = load64 m1 (ent pt j)" using that i al by (simp add: m2_def)
    also have "\<dots> = load64 m (ent pt j)" using that al pt by (intro load_ent_outside [OF m1(1)]) auto
    finally show ?thesis .
  qed
  then have c: "child m2 pt j = child m pt j" if "j < 512" "j \<noteq> i" for j using that by (simp add: child_def)
  have dis: "pages m l (child m pt j) \<inter> {p, pt} = {}" "wf_pt m l (child m pt j)"
    if "j < 512" "valid (load64 m (ent pt j))" for j
    using wf_child(1,2,3) [OF wf that] p(2) by auto
  note o = pt_outside [OF out dis(2) dis(1)] and ol = pt_lookup_outside [OF out dis(2) dis(1)]
  note zt = zero_table [OF z p(1)]
  have ji: "j \<noteq> i" if "valid (load64 m (ent pt j))" for j using i(2) that by auto
  have pg: "pages m2 l (child m2 pt j) = (if j = i then {p} else pages m l (child m pt j))"
    if "j < 512" "valid (load64 m2 (ent pt j))" for j
    using that o(1) [of j] ci zt(2) c e by auto
  show "pages m2 (Suc l) pt = pages m (Suc l) pt \<union> {p}"
  proof (rule set_eqI)
    fix q
    show "q \<in> pages m2 (Suc l) pt \<longleftrightarrow> q \<in> pages m (Suc l) pt \<union> {p}"
      unfolding Un_iff pages_child using pg e vi i(1) ji by (metis singleton_iff)
  qed
  show "wf_pt m2 (Suc l) pt"
  proof (rule wf_SucI)
    fix j assume j: "j < 512" "valid (load64 m2 (ent pt j))"
    show "wf_pt m2 l (child m2 pt j)" using j ci zt(1) o(2) [of j] c e by (cases "j = i") auto
    show "PTE_FLAGS (load64 m2 (ent pt j)) = PTE_V"
      using j ei d10 wf_child(4) [OF wf j(1)] e by (cases "j = i") auto
    show "pt \<notin> pages m2 l (child m2 pt j)"
      using j pt wf_child(2) [OF wf j(1)] e pg by (cases "j = i") auto
    fix k assume k: "k < 512" "k \<noteq> j" "valid (load64 m2 (ent pt k))"
    show "pages m2 l (child m2 pt j) \<inter> pages m2 l (child m2 pt k) = {}"
      using j k pg e dis [of j] dis [of k] wf_child(5) [OF wf j(1) _ k(1,2)] by auto
  qed (rule al)
  show "pt_lookup m2 (Suc l) pt va = pt_lookup m (Suc l) pt va"
  proof (cases "px (Suc l) va = i")
    case True
    then show ?thesis using vi ci zt(3) [of l va] i(2) by (simp add: pt_lookup_def)
  next
    case False
    then show ?thesis using e [of "px (Suc l) va"] c [of "px (Suc l) va"] ol [of "px (Suc l) va" va]
      by (simp add: pt_lookup_def)
  qed
qed

section \<open>The walk\<close>

lemma memset_page:
  "aligned 12 p \<Longrightarrow> same_outside {p} m (memset p c (ucast PGSIZE) m)"
  "aligned 12 p \<Longrightarrow> zero_page (memset p 0 (ucast PGSIZE) m) p"
proof -
  have eq: "memset p c (ucast PGSIZE) m = wr m p (replicate 4096 (ucast c))" for c
    by (simp add: memset_eq ucast_PGSIZE)
  assume p: "aligned 12 p"
  then show "same_outside {p} m (memset p c (ucast PGSIZE) m)" unfolding eq by (intro same_outside_wr) simp_all
  show "zero_page (memset p 0 (ucast PGSIZE) m) p" unfolding eq using in_page [OF p] by (auto simp: zero_page_def wr_def)
qed

lemma kstep_mem: "kstep s (t\<lparr>mem := m\<rparr>) \<longleftrightarrow> kstep s t"
proof
  assume "kstep s (t\<lparr>mem := m\<rparr>)"
  moreover have "kstep (t\<lparr>mem := m\<rparr>) ((t\<lparr>mem := m\<rparr>)\<lparr>mem := mem t\<rparr>)" by (rule kstep_updI)
  ultimately show "kstep s t" using kstep_trans by fastforce
qed (auto intro: kstep_trans)

lemma kalloc_zero:
  assumes "kmem_inv s (p # ps)"
  shows "\<exists>s1. kalloc s = Ok p s1 \<and> kmem_inv (s1\<lparr>mem := memset p 0 (ucast PGSIZE) (mem s1)\<rparr>) ps
    \<and> kstep s (s1\<lparr>mem := memset p 0 (ucast PGSIZE) (mem s1)\<rparr>)
    \<and> same_outside {p} (mem s) (memset p 0 (ucast PGSIZE) (mem s1))
    \<and> zero_page (memset p 0 (ucast PGSIZE) (mem s1)) p \<and> aligned 12 p \<and> p \<noteq> 0"
proof -
  let ?s1 = "(touch s)\<lparr>mem := wr (mem s) p (replicate 4096 5), freelist := load64 (mem s) p\<rparr>"
  let ?m = "memset p 0 (ucast PGSIZE) (mem ?s1)"
  note k = kalloc_Cons [OF assms] and d = kmem_invD [OF assms]
  have p: "aligned 12 p" "p \<noteq> 0" "p \<notin> set ps" using d(3,4,6) by (auto simp: is_page_def)
  have "same_outside ({p} \<union> {p}) (mem s) ?m"
    using p(1) by (intro same_outside_trans [of _ _ "mem ?s1"]) (simp_all add: same_outside_wr memset_page)
  moreover have "free_chain ?m r ps = free_chain (mem ?s1) r ps" for r
    using p(1,3) d(4) by (intro free_chain_same_outside [OF memset_page(1)]) (auto simp: is_page_def)
  then have "kmem_inv (?s1\<lparr>mem := ?m\<rparr>) ps" using k(2) by (simp add: kmem_inv_def)
  ultimately show ?thesis
    using k(1) p memset_page(2) by (intro exI [of _ ?s1]) (simp add: kstep_mem)
qed

lemma walk_loop_lookup:
  "walk_loop l pt va False s = Ok (case pte_at (mem s) l pt va of None \<Rightarrow> 0 | Some a \<Rightarrow> a) s"
  by (induction l arbitrary: pt) (auto simp: Let_def ent_px child_def)

text \<open>Growing a page table: tables may be added from the free list; everything else stays.\<close>

definition pt_step :: "nat \<Rightarrow> u64 \<Rightarrow> 'z kmem_scheme \<Rightarrow> u64 list \<Rightarrow> 'z kmem_scheme \<Rightarrow> u64 list \<Rightarrow> bool" where
  "pt_step l pt s ps s' ps' \<longleftrightarrow> kstep s s' \<and> kmem_inv s' ps' \<and> wf_pt (mem s') l pt
     \<and> (\<exists>us. ps = us @ ps' \<and> pages (mem s') l pt = pages (mem s) l pt \<union> set us)
     \<and> same_outside (pages (mem s') l pt) (mem s) (mem s')"

lemma pt_step_refl: "kmem_inv s ps \<Longrightarrow> wf_pt (mem s) l pt \<Longrightarrow> pt_step l pt s ps s ps"
  by (simp add: pt_step_def)

lemma pt_step_trans:
  assumes "pt_step l pt s ps s1 ps1" "pt_step l pt s1 ps1 s2 ps2"
  shows "pt_step l pt s ps s2 ps2"
proof -
  obtain us where us: "ps = us @ ps1" "pages (mem s1) l pt = pages (mem s) l pt \<union> set us"
    using assms(1) by (auto simp: pt_step_def)
  obtain us' where us': "ps1 = us' @ ps2" "pages (mem s2) l pt = pages (mem s1) l pt \<union> set us'"
    using assms(2) by (auto simp: pt_step_def)
  have "same_outside (pages (mem s1) l pt \<union> pages (mem s2) l pt) (mem s) (mem s2)"
    using assms by (intro same_outside_trans) (auto simp: pt_step_def)
  moreover have "pages (mem s1) l pt \<union> pages (mem s2) l pt = pages (mem s2) l pt" using us' by auto
  ultimately show ?thesis
    using assms us us' by (auto simp: pt_step_def intro: kstep_trans)
qed

lemma store_ent_kmem:
  assumes "kmem_inv s ps" "aligned 3 a" "PGROUNDDOWN a \<notin> set ps"
  shows "kmem_inv (s\<lparr>mem := store64 (mem s) a v\<rparr>) ps"
proof -
  have "free_chain (store64 (mem s) a v) r ps = free_chain (mem s) r ps" for r
    using assms kmem_invD(4) [OF assms(1)]
    by (intro free_chain_same_outside [OF same_outside_store64]) (auto simp: is_page_def)
  then show ?thesis using assms(1) by (simp add: kmem_inv_def)
qed

lemma walk_child_step:
  assumes wf: "wf_pt (mem s) (Suc l) pt" and v: "valid (load64 (mem s) (ent pt (px (Suc l) va)))"
    and st: "pt_step l (child (mem s) pt (px (Suc l) va)) s ps s' ps'"
    and lk: "\<forall>vb. pt_lookup (mem s') l (child (mem s) pt (px (Suc l) va)) vb =
        pt_lookup (mem s) l (child (mem s) pt (px (Suc l) va)) vb"
    and at: "B \<or> pte_at (mem s') l (child (mem s) pt (px (Suc l) va)) va = Some a"
    and disj: "set ps \<inter> pages (mem s) (Suc l) pt = {}"
  shows "pt_step (Suc l) pt s ps s' ps'
    \<and> (\<forall>vb. pt_lookup (mem s') (Suc l) pt vb = pt_lookup (mem s) (Suc l) pt vb)
    \<and> (B \<or> pte_at (mem s') (Suc l) pt va = Some a)"
proof -
  let ?i = "px (Suc l) va" let ?c = "child (mem s) pt ?i"
  note wc = wf_child [OF wf px_less v]
  obtain us where us: "ps = us @ ps'" "pages (mem s') l ?c = pages (mem s) l ?c \<union> set us"
    using st by (auto simp: pt_step_def)
  have u: "set us \<inter> pages (mem s) (Suc l) pt = {}" using disj us(1) by auto
  have c: "wf_pt (mem s') l ?c" "same_outside (pages (mem s') l ?c) (mem s) (mem s')"
    using st by (auto simp: pt_step_def)
  note cs = child_step [OF wf px_less v refl c(1) us(2) c(2) u]
  have ch: "child (mem s') pt j = child (mem s) pt j" if "j < 512" for j
    using cs(3) [OF that] by (simp add: child_def)
  have "pt_step (Suc l) pt s ps s' ps'"
    using st cs(1,2) us wc(3) c(2) unfolding pt_step_def by (auto intro: same_outside_mono)
  moreover have "pt_lookup (mem s') (Suc l) pt vb = pt_lookup (mem s) (Suc l) pt vb" for vb
  proof (cases "px (Suc l) vb = ?i")
    case True
    then show ?thesis using lk v cs(3) ch by (simp add: pt_lookup_def)
  next
    case False
    then show ?thesis using cs(4) [OF _ False, of vb] cs(3) ch by (simp add: pt_lookup_def)
  qed
  moreover have "B \<or> pte_at (mem s') (Suc l) pt va = Some a"
    using at v cs(3) ch by simp
  ultimately show ?thesis by blast
qed

lemma walk_loop_alloc:
  assumes "wf_pt (mem s) l pt" "kmem_inv s ps" "set ps \<inter> pages (mem s) l pt = {}"
  shows "\<exists>a s' ps'. walk_loop l pt va True s = Ok a s' \<and> pt_step l pt s ps s' ps'
    \<and> (\<forall>vb. pt_lookup (mem s') l pt vb = pt_lookup (mem s) l pt vb)
    \<and> (a = 0 \<and> ps' = [] \<and> length ps < l \<or> pte_at (mem s') l pt va = Some a) \<and> length ps \<le> length ps' + l"
  using assms
proof (induction l arbitrary: pt s ps)
  case 0
  then show ?case using pt_step_refl [of s ps 0 pt] by (auto simp: ent_px)
next
  case (Suc l)
  let ?i = "px (Suc l) va" and ?m = "mem s"
  note disj = Suc.prems(3)
  show ?case
  proof (cases "valid (load64 ?m (ent pt ?i))")
    case True
    let ?c = "child ?m pt ?i"
    note wc = wf_child [OF Suc.prems(1) px_less True]
    obtain a s' ps' where IH: "walk_loop l ?c va True s = Ok a s'" "pt_step l ?c s ps s' ps'"
        "\<forall>vb. pt_lookup (mem s') l ?c vb = pt_lookup ?m l ?c vb"
        "a = 0 \<and> ps' = [] \<and> length ps < l \<or> pte_at (mem s') l ?c va = Some a" "length ps \<le> length ps' + l"
      using Suc.IH [OF wc(1) Suc.prems(2)] wc(3) disj by blast
    from Suc.prems(1) True IH(2-4) disj have "pt_step (Suc l) pt s ps s' ps'
      \<and> (\<forall>vb. pt_lookup (mem s') (Suc l) pt vb = pt_lookup ?m (Suc l) pt vb)
      \<and> (a = 0 \<and> ps' = [] \<and> length ps < l \<or> pte_at (mem s') (Suc l) pt va = Some a)"
      by (rule walk_child_step)
    moreover have "walk_loop (Suc l) pt va True s = Ok a s'"
      using True IH(1) by (simp add: Let_def ent_px child_def)
    moreover have "length ps \<le> length ps' + Suc l" "length ps < l \<Longrightarrow> length ps < Suc l" using IH(5) by simp_all
    ultimately show ?thesis by blast
  next
    case False
    show ?thesis
    proof (cases ps)
      case Nil
      then have "walk_loop (Suc l) pt va True s = Ok 0 (touch s)"
        using False kalloc_Nil(1) [of s] Suc.prems(2) by (simp add: Let_def ent_px)
      moreover have "pt_step (Suc l) pt s [] (touch s) []"
        using kalloc_Nil(2) [of s] Nil Suc.prems(1,2) by (simp add: pt_step_def)
      ultimately show ?thesis using Nil by auto
    next
      case (Cons p ps1)
      obtain s1 where s1: "kalloc s = Ok p s1"
          "kmem_inv (s1\<lparr>mem := memset p 0 (ucast PGSIZE) (mem s1)\<rparr>) ps1"
          "kstep s (s1\<lparr>mem := memset p 0 (ucast PGSIZE) (mem s1)\<rparr>)"
          "same_outside {p} ?m (memset p 0 (ucast PGSIZE) (mem s1))" "zero_page (memset p 0 (ucast PGSIZE) (mem s1)) p"
          "aligned 12 p" "p \<noteq> 0"
        using kalloc_zero [of s p ps1] Suc.prems(2) Cons by blast
      let ?m1 = "memset p 0 (ucast PGSIZE) (mem s1)"
      let ?s2 = "s1\<lparr>mem := store64 ?m1 (ent pt ?i) (PA2PTE p OR PTE_V)\<rparr>"
      have p: "p \<notin> pages ?m (Suc l) pt" "p \<notin> set ps1" "pt \<notin> set ps1"
        using disj Cons kmem_invD(3) [OF Suc.prems(2)] by auto
      note al = wf_aligned [OF Suc.prems(1)]
      note ins = insert_child [OF Suc.prems(1) px_less False s1(6) p(1) s1(4,5)]
      have inv2: "kmem_inv ?s2 ps1"
        using store_ent_kmem [OF s1(2), of "ent pt ?i"] al p(3) by simp
      have st2: "pt_step (Suc l) pt s ps ?s2 ps1"
        unfolding pt_step_def using inv2 ins(1,2,6) s1(3) Cons
        by (auto simp: kstep_mem intro: exI [of _ "[p]"])
      note zt = zero_table [OF ins(7) s1(6), of l]
      obtain a s' ps' where IH: "walk_loop l p va True ?s2 = Ok a s'" "pt_step l p ?s2 ps1 s' ps'"
          "\<forall>vb. pt_lookup (mem s') l p vb = pt_lookup (mem ?s2) l p vb"
          "a = 0 \<and> ps' = [] \<and> length ps1 < l \<or> pte_at (mem s') l p va = Some a" "length ps1 \<le> length ps' + l"
        using Suc.IH [of ?s2 p ps1] zt inv2 p(2) by auto
      have d2: "set ps1 \<inter> pages (mem ?s2) (Suc l) pt = {}" using ins(2) p disj Cons by auto
      have "pt_step (Suc l) pt ?s2 ps1 s' ps'
          \<and> (\<forall>vb. pt_lookup (mem s') (Suc l) pt vb = pt_lookup (mem ?s2) (Suc l) pt vb)
          \<and> (a = 0 \<and> ps' = [] \<and> length ps1 < l \<or> pte_at (mem s') (Suc l) pt va = Some a)"
        using ins(1,4,5) IH(2-4) d2 by (intro walk_child_step) simp_all
      moreover have "walk_loop (Suc l) pt va True s = Ok a s'"
        using False IH(1) s1(1,7) by (simp add: Let_def ent_px)
      ultimately show ?thesis using pt_step_trans [OF st2, of s' ps'] ins(3) IH(5) Cons
        by (intro exI [of _ a] exI [of _ s'] exI [of _ ps']) auto
    qed
  qed
qed

section \<open>Virtual pages\<close>

lemma PX_slot: "PX l va = take_bit 9 (drop_bit (9 * l) (slot 12 va))"
  by (simp add: PX_def PXSHIFT_def take_bit_eq_mask mask_eq_exp_minus_1 drop_bit_drop_bit add.commute)

lemma px_slot: "slot 12 va = slot 12 vb \<Longrightarrow> px l va = px l vb"
  by (simp add: px_def PX_slot)

lemma px_eq_iff:
  assumes "va < MAXVA" "vb < MAXVA"
  shows "(\<forall>k \<le> 2. px k va = px k vb) \<longleftrightarrow> slot 12 va = slot 12 vb"
proof
  assume px: "\<forall>k \<le> 2. px k va = px k vb"
  have "PX k va = PX k vb" if "k \<le> 2" for k
    using px that by (simp add: px_def word_unat_eq_iff)
  then show "slot 12 va = slot 12 vb" using PX_inj [OF assms, of] by simp
next
  assume "slot 12 va = slot 12 vb"
  then show "\<forall>k \<le> 2. px k va = px k vb" using px_slot by blast
qed

lemma pte_at_slot:
  assumes "slot 12 va = slot 12 vb"
  shows "pte_at m l pt va = pte_at m l pt vb"
proof -
  have "px k va = px k vb" for k using px_slot [OF assms] .
  then show ?thesis by (induction l arbitrary: pt) simp_all
qed

lemma pt_lookup_slot: "slot 12 va = slot 12 vb \<Longrightarrow> pt_lookup m l pt va = pt_lookup m l pt vb"
  using pte_at_slot [of va vb m l pt] by (simp only: pt_lookup_def)

lemma leaf_store_lookup:
  assumes "wf_pt m 2 pt" "pte_at m 2 pt va = Some a" "va < MAXVA" "vb < MAXVA"
  shows "pt_lookup (store64 m a w) 2 pt vb =
    (if slot 12 vb = slot 12 va then if valid w then Some w else None else pt_lookup m 2 pt vb)"
proof (cases "slot 12 vb = slot 12 va")
  case True
  then have "pte_at (store64 m a w) 2 pt vb = Some a"
    using leaf_store(3) [OF assms(1,2)] assms(2) pte_at_slot [OF True] by simp
  then show ?thesis using True by (simp add: pt_lookup_def)
next
  case False
  have "load64 (store64 m a w) b = load64 m b" if "pte_at m 2 pt vb = Some b" for b
  proof -
    have "a \<noteq> b" using pte_at_inj [OF assms(1,2)] that px_eq_iff [OF assms(3,4)] False by auto
    moreover have "aligned 3 a" "aligned 3 b"
      using pte_at_page [OF assms(1)] assms(2) that by fastforce+
    ultimately show ?thesis by simp
  qed
  then show ?thesis using False leaf_store(3) [OF assms(1,2)]
    by (simp add: pt_lookup_def split: option.split)
qed

section \<open>A page table and the allocator\<close>

definition pt_inv :: "'z kmem_scheme \<Rightarrow> u64 list \<Rightarrow> u64 \<Rightarrow> bool" where
  "pt_inv s ps pt \<longleftrightarrow> kmem_inv s ps \<and> wf_pt (mem s) 2 pt \<and> set ps \<inter> pages (mem s) 2 pt = {}
     \<and> (\<forall>p \<in> pages (mem s) 2 pt. is_page s p)"

lemma pt_invD:
  assumes "pt_inv s ps pt"
  shows "kmem_inv s ps" "wf_pt (mem s) 2 pt" "set ps \<inter> pages (mem s) 2 pt = {}"
    "\<And>p. p \<in> pages (mem s) 2 pt \<Longrightarrow> is_page s p" "aligned 12 pt" "pt \<noteq> 0"
  using assms wf_aligned [of "mem s" 2 pt] kmem_invD(6) [of s ps pt] by (auto simp: pt_inv_def)

lemma pt_step_inv:
  assumes "pt_inv s ps pt" "pt_step 2 pt s ps s' ps'"
  shows "pt_inv s' ps' pt"
proof -
  note d = pt_invD [OF assms(1)]
  obtain us where us: "ps = us @ ps'" "pages (mem s') 2 pt = pages (mem s) 2 pt \<union> set us"
    using assms(2) by (auto simp: pt_step_def)
  have st: "kstep s s'" "kmem_inv s' ps'" "wf_pt (mem s') 2 pt" using assms(2) by (auto simp: pt_step_def)
  have "distinct (us @ ps')" using kmem_invD(3) [OF d(1)] us(1) by simp
  then have "set ps' \<inter> pages (mem s') 2 pt = {}" using d(3) us by auto
  moreover have "is_page s' p" if "p \<in> pages (mem s') 2 pt" for p
    using that d(4) kmem_invD(4) [OF d(1)] us kstepD(9) [OF st(1)] by auto
  ultimately show ?thesis using st by (simp add: pt_inv_def)
qed

lemma pte_at_ne_0:
  assumes "pt_inv s ps pt" "pte_at (mem s) 2 pt va = Some a"
  shows "a \<noteq> 0" "aligned 3 a" "PGROUNDDOWN a \<in> pages (mem s) 2 pt"
proof -
  obtain q where q: "q \<in> pages (mem s) 2 pt" "aligned 12 q" "a = ent q (px 0 va)"
    using pte_at_page [OF pt_invD(2) [OF assms(1)] assms(2)] by blast
  then show "aligned 3 a" "PGROUNDDOWN a \<in> pages (mem s) 2 pt" by auto
  have "q \<noteq> 0" using pt_invD(4) [OF assms(1) q(1)] kmem_invD(6) [OF pt_invD(1) [OF assms(1)]] by auto
  then show "a \<noteq> 0" using ent_page [OF q(2) px_less, of 0 va] q(3) by (auto simp: PGROUNDDOWN_def)
qed

lemma walk_lookup:
  "va < MAXVA \<Longrightarrow> walk pt va False s = Ok (case pte_at (mem s) 2 pt va of None \<Rightarrow> 0 | Some a \<Rightarrow> a) s"
  by (simp add: walk_def walk_loop_lookup)

lemma walk_alloc:
  assumes "pt_inv s ps pt" "va < MAXVA"
  shows "\<exists>a s' ps'. walk pt va True s = Ok a s' \<and> pt_step 2 pt s ps s' ps'
    \<and> (\<forall>vb. pt_lookup (mem s') 2 pt vb = pt_lookup (mem s) 2 pt vb)
    \<and> (if a = 0 then ps' = [] \<and> length ps < 2 else pte_at (mem s') 2 pt va = Some a) \<and> length ps \<le> length ps' + 2"
proof -
  note d = pt_invD [OF assms(1)]
  obtain a s' ps' where r: "walk_loop 2 pt va True s = Ok a s'" "pt_step 2 pt s ps s' ps'"
      "\<forall>vb. pt_lookup (mem s') 2 pt vb = pt_lookup (mem s) 2 pt vb"
      "a = 0 \<and> ps' = [] \<and> length ps < 2 \<or> pte_at (mem s') 2 pt va = Some a" "length ps \<le> length ps' + 2"
    using walk_loop_alloc [OF d(2,1,3)] by blast
  then show ?thesis
    using assms(2) pte_at_ne_0(1) [OF pt_step_inv [OF assms(1) r(2)], of va a] by (auto simp: walk_def)
qed

lemma store_leaf_step:
  assumes "pt_inv s ps pt" "pte_at (mem s) 2 pt va = Some a"
  shows "pt_step 2 pt s ps (s\<lparr>mem := store64 (mem s) a w\<rparr>) ps"
  unfolding pt_step_def
  using leaf_store [OF pt_invD(2) [OF assms(1)] assms(2), of w] pt_invD(1,3) [OF assms(1)] pte_at_ne_0(2,3) [OF assms]
  by (auto intro!: store_ent_kmem)

end
