(* ===== verification/Uvm.thy ===== *)
theory Uvm
  imports Pagetable
begin

text \<open>
  What the operations of \<^verbatim>\<open>kernel/vm.c\<close> do to address spaces: \<open>mappages\<close> and \<open>uvmunmap\<close> as updates of
  the page map, growing and shrinking, copying an address space, and moving bytes between kernel and
  user memory.
\<close>

section \<open>Mapping ranges\<close>

text \<open>The first \<open>k\<close> pages from \<open>va\<close> mapped to consecutive physical pages from \<open>pa\<close>.\<close>

definition range_pte :: "u64 \<Rightarrow> u64 \<Rightarrow> u64 \<Rightarrow> u64 \<Rightarrow> u64" where
  "range_pte va pa perm vb = PA2PTE (pa + (PGROUNDDOWN vb - va)) OR perm OR PTE_V"

definition maps_range :: "memory \<Rightarrow> memory \<Rightarrow> u64 \<Rightarrow> u64 \<Rightarrow> u64 \<Rightarrow> u64 \<Rightarrow> nat \<Rightarrow> bool" where
  "maps_range m m' pt va pa perm k \<longleftrightarrow> (\<forall>vb < MAXVA. pt_lookup m' 2 pt vb =
     (if off_in va vb < 4096 * k then Some (range_pte va pa perm vb) else pt_lookup m 2 pt vb))"

lemma valid_OR_PTE_V [simp]: "(x OR y OR PTE_V) AND PTE_V = PTE_V" "PTE_V \<noteq> 0"
  by (auto intro!: bit_word_eqI simp: bit_simps) (simp add: PTE_V_def)

lemma off_in_add_PGSIZE:
  "off_in (va + PGSIZE) vb = (if 4096 \<le> off_in va vb then off_in va vb - 4096 else off_in va vb + 2 ^ 64 - 4096)"
proof -
  have "vb - (va + PGSIZE) = vb - va - PGSIZE" by simp
  then show ?thesis
    unfolding off_in_def by (simp only:) (simp add: unat_sub_if' PGSIZE_def)
qed

lemma off_in_pages:
  assumes "4096 * n < 2 ^ 64"
  shows "off_in va (va + of_nat n * PGSIZE) = 4096 * n"
proof -
  have "va + of_nat n * PGSIZE = va + of_nat (4096 * n)" by (simp add: PGSIZE_def)
  then show ?thesis by (simp only: off_in_add [OF assms])
qed

lemma unat_page_addr:
  assumes "unat va + 4096 * n \<le> 2 ^ 38"
  shows "unat (va + of_nat n * PGSIZE) = unat va + 4096 * n"
proof -
  have "va + of_nat n * PGSIZE = va + of_nat (4096 * n)" by (simp add: PGSIZE_def)
  moreover have "unat (of_nat (4096 * n) :: u64) = 4096 * n" using assms by (simp only: unat_of_nat) (simp del: of_nat_mult)
  ultimately show ?thesis using assms unat_add_no_wrap [of va "of_nat (4096 * n)"] by simp
qed

lemma page_addr_below:
  "unat va + 4096 * n \<le> 2 ^ 38 \<Longrightarrow> i < n \<Longrightarrow> va + of_nat i * PGSIZE < MAXVA"
  by (simp only: word_less_nat_alt, subst unat_page_addr) (simp_all add: MAXVA_def)

lemma off_in_page_Suc:
  assumes "aligned 12 va" "4096 * Suc k \<le> 2 ^ 64"
  shows "off_in va vb < 4096 * Suc k \<longleftrightarrow> slot 12 vb = slot 12 va \<or> off_in (va + PGSIZE) vb < 4096 * k"
  using off_in_aligned [OF assms(1), of vb] assms(2) off_in_less [of va vb]
  by (auto simp: off_in_add_PGSIZE)

lemma range_pte_step: "range_pte (va + PGSIZE) (pa + PGSIZE) perm vb = range_pte va pa perm vb"
  by (simp add: range_pte_def)

lemma range_pte_first: "aligned 12 va \<Longrightarrow> slot 12 vb = slot 12 va \<Longrightarrow> range_pte va pa perm vb = PA2PTE pa OR perm OR PTE_V"
  by (simp add: range_pte_def PGROUNDDOWN_eq) (simp add: PGROUNDDOWN_aligned flip: PGROUNDDOWN_eq)

lemma next_vpage:
  assumes "aligned 12 va" "unat va + 4096 * Suc n \<le> 2 ^ 38"
  shows "va < MAXVA" "aligned 12 (va + PGSIZE)" "unat (va + PGSIZE) = unat va + 4096"
proof -
  show u: "unat (va + PGSIZE) = unat va + 4096"
    using assms(2) by (simp add: PGSIZE_def unat_add_no_wrap)
  show "va < MAXVA" using assms(2) by (simp add: word_less_nat_alt MAXVA_def)
  show "aligned 12 (va + PGSIZE)" using assms(1) by (simp add: aligned_dvd u)
qed

text \<open>One round of the loop: the walk may run out of memory, or the page gets mapped.\<close>

lemma mappages_loop_step:
  assumes inv: "pt_inv s ps pt" and va: "va < MAXVA" "pt_lookup (mem s) 2 pt va = None"
  shows "(\<exists>s1. mappages_loop pt va alast pa perm s = Ok (- 1) s1 \<and> pt_step 2 pt s ps s1 [] \<and> length ps < 2
      \<and> (\<forall>vb. pt_lookup (mem s1) 2 pt vb = pt_lookup (mem s) 2 pt vb))
    \<or> (\<exists>s2 ps2. mappages_loop pt va alast pa perm s =
         (if va = alast then Ok 0 s2 else mappages_loop pt (va + PGSIZE) alast (pa + PGSIZE) perm s2)
      \<and> pt_step 2 pt s ps s2 ps2 \<and> length ps \<le> length ps2 + 2 \<and> (\<forall>vb < MAXVA. pt_lookup (mem s2) 2 pt vb =
         (if slot 12 vb = slot 12 va then Some (PA2PTE pa OR perm OR PTE_V) else pt_lookup (mem s) 2 pt vb)))"
proof -
  obtain a s1 ps1 where w: "walk pt va True s = Ok a s1" "pt_step 2 pt s ps s1 ps1"
      "\<forall>vb. pt_lookup (mem s1) 2 pt vb = pt_lookup (mem s) 2 pt vb"
      "if a = 0 then ps1 = [] \<and> length ps < 2 else pte_at (mem s1) 2 pt va = Some a" "length ps \<le> length ps1 + 2"
    using walk_alloc [OF inv va(1)] by blast
  show ?thesis
  proof (cases "a = 0")
    case True
    then show ?thesis using w by (simp add: mappages_loop.simps [of pt va])
  next
    case False
    then have at: "pte_at (mem s1) 2 pt va = Some a" using w(4) by simp
    note i1 = pt_step_inv [OF inv w(2)]
    have "pt_lookup (mem s1) 2 pt va = None" using va(2) w(3) by simp
    then have nv: "\<not> valid (load64 (mem s1) a)" using at by (auto simp: pt_lookup_def split: if_splits)
    let ?e = "PA2PTE pa OR perm OR PTE_V" and ?s2 = "s1\<lparr>mem := store64 (mem s1) a (PA2PTE pa OR perm OR PTE_V)\<rparr>"
    have "pt_step 2 pt s ps ?s2 ps1"
      by (rule pt_step_trans [OF w(2) store_leaf_step [OF i1 at]])
    moreover have "\<forall>vb < MAXVA. pt_lookup (mem ?s2) 2 pt vb =
        (if slot 12 vb = slot 12 va then Some ?e else pt_lookup (mem s) 2 pt vb)"
      using leaf_store_lookup [OF pt_invD(2) [OF i1] at va(1)] w(3) by simp
    moreover have "mappages_loop pt va alast pa perm s =
        (if va = alast then Ok 0 ?s2 else mappages_loop pt (va + PGSIZE) alast (pa + PGSIZE) perm ?s2)"
      using w(1) False nv by (simp add: mappages_loop.simps [of pt va] Let_def)
    ultimately show ?thesis using w(5) by blast
  qed
qed

lemma mappages_loop_Ok:
  assumes "pt_inv s ps pt" "aligned 12 va" "unat va + 4096 * Suc n \<le> 2 ^ 38"
    and "\<And>vb. vb < MAXVA \<Longrightarrow> off_in va vb < 4096 * Suc n \<Longrightarrow> pt_lookup (mem s) 2 pt vb = None"
  shows "\<exists>k s' ps'. k \<le> Suc n \<and> pt_step 2 pt s ps s' ps' \<and> maps_range (mem s) (mem s') pt va pa perm k
    \<and> mappages_loop pt va (va + of_nat n * PGSIZE) pa perm s = Ok (if k = Suc n then 0 else - 1) s'
    \<and> (k \<le> n \<longrightarrow> ps' = [] \<and> length ps < 2 * Suc n) \<and> length ps \<le> length ps' + 2 * Suc n"
  using assms
proof (induction n arbitrary: va pa s ps)
  case (0 va pa s ps)
  note va = next_vpage [OF "0.prems"(2,3)]
  have none: "pt_lookup (mem s) 2 pt va = None" using "0.prems"(4) va(1) by simp
  have split: "off_in va vb < 4096 * Suc 0 \<longleftrightarrow> slot 12 vb = slot 12 va" for vb
    using off_in_page_Suc [OF "0.prems"(2), of 0 vb] by simp
  from mappages_loop_step [OF "0.prems"(1) va(1) none, of va pa perm] show ?case
  proof (elim disjE exE conjE)
    fix s1 assume "mappages_loop pt va va pa perm s = Ok (- 1) s1" "pt_step 2 pt s ps s1 []" "length ps < 2"
      "\<forall>vb. pt_lookup (mem s1) 2 pt vb = pt_lookup (mem s) 2 pt vb"
    then show ?thesis by (intro exI [of _ 0] exI [of _ s1] exI [of _ "[]"]) (simp add: maps_range_def)
  next
    fix s2 ps2 assume *: "mappages_loop pt va va pa perm s = (if va = va then Ok 0 s2
         else mappages_loop pt (va + PGSIZE) va (pa + PGSIZE) perm s2)" "pt_step 2 pt s ps s2 ps2"
      and len: "length ps \<le> length ps2 + 2" and lk: "\<forall>vb < MAXVA. pt_lookup (mem s2) 2 pt vb =
         (if slot 12 vb = slot 12 va then Some (PA2PTE pa OR perm OR PTE_V) else pt_lookup (mem s) 2 pt vb)"
    have "maps_range (mem s) (mem s2) pt va pa perm (Suc 0)"
      unfolding maps_range_def split using lk range_pte_first [OF "0.prems"(2)] by auto
    then show ?thesis using * len by (intro exI [of _ "Suc 0"] exI [of _ s2] exI [of _ ps2]) simp
  qed
next
  case (Suc n va pa s ps)
  let ?alast = "va + of_nat (Suc n) * PGSIZE"
  note va = next_vpage [OF Suc.prems(2,3)]
  have none: "pt_lookup (mem s) 2 pt va = None" using Suc.prems(4) va(1) by simp
  have split: "off_in va vb < 4096 * Suc k \<longleftrightarrow> slot 12 vb = slot 12 va \<or> off_in (va + PGSIZE) vb < 4096 * k"
    if "k \<le> Suc n" for vb k
    using off_in_page_Suc [OF Suc.prems(2), of k vb] Suc.prems(3) that by auto
  have bound: "unat (va + PGSIZE) + 4096 * Suc n \<le> 2 ^ 38" using va(3) Suc.prems(3) by simp
  have al: "?alast = va + PGSIZE + of_nat n * PGSIZE" by (simp add: algebra_simps)
  have "off_in va ?alast = 4096 * Suc n" using Suc.prems(3) by (intro off_in_pages) simp
  then have ne: "va \<noteq> ?alast" using off_in_self [of va] by (metis mult_eq_0_iff nat.distinct(1) zero_neq_numeral)
  from mappages_loop_step [OF Suc.prems(1) va(1) none, of ?alast pa perm] show ?case
  proof (elim disjE exE conjE)
    fix s1 assume "mappages_loop pt va ?alast pa perm s = Ok (- 1) s1" "pt_step 2 pt s ps s1 []" "length ps < 2"
      "\<forall>vb. pt_lookup (mem s1) 2 pt vb = pt_lookup (mem s) 2 pt vb"
    then show ?thesis by (intro exI [of _ 0] exI [of _ s1] exI [of _ "[]"]) (simp add: maps_range_def)
  next
    fix s2 ps2 assume *: "mappages_loop pt va ?alast pa perm s = (if va = ?alast then Ok 0 s2
         else mappages_loop pt (va + PGSIZE) ?alast (pa + PGSIZE) perm s2)" "pt_step 2 pt s ps s2 ps2"
      and len: "length ps \<le> length ps2 + 2"
      and lk: "\<forall>vb < MAXVA. pt_lookup (mem s2) 2 pt vb =
         (if slot 12 vb = slot 12 va then Some (PA2PTE pa OR perm OR PTE_V) else pt_lookup (mem s) 2 pt vb)"
    have new: "slot 12 vb \<noteq> slot 12 va" if "off_in (va + PGSIZE) vb < 4096 * Suc n" for vb
    proof
      assume "slot 12 vb = slot 12 va"
      then have "off_in va vb < 4096" using off_in_aligned [OF Suc.prems(2)] by simp
      then show False using that Suc.prems(3) off_in_add_PGSIZE [of va vb] by simp
    qed
    have none2: "pt_lookup (mem s2) 2 pt vb = None" if "vb < MAXVA" "off_in (va + PGSIZE) vb < 4096 * Suc n" for vb
      using lk that new split [of "Suc n" vb] Suc.prems(4) by simp
    obtain k s' ps' where IH: "k \<le> Suc n" "pt_step 2 pt s2 ps2 s' ps'"
        "maps_range (mem s2) (mem s') pt (va + PGSIZE) (pa + PGSIZE) perm k"
        "mappages_loop pt (va + PGSIZE) ?alast (pa + PGSIZE) perm s2 = Ok (if k = Suc n then 0 else - 1) s'"
        "k \<le> n \<longrightarrow> ps' = [] \<and> length ps2 < 2 * Suc n" "length ps2 \<le> length ps' + 2 * Suc n"
      using Suc.IH [OF pt_step_inv [OF Suc.prems(1) *(2)] va(2) bound none2, of "pa + PGSIZE"]
      unfolding al by blast
    have "maps_range (mem s) (mem s') pt va pa perm (Suc k)"
      unfolding maps_range_def split [OF IH(1)]
      using IH(3) lk range_pte_first [OF Suc.prems(2)] by (auto simp: maps_range_def range_pte_step)
    then show ?thesis
      using * IH ne len pt_step_trans [OF *(2) IH(2)]
      by (intro exI [of _ "Suc k"] exI [of _ s'] exI [of _ ps']) auto
  qed
qed

lemma pages_of_size:
  assumes "aligned 12 sz" "0 < sz" "unat va + unat sz \<le> 2 ^ 38"
  shows "unat sz = 4096 * Suc (unat sz div 4096 - 1)"
    "va + sz - PGSIZE = va + of_nat (unat sz div 4096 - 1) * PGSIZE"
proof -
  obtain j where j: "unat sz = 4096 * j" using assms(1) by (auto simp: aligned_dvd)
  moreover have "j \<noteq> 0" using assms(2) j by (auto simp: word_less_nat_alt)
  ultimately show u: "unat sz = 4096 * Suc (unat sz div 4096 - 1)" by simp
  have "of_nat (unat sz) = sz" by simp
  then have "sz = of_nat (4096 * Suc (unat sz div 4096 - 1))" using u by metis
  then have "sz = (1 + of_nat (unat sz div 4096 - 1)) * PGSIZE" by (simp add: PGSIZE_def mult.commute)
  then have "va + sz - PGSIZE = va + (1 + of_nat (unat sz div 4096 - 1)) * PGSIZE - PGSIZE" by simp
  also have "\<dots> = va + of_nat (unat sz div 4096 - 1) * PGSIZE" by (simp add: distrib_right)
  finally show "va + sz - PGSIZE = va + of_nat (unat sz div 4096 - 1) * PGSIZE" .
qed

lemma mappages_Ok:
  assumes "pt_inv s ps pt" "aligned 12 va" "aligned 12 sz" "0 < sz" "unat va + unat sz \<le> 2 ^ 38"
    and "\<And>vb. vb < MAXVA \<Longrightarrow> off_in va vb < unat sz \<Longrightarrow> pt_lookup (mem s) 2 pt vb = None"
  shows "\<exists>k s' ps'. mappages pt va sz pa perm s = Ok (if 4096 * k = unat sz then 0 else - 1) s'
    \<and> 4096 * k \<le> unat sz \<and> (4096 * k < unat sz \<longrightarrow> ps' = [] \<and> 4096 * length ps < 2 * unat sz)
    \<and> 4096 * length ps \<le> 4096 * length ps' + 2 * unat sz
    \<and> pt_step 2 pt s ps s' ps' \<and> maps_range (mem s) (mem s') pt va pa perm k"
proof -
  let ?n = "unat sz div 4096 - 1"
  note n = pages_of_size [OF assms(3-5)]
  have eq: "mappages pt va sz pa perm s = mappages_loop pt va (va + of_nat ?n * PGSIZE) pa perm s"
    unfolding mappages_def n(2) using assms(2-4) by (auto simp: aligned_iff_mod)
  have "unat va + 4096 * Suc ?n \<le> 2 ^ 38" using assms(5) n(1) by simp
  from mappages_loop_Ok [OF assms(1,2) this, of pa perm] assms(6) n(1) obtain k s' ps' where
    "k \<le> Suc ?n" "pt_step 2 pt s ps s' ps'" "maps_range (mem s) (mem s') pt va pa perm k"
    "mappages_loop pt va (va + of_nat ?n * PGSIZE) pa perm s = Ok (if k = Suc ?n then 0 else - 1) s'"
    "k \<le> ?n \<longrightarrow> ps' = [] \<and> length ps < 2 * Suc ?n" "length ps \<le> length ps' + 2 * Suc ?n" by (metis (no_types, lifting))
  then show ?thesis using n(1) eq by (intro exI [of _ k] exI [of _ s'] exI [of _ ps']) auto
qed

section \<open>Unmapping\<close>

definition unmaps_range :: "memory \<Rightarrow> memory \<Rightarrow> u64 \<Rightarrow> u64 \<Rightarrow> nat \<Rightarrow> bool" where
  "unmaps_range m m' pt va n \<longleftrightarrow> (\<forall>vb < MAXVA. pt_lookup m' 2 pt vb =
     (if off_in va vb < 4096 * n then None else pt_lookup m 2 pt vb))"

text \<open>The entry for \<open>va\<close> is a leaf, and its page can be given to \<open>kfree\<close>.\<close>

definition leaf :: "'z kmem_scheme \<Rightarrow> u64 \<Rightarrow> u64 \<Rightarrow> bool" where
  "leaf s pt va \<longleftrightarrow> (\<exists>w. pt_lookup (mem s) 2 pt va = Some w \<and> PTE_FLAGS w \<noteq> PTE_V)"

definition page_at :: "memory \<Rightarrow> u64 \<Rightarrow> u64 \<Rightarrow> u64" where
  "page_at m pt va = PTE2PA (the (pt_lookup m 2 pt va))"

lemma uvmunmap_loop_step:
  assumes inv: "pt_inv s ps pt" and va: "va < MAXVA" "va < stop" and lf: "leaf s pt va"
    and p: "p = page_at (mem s) pt va" "d \<Longrightarrow> is_page s p \<and> p \<notin> set ps \<and> p \<notin> pages (mem s) 2 pt"
  shows "\<exists>s'. uvmunmap_loop pt va stop d s = uvmunmap_loop pt (va + PGSIZE) stop d s'
    \<and> pt_inv s' (if d then p # ps else ps) pt \<and> kstep s s' \<and> unmaps_range (mem s) (mem s') pt (PGROUNDDOWN va) 1
    \<and> pages (mem s') 2 pt = pages (mem s) 2 pt
    \<and> same_outside (pages (mem s) 2 pt \<union> (if d then {p} else {})) (mem s) (mem s')"
proof -
  obtain w where w: "pt_lookup (mem s) 2 pt va = Some w" "PTE_FLAGS w \<noteq> PTE_V" using lf by (auto simp: leaf_def)
  then obtain a where a: "pte_at (mem s) 2 pt va = Some a" "load64 (mem s) a = w" "valid w"
    by (auto simp: pt_lookup_def split: option.splits if_splits)
  have pw: "PTE2PA w = p" using w p(1) by (simp add: page_at_def)
  note d = pt_invD [OF inv] and a0 = pte_at_ne_0 [OF inv a(1)]
  let ?P = "if d then {p} else {}"
  obtain s1 where s1: "(if d then kfree p s else Ok () s) = Ok () s1" "kmem_inv s1 (if d then p # ps else ps)"
      "kstep s s1" "same_outside ?P (mem s) (mem s1)"
  proof (cases d)
    case True
    note k = kfree_Ok [OF d(1), of p]
    have "same_outside {p} (mem s) (store64 (wr (mem s) p (replicate 4096 1)) p (freelist s))"
      using p(2) [OF True] by (simp add: junk_page_outside is_page_def)
    then show thesis using that k p(2) True by auto
  next
    case False
    then show thesis using that d(1) by auto
  qed
  have dis: "pages (mem s) 2 pt \<inter> ?P = {}" using p(2) by auto
  note o = pt_outside [OF s1(4) d(2) dis] and ol = pt_lookup_outside [OF s1(4) d(2) dis]
  have inv1: "pt_inv s1 (if d then p # ps else ps) pt"
    unfolding pt_inv_def using s1(2) o(1,2) d(3,4) p(2) kstepD(9) [OF s1(3)] by auto
  have at1: "pte_at (mem s1) 2 pt va = Some a" using o(3) a(1) by simp
  let ?s' = "s1\<lparr>mem := store64 (mem s1) a 0\<rparr>"
  note st = store_leaf_step [OF inv1 at1, of 0]
  have "uvmunmap_loop pt va stop d s = uvmunmap_loop pt (va + PGSIZE) stop d ?s'"
    using va a a0(1) w(2) s1(1) pw by (cases d) (simp_all add: uvmunmap_loop.simps [of pt va] walk_lookup)
  moreover have "unmaps_range (mem s) (mem ?s') pt (PGROUNDDOWN va) 1"
    using leaf_store_lookup [OF pt_invD(2) [OF inv1] at1 va(1), of _ 0] ol
      off_in_aligned [OF aligned_PGROUNDDOWN, of va] by (simp add: unmaps_range_def slot_PGROUNDDOWN)
  moreover have "same_outside (?P \<union> pages (mem s1) 2 pt) (mem s) (mem ?s')"
    using leaf_store(4) [OF pt_invD(2) [OF inv1] at1] by (intro same_outside_trans [OF s1(4)]) simp
  moreover have "pages (mem ?s') 2 pt = pages (mem s) 2 pt"
    using leaf_store(2) [OF pt_invD(2) [OF inv1] at1] o(1) by simp
  ultimately show ?thesis
    using pt_step_inv [OF inv1 st] o(1) s1(3) by (intro exI [of _ ?s']) (auto simp: kstep_mem Un_commute)
qed

text \<open>The pages behind \<open>n\<close> virtual pages, in the order the loop meets them.\<close>

definition range_pages :: "memory \<Rightarrow> u64 \<Rightarrow> u64 \<Rightarrow> nat \<Rightarrow> u64 list" where
  "range_pages m pt va n = map (\<lambda>i. page_at m pt (va + of_nat i * PGSIZE)) [0..<n]"

lemma range_pages_Suc:
  "range_pages m pt va (Suc n) = page_at m pt va # range_pages m pt (va + PGSIZE) n"
proof -
  have "[0..<Suc n] = 0 # map Suc [0..<n]" by (simp add: map_Suc_upt upt_conv_Cons)
  then show ?thesis by (simp add: range_pages_def distrib_right add.assoc del: upt_Suc)
qed

lemma unmaps_range_Suc:
  assumes "aligned 12 va" "4096 * Suc n \<le> 2 ^ 64"
    "unmaps_range m m1 pt va 1" "unmaps_range m1 m2 pt (va + PGSIZE) n"
  shows "unmaps_range m m2 pt va (Suc n)"
  using assms(3,4) off_in_page_Suc [OF assms(1), of 0] unfolding unmaps_range_def off_in_page_Suc [OF assms(1,2)]
  by auto

lemma uvmunmap_loop_Ok:
  assumes "pt_inv s ps pt" "aligned 12 va" "unat va + 4096 * n \<le> 2 ^ 38"
    "\<And>i. i < n \<Longrightarrow> leaf s pt (va + of_nat i * PGSIZE)"
    "d \<Longrightarrow> distinct (range_pages (mem s) pt va n)"
    "\<And>p. d \<Longrightarrow> p \<in> set (range_pages (mem s) pt va n) \<Longrightarrow> is_page s p \<and> p \<notin> set ps \<and> p \<notin> pages (mem s) 2 pt"
  shows "\<exists>s'. uvmunmap_loop pt va (va + of_nat n * PGSIZE) d s = Ok () s'
    \<and> pt_inv s' (if d then rev (range_pages (mem s) pt va n) @ ps else ps) pt \<and> kstep s s'
    \<and> unmaps_range (mem s) (mem s') pt va n \<and> pages (mem s') 2 pt = pages (mem s) 2 pt
    \<and> same_outside (pages (mem s) 2 pt \<union> (if d then set (range_pages (mem s) pt va n) else {})) (mem s) (mem s')"
  using assms
proof (induction n arbitrary: va s ps)
  case (0 va s ps)
  then show ?case
    by (intro exI [of _ s]) (auto simp: uvmunmap_loop.simps [of pt va] unmaps_range_def range_pages_def)
next
  case (Suc n va s ps)
  let ?stop = "va + of_nat (Suc n) * PGSIZE" and ?va = "va + PGSIZE"
  let ?p = "page_at (mem s) pt va" and ?ps = "if d then page_at (mem s) pt va # ps else ps"
  note va = next_vpage [OF Suc.prems(2,3)]
  have stop: "?stop = ?va + of_nat n * PGSIZE" by (simp add: algebra_simps)
  have lt: "va < ?stop" using unat_page_addr [of va "Suc n"] Suc.prems(3) by (simp only: word_less_nat_alt) simp
  note rp = range_pages_Suc [of "mem s" pt va n]
  have lf: "leaf s pt va" using Suc.prems(4) [of 0] by simp
  have "d \<Longrightarrow> is_page s ?p \<and> ?p \<notin> set ps \<and> ?p \<notin> pages (mem s) 2 pt" using Suc.prems(6) rp by simp
  from uvmunmap_loop_step [OF Suc.prems(1) va(1) lt lf refl this] obtain s1 where
    s1: "uvmunmap_loop pt va ?stop d s = uvmunmap_loop pt ?va ?stop d s1" "pt_inv s1 ?ps pt" "kstep s s1"
      "unmaps_range (mem s) (mem s1) pt va 1" "pages (mem s1) 2 pt = pages (mem s) 2 pt"
      "same_outside (pages (mem s) 2 pt \<union> (if d then {?p} else {})) (mem s) (mem s1)"
    by (auto simp: PGROUNDDOWN_aligned [OF Suc.prems(2)])
  have same: "pt_lookup (mem s1) 2 pt (?va + of_nat i * PGSIZE) = pt_lookup (mem s) 2 pt (?va + of_nat i * PGSIZE)"
    if "i < n" for i
  proof -
    have eq: "?va + of_nat i * PGSIZE = va + of_nat (Suc i) * PGSIZE" by (simp add: algebra_simps)
    have "off_in va (va + of_nat (Suc i) * PGSIZE) = 4096 * Suc i"
      using that Suc.prems(3) by (intro off_in_pages) simp
    moreover have "va + of_nat (Suc i) * PGSIZE < MAXVA"
      using that Suc.prems(3) by (intro page_addr_below [of _ "Suc n"]) simp_all
    ultimately show ?thesis using s1(4) unfolding eq unmaps_range_def by (simp del: of_nat_Suc)
  qed
  have rp1: "range_pages (mem s1) pt ?va n = range_pages (mem s) pt ?va n"
    using same by (simp add: range_pages_def page_at_def)
  have b: "unat ?va + 4096 * n \<le> 2 ^ 38" using va(3) Suc.prems(3) by simp
  have "\<exists>s'. uvmunmap_loop pt ?va (?va + of_nat n * PGSIZE) d s1 = Ok () s'
    \<and> pt_inv s' (if d then rev (range_pages (mem s1) pt ?va n) @ ?ps else ?ps) pt \<and> kstep s1 s'
    \<and> unmaps_range (mem s1) (mem s') pt ?va n \<and> pages (mem s') 2 pt = pages (mem s1) 2 pt
    \<and> same_outside (pages (mem s1) 2 pt \<union> (if d then set (range_pages (mem s1) pt ?va n) else {})) (mem s1) (mem s')"
  proof (rule Suc.IH [OF s1(2) va(2) b])
    show "leaf s1 pt (?va + of_nat i * PGSIZE)" if "i < n" for i
      using Suc.prems(4) [of "Suc i"] same [OF that] that by (simp add: leaf_def algebra_simps)
    show "d \<Longrightarrow> distinct (range_pages (mem s1) pt ?va n)" using Suc.prems(5) rp rp1 by simp
    show "is_page s1 p \<and> p \<notin> set ?ps \<and> p \<notin> pages (mem s1) 2 pt" if "d" "p \<in> set (range_pages (mem s1) pt ?va n)" for p
      using that Suc.prems(5,6) rp rp1 s1(5) kstepD(9) [OF s1(3)] by auto
  qed
  then obtain s' where s': "uvmunmap_loop pt ?va ?stop d s1 = Ok () s'"
    "pt_inv s' (if d then rev (range_pages (mem s) pt ?va n) @ ?ps else ?ps) pt" "kstep s1 s'"
    "unmaps_range (mem s1) (mem s') pt ?va n" "pages (mem s') 2 pt = pages (mem s) 2 pt"
    "same_outside (pages (mem s) 2 pt \<union> (if d then set (range_pages (mem s) pt ?va n) else {})) (mem s1) (mem s')"
    unfolding rp1 s1(5) stop by blast
  have "unmaps_range (mem s) (mem s') pt va (Suc n)"
    using Suc.prems(3) by (intro unmaps_range_Suc [OF Suc.prems(2) _ s1(4) s'(4)]) simp
  moreover have "same_outside (pages (mem s) 2 pt \<union> (if d then set (range_pages (mem s) pt va (Suc n)) else {})) (mem s) (mem s')"
    by (rule same_outside_mono [OF same_outside_trans [OF s1(6) s'(6)]]) (auto simp: rp)
  ultimately show ?case
    using s1(1) s' kstep_trans [OF s1(3) s'(3)] by (intro exI [of _ s']) (auto simp: rp)
qed

end
