(* ===== verification/Ucopy.thy ===== *)
theory Ucopy
  imports Uvm
begin

text \<open>
  User memory as the kernel sees it.  \<open>aspace\<close> is the invariant of an address space; under it \<open>copyin\<close>,
  \<open>copyout\<close> and \<open>copyinstr\<close> read and write exactly the user bytes they are given, whatever pages
  these bytes straddle, and fail exactly when one of them is not accessible.
\<close>

section \<open>Address spaces\<close>

text \<open>A page table whose leaves lead to pages of their own: neither tables nor free, and a different
  page for each virtual page.\<close>

definition aspace :: "'z kmem_scheme \<Rightarrow> u64 list \<Rightarrow> u64 \<Rightarrow> bool" where
  "aspace s ps pt \<longleftrightarrow> pt_inv s ps pt
     \<and> (\<forall>va w. va < MAXVA \<longrightarrow> pt_lookup (mem s) 2 pt va = Some w \<longrightarrow>
          PTE2PA w \<noteq> 0 \<and> PTE2PA w \<notin> pages (mem s) 2 pt \<and> PTE2PA w \<notin> set ps)
     \<and> (\<forall>va vb w w'. va < MAXVA \<longrightarrow> vb < MAXVA \<longrightarrow> pt_lookup (mem s) 2 pt va = Some w \<longrightarrow>
          pt_lookup (mem s) 2 pt vb = Some w' \<longrightarrow> PTE2PA w = PTE2PA w' \<longrightarrow> slot 12 va = slot 12 vb)"

lemma aspaceD:
  assumes "aspace s ps pt"
  shows "pt_inv s ps pt"
    "va < MAXVA \<Longrightarrow> pt_lookup (mem s) 2 pt va = Some w \<Longrightarrow>
       PTE2PA w \<noteq> 0 \<and> PTE2PA w \<notin> pages (mem s) 2 pt \<and> PTE2PA w \<notin> set ps"
    "va < MAXVA \<Longrightarrow> vb < MAXVA \<Longrightarrow> pt_lookup (mem s) 2 pt va = Some w \<Longrightarrow>
       pt_lookup (mem s) 2 pt vb = Some w' \<Longrightarrow> PTE2PA w = PTE2PA w' \<Longrightarrow> slot 12 va = slot 12 vb"
  using assms unfolding aspace_def by blast+

lemma aspace_frame:
  assumes "mem t = mem s" "freelist t = freelist s" "sym_end t = sym_end s" "cpu_ok s \<Longrightarrow> cpu_ok t" "unheld L_kmem s \<Longrightarrow> unheld L_kmem t"
    "aspace s ps pt"
  shows "aspace t ps pt"
  using assms(4,5) assms(6) [unfolded aspace_def pt_inv_def kmem_inv_def is_page_def]
  unfolding aspace_def pt_inv_def kmem_inv_def is_page_def assms(1-3) by blast

definition readable :: "memory \<Rightarrow> u64 \<Rightarrow> u64 \<Rightarrow> bool" where
  "readable m pt va \<longleftrightarrow> va < MAXVA \<and> (\<exists>w. pt_lookup m 2 pt va = Some w \<and> w AND PTE_U \<noteq> 0)"

definition writable :: "memory \<Rightarrow> u64 \<Rightarrow> u64 \<Rightarrow> bool" where
  "writable m pt va \<longleftrightarrow> va < MAXVA \<and> (\<exists>w. pt_lookup m 2 pt va = Some w \<and> w AND PTE_U \<noteq> 0 \<and> w AND PTE_W \<noteq> 0)"

text \<open>The physical address of a mapped user byte.\<close>

definition phys :: "memory \<Rightarrow> u64 \<Rightarrow> u64 \<Rightarrow> u64" where
  "phys m pt va = page_at m pt va + (va - PGROUNDDOWN va)"

lemma page_off: "off_in (PGROUNDDOWN va) va < 4096"
  using off_in_aligned [OF aligned_PGROUNDDOWN, of va va] by (simp add: slot_PGROUNDDOWN)

lemma aligned_page_at [simp]: "aligned 12 (page_at m pt va)"
  by (simp add: page_at_def)

lemma phys_page: "PGROUNDDOWN (phys m pt va) = page_at m pt va"
proof -
  have "off_in (page_at m pt va) (phys m pt va) = off_in (PGROUNDDOWN va) va"
    by (simp add: phys_def off_in_def)
  then show ?thesis using in_page [OF aligned_page_at, of m pt va "phys m pt va"] page_off [of va] by simp
qed

lemma phys_inj:
  assumes "aspace s ps pt" "va < MAXVA" "vb < MAXVA" "pt_lookup (mem s) 2 pt va \<noteq> None"
    "pt_lookup (mem s) 2 pt vb \<noteq> None" "phys (mem s) pt va = phys (mem s) pt vb"
  shows "va = vb"
proof -
  have "page_at (mem s) pt va = page_at (mem s) pt vb" using assms(6) phys_page by metis
  then have "slot 12 va = slot 12 vb" using aspaceD(3) [OF assms(1-3)] assms(4,5) by (auto simp: page_at_def)
  then have "PGROUNDDOWN va = PGROUNDDOWN vb" by (simp add: PGROUNDDOWN_eq)
  moreover from this have "va - PGROUNDDOWN va = vb - PGROUNDDOWN vb"
    using assms(6) \<open>page_at (mem s) pt va = page_at (mem s) pt vb\<close> by (simp add: phys_def)
  ultimately show ?thesis by simp
qed

text \<open>Bytes of one page starting at \<open>va\<close>.\<close>

lemma same_page_offset:
  assumes "i < unat (PGSIZE - (va - PGROUNDDOWN va))"
  shows "PGROUNDDOWN (va + of_nat i) = PGROUNDDOWN va"
    "phys m pt (va + of_nat i) = page_at m pt va + (va - PGROUNDDOWN va) + of_nat i"
    "pt_lookup m 2 pt (va + of_nat i) = pt_lookup m 2 pt va"
proof -
  let ?o = "off_in (PGROUNDDOWN va) va"
  have "unat (PGSIZE - (va - PGROUNDDOWN va)) = 4096 - ?o"
    using page_off [of va] by (subst unat_sub) (auto simp: off_in_def PGSIZE_def word_le_nat_alt)
  then have lt: "?o + i < 4096" using assms page_off [of va] by simp
  have "va + of_nat i = PGROUNDDOWN va + of_nat (?o + i)"
    using add_off_in [of "PGROUNDDOWN va" va] by (simp add: add.assoc [symmetric])
  moreover have "?o + i < 2 ^ 64" using lt by simp
  ultimately have "off_in (PGROUNDDOWN va) (va + of_nat i) = ?o + i" by (simp only: off_in_add)
  then show pg: "PGROUNDDOWN (va + of_nat i) = PGROUNDDOWN va"
    using in_page [OF aligned_PGROUNDDOWN, of va "va + of_nat i"] lt by simp
  then have sl: "slot 12 (va + of_nat i) = slot 12 va" by (metis slot_PGROUNDDOWN)
  then show lk: "pt_lookup m 2 pt (va + of_nat i) = pt_lookup m 2 pt va" by (rule pt_lookup_slot)
  show "phys m pt (va + of_nat i) = page_at m pt va + (va - PGROUNDDOWN va) + of_nat i"
    unfolding phys_def pg page_at_def lk by simp
qed

lemma page_rest:
  "va + of_nat (unat (PGSIZE - (va - PGROUNDDOWN va))) = PGROUNDDOWN va + PGSIZE"
  "unat (PGSIZE - (va - PGROUNDDOWN va)) \<le> 4096"
proof -
  show "va + of_nat (unat (PGSIZE - (va - PGROUNDDOWN va))) = PGROUNDDOWN va + PGSIZE" by simp
  have "unat (PGSIZE - (va - PGROUNDDOWN va)) = 4096 - off_in (PGROUNDDOWN va) va"
    using page_off [of va] by (subst unat_sub) (auto simp: off_in_def PGSIZE_def word_le_nat_alt)
  then show "unat (PGSIZE - (va - PGROUNDDOWN va)) \<le> 4096" by simp
qed

section \<open>\<open>copyin\<close>\<close>

lemma walkaddr_eq:
  assumes "aspace s ps pt"
  shows "walkaddr pt va s = Ok (if readable (mem s) pt va then page_at (mem s) pt va else 0) s"
proof (cases "va < MAXVA")
  case False
  then show ?thesis by (auto simp: walkaddr_def readable_def)
next
  case True
  show ?thesis
  proof (cases "pte_at (mem s) 2 pt va")
    case None
    then show ?thesis using True by (simp add: walkaddr_def walk_lookup readable_def pt_lookup_def)
  next
    case (Some a)
    then show ?thesis using True pte_at_ne_0(1) [OF aspaceD(1) [OF assms] Some]
      by (auto simp: walkaddr_def walk_lookup readable_def pt_lookup_def page_at_def)
  qed
qed

lemma PGROUNDDOWN_less_MAXVA: "PGROUNDDOWN va < MAXVA \<longleftrightarrow> va < MAXVA"
proof
  assume "PGROUNDDOWN va < MAXVA"
  then have lt: "unat va div 4096 * 4096 < 2 ^ 38" by (simp add: word_less_nat_alt unat_PGROUNDDOWN MAXVA_def)
  show "va < MAXVA"
  proof (rule ccontr)
    assume "\<not> va < MAXVA"
    then have "2 ^ 38 \<le> unat va" by (simp add: word_less_nat_alt MAXVA_def)
    then have "2 ^ 38 div 4096 \<le> unat va div 4096" by (rule div_le_mono)
    then show False using lt by simp
  qed
next
  assume "va < MAXVA"
  then show "PGROUNDDOWN va < MAXVA" using PGROUNDDOWN_le [of va] by simp
qed

lemma same_page:
  assumes "PGROUNDDOWN va = PGROUNDDOWN vb"
  shows "readable m pt va = readable m pt vb" "writable m pt va = writable m pt vb"
    "page_at m pt va = page_at m pt vb"
proof -
  have "slot 12 va = slot 12 vb" using assms by (metis slot_PGROUNDDOWN)
  then have "pt_lookup m 2 pt va = pt_lookup m 2 pt vb" by (rule pt_lookup_slot)
  moreover have "va < MAXVA \<longleftrightarrow> vb < MAXVA" using assms PGROUNDDOWN_less_MAXVA by metis
  ultimately show "readable m pt va = readable m pt vb" "writable m pt va = writable m pt vb"
    "page_at m pt va = page_at m pt vb"
    by (simp_all add: readable_def writable_def page_at_def)
qed

lemma PGROUNDDOWN_idem [simp]: "PGROUNDDOWN (PGROUNDDOWN va) = PGROUNDDOWN va"
  by (simp add: PGROUNDDOWN_aligned)

lemma page_rest_add:
  assumes "n = min (unat (PGSIZE - (va - PGROUNDDOWN va))) len" "i < len - n"
  shows "PGROUNDDOWN va + PGSIZE + of_nat i = va + of_nat (n + i)"
proof -
  have "n = unat (PGSIZE - (va - PGROUNDDOWN va))" using assms by auto
  then show ?thesis using page_rest(1) [of va] by (simp add: add.assoc [symmetric])
qed

text \<open>A condition on \<open>len\<close> bytes splits into the bytes of the first page and the rest.\<close>

lemma all_split:
  assumes "n = min (unat (PGSIZE - (va - PGROUNDDOWN va))) len" "0 < len"
    "\<And>va vb. PGROUNDDOWN va = PGROUNDDOWN vb \<Longrightarrow> P va = P vb"
  shows "(\<forall>i < len. P (va + of_nat i)) \<longleftrightarrow> P va \<and> (\<forall>i < len - n. P (PGROUNDDOWN va + PGSIZE + of_nat i))"
proof -
  have first: "P (va + of_nat i) = P va" if "i < n" for i
    using that assms(1) by (intro assms(3) same_page_offset(1)) simp
  have n: "0 < n" using assms(1,2) page_rest_pos [of va] by simp
  have "(\<forall>i < len. P (va + of_nat i)) \<longleftrightarrow> (\<forall>i < n. P (va + of_nat i)) \<and> (\<forall>i < len - n. P (va + of_nat (n + i)))"
    using assms(1) by (intro all_less_split) simp
  also have "(\<forall>i < n. P (va + of_nat i)) \<longleftrightarrow> P va" using first n by auto
  also have "(\<forall>i < len - n. P (va + of_nat (n + i))) \<longleftrightarrow> (\<forall>i < len - n. P (PGROUNDDOWN va + PGSIZE + of_nat i))"
    using page_rest_add [OF assms(1)] by (simp del: of_nat_add)
  finally show ?thesis .
qed

lemma copyin_eq:
  assumes "aspace s ps pt"
  shows "\<exists>bs. copyin pt va len s = Ok (if \<forall>i < len. readable (mem s) pt (va + of_nat i) then 0 else - 1, bs) s
    \<and> ((\<forall>i < len. readable (mem s) pt (va + of_nat i)) \<longrightarrow>
         bs = map (\<lambda>i. mem s (phys (mem s) pt (va + of_nat i))) [0..<len])"
proof (induction len arbitrary: va rule: less_induct)
  case (less len)
  show ?case
  proof (cases "len = 0")
    case True
    then show ?thesis by (simp add: copyin.simps)
  next
    case False
    let ?m = "mem s" and ?va0 = "PGROUNDDOWN va"
    define n where "n = min (unat (PGSIZE - (va - PGROUNDDOWN va))) len"
    have n: "0 < n" "n \<le> len" using False page_rest_pos [of va] by (auto simp: n_def)
    have split: "(\<forall>i < len. readable ?m pt (va + of_nat i)) \<longleftrightarrow>
        readable ?m pt va \<and> (\<forall>i < len - n. readable ?m pt (?va0 + PGSIZE + of_nat i))"
      using False by (intro all_split [OF n_def]) (auto dest: same_page(1))
    have wa: "walkaddr pt ?va0 s = Ok (if readable ?m pt va then page_at ?m pt va else 0) s"
      using walkaddr_eq [OF assms, of ?va0] same_page(1,3) [of ?va0 va ?m pt] by simp
    show ?thesis
    proof (cases "readable ?m pt va")
      case False
      then show ?thesis using split wa \<open>len \<noteq> 0\<close> by (simp add: copyin.simps [of pt va])
    next
      case True
      then have "page_at ?m pt va \<noteq> 0"
        using aspaceD(2) [OF assms] by (auto simp: readable_def page_at_def)
      obtain bs where bs: "copyin pt (?va0 + PGSIZE) (len - n) s =
          Ok (if \<forall>i < len - n. readable ?m pt (?va0 + PGSIZE + of_nat i) then 0 else - 1, bs) s"
        "(\<forall>i < len - n. readable ?m pt (?va0 + PGSIZE + of_nat i)) \<longrightarrow>
         bs = map (\<lambda>i. ?m (phys ?m pt (?va0 + PGSIZE + of_nat i))) [0..<len - n]"
        using less.IH [of "len - n" "?va0 + PGSIZE"] n by auto
      have "copyin pt va len s = Ok (if \<forall>i < len - n. readable ?m pt (?va0 + PGSIZE + of_nat i) then 0 else - 1,
          rd ?m (page_at ?m pt va + (va - ?va0)) n @ bs) s"
        using wa True \<open>page_at ?m pt va \<noteq> 0\<close> \<open>len \<noteq> 0\<close> bs(1) by (simp add: copyin.simps [of pt va] n_def Let_def)
      moreover have "rd ?m (page_at ?m pt va + (va - ?va0)) n = map (\<lambda>i. ?m (phys ?m pt (va + of_nat i))) [0..<n]"
        using same_page_offset(2) [of _ va ?m pt] by (auto simp: rd_def n_def)
      moreover have "map (\<lambda>i. ?m (phys ?m pt (?va0 + PGSIZE + of_nat i))) [0..<len - n] =
          map (\<lambda>i. ?m (phys ?m pt (va + of_nat i))) [n..<len]"
        using page_rest_add [OF n_def] by (intro nth_equalityI) (auto simp del: of_nat_add)
      moreover have "[0..<len] = [0..<n] @ [n..<len]" using n(2) by (metis le0 upt_add_eq_append le_add_diff_inverse)
      ultimately show ?thesis using bs(2) True split by auto
    qed
  qed
qed

section \<open>\<open>copyout\<close>\<close>

lemma aspace_write:
  assumes "aspace s ps pt" "va < MAXVA" "pt_lookup (mem s) 2 pt va \<noteq> None"
    "same_outside {page_at (mem s) pt va} (mem s) m'"
  shows "aspace (s\<lparr>mem := m'\<rparr>) ps pt" "pt_lookup m' 2 pt vb = pt_lookup (mem s) 2 pt vb"
proof -
  let ?p = "page_at (mem s) pt va"
  note inv = aspaceD(1) [OF assms(1)]
  note d = pt_invD [OF inv]
  have p: "?p \<notin> pages (mem s) 2 pt" "?p \<notin> set ps"
    using aspaceD(2) [OF assms(1,2)] assms(3) by (auto simp: page_at_def)
  then have dis: "pages (mem s) 2 pt \<inter> {?p} = {}" by auto
  note o = pt_outside [OF assms(4) d(2) dis] and ol = pt_lookup_outside [OF assms(4) d(2) dis]
  show "pt_lookup m' 2 pt vb = pt_lookup (mem s) 2 pt vb" by (rule ol)
  have "free_chain m' r ps = free_chain (mem s) r ps" for r
    using p(2) kmem_invD(4) [OF d(1)] by (intro free_chain_same_outside [OF assms(4)]) (auto simp: is_page_def)
  then have "kmem_inv (s\<lparr>mem := m'\<rparr>) ps" using d(1) by (simp add: kmem_inv_def)
  then have "pt_inv (s\<lparr>mem := m'\<rparr>) ps pt" using inv o(1,2) by (simp add: pt_inv_def)
  moreover have "mem (s\<lparr>mem := m'\<rparr>) = m'" by simp
  ultimately show "aspace (s\<lparr>mem := m'\<rparr>) ps pt"
    using assms(1) unfolding aspace_def by (simp only: ol o(1)) blast
qed

lemma lookup_cong:
  assumes "\<And>vb. pt_lookup m' 2 pt vb = pt_lookup m 2 pt vb"
  shows "writable m' pt va = writable m pt va" "readable m' pt va = readable m pt va" "phys m' pt va = phys m pt va"
  by (simp_all add: writable_def readable_def phys_def page_at_def assms)

lemma copyout_walk:
  assumes "aspace s ps pt" "src \<noteq> []"
  shows "copyout pt va src s =
    (if writable (mem s) pt va then
       let n = min (unat (PGSIZE - (va - PGROUNDDOWN va))) (length src)
       in copyout pt (PGROUNDDOWN va + PGSIZE) (drop n src)
            (s\<lparr>mem := wr (mem s) (phys (mem s) pt va) (take n src)\<rparr>)
     else Ok (- 1) s)"
proof -
  let ?va0 = "PGROUNDDOWN va"
  have w: "writable (mem s) pt ?va0 = writable (mem s) pt va" "page_at (mem s) pt ?va0 = page_at (mem s) pt va"
    by (simp_all add: same_page(2,3) [of ?va0 va])
  show ?thesis
  proof (cases "?va0 < MAXVA")
    case False
    then show ?thesis using assms(2) w(1) by (auto simp: copyout.simps [of pt va] writable_def Let_def)
  next
    case True
    show ?thesis
    proof (cases "pte_at (mem s) 2 pt ?va0")
      case None
      then have "\<not> writable (mem s) pt va" unfolding w(1) [symmetric] by (simp add: writable_def pt_lookup_def)
      then show ?thesis using True None assms(2) by (simp add: copyout.simps [of pt va] Let_def walk_lookup not_le)
    next
      case (Some a)
      have a: "a \<noteq> 0" using pte_at_ne_0(1) [OF aspaceD(1) [OF assms(1)] Some] .
      have wr: "writable (mem s) pt va \<longleftrightarrow> valid (load64 (mem s) a) \<and> load64 (mem s) a AND PTE_U \<noteq> 0
          \<and> load64 (mem s) a AND PTE_W \<noteq> 0"
        unfolding w(1) [symmetric] using True Some by (auto simp: writable_def pt_lookup_def)
      moreover have "phys (mem s) pt va = PTE2PA (load64 (mem s) a) + (va - ?va0)" if "writable (mem s) pt va"
        using that wr Some unfolding phys_def w(2) [symmetric] by (simp add: page_at_def pt_lookup_def)
      ultimately show ?thesis
        using True Some a assms(2) by (auto simp: copyout.simps [of pt va] Let_def walk_lookup)
    qed
  qed
qed

definition copied :: "memory \<Rightarrow> memory \<Rightarrow> u64 \<Rightarrow> u64 \<Rightarrow> u8 list \<Rightarrow> bool" where
  "copied m m' pt va src \<longleftrightarrow>
     (\<forall>x. (\<forall>i < length src. writable m pt (va + of_nat i) \<longrightarrow> x \<noteq> phys m pt (va + of_nat i)) \<longrightarrow> m' x = m x)
   \<and> ((\<forall>i < length src. writable m pt (va + of_nat i)) \<longrightarrow> length src \<le> 2 ^ 64 \<longrightarrow>
        (\<forall>i < length src. m' (phys m pt (va + of_nat i)) = src ! i))"

text \<open>A write that stays in the page of \<open>va\<close>.\<close>

lemma wr_phys:
  assumes "length bs \<le> unat (PGSIZE - (va - PGROUNDDOWN va))"
  shows "same_outside {page_at m pt va} m (wr m (phys m pt va) bs)"
    "wr m (phys m pt va) bs x \<noteq> m x \<Longrightarrow> \<exists>i < length bs. x = phys m pt (va + of_nat i)"
    "i < length bs \<Longrightarrow> wr m (phys m pt va) bs (phys m pt (va + of_nat i)) = bs ! i"
proof -
  let ?b = "phys m pt va"
  have off: "phys m pt (va + of_nat i) = ?b + of_nat i" if "i < length bs" for i
    using same_page_offset(2) [of i va m pt] that assms by (simp add: phys_def)
  have len: "length bs \<le> 4096" using assms page_rest(2) [of va] by simp
  show ch: "\<exists>i < length bs. x = phys m pt (va + of_nat i)" if "wr m ?b bs x \<noteq> m x" for x
  proof -
    have "off_in ?b x < length bs" using that by (auto simp: wr_def split: if_splits)
    then show ?thesis using off add_off_in [of ?b x] by metis
  qed
  show "wr m ?b bs (phys m pt (va + of_nat i)) = bs ! i" if "i < length bs"
    using off that len by (simp add: wr_def)
  show "same_outside {page_at m pt va} m (wr m ?b bs)"
    unfolding same_outside_def
  proof (intro allI impI)
    fix x assume "PGROUNDDOWN x \<notin> {page_at m pt va}"
    moreover have "PGROUNDDOWN (phys m pt (va + of_nat i)) = page_at m pt va" if "i < length bs" for i
      using that assms same_page(3) [OF same_page_offset(1)] by (simp add: phys_page)
    ultimately show "wr m ?b bs x = m x" using ch by blast
  qed
qed

lemma copied_chunk:
  assumes as: "aspace s ps pt" and w: "writable (mem s) pt va"
    and n: "n = min (unat (PGSIZE - (va - PGROUNDDOWN va))) (length src)"
    and m1: "m1 = wr (mem s) (phys (mem s) pt va) (take n src)"
    and c: "copied m1 m' pt (PGROUNDDOWN va + PGSIZE) (drop n src)"
  shows "copied (mem s) m' pt va src"
proof -
  let ?m = "mem s" and ?va = "PGROUNDDOWN va + PGSIZE"
  have len: "length (take n src) \<le> unat (PGSIZE - (va - PGROUNDDOWN va))" "length (take n src) = n" "n \<le> length src"
    using n by auto
  note wp = wr_phys [OF len(1), unfolded len(2), where m = "mem s" and pt = pt, folded m1]
  have wva: "va < MAXVA" "pt_lookup ?m 2 pt va \<noteq> None" using w by (auto simp: writable_def)
  note lk = aspace_write(2) [OF as wva wp(1)]
  note lc = lookup_cong [of m1 pt ?m, OF lk]
  have rest: "?va + of_nat j = va + of_nat (n + j)" if "j < length src - n" for j
    by (rule page_rest_add [OF n that])
  have first: "writable ?m pt (va + of_nat i)" if "i < n" for i
    using that w n same_page(2) [OF same_page_offset(1), of i va ?m pt] by simp
  show ?thesis
    unfolding copied_def
  proof (intro conjI allI impI)
    fix x assume x: "\<forall>i < length src. writable ?m pt (va + of_nat i) \<longrightarrow> x \<noteq> phys ?m pt (va + of_nat i)"
    have "m1 x = ?m x" using wp(2) [of x] x first len(3) by (meson order_less_le_trans)
    moreover have "m' x = m1 x"
      using c x unfolding copied_def lc by (auto simp: rest simp del: of_nat_add)
    ultimately show "m' x = ?m x" by simp
  next
    fix i assume W: "\<forall>i < length src. writable ?m pt (va + of_nat i)" and L: "length src \<le> 2 ^ 64" and i: "i < length src"
    show "m' (phys ?m pt (va + of_nat i)) = src ! i"
    proof (cases "i < n")
      case False
      have "\<forall>j < length src - n. m' (phys ?m pt (va + of_nat (n + j))) = src ! (n + j)"
        using c W L unfolding copied_def lc by (auto simp: rest simp del: of_nat_add)
      from this [rule_format, of "i - n"] show ?thesis using False i by simp
    next
      case True
      have ne: "phys ?m pt (va + of_nat i) \<noteq> phys ?m pt (va + of_nat (n + j))" if "j < length src - n" for j
      proof
        assume eq: "phys ?m pt (va + of_nat i) = phys ?m pt (va + of_nat (n + j))"
        have "n + j < length src" using that by simp
        then have "writable ?m pt (va + of_nat i)" "writable ?m pt (va + of_nat (n + j))" using W i by blast+
        then have "va + of_nat i = va + of_nat (n + j)"
          unfolding writable_def by (intro phys_inj [OF as _ _ _ _ eq]) auto
        then have "off_in va (va + of_nat i) = off_in va (va + of_nat (n + j))" by simp
        then show False using i that L True by (simp del: of_nat_add)
      qed
      have "m' (phys ?m pt (va + of_nat i)) = m1 (phys ?m pt (va + of_nat i))"
        using c ne unfolding copied_def lc by (auto simp: rest simp del: of_nat_add)
      also have "\<dots> = src ! i" using wp(3) [OF True] True by simp
      finally show ?thesis .
    qed
  qed
qed

lemma copyout_eq:
  assumes "aspace s ps pt"
  shows "\<exists>m'. copyout pt va src s = Ok (if \<forall>i < length src. writable (mem s) pt (va + of_nat i) then 0 else - 1) (s\<lparr>mem := m'\<rparr>)
    \<and> aspace (s\<lparr>mem := m'\<rparr>) ps pt \<and> (\<forall>vb. pt_lookup m' 2 pt vb = pt_lookup (mem s) 2 pt vb)
    \<and> copied (mem s) m' pt va src"
  using assms
proof (induction "length src" arbitrary: va src s rule: less_induct)
  case less
  show ?case
  proof (cases "src = []")
    case True
    then show ?thesis using less.prems by (intro exI [of _ "mem s"]) (simp add: copyout.simps copied_def)
  next
    case False
    define n where "n = min (unat (PGSIZE - (va - PGROUNDDOWN va))) (length src)"
    let ?m = "mem s" and ?va = "PGROUNDDOWN va + PGSIZE"
    let ?m1 = "wr ?m (phys ?m pt va) (take n src)"
    have n: "0 < n" "n \<le> length src" using False page_rest_pos [of va] by (auto simp: n_def)
    have split: "(\<forall>i < length src. writable ?m pt (va + of_nat i)) \<longleftrightarrow>
        writable ?m pt va \<and> (\<forall>i < length src - n. writable ?m pt (?va + of_nat i))"
      using False by (intro all_split [OF n_def]) (auto dest: same_page(2))
    show ?thesis
    proof (cases "writable ?m pt va")
      case False
      then have "copyout pt va src s = Ok (- 1) s" using copyout_walk [OF less.prems \<open>src \<noteq> []\<close>] by simp
      moreover have "copied ?m ?m pt va src" using False split by (simp add: copied_def) blast
      ultimately show ?thesis using False split less.prems by (intro exI [of _ ?m]) simp
    next
      case True
      have s1: "aspace (s\<lparr>mem := ?m1\<rparr>) ps pt" "pt_lookup ?m1 2 pt vb = pt_lookup ?m 2 pt vb" for vb
        using aspace_write [OF less.prems, of va ?m1] True wr_phys(1) [of "take n src" va ?m pt]
        by (auto simp: writable_def n_def)
      note lc = lookup_cong [of ?m1 pt ?m, OF s1(2)]
      have lt: "length (drop n src) < length src" using n by simp
      obtain m' where IH: "copyout pt ?va (drop n src) (s\<lparr>mem := ?m1\<rparr>) =
          Ok (if \<forall>i < length src - n. writable ?m1 pt (?va + of_nat i) then 0 else - 1) (s\<lparr>mem := m'\<rparr>)"
          "aspace (s\<lparr>mem := m'\<rparr>) ps pt" "\<forall>vb. pt_lookup m' 2 pt vb = pt_lookup ?m1 2 pt vb"
          "copied ?m1 m' pt ?va (drop n src)"
        using less.hyps [OF lt s1(1), of ?va] by auto
      have "copied ?m m' pt va src" by (rule copied_chunk [OF less.prems True n_def refl IH(4)])
      then show ?thesis
        using IH s1(2) split True lc(1) copyout_walk [OF less.prems \<open>src \<noteq> []\<close>, of va]
        by (intro exI [of _ m']) (simp add: n_def [symmetric] Let_def)
    qed
  qed
qed

section \<open>\<open>copyinstr\<close>\<close>

lemma rd_Suc: "rd m p (Suc n) = m p # rd m (p + 1) n"
proof -
  have "[0..<Suc n] = 0 # map Suc [0..<n]" by (simp add: map_Suc_upt upt_conv_Cons)
  then show ?thesis by (simp add: rd_def add.assoc del: upt_Suc)
qed

lemma copy_until_nul_eq:
  "copy_until_nul m p n = (let bs = rd m p n in (0 \<in> set bs, if 0 \<in> set bs then cstr bs @ [0] else bs))"
  by (induction m p n rule: copy_until_nul.induct) (auto simp: rd_Suc Let_def)

text \<open>The byte \<open>i\<close> places after \<open>va\<close>, and the position of the first readable NUL.\<close>

definition ubyte :: "memory \<Rightarrow> u64 \<Rightarrow> u64 \<Rightarrow> nat \<Rightarrow> u8" where
  "ubyte m pt va i = m (phys m pt (va + of_nat i))"

definition nul_at :: "memory \<Rightarrow> u64 \<Rightarrow> u64 \<Rightarrow> nat \<Rightarrow> bool" where
  "nul_at m pt va k \<longleftrightarrow> (\<forall>i \<le> k. readable m pt (va + of_nat i)) \<and> (\<forall>i < k. ubyte m pt va i \<noteq> 0) \<and> ubyte m pt va k = 0"

lemma nul_at_shift:
  assumes "\<And>i. i < len - n \<Longrightarrow> va' + of_nat i = va + of_nat (n + i)" "n \<le> len"
    "\<And>i. i < n \<Longrightarrow> readable m pt (va + of_nat i) \<and> ubyte m pt va i \<noteq> 0"
  shows "k < len \<and> nul_at m pt va k \<longleftrightarrow> n \<le> k \<and> k - n < len - n \<and> nul_at m pt va' (k - n)"
proof (cases "n \<le> k \<and> k < len")
  case False
  then show ?thesis using assms(2,3) by (auto simp: nul_at_def)
next
  case True
  then have eq: "va' + of_nat i = va + of_nat (n + i)" if "i \<le> k - n" for i
    using that by (intro assms(1)) auto
  have r: "(\<forall>i \<le> k. readable m pt (va + of_nat i)) \<longleftrightarrow> (\<forall>i \<le> k - n. readable m pt (va' + of_nat i))"
    using all_less_split [of n "Suc k" "\<lambda>i. readable m pt (va + of_nat i)"] True assms(3)
    by (simp add: less_Suc_eq_le Suc_diff_le eq del: of_nat_add)
  have u: "ubyte m pt va' i = ubyte m pt va (n + i)" if "i \<le> k - n" for i using eq [OF that] by (simp only: ubyte_def)
  have "(\<forall>i < k. ubyte m pt va i \<noteq> 0) \<longleftrightarrow> (\<forall>i < k - n. ubyte m pt va' i \<noteq> 0)"
    using all_less_split [of n k "\<lambda>i. ubyte m pt va i \<noteq> 0"] True assms(3) u by simp
  then show ?thesis using True r u [of "k - n"] by (auto simp: nul_at_def)
qed

lemma copyinstr_eq:
  assumes "aspace s ps pt"
  shows "(\<exists>k < len. nul_at (mem s) pt va k
      \<and> copyinstr pt va len s = Ok (0, map (ubyte (mem s) pt va) [0..<k] @ [0]) s)
    \<or> (\<not> (\<exists>k < len. nul_at (mem s) pt va k)) \<and> (\<exists>bs. copyinstr pt va len s = Ok (- 1, bs) s)"
proof (induction len arbitrary: va rule: less_induct)
  case (less len)
  show ?case
  proof (cases "len = 0")
    case True
    then show ?thesis by (simp add: copyinstr.simps)
  next
    case False
    let ?m = "mem s" and ?va = "PGROUNDDOWN va + PGSIZE"
    define n where "n = min (unat (PGSIZE - (va - PGROUNDDOWN va))) len"
    have n: "0 < n" "n \<le> len" using False page_rest_pos [of va] by (auto simp: n_def)
    have wa: "walkaddr pt (PGROUNDDOWN va) s = Ok (if readable ?m pt va then page_at ?m pt va else 0) s"
      using walkaddr_eq [OF assms, of "PGROUNDDOWN va"] same_page(1,3) [of "PGROUNDDOWN va" va ?m pt] by simp
    show ?thesis
    proof (cases "readable ?m pt va")
      case False
      have "\<not> nul_at ?m pt va k" for k
      proof
        assume "nul_at ?m pt va k"
        then have "readable ?m pt (va + of_nat 0)" unfolding nul_at_def by blast
        with False show False by simp
      qed
      then show ?thesis using False wa \<open>len \<noteq> 0\<close> by (simp add: copyinstr.simps [of pt va])
    next
      case True
      then have pa: "page_at ?m pt va \<noteq> 0"
        using aspaceD(2) [OF assms] by (auto simp: readable_def page_at_def)
      let ?bs = "rd ?m (page_at ?m pt va + (va - PGROUNDDOWN va)) n"
      have bs: "?bs = map (ubyte ?m pt va) [0..<n]"
        using same_page_offset(2) [of _ va ?m pt] by (auto simp: rd_def n_def ubyte_def)
      have rdb: "readable ?m pt (va + of_nat i)" if "i < n" for i
        using that True n_def same_page(1) [OF same_page_offset(1), of i va ?m pt] by simp
      have eq: "copyinstr pt va len s = (if 0 \<in> set ?bs then Ok (0, cstr ?bs @ [0]) s
          else bindr (copyinstr pt ?va (len - n) s) (\<lambda>(r, cs) s. Ok (r, ?bs @ cs) s))"
        using wa True pa \<open>len \<noteq> 0\<close> by (simp add: copyinstr.simps [of pt va] n_def Let_def copy_until_nul_eq)
      show ?thesis
      proof (cases "0 \<in> set ?bs")
        case True
        let ?k = "length (cstr ?bs)"
        note cs = cstr_nul [OF True]
        have k: "?k < n" using cs(1) by simp
        have b: "?bs ! i = ubyte ?m pt va i" if "i < n" for i using that unfolding bs by simp
        have "nul_at ?m pt va ?k"
          unfolding nul_at_def using k cs(2,3) b rdb by auto
        moreover have "cstr ?bs = map (ubyte ?m pt va) [0..<?k]"
          using cs(4) k unfolding bs by (simp add: take_map)
        ultimately show ?thesis using eq True k n(2) by (intro disjI1 exI [of _ ?k]) auto
      next
        case False
        then have nz: "ubyte ?m pt va i \<noteq> 0" if "i < n" for i using that unfolding bs by auto
        have sh: "k < len \<and> nul_at ?m pt va k \<longleftrightarrow> n \<le> k \<and> k - n < len - n \<and> nul_at ?m pt ?va (k - n)" for k
          using rdb nz by (intro nul_at_shift [OF page_rest_add [OF n_def] n(2)]) auto
        have eq': "copyinstr pt va len s = bindr (copyinstr pt ?va (len - n) s) (\<lambda>(r, cs) s. Ok (r, ?bs @ cs) s)"
          using eq False by simp
        have "len - n < len" using n by simp
        from less.IH [OF this, of ?va] show ?thesis
        proof (elim disjE exE conjE)
          fix k assume k: "k < len - n" "nul_at ?m pt ?va k"
            "copyinstr pt ?va (len - n) s = Ok (0, map (ubyte ?m pt ?va) [0..<k] @ [0]) s"
          have "map (ubyte ?m pt ?va) [0..<k] = map (ubyte ?m pt va) [n..<n + k]"
            using page_rest_add [OF n_def] k(1) by (intro nth_equalityI) (auto simp: ubyte_def simp del: of_nat_add)
          then have "?bs @ map (ubyte ?m pt ?va) [0..<k] = map (ubyte ?m pt va) [0..<n + k]"
            using upt_add_eq_append [of 0 n k] unfolding bs by simp
          then show ?thesis using eq' k sh [of "n + k"] by (intro disjI1 exI [of _ "n + k"]) simp
        next
          fix bs' assume "\<not> (\<exists>k < len - n. nul_at ?m pt ?va k)" "copyinstr pt ?va (len - n) s = Ok (- 1, bs') s"
          then show ?thesis using eq' sh by (intro disjI2) auto
        qed
      qed
    qed
  qed
qed

end
