(* ===== verification/Pipe_Facts.thy ===== *)
theory Pipe_Facts
  imports Proc_Facts Ring Pipe Ucopy
begin

text \<open>
  \<^verbatim>\<open>kernel/pipe.c\<close> implements a bounded FIFO queue, and \<open>pipewrite\<close> and \<open>piperead\<close> move user bytes through it.
\<close>

section \<open>The buffer is a queue\<close>

definition pipe_items :: "pipe \<Rightarrow> u8 list" where
  "pipe_items q = ring_items PIPESIZE (pi_data q) (pi_nread q) (pi_nwrite q)"

definition pipe_ok :: "pipe \<Rightarrow> bool" where
  "pipe_ok q \<longleftrightarrow> ring_ok PIPESIZE (pi_data q) (pi_nread q) (pi_nwrite q)"

interpretation pr: ring_buffer PIPESIZE pi_data pi_nread pi_nwrite pipe_put pipe_get pipe_full pipe_empty
  by unfold_locales (simp_all add: PIPESIZE_def pipe_put_def pipe_get_def pipe_full_def pipe_empty_def)

interpretation pq: bounded_queue pipe_items pipe_ok PIPESIZE pipe_put pipe_get pipe_full pipe_empty
  using pr.bounded_queue_axioms by (simp add: pipe_items_def [abs_def] pipe_ok_def [abs_def])

section \<open>Frame facts\<close>

text \<open>The state with pipe \<open>pi\<close> replaced.\<close>

definition with_pipe :: "u64 \<Rightarrow> pipe \<Rightarrow> 'z kpipe_scheme \<Rightarrow> 'z kpipe_scheme" where
  "with_pipe pi q s = s\<lparr>pipes := (pipes s)(pi := q)\<rparr>"

lemma pipes_take_lock [simp]: "pipes (take_lock l s) = pipes s"
  by (simp add: take_lock_def push_off_eq lock_defs)

lemma with_pipe_lock [simp]:
  "upd_pipe pi f (take_lock l s) = take_lock l (with_pipe pi (f (pipes s pi)) s)"
  "with_pipe pi q' (with_pipe pi q s) = with_pipe pi q' s" "with_pipe pi (pipes s pi) s = s"
  "unheld l (with_pipe pi q s) = unheld l s" "settled (with_pipe pi q s) = settled s"
  by (simp_all add: with_pipe_def upd_pipe_def take_lock_def unheld_def settled_def lock_op_defs)

lemma with_pipe_simps [simp]:
  "pipes (with_pipe pi q s) = (pipes s)(pi := q)" "procs (with_pipe pi q s) = procs s" "mem (with_pipe pi q s) = mem s"
  "cpus (with_pipe pi q s) = cpus s" "tp (with_pipe pi q s) = tp s" "mycpu (with_pipe pi q s) = mycpu s"
  "freelist (with_pipe pi q s) = freelist s" "sym_end (with_pipe pi q s) = sym_end s" "sie (with_pipe pi q s) = sie s" "locks (with_pipe pi q s) = locks s"
  by (simp_all add: with_pipe_def lock_defs)

lemma pipes_woken [simp]: "pipes (woken ch s) = pipes s"
  by (simp add: woken_def)

lemma proc_locks_free_pipe [simp]: "proc_locks_free (with_pipe pi q s) = proc_locks_free s"
  "proc_locks_free (s\<lparr>mem := m\<rparr>) = proc_locks_free s"
  by (simp_all add: proc_locks_free_def)

section \<open>Writing\<close>

definition pipe_step :: "pipe \<Rightarrow> u8 list \<Rightarrow> pipe \<Rightarrow> bool" where
  "pipe_step q bs q' \<longleftrightarrow> pipe_ok q' \<and> pipe_items q' = pipe_items q @ bs
     \<and> pi_readopen q' = pi_readopen q \<and> pi_writeopen q' = pi_writeopen q"


lemma pipe_put_step:
  "pipe_ok q \<Longrightarrow> \<not> pipe_full q \<Longrightarrow> pipe_step (pipe_put b q) bs q' \<Longrightarrow> pipe_step q (b # bs) q'"
  using pq.put_law [of q b] by (auto simp: pipe_step_def pipe_put_def)

text \<open>The writer can go on: there is a reader and nobody killed the writer.\<close>

definition pipe_going :: "u64 \<Rightarrow> nat \<Rightarrow> 'z kpipe_scheme \<Rightarrow> bool" where
  "pipe_going pi pr s \<longleftrightarrow> pi_readopen (pipes s pi) \<and> p_killed (procs s pr) = 0"

definition pipe_ready :: "u64 \<Rightarrow> nat \<Rightarrow> u64 list \<Rightarrow> 'z kpipe_scheme \<Rightarrow> bool" where
  "pipe_ready pi pr ps s \<longleftrightarrow> settled s \<and> noff (mycpu s) = 0 \<and> cur s = Some pr \<and> pr < NPROC \<and> proc_locks_free s
     \<and> unheld (L_pipe pi) s \<and> aspace s ps (p_pagetable (procs s pr)) \<and> pipe_ok (pipes s pi)"

lemma pipewrite_loop_stop:
  assumes "pipe_ready pi pr ps s" "\<not> pipe_going pi pr s"
  shows "pipewrite_loop pi pr addr i (Suc rest) (take_lock (L_pipe pi) s) = Ok (- 1) s"
  using assms by (auto simp: pipe_ready_def pipe_going_def proc_locks_freeD)

lemma copyin_byte:
  assumes "aspace s ps pt"
  shows "readable (mem s) pt va \<Longrightarrow> copyin pt va 1 s = Ok (0, [ubyte (mem s) pt va 0]) s"
    "\<not> readable (mem s) pt va \<Longrightarrow> \<exists>bs. copyin pt va 1 s = Ok (- 1, bs) s"
  using copyin_eq [OF assms, of va 1] by (auto simp: ubyte_def)

lemma pipe_ready_aspace:
  assumes "pipe_ready pi pr ps s"
  shows "aspace (take_lock (L_pipe pi) (with_pipe pi q s)) ps (p_pagetable (procs s pr))"
  by (rule aspace_frame [of _ s]) (use assms in \<open>auto simp: pipe_ready_def unheld_def cpu_ok_def lock_defs take_lock_def push_off_eq\<close>)

lemma pipewrite_loop_eq:
  assumes rdy: "pipe_ready pi pr ps s" and go: "pipe_going pi pr s"
    and pt: "pt = p_pagetable (procs s pr)"
  shows "pipe_ok q \<Longrightarrow> pi_readopen q \<Longrightarrow>
    \<exists>k q'. k \<le> rest \<and> (\<forall>j < k. readable (mem s) pt (addr + of_nat (i + j)))
      \<and> pipe_step q (map (ubyte (mem s) pt addr) [i..<i + k]) q'
      \<and> (if k < rest \<and> pipe_full q'
          then pipewrite_loop pi pr addr i rest (take_lock (L_pipe pi) (with_pipe pi q s)) =
            Block (Ch_pipe_write pi) (take_lock (L_proc pr) (go_to_sleep pr (Ch_pipe_write pi) (woken (Ch_pipe_read pi) (with_pipe pi q' s))))
          else (k < rest \<longrightarrow> \<not> readable (mem s) pt (addr + of_nat (i + k)))
            \<and> pipewrite_loop pi pr addr i rest (take_lock (L_pipe pi) (with_pipe pi q s)) =
                Ok (int (i + k)) (woken (Ch_pipe_read pi) (with_pipe pi q' s)))"
proof (induction rest arbitrary: i q)
  case 0
  show ?case by (rule exI [of _ 0], rule exI [of _ q]) (use rdy 0 in \<open>simp add: pipe_ready_def pipe_step_def\<close>)
next
  case (Suc rest)
  let ?s = "with_pipe pi q s"
  have st: "settled ?s" "proc_locks_free ?s" "unheld (L_pipe pi) ?s" "unheld (L_proc pr) ?s" "cur ?s = Some pr" "noff (mycpu ?s) = 0"
    using rdy by (simp_all add: pipe_ready_def proc_locks_freeD lock_defs)
  have kil: "p_killed (procs s pr) = 0" using go by (simp add: pipe_going_def)
  show ?case
  proof (cases "pipe_full q")
    case True
    have "pipewrite_loop pi pr addr i (Suc rest) (take_lock (L_pipe pi) ?s) =
            Block (Ch_pipe_write pi) (take_lock (L_proc pr) (go_to_sleep pr (Ch_pipe_write pi) (woken (Ch_pipe_read pi) ?s)))"
      using st True kil Suc.prems sleep_Block [of "woken (Ch_pipe_read pi) ?s" pr "L_pipe pi"] by simp
    then show ?thesis using True Suc.prems by (intro exI [of _ 0] exI [of _ q]) (simp add: pipe_step_def)
  next
    case False
    note as = pipe_ready_aspace [OF rdy, of q, folded pt]
    show ?thesis
    proof (cases "readable (mem s) pt (addr + of_nat i)")
      case True
      let ?b = "ubyte (mem s) pt addr i" and ?L = "\<lambda>i rest q. pipewrite_loop pi pr addr i rest (take_lock (L_pipe pi) (with_pipe pi q s))"
      have "copyin pt (addr + of_nat i) 1 (take_lock (L_pipe pi) ?s) = Ok (0, [?b]) (take_lock (L_pipe pi) ?s)"
        using copyin_byte(1) [OF as, of "addr + of_nat i"] True by (simp add: ubyte_def)
      then have step: "?L i (Suc rest) q = ?L (Suc i) rest (pipe_put ?b q)"
        using st kil Suc.prems False pt by simp
      have "pipe_ok (pipe_put ?b q)" "pi_readopen (pipe_put ?b q)"
        using pq.put_law [OF Suc.prems(1) False] Suc.prems by (simp_all add: pipe_put_def)
      from Suc.IH [OF this, of "Suc i"] obtain k q' where
        k: "k \<le> rest" "\<forall>j < k. readable (mem s) pt (addr + of_nat (Suc i + j))"
          "pipe_step (pipe_put ?b q) (map (ubyte (mem s) pt addr) [Suc i..<Suc i + k]) q'" and
        res: "if k < rest \<and> pipe_full q'
          then ?L (Suc i) rest (pipe_put ?b q) =
            Block (Ch_pipe_write pi) (take_lock (L_proc pr) (go_to_sleep pr (Ch_pipe_write pi) (woken (Ch_pipe_read pi) (with_pipe pi q' s))))
          else (k < rest \<longrightarrow> \<not> readable (mem s) pt (addr + of_nat (Suc i + k)))
            \<and> ?L (Suc i) rest (pipe_put ?b q) = Ok (int (Suc i + k)) (woken (Ch_pipe_read pi) (with_pipe pi q' s))" by blast
      have "pipe_step q (map (ubyte (mem s) pt addr) [i..<i + Suc k]) q'"
        using pipe_put_step [OF Suc.prems(1) False k(3)] by (simp add: upt_conv_Cons del: upt_Suc)
      moreover have "\<forall>j < Suc k. readable (mem s) pt (addr + of_nat (i + j))"
        using k(2) True by (auto simp: less_Suc_eq_0_disj algebra_simps)
      ultimately show ?thesis using k(1) res
        by (intro exI [of _ "Suc k"] exI [of _ q']) (simp add: step split: if_splits del: pipewrite_loop.simps upt_Suc of_nat_Suc of_nat_add)
    next
      case False
      then obtain bs where "copyin pt (addr + of_nat i) 1 (take_lock (L_pipe pi) ?s) = Ok (- 1, bs) (take_lock (L_pipe pi) ?s)"
        using copyin_byte(2) [OF as, of "addr + of_nat i"] by auto
      then show ?thesis using st kil Suc.prems \<open>\<not> pipe_full q\<close> False pt
        by (intro exI [of _ 0] exI [of _ q]) (simp add: pipe_step_def)
    qed
  qed
qed

section \<open>Reading\<close>

lemma copied_Cons:
  assumes as: "aspace s ps pt" and eq: "\<And>vb. pt_lookup m1 2 pt vb = pt_lookup (mem s) 2 pt vb"
    and c1: "copied (mem s) m1 pt va [c]" and c2: "copied m1 m' pt (va + 1) cs"
  shows "copied (mem s) m' pt va (c # cs)"
proof -
  note cong = lookup_cong [of m1 pt "mem s", OF eq]
  have at: "va + of_nat (Suc j) = va + 1 + of_nat j" for j by (simp add: algebra_simps)
  have a: "m' x = mem s x" if x: "\<forall>i < length (c # cs). writable (mem s) pt (va + of_nat i) \<longrightarrow> x \<noteq> phys (mem s) pt (va + of_nat i)" for x
  proof -
    have "m1 x = mem s x" using c1 spec [OF x, of 0] by (simp add: copied_def)
    moreover have "m' x = m1 x" using c2 x unfolding copied_def cong at [symmetric] by (metis Suc_less_eq length_Cons)
    ultimately show ?thesis by simp
  qed
  have b: "m' (phys (mem s) pt (va + of_nat i)) = (c # cs) ! i"
    if w: "\<forall>i < length (c # cs). writable (mem s) pt (va + of_nat i)" and len: "length (c # cs) \<le> 2 ^ 64" and i: "i < length (c # cs)" for i
  proof (cases i)
    case 0
    have "phys (mem s) pt va \<noteq> phys (mem s) pt (va + of_nat (Suc j))" if "j < length cs" for j
    proof
      assume ph: "phys (mem s) pt va = phys (mem s) pt (va + of_nat (Suc j))"
      have w': "writable (mem s) pt va" "writable (mem s) pt (va + of_nat (Suc j))" using w [rule_format, of "Suc j"] w [rule_format, of 0] that by (simp_all del: of_nat_Suc)
      have "va = va + of_nat (Suc j)"
        by (rule phys_inj [OF as _ _ _ _ ph]) (use w' in \<open>unfold writable_def, blast+\<close>)
      then have "(of_nat (Suc j) :: u64) = 0" by (metis add_cancel_left_right)
      then have "unat (of_nat (Suc j) :: u64) = 0" by (simp only: unat_0)
      then show False using len that by (simp add: unat_of_nat del: of_nat_Suc)
    qed
    then have "m' (phys (mem s) pt va) = m1 (phys (mem s) pt va)"
      using c2 unfolding copied_def cong at [symmetric] by blast
    moreover have "m1 (phys (mem s) pt va) = c" using c1 spec [OF w, of 0] by (simp add: copied_def)
    ultimately show ?thesis using 0 by simp
  next
    case (Suc j)
    have "\<forall>i < length cs. writable (mem s) pt (va + of_nat (Suc i))" using w by (metis Suc_less_eq length_Cons)
    then show ?thesis using c2 Suc i len unfolding copied_def cong at [symmetric] by simp
  qed
  show ?thesis unfolding copied_def using a b by blast
qed

lemma mem_with_pipe: "(take_lock l (with_pipe pi q s))\<lparr>mem := m\<rparr> = take_lock l (with_pipe pi q (s\<lparr>mem := m\<rparr>))"
  by (simp add: with_pipe_def take_lock_def push_off_eq lock_defs)

lemma aspace_with_pipe:
  assumes "settled s" "aspace (take_lock (L_pipe pi) (with_pipe pi q s)) ps pt"
  shows "aspace s ps pt"
  by (rule aspace_frame [OF _ _ _ _ _ assms(2)])
    (use settled_cpu_ok [OF assms(1)] in \<open>auto simp: unheld_def take_lock_def push_off_eq lock_defs\<close>)

lemma with_pipe_aspace:
  assumes "aspace s ps pt"
  shows "aspace (take_lock (L_pipe pi) (with_pipe pi q s)) ps pt"
  by (rule aspace_frame [OF _ _ _ _ _ assms]) (auto simp: unheld_def cpu_ok_def take_lock_def push_off_eq lock_defs)

lemma copyout_byte:
  assumes "aspace s ps pt" "settled s"
  obtains m1 where
    "copyout pt va [c] (take_lock (L_pipe pi) (with_pipe pi q s)) =
       Ok (if writable (mem s) pt va then 0 else - 1) (take_lock (L_pipe pi) (with_pipe pi q (s\<lparr>mem := m1\<rparr>)))"
    "aspace (s\<lparr>mem := m1\<rparr>) ps pt" "\<And>vb. pt_lookup m1 2 pt vb = pt_lookup (mem s) 2 pt vb" "copied (mem s) m1 pt va [c]"
proof -
  obtain m' where m': "copyout pt va [c] (take_lock (L_pipe pi) (with_pipe pi q s)) =
       Ok (if writable (mem s) pt va then 0 else - 1) (take_lock (L_pipe pi) (with_pipe pi q (s\<lparr>mem := m'\<rparr>)))"
    "aspace (take_lock (L_pipe pi) (with_pipe pi q (s\<lparr>mem := m'\<rparr>))) ps pt"
    "\<forall>vb. pt_lookup m' 2 pt vb = pt_lookup (mem s) 2 pt vb" "copied (mem s) m' pt va [c]"
    using copyout_eq [OF with_pipe_aspace [OF assms(1), of pi q], of va "[c]"] by (auto simp: mem_with_pipe)
  have "aspace (s\<lparr>mem := m'\<rparr>) ps pt" by (rule aspace_with_pipe [OF _ m'(2)]) (use assms(2) in simp)
  then show ?thesis using that m'(1,3,4) by blast
qed

lemma piperead_copy_eq:
  assumes pt: "pt = p_pagetable (procs s pr)"
  shows "aspace s ps pt \<Longrightarrow> settled s \<Longrightarrow> pipe_ok q \<Longrightarrow>
    \<exists>k q' m'. k \<le> rest \<and> k \<le> length (pipe_items q) \<and> (\<forall>j < k. writable (mem s) pt (addr + of_nat (i + j)))
      \<and> pipe_ok q' \<and> pi_readopen q' = pi_readopen q \<and> pi_writeopen q' = pi_writeopen q
      \<and> (k = min rest (length (pipe_items q)) \<and> pipe_items q' = drop k (pipe_items q)
         \<or> k < min rest (length (pipe_items q)) \<and> \<not> writable (mem s) pt (addr + of_nat (i + k)) \<and> pipe_items q' = drop (Suc k) (pipe_items q))
      \<and> piperead_copy pi pr addr i rest (take_lock (L_pipe pi) (with_pipe pi q s)) =
          Ok (i + k) (take_lock (L_pipe pi) (with_pipe pi q' (s\<lparr>mem := m'\<rparr>)))
      \<and> aspace (s\<lparr>mem := m'\<rparr>) ps pt \<and> (\<forall>vb. pt_lookup m' 2 pt vb = pt_lookup (mem s) 2 pt vb)
      \<and> copied (mem s) m' pt (addr + of_nat i) (take k (pipe_items q))"
  using pt
proof (induction rest arbitrary: i q s)
  case 0
  show ?case by (rule exI [of _ 0], rule exI [of _ q], rule exI [of _ "mem s"]) (use 0 in \<open>simp add: copied_def\<close>)
next
  case (Suc rest)
  show ?case
  proof (cases "pipe_empty q")
    case True
    then have "pipe_items q = []" using pq.empty_iff [OF Suc.prems(3)] by simp
    with True Suc.prems show ?thesis
      by (intro exI [of _ 0] exI [of _ q] exI [of _ "mem s"]) (simp add: copied_def)
  next
    case False
    obtain c q1 where g: "pipe_get q = (c, q1)" by fastforce
    have q1: "pipe_ok q1" "pipe_items q = c # pipe_items q1" "pi_readopen q1 = pi_readopen q" "pi_writeopen q1 = pi_writeopen q"
      using pq.get_law [OF Suc.prems(3) False] g by (auto simp: pipe_get_def)
    obtain m1 where m1: "copyout pt (addr + of_nat i) [c] (take_lock (L_pipe pi) (with_pipe pi q1 s)) =
       Ok (if writable (mem s) pt (addr + of_nat i) then 0 else - 1) (take_lock (L_pipe pi) (with_pipe pi q1 (s\<lparr>mem := m1\<rparr>)))"
      "aspace (s\<lparr>mem := m1\<rparr>) ps pt" "\<And>vb. pt_lookup m1 2 pt vb = pt_lookup (mem s) 2 pt vb" "copied (mem s) m1 pt (addr + of_nat i) [c]"
      by (rule copyout_byte [OF Suc.prems(1,2), of "addr + of_nat i" c pi q1]) blast
    show ?thesis
    proof (cases "writable (mem s) pt (addr + of_nat i)")
      case True
      let ?s = "s\<lparr>mem := m1\<rparr>"
      have "settled ?s" "pt = p_pagetable (procs ?s pr)" using Suc.prems by simp_all
      from Suc.IH [OF m1(2) this(1) q1(1) this(2), of "Suc i"] obtain k q' m' where
        k: "k \<le> rest" "k \<le> length (pipe_items q1)" "\<forall>j < k. writable (mem s) pt (addr + of_nat (Suc i + j))"
          "pipe_ok q'" "pi_readopen q' = pi_readopen q1" "pi_writeopen q' = pi_writeopen q1"
          "k = min rest (length (pipe_items q1)) \<and> pipe_items q' = drop k (pipe_items q1)
            \<or> k < min rest (length (pipe_items q1)) \<and> \<not> writable (mem s) pt (addr + of_nat (Suc i + k)) \<and> pipe_items q' = drop (Suc k) (pipe_items q1)" and
        res: "piperead_copy pi pr addr (Suc i) rest (take_lock (L_pipe pi) (with_pipe pi q1 ?s)) =
            Ok (Suc i + k) (take_lock (L_pipe pi) (with_pipe pi q' (s\<lparr>mem := m'\<rparr>)))"
          "aspace (s\<lparr>mem := m'\<rparr>) ps pt" "\<forall>vb. pt_lookup m' 2 pt vb = pt_lookup (mem s) 2 pt vb"
          "copied m1 m' pt (addr + of_nat (Suc i)) (take k (pipe_items q1))"
        using lookup_cong [of m1 pt "mem s", OF m1(3)] m1(3) by auto
      have "copied (mem s) m' pt (addr + of_nat i) (take (Suc k) (pipe_items q))"
        using copied_Cons [OF Suc.prems(1) m1(3) m1(4)] res(4) q1(2) by (simp add: algebra_simps)
      moreover have "\<forall>j < Suc k. writable (mem s) pt (addr + of_nat (i + j))"
        using k(3) True by (auto simp: less_Suc_eq_0_disj algebra_simps)
      moreover have "piperead_copy pi pr addr i (Suc rest) (take_lock (L_pipe pi) (with_pipe pi q s)) =
            Ok (i + Suc k) (take_lock (L_pipe pi) (with_pipe pi q' (s\<lparr>mem := m'\<rparr>)))"
        using True m1(1) g \<open>\<not> pipe_empty q\<close> Suc.prems(4) res(1) by simp
      ultimately show ?thesis using k res(2,3) q1
        by (intro exI [of _ "Suc k"] exI [of _ q'] exI [of _ m']) (simp del: of_nat_Suc of_nat_add piperead_copy.simps)
    next
      case False
      then have "copied (mem s) m1 pt (addr + of_nat i) []" using m1(4) by (simp add: copied_def)
      then show ?thesis using False m1 g \<open>\<not> pipe_empty q\<close> q1 Suc.prems(4)
        by (intro exI [of _ 0] exI [of _ q1] exI [of _ m1]) simp
    qed
  qed
qed

end
