(* ===== verification/Uspace.thy ===== *)
theory Uspace
  imports Ucopy
begin

text \<open>
  Growing, shrinking and copying address spaces: \<open>uvmalloc\<close>, \<open>uvmdealloc\<close>, \<open>uvmunmap\<close> with freeing, and
  \<open>uvmcopy\<close>, as operations on the page map that keep \<open>aspace\<close> and lose no page.
\<close>

section \<open>One page in, one page out\<close>

lemma aspaceI:
  assumes "pt_inv s ps pt"
    "\<And>va w. va < MAXVA \<Longrightarrow> pt_lookup (mem s) 2 pt va = Some w \<Longrightarrow>
       PTE2PA w \<noteq> 0 \<and> PTE2PA w \<notin> pages (mem s) 2 pt \<and> PTE2PA w \<notin> set ps"
    "\<And>va w vb w'. va < MAXVA \<Longrightarrow> pt_lookup (mem s) 2 pt va = Some w \<Longrightarrow> vb < MAXVA \<Longrightarrow>
       pt_lookup (mem s) 2 pt vb = Some w' \<Longrightarrow> PTE2PA w = PTE2PA w' \<Longrightarrow> slot 12 va = slot 12 vb"
  shows "aspace s ps pt"
  unfolding aspace_def using assms by blast

lemma aspace_cong_lookup:
  assumes "aspace s ps pt" "pt_step 2 pt s ps s' ps'" "\<And>vb. vb < MAXVA \<Longrightarrow> pt_lookup (mem s') 2 pt vb = pt_lookup (mem s) 2 pt vb"
  shows "aspace s' ps' pt"
proof -
  obtain us where us: "ps = us @ ps'" "pages (mem s') 2 pt = pages (mem s) 2 pt \<union> set us"
    using assms(2) by (auto simp: pt_step_def)
  show ?thesis
  proof (rule aspaceI)
    show "pt_inv s' ps' pt" using pt_step_inv [OF aspaceD(1) [OF assms(1)] assms(2)] .
    fix va w assume w: "va < MAXVA" "pt_lookup (mem s') 2 pt va = Some w"
    then have w0: "pt_lookup (mem s) 2 pt va = Some w" using assms(3) by simp
    then show "PTE2PA w \<noteq> 0 \<and> PTE2PA w \<notin> pages (mem s') 2 pt \<and> PTE2PA w \<notin> set ps'"
      using aspaceD(2) [OF assms(1) w(1) w0] us by auto
    fix vb w' assume "vb < MAXVA" "pt_lookup (mem s') 2 pt vb = Some w'" "PTE2PA w = PTE2PA w'"
    then show "slot 12 va = slot 12 vb" using aspaceD(3) [OF assms(1) w(1) _ w0] assms(3) by metis
  qed
qed

definition fresh_page :: "'z kmem_scheme \<Rightarrow> u64 list \<Rightarrow> u64 \<Rightarrow> u64 \<Rightarrow> bool" where
  "fresh_page s ps pt p \<longleftrightarrow> is_page s p \<and> p \<notin> set ps \<and> p \<notin> pages (mem s) 2 pt
     \<and> (\<forall>vb w. vb < MAXVA \<longrightarrow> pt_lookup (mem s) 2 pt vb = Some w \<longrightarrow> PTE2PA w \<noteq> p)"

definition maps_page :: "memory \<Rightarrow> memory \<Rightarrow> u64 \<Rightarrow> u64 \<Rightarrow> u64 \<Rightarrow> bool" where
  "maps_page m m' pt va e \<longleftrightarrow> (\<forall>vb < MAXVA. pt_lookup m' 2 pt vb =
     (if slot 12 vb = slot 12 va then Some e else pt_lookup m 2 pt vb))"

lemma aspace_maps_page:
  assumes "aspace s ps pt" "pt_step 2 pt s ps s' ps'" "maps_page (mem s) (mem s') pt va e" "va < MAXVA"
    "fresh_page s ps pt (PTE2PA e)"
  shows "aspace s' ps' pt"
proof -
  let ?p = "PTE2PA e"
  obtain us where us: "ps = us @ ps'" "pages (mem s') 2 pt = pages (mem s) 2 pt \<union> set us"
    using assms(2) by (auto simp: pt_step_def)
  note inv = aspaceD(1) [OF assms(1)]
  have lk: "pt_lookup (mem s') 2 pt vb = (if slot 12 vb = slot 12 va then Some e else pt_lookup (mem s) 2 pt vb)"
    if "vb < MAXVA" for vb using assms(3) that by (simp add: maps_page_def)
  have f: "?p \<notin> set ps" "?p \<notin> pages (mem s) 2 pt" "?p \<noteq> 0"
    "\<And>vb w. vb < MAXVA \<Longrightarrow> pt_lookup (mem s) 2 pt vb = Some w \<Longrightarrow> PTE2PA w \<noteq> ?p"
    using assms(5) kmem_invD(6) [OF pt_invD(1) [OF inv]] unfolding fresh_page_def by blast+
  show ?thesis
  proof (rule aspaceI [OF pt_step_inv [OF inv assms(2)]])
    fix vb w assume w: "vb < MAXVA" "pt_lookup (mem s') 2 pt vb = Some w"
    show "PTE2PA w \<noteq> 0 \<and> PTE2PA w \<notin> pages (mem s') 2 pt \<and> PTE2PA w \<notin> set ps'"
      using w(2) f(1-3) aspaceD(2) [OF assms(1) w(1)] unfolding lk [OF w(1)] us
      by (auto split: if_splits)
    fix vc w' assume w': "vc < MAXVA" "pt_lookup (mem s') 2 pt vc = Some w'" and eq: "PTE2PA w = PTE2PA w'"
    show "slot 12 vb = slot 12 vc"
    proof (cases "slot 12 vb = slot 12 va"; cases "slot 12 vc = slot 12 va")
      assume "slot 12 vb = slot 12 va" "slot 12 vc = slot 12 va"
      then show ?thesis by simp
    next
      assume c: "slot 12 vb = slot 12 va" "slot 12 vc \<noteq> slot 12 va"
      have "PTE2PA w' \<noteq> ?p" using f(4) [OF w'(1)] w'(2) c(2) unfolding lk [OF w'(1)] by simp
      then show ?thesis using w(2) c(1) eq unfolding lk [OF w(1)] by simp
    next
      assume c: "slot 12 vb \<noteq> slot 12 va" "slot 12 vc = slot 12 va"
      have "PTE2PA w \<noteq> ?p" using f(4) [OF w(1)] w(2) c(1) unfolding lk [OF w(1)] by simp
      then show ?thesis using w'(2) c(2) eq unfolding lk [OF w'(1)] by simp
    next
      assume c: "slot 12 vb \<noteq> slot 12 va" "slot 12 vc \<noteq> slot 12 va"
      have "pt_lookup (mem s) 2 pt vb = Some w" "pt_lookup (mem s) 2 pt vc = Some w'"
        using w w' c lk by simp_all
      then show ?thesis using aspaceD(3) [OF assms(1) w(1) w'(1)] eq by blast
    qed
  qed
qed

lemma below_MAXVA:
  assumes "aligned 12 va" "va < MAXVA"
  shows "unat va + 4096 \<le> 2 ^ 38"
proof -
  obtain k where k: "unat va = 4096 * k" using assms(1) by (auto simp: aligned_dvd)
  have "unat va < 2 ^ 38" using assms(2) by (simp add: word_less_nat_alt MAXVA_def)
  then show ?thesis by (simp add: k)
qed

lemma mappages_page:
  assumes "aspace s ps pt" "aligned 12 va" "va < MAXVA" "pt_lookup (mem s) 2 pt va = None"
    "fresh_page s ps pt p" "drop_bit 10 perm = 0"
  shows "\<exists>r s' ps'. mappages pt va PGSIZE p perm s = Ok r s' \<and> pt_step 2 pt s ps s' ps' \<and> aspace s' ps' pt
    \<and> (r = 0 \<and> maps_page (mem s) (mem s') pt va (PA2PTE p OR perm OR PTE_V)
     \<or> r = - 1 \<and> ps' = [] \<and> length ps < 2 \<and> (\<forall>vb < MAXVA. pt_lookup (mem s') 2 pt vb = pt_lookup (mem s) 2 pt vb))
    \<and> length ps \<le> length ps' + 2"
proof -
  have va: "unat va + 4096 \<le> 2 ^ 38" by (rule below_MAXVA [OF assms(2,3)])
  have al: "aligned 12 PGSIZE" "(0 :: u64) < PGSIZE" "unat PGSIZE = 4096" by (simp_all add: aligned_def PGSIZE_def)
  have none: "pt_lookup (mem s) 2 pt vb = None" if "off_in va vb < unat PGSIZE" for vb
    using that assms(4) pt_lookup_slot [of vb va] off_in_aligned [OF assms(2), of vb] by (simp add: al)
  obtain k s' ps' where k: "mappages pt va PGSIZE p perm s = Ok (if 4096 * k = unat PGSIZE then 0 else - 1) s'"
      "4096 * k \<le> unat PGSIZE" "4096 * k < unat PGSIZE \<longrightarrow> ps' = [] \<and> 4096 * length ps < 2 * unat PGSIZE" "pt_step 2 pt s ps s' ps'"
      "maps_range (mem s) (mem s') pt va p perm k" "4096 * length ps \<le> 4096 * length ps' + 2 * unat PGSIZE"
    using mappages_Ok [OF aspaceD(1) [OF assms(1)] assms(2) al(1,2), of p perm] va none al(3) by auto
  have d: "drop_bit 10 (perm OR PTE_V) = 0" using assms(6) by (simp add: drop_bit_or PTE_V_def)
  have k01: "k = 0 \<or> k = 1" using k(2) al(3) by auto
  show ?thesis
  proof (cases "k = 0")
    case True
    then have "\<forall>vb < MAXVA. pt_lookup (mem s') 2 pt vb = pt_lookup (mem s) 2 pt vb"
      using k(5) by (simp add: maps_range_def)
    then show ?thesis using k True al(3) aspace_cong_lookup [OF assms(1) k(4)] by auto
  next
    case False
    then have "k = 1" using k01 by simp
    then have mp: "maps_page (mem s) (mem s') pt va (PA2PTE p OR perm OR PTE_V)"
      using k(5) off_in_aligned [OF assms(2)] range_pte_first [OF assms(2)]
      by (simp add: maps_page_def maps_range_def)
    have "PTE2PA (PA2PTE p OR perm OR PTE_V) = p"
      using assms(5) d by (simp add: fresh_page_def is_page_def)
    then have "aspace s' ps' pt" using aspace_maps_page [OF assms(1) k(4) mp assms(3)] assms(5) by simp
    then show ?thesis using k mp \<open>k = 1\<close> al(3) by auto
  qed
qed

text \<open>The pages behind a range of mapped virtual pages are distinct.\<close>

lemma range_addr:
  assumes "aligned 12 va" "unat va + 4096 * n \<le> 2 ^ 38" "i < n"
  shows "va + of_nat i * PGSIZE < MAXVA" "off_in va (va + of_nat i * PGSIZE) = 4096 * i"
    "aligned 12 (va + of_nat i * PGSIZE)"
proof -
  show "va + of_nat i * PGSIZE < MAXVA" using assms(2,3) by (rule page_addr_below)
  show "off_in va (va + of_nat i * PGSIZE) = 4096 * i" using assms(2,3) by (intro off_in_pages) simp
  have "unat (va + of_nat i * PGSIZE) = unat va + 4096 * i" using assms(2,3) by (intro unat_page_addr) simp
  then show "aligned 12 (va + of_nat i * PGSIZE)" using assms(1) by (simp add: aligned_dvd)
qed

lemma slot_range:
  assumes "aligned 12 va" "unat va + 4096 * n \<le> 2 ^ 38" "i < n" "j < n"
    "slot 12 (va + of_nat i * PGSIZE) = slot 12 (va + of_nat j * PGSIZE)"
  shows "i = j"
proof -
  note r = range_addr [OF assms(1,2)]
  have "va + of_nat i * PGSIZE = va + of_nat j * PGSIZE"
    using assms(5) aligned_slot_eq [OF r(3) r(3)] assms(3,4) by blast
  then have "off_in va (va + of_nat i * PGSIZE) = off_in va (va + of_nat j * PGSIZE)" by simp
  then show ?thesis using r(2) assms(3,4) by simp
qed

lemma range_pages_distinct:
  assumes "aspace s ps pt" "aligned 12 va" "unat va + 4096 * n \<le> 2 ^ 38"
    "\<And>i. i < n \<Longrightarrow> leaf s pt (va + of_nat i * PGSIZE)"
  shows "distinct (range_pages (mem s) pt va n)"
  unfolding range_pages_def distinct_map
proof (intro conjI inj_onI)
  fix i j assume ij: "i \<in> set [0..<n]" "j \<in> set [0..<n]"
    and eq: "page_at (mem s) pt (va + of_nat i * PGSIZE) = page_at (mem s) pt (va + of_nat j * PGSIZE)"
  obtain w w' where w: "pt_lookup (mem s) 2 pt (va + of_nat i * PGSIZE) = Some w"
      "pt_lookup (mem s) 2 pt (va + of_nat j * PGSIZE) = Some w'"
    using assms(4) [of i] assms(4) [of j] ij by (auto simp: leaf_def)
  have "PTE2PA w = PTE2PA w'" using eq w by (simp add: page_at_def)
  then have "slot 12 (va + of_nat i * PGSIZE) = slot 12 (va + of_nat j * PGSIZE)"
    using aspaceD(3) [OF assms(1) _ _ w] range_addr(1) [OF assms(2,3)] ij by simp
  then show "i = j" using ij slot_range [OF assms(2,3)] by auto
qed simp

lemma aspace_unmaps:
  assumes as: "aspace s ps pt" and va: "aligned 12 va" "unat va + 4096 * n \<le> 2 ^ 38"
    and inv: "pt_inv s' ps' pt" "set ps' = set ps \<union> set (range_pages (mem s) pt va n)"
    and un: "unmaps_range (mem s) (mem s') pt va n" "pages (mem s') 2 pt = pages (mem s) 2 pt"
    and lf: "\<And>i. i < n \<Longrightarrow> leaf s pt (va + of_nat i * PGSIZE)"
  shows "aspace s' ps' pt"
proof (rule aspaceI [OF inv(1)])
  fix vb w assume w: "vb < MAXVA" "pt_lookup (mem s') 2 pt vb = Some w"
  then have w0: "\<not> off_in va vb < 4096 * n" "pt_lookup (mem s) 2 pt vb = Some w"
    using un(1) by (auto simp: unmaps_range_def split: if_splits)
  have "PTE2PA w \<notin> set (range_pages (mem s) pt va n)"
  proof
    assume "PTE2PA w \<in> set (range_pages (mem s) pt va n)"
    then obtain i where i: "i < n" "PTE2PA w = page_at (mem s) pt (va + of_nat i * PGSIZE)"
      by (auto simp: range_pages_def)
    obtain wi where wi: "pt_lookup (mem s) 2 pt (va + of_nat i * PGSIZE) = Some wi" using lf [OF i(1)] by (auto simp: leaf_def)
    have eq: "PTE2PA w = PTE2PA wi" using i(2) wi by (simp add: page_at_def)
    note r = range_addr [OF va i(1)]
    have "slot 12 vb = slot 12 (va + of_nat i * PGSIZE)" by (rule aspaceD(3) [OF as w(1) r(1) w0(2) wi eq])
    then have "off_in (va + of_nat i * PGSIZE) vb < 4096" using off_in_aligned [OF r(3), of vb] by simp
    moreover have "off_in va vb = 4096 * i + off_in (va + of_nat i * PGSIZE) vb"
      using off_in_trans [of va "va + of_nat i * PGSIZE" vb] r(2) va(2) i(1) calculation by simp
    ultimately show False using w0(1) i(1) by simp
  qed
  then show "PTE2PA w \<noteq> 0 \<and> PTE2PA w \<notin> pages (mem s') 2 pt \<and> PTE2PA w \<notin> set ps'"
    using aspaceD(2) [OF as w(1) w0(2)] inv(2) un(2) by auto
  fix vc w' assume w': "vc < MAXVA" "pt_lookup (mem s') 2 pt vc = Some w'" "PTE2PA w = PTE2PA w'"
  then have "pt_lookup (mem s) 2 pt vc = Some w'" using un(1) by (auto simp: unmaps_range_def split: if_splits)
  then show "slot 12 vb = slot 12 vc" using aspaceD(3) [OF as w(1) w'(1) w0(2)] w'(3) by blast
qed

lemma uvmunmap_free:
  assumes as: "aspace s ps pt" and va: "aligned 12 va" "unat va + 4096 * n \<le> 2 ^ 38"
    and lf: "\<And>i. i < n \<Longrightarrow> leaf s pt (va + of_nat i * PGSIZE) \<and> is_page s (page_at (mem s) pt (va + of_nat i * PGSIZE))"
  shows "\<exists>s'. uvmunmap pt va (of_nat n) True s = Ok () s'
    \<and> aspace s' (rev (range_pages (mem s) pt va n) @ ps) pt \<and> kstep s s'
    \<and> unmaps_range (mem s) (mem s') pt va n \<and> pages (mem s') 2 pt = pages (mem s) 2 pt
    \<and> same_outside (pages (mem s) 2 pt \<union> set (range_pages (mem s) pt va n)) (mem s) (mem s')"
proof -
  let ?R = "range_pages (mem s) pt va n"
  have "is_page s p \<and> p \<notin> set ps \<and> p \<notin> pages (mem s) 2 pt" if p: "p \<in> set ?R" for p
  proof -
    obtain i where i: "i < n" "p = page_at (mem s) pt (va + of_nat i * PGSIZE)"
      using p by (auto simp: range_pages_def)
    then show ?thesis using lf [OF i(1)] aspaceD(2) [OF as range_addr(1) [OF va i(1)]]
      by (auto simp: leaf_def page_at_def)
  qed
  moreover have "distinct ?R" using lf by (intro range_pages_distinct [OF as va]) blast
  ultimately obtain s' where s': "uvmunmap_loop pt va (va + of_nat n * PGSIZE) True s = Ok () s'"
    "pt_inv s' (rev ?R @ ps) pt" "kstep s s'" "unmaps_range (mem s) (mem s') pt va n"
    "pages (mem s') 2 pt = pages (mem s) 2 pt" "same_outside (pages (mem s) 2 pt \<union> set ?R) (mem s) (mem s')"
    using uvmunmap_loop_Ok [OF aspaceD(1) [OF as] va, of True] lf by auto
  moreover have "aspace s' (rev ?R @ ps) pt"
    using lf by (intro aspace_unmaps [OF as va s'(2) _ s'(4,5)]) auto
  ultimately show ?thesis using va(1) by (auto simp: uvmunmap_def aligned_iff_mod)
qed

end
