(* ===== verification/Ugrow.thy ===== *)
theory Ugrow
  imports Uspace
begin

text \<open>
  The loops of \<open>uvmalloc\<close> and \<open>uvmcopy\<close> share an invariant: a growing prefix of a range of virtual
  pages is backed by fresh pages with given flags and contents, and on failure the prefix is taken
  down again.
\<close>

section \<open>Growing an address space\<close>

lemma zero_page_outside: "same_outside P m m' \<Longrightarrow> p \<notin> P \<Longrightarrow> zero_page m p \<Longrightarrow> zero_page m' p"
  by (auto simp: same_outside_def zero_page_def)

text \<open>A page leaves the free list.\<close>

lemma aspace_take:
  assumes "aspace s (p # ps) pt" "kstep s s1" "kmem_inv s1 ps" "same_outside {p} (mem s) (mem s1)"
  shows "aspace s1 ps pt" "pages (mem s1) 2 pt = pages (mem s) 2 pt"
    "pt_lookup (mem s1) 2 pt va = pt_lookup (mem s) 2 pt va" "fresh_page s1 ps pt p"
proof -
  note inv = aspaceD(1) [OF assms(1)]
  note d = pt_invD [OF inv]
  have dis: "pages (mem s) 2 pt \<inter> {p} = {}" using d(3) by auto
  note o = pt_outside [OF assms(4) d(2) dis] and ol = pt_lookup_outside [OF assms(4) d(2) dis]
  show "pages (mem s1) 2 pt = pages (mem s) 2 pt" "pt_lookup (mem s1) 2 pt va = pt_lookup (mem s) 2 pt va"
    by (rule o(1), rule ol)
  have inv1: "pt_inv s1 ps pt"
    unfolding pt_inv_def using assms(3) o(1,2) d(3,4) kstepD(9) [OF assms(2)] by auto
  show "aspace s1 ps pt"
  proof (rule aspaceI [OF inv1])
    fix va w assume w: "va < MAXVA" "pt_lookup (mem s1) 2 pt va = Some w"
    then show "PTE2PA w \<noteq> 0 \<and> PTE2PA w \<notin> pages (mem s1) 2 pt \<and> PTE2PA w \<notin> set ps"
      using aspaceD(2) [OF assms(1)] unfolding ol o(1) by auto
    fix vb w' assume "vb < MAXVA" "pt_lookup (mem s1) 2 pt vb = Some w'" "PTE2PA w = PTE2PA w'"
    then show "slot 12 va = slot 12 vb" using aspaceD(3) [OF assms(1)] w unfolding ol by blast
  qed
  have "distinct (p # ps)" "is_page s p" using kmem_invD(3,4) [OF d(1)] by auto
  then show "fresh_page s1 ps pt p"
    unfolding fresh_page_def ol o(1) using aspaceD(2) [OF assms(1)] dis kstepD(9) [OF assms(2)] by auto
qed

text \<open>The state of the loops of \<open>uvmalloc\<close> and \<open>uvmcopy\<close> after \<open>k\<close> pages: from the tables and free
  pages \<open>A\<close> of the start, \<open>k\<close> pages have been mapped at \<open>a\<^sub>0\<close>, the one at \<open>vb\<close> with flags \<open>F vb\<close> and
  contents \<open>C vb\<close>; nothing outside \<open>A\<close> has changed.\<close>

definition filled :: "u64 set \<Rightarrow> 'z kmem_scheme \<Rightarrow> u64 \<Rightarrow> u64 \<Rightarrow> u64 \<Rightarrow> u8 list \<Rightarrow> bool" where
  "filled A s pt vb f c \<longleftrightarrow> (\<exists>p \<in> A. pt_lookup (mem s) 2 pt vb = Some (PA2PTE p OR f OR PTE_V) \<and> is_page s p \<and> rd (mem s) p 4096 = c)"

definition grown :: "u64 set \<Rightarrow> memory \<Rightarrow> u64 \<Rightarrow> u64 \<Rightarrow> (u64 \<Rightarrow> u64) \<Rightarrow> (u64 \<Rightarrow> u8 list) \<Rightarrow> 'z kmem_scheme \<Rightarrow> u64 list \<Rightarrow> nat \<Rightarrow> bool" where
  "grown A m\<^sub>0 pt a\<^sub>0 F C s ps k \<longleftrightarrow> aspace s ps pt \<and> pages (mem s) 2 pt \<union> set ps \<subseteq> A \<and> same_outside A m\<^sub>0 (mem s)
     \<and> (\<forall>vb < MAXVA. if off_in a\<^sub>0 vb < 4096 * k then filled A s pt vb (F vb) (C vb)
          else pt_lookup (mem s) 2 pt vb = pt_lookup m\<^sub>0 2 pt vb)"

lemma grown_0:
  "aspace s ps pt \<Longrightarrow> grown (pages (mem s) 2 pt \<union> set ps) (mem s) pt a\<^sub>0 F C s ps 0"
  by (simp add: grown_def)

lemma grownD:
  assumes "grown A m\<^sub>0 pt a\<^sub>0 F C s ps k"
  shows "aspace s ps pt" "pages (mem s) 2 pt \<union> set ps \<subseteq> A" "same_outside A m\<^sub>0 (mem s)"
    "vb < MAXVA \<Longrightarrow> off_in a\<^sub>0 vb < 4096 * k \<Longrightarrow> filled A s pt vb (F vb) (C vb)"
    "vb < MAXVA \<Longrightarrow> \<not> off_in a\<^sub>0 vb < 4096 * k \<Longrightarrow> pt_lookup (mem s) 2 pt vb = pt_lookup m\<^sub>0 2 pt vb"
  using assms unfolding grown_def by metis+

text \<open>Flags that make a leaf entry.\<close>

definition leaf_flags :: "u64 \<Rightarrow> bool" where
  "leaf_flags f \<longleftrightarrow> drop_bit 10 f = 0 \<and> f OR PTE_V \<noteq> PTE_V"

lemma filled_leaf:
  assumes "filled A s pt vb f c" "leaf_flags f"
  shows "leaf s pt vb \<and> is_page s (page_at (mem s) pt vb) \<and> page_at (mem s) pt vb \<in> A \<and> rd (mem s) (page_at (mem s) pt vb) 4096 = c"
proof -
  obtain p where p: "p \<in> A" "pt_lookup (mem s) 2 pt vb = Some (PA2PTE p OR f OR PTE_V)" "is_page s p" "rd (mem s) p 4096 = c"
    using assms(1) by (auto simp: filled_def)
  have d: "drop_bit 10 (f OR PTE_V) = 0" using assms(2) by (simp add: leaf_flags_def drop_bit_or PTE_V_def)
  then show ?thesis using p assms(2) by (simp add: leaf_def page_at_def is_page_def leaf_flags_def)
qed

lemma page_index:
  assumes "k < 2 ^ 31"
  shows "(of_nat k * PGSIZE :: u64) div PGSIZE = of_nat k" "unat (of_nat k :: u64) = k"
proof -
  show k: "unat (of_nat k :: u64) = k" using assms by (simp only: unat_of_nat) simp
  have "unat (of_nat k * PGSIZE :: u64) = unat (of_nat (k * 4096) :: u64)" by (simp add: PGSIZE_def)
  also have "\<dots> = k * 4096" using assms by (simp only: unat_of_nat) simp
  finally have "unat (of_nat k * PGSIZE div PGSIZE :: u64) = unat (of_nat k :: u64)" by (simp add: unat_div PGSIZE_def k)
  then show "(of_nat k * PGSIZE :: u64) div PGSIZE = of_nat k" by (simp only: word_unat_eq_iff)
qed

lemma npages_int:
  assumes "k < 2 ^ 31"
  shows "(scast (ucast (of_nat k * PGSIZE div PGSIZE :: u64) :: u32) :: u64) = of_nat k"
proof -
  have u: "unat (ucast (of_nat k :: u64) :: u32) = k"
    using assms by (simp only: unsigned_ucast_eq page_index(2)) (simp add: take_bit_nat_eq_self)
  then show ?thesis using scast_small [of "ucast (of_nat k :: u64) :: u32"] assms by (simp only: page_index(1) u)
qed

lemma uvmunmap_grown:
  assumes g: "grown A m\<^sub>0 pt a\<^sub>0 F C s ps k" and perm: "\<And>vb. off_in a\<^sub>0 vb < 4096 * k \<Longrightarrow> leaf_flags (F vb)"
    and a0: "aligned 12 a\<^sub>0" "unat a\<^sub>0 + 4096 * k \<le> 2 ^ 38"
    and none: "\<And>vb. vb < MAXVA \<Longrightarrow> off_in a\<^sub>0 vb < 4096 * k \<Longrightarrow> pt_lookup m\<^sub>0 2 pt vb = None"
  shows "\<exists>s' ps'. uvmunmap pt a\<^sub>0 (of_nat k) True s = Ok () s' \<and> kstep s s' \<and> grown A m\<^sub>0 pt a\<^sub>0 F C s' ps' 0"
proof -
  have lf: "leaf s pt (a\<^sub>0 + of_nat i * PGSIZE) \<and> is_page s (page_at (mem s) pt (a\<^sub>0 + of_nat i * PGSIZE))
      \<and> page_at (mem s) pt (a\<^sub>0 + of_nat i * PGSIZE) \<in> A" if "i < k" for i
    using filled_leaf [OF grownD(4) [OF g range_addr(1) [OF a0 that]]] perm range_addr(2) [OF a0 that] that by simp
  let ?R = "range_pages (mem s) pt a\<^sub>0 k"
  obtain s' where s': "uvmunmap pt a\<^sub>0 (of_nat k) True s = Ok () s'" "aspace s' (rev ?R @ ps) pt" "kstep s s'"
      "unmaps_range (mem s) (mem s') pt a\<^sub>0 k" "pages (mem s') 2 pt = pages (mem s) 2 pt"
      "same_outside (pages (mem s) 2 pt \<union> set ?R) (mem s) (mem s')"
    using uvmunmap_free [OF grownD(1) [OF g] a0] lf by blast
  have R: "set ?R \<subseteq> A" using lf by (auto simp: range_pages_def)
  have "same_outside (A \<union> (pages (mem s) 2 pt \<union> set ?R)) m\<^sub>0 (mem s')"
    by (rule same_outside_trans [OF grownD(3) [OF g] s'(6)])
  then have "same_outside A m\<^sub>0 (mem s')" by (rule same_outside_mono) (use R grownD(2) [OF g] in auto)
  moreover have "pt_lookup (mem s') 2 pt vb = pt_lookup m\<^sub>0 2 pt vb" if "vb < MAXVA" for vb
    using s'(4) that none grownD(5) [OF g that] by (auto simp: unmaps_range_def)
  ultimately show ?thesis
    using s'(1,2,3,5) grownD(2) [OF g] R
    by (intro exI [of _ s'] exI [of _ "rev ?R @ ps"]) (auto simp: grown_def)
qed

lemma uvmdealloc_grown:
  assumes g: "grown A m\<^sub>0 pt a\<^sub>0 F C s ps k" and perm: "\<And>vb. off_in a\<^sub>0 vb < 4096 * k \<Longrightarrow> leaf_flags (F vb)"
    and a0: "aligned 12 a\<^sub>0" "unat a\<^sub>0 + 4096 * k \<le> 2 ^ 38"
    and none: "\<And>vb. vb < MAXVA \<Longrightarrow> off_in a\<^sub>0 vb < 4096 * k \<Longrightarrow> pt_lookup m\<^sub>0 2 pt vb = None"
  shows "\<exists>r s' ps'. uvmdealloc pt (a\<^sub>0 + of_nat k * PGSIZE) a\<^sub>0 s = Ok r s' \<and> kstep s s' \<and> grown A m\<^sub>0 pt a\<^sub>0 F C s' ps' 0"
proof (cases "k = 0")
  case True
  then show ?thesis using g by (intro exI [of _ a\<^sub>0] exI [of _ s] exI [of _ ps]) (simp add: uvmdealloc_def)
next
  case False
  let ?a = "a\<^sub>0 + of_nat k * PGSIZE"
  have ua: "unat ?a = unat a\<^sub>0 + 4096 * k" by (rule unat_page_addr [OF a0(2)])
  have lt: "a\<^sub>0 < ?a" using False by (simp only: word_less_nat_alt ua)
  have al: "aligned 12 ?a" using a0(1) ua by (simp add: aligned_dvd)
  obtain s' ps' where s': "uvmunmap pt a\<^sub>0 (of_nat k) True s = Ok () s'" "kstep s s'" "grown A m\<^sub>0 pt a\<^sub>0 F C s' ps' 0"
    using uvmunmap_grown [OF g perm a0 none] by blast
  have "k < 2 ^ 31" using a0(2) by simp
  then have "uvmdealloc pt ?a a\<^sub>0 s = Ok a\<^sub>0 s'"
    using lt iffD2 [OF not_le lt] s'(1) by (simp add: uvmdealloc_def PGROUNDUP_aligned al a0(1) Let_def npages_int)
  then show ?thesis using s'(2,3) by blast
qed

text \<open>A page is taken from the free list and filled.\<close>

lemma kalloc_fill:
  assumes "aspace s (p # ps) pt"
  shows "\<exists>s1. kalloc s = Ok p s1 \<and> same_outside {p} (mem s) (mem s1) \<and> p \<noteq> 0 \<and> is_page s p
    \<and> (\<forall>M. same_outside {p} (mem s) M \<longrightarrow> aspace (s1\<lparr>mem := M\<rparr>) ps pt \<and> kstep s (s1\<lparr>mem := M\<rparr>)
        \<and> pages M 2 pt = pages (mem s) 2 pt \<and> fresh_page (s1\<lparr>mem := M\<rparr>) ps pt p
        \<and> (\<forall>va. pt_lookup M 2 pt va = pt_lookup (mem s) 2 pt va))"
proof -
  note kinv = pt_invD(1) [OF aspaceD(1) [OF assms]]
  note k = kalloc_Cons [OF kinv]
  let ?s1 = "(touch s)\<lparr>mem := wr (mem s) p (replicate 4096 5), freelist := load64 (mem s) p\<rparr>"
  have p: "is_page s p" "p \<noteq> 0" "aligned 12 p" "p \<notin> set ps"
    using kmem_invD(3,4,6) [OF kinv] by (auto simp: is_page_def)
  have o1: "same_outside {p} (mem s) (mem ?s1)" using p(3) by (simp add: same_outside_wr)
  have "aspace (?s1\<lparr>mem := M\<rparr>) ps pt \<and> kstep s (?s1\<lparr>mem := M\<rparr>)
      \<and> pages M 2 pt = pages (mem s) 2 pt \<and> fresh_page (?s1\<lparr>mem := M\<rparr>) ps pt p
      \<and> (\<forall>va. pt_lookup M 2 pt va = pt_lookup (mem s) 2 pt va)" if M: "same_outside {p} (mem s) M" for M
  proof -
    have M1: "same_outside {p} (mem ?s1) M" using M o1 by (auto simp: same_outside_def)
    have "free_chain M r ps = free_chain (mem ?s1) r ps" for r
      using p(4) kmem_invD(4) [OF kinv] by (intro free_chain_same_outside [OF M1]) (auto simp: is_page_def)
    then have i: "kmem_inv (?s1\<lparr>mem := M\<rparr>) ps" using k(2) by (simp add: kmem_inv_def)
    have st: "kstep s (?s1\<lparr>mem := M\<rparr>)" by (simp add: kstep_mem)
    have m: "same_outside {p} (mem s) (mem (?s1\<lparr>mem := M\<rparr>))" using M by simp
    show ?thesis using aspace_take [OF assms st i m] st by simp
  qed
  then show ?thesis using k(1) o1 p(1,2) by blast
qed

text \<open>Steps that keep the mappings the loop has made, and may add one.\<close>

lemma rd_outside:
  assumes "same_outside P m m'" "aligned 12 p" "p \<notin> P"
  shows "rd m' p 4096 = rd m p 4096"
proof (rule rd_cong)
  fix i :: nat assume "i < 4096"
  then have "PGROUNDDOWN (p + of_nat i) = p" using in_page [OF assms(2), of "p + of_nat i"] by simp
  then show "m' (p + of_nat i) = m (p + of_nat i)" using assms(1,3) by (simp add: same_outside_def)
qed

lemma filled_mono:
  assumes "filled A s pt vb f c" "drop_bit 10 f = 0" "vb < MAXVA" "kstep s s'"
    and out: "same_outside Q (mem s) (mem s')" "\<And>w. pt_lookup (mem s) 2 pt vb = Some w \<Longrightarrow> PTE2PA w \<notin> Q"
    and lk: "pt_lookup (mem s') 2 pt vb = pt_lookup (mem s) 2 pt vb"
  shows "filled A s' pt vb f c"
proof -
  obtain p where p: "p \<in> A" "pt_lookup (mem s) 2 pt vb = Some (PA2PTE p OR f OR PTE_V)" "is_page s p" "rd (mem s) p 4096 = c"
    using assms(1) by (auto simp: filled_def)
  have d: "drop_bit 10 (f OR PTE_V) = 0" using assms(2) by (simp add: drop_bit_or PTE_V_def)
  have "PTE2PA (PA2PTE p OR f OR PTE_V) = p" using p(3) d by (simp add: is_page_def)
  then have "p \<notin> Q" using out(2) [OF p(2)] by simp
  then have "rd (mem s') p 4096 = c" using rd_outside [OF out(1)] p(3,4) by (simp add: is_page_def)
  then show ?thesis using p lk kstepD(9) [OF assms(4)] by (auto simp: filled_def)
qed

lemma grown_mono:
  assumes g: "grown A m\<^sub>0 pt a\<^sub>0 F C s ps k" and F: "\<And>vb. off_in a\<^sub>0 vb < 4096 * k \<Longrightarrow> drop_bit 10 (F vb) = 0"
    and s': "aspace s' ps' pt" "kstep s s'" "pages (mem s') 2 pt \<union> set ps' \<subseteq> A"
    and out: "same_outside Q (mem s) (mem s')" "Q \<subseteq> A"
      "\<And>vb w. vb < MAXVA \<Longrightarrow> pt_lookup (mem s) 2 pt vb = Some w \<Longrightarrow> PTE2PA w \<notin> Q"
    and new: "\<And>vb. vb < MAXVA \<Longrightarrow> off_in a\<^sub>0 vb < 4096 * k' \<Longrightarrow>
        off_in a\<^sub>0 vb < 4096 * k \<and> pt_lookup (mem s') 2 pt vb = pt_lookup (mem s) 2 pt vb
        \<or> filled A s' pt vb (F vb) (C vb)"
    and old: "\<And>vb. vb < MAXVA \<Longrightarrow> \<not> off_in a\<^sub>0 vb < 4096 * k' \<Longrightarrow>
        \<not> off_in a\<^sub>0 vb < 4096 * k \<and> pt_lookup (mem s') 2 pt vb = pt_lookup (mem s) 2 pt vb"
  shows "grown A m\<^sub>0 pt a\<^sub>0 F C s' ps' k'"
proof -
  have in_range: "filled A s' pt vb (F vb) (C vb)" if vb: "vb < MAXVA" "off_in a\<^sub>0 vb < 4096 * k'" for vb
    using new [OF vb] filled_mono [OF grownD(4) [OF g vb(1)] F vb(1) s'(2) out(1)] out(3) [OF vb(1)] by blast
  have "same_outside (A \<union> Q) m\<^sub>0 (mem s')" by (rule same_outside_trans [OF grownD(3) [OF g] out(1)])
  then have "same_outside A m\<^sub>0 (mem s')" using out(2) by (simp add: Un_absorb2)
  then show ?thesis
    using s'(1,3) in_range old grownD(5) [OF g] by (auto simp: grown_def)
qed

lemma off_in_last_page:
  assumes "aligned 12 a\<^sub>0" "unat a\<^sub>0 + 4096 * Suc k \<le> 2 ^ 38"
  shows "off_in a\<^sub>0 vb < 4096 * Suc k \<longleftrightarrow> off_in a\<^sub>0 vb < 4096 * k \<or> slot 12 vb = slot 12 (a\<^sub>0 + of_nat k * PGSIZE)"
    "\<not> (off_in a\<^sub>0 vb < 4096 * k \<and> slot 12 vb = slot 12 (a\<^sub>0 + of_nat k * PGSIZE))"
proof -
  let ?a = "a\<^sub>0 + of_nat k * PGSIZE"
  note ra = range_addr [OF assms lessI]
  have sl: "slot 12 vb = slot 12 ?a \<longleftrightarrow> off_in ?a vb < 4096" using off_in_aligned [OF ra(3), of vb] by simp
  have up: "off_in a\<^sub>0 vb = 4096 * k + off_in ?a vb" if "off_in ?a vb < 4096"
    using off_in_trans [of a\<^sub>0 ?a vb] ra(2) that assms(2) by simp
  have down: "off_in ?a vb = off_in a\<^sub>0 vb - 4096 * k" if "4096 * k \<le> off_in a\<^sub>0 vb"
  proof -
    have "vb - ?a = (vb - a\<^sub>0) - (?a - a\<^sub>0)" by simp
    then have "off_in ?a vb = unat ((vb - a\<^sub>0) - (?a - a\<^sub>0))" by (simp only: off_in_def)
    also have "\<dots> = off_in a\<^sub>0 vb - off_in a\<^sub>0 ?a"
      using that ra(2) unfolding off_in_def by (intro unat_sub_le) (simp only: word_le_nat_alt)
    finally show ?thesis by (simp only: ra(2))
  qed
  show "off_in a\<^sub>0 vb < 4096 * Suc k \<longleftrightarrow> off_in a\<^sub>0 vb < 4096 * k \<or> slot 12 vb = slot 12 ?a"
    unfolding sl using up down by (cases "off_in a\<^sub>0 vb < 4096 * k") auto
  show "\<not> (off_in a\<^sub>0 vb < 4096 * k \<and> slot 12 vb = slot 12 ?a)" unfolding sl using up by auto
qed

text \<open>One round of the loops: a fresh, filled page \<open>p\<close> is mapped, or \<open>mappages\<close> runs out of memory.\<close>

lemma grown_step:
  assumes g: "grown A m\<^sub>0 pt a\<^sub>0 F C s (p # ps) k"
    and F: "\<And>vb. off_in a\<^sub>0 vb < 4096 * Suc k \<Longrightarrow> drop_bit 10 (F vb) = 0"
    and FC: "\<And>va vb. slot 12 va = slot 12 vb \<Longrightarrow> F va = F vb \<and> C va = C vb"
    and a0: "aligned 12 a\<^sub>0" "unat a\<^sub>0 + 4096 * Suc k \<le> 2 ^ 38"
    and none: "\<And>vb. vb < MAXVA \<Longrightarrow> off_in a\<^sub>0 vb < 4096 * Suc k \<Longrightarrow> pt_lookup m\<^sub>0 2 pt vb = None"
    and k: "kalloc s = Ok p s1" and M: "same_outside {p} (mem s) M" "rd M p 4096 = C (a\<^sub>0 + of_nat k * PGSIZE)"
  shows "\<exists>r s' ps'. mappages pt (a\<^sub>0 + of_nat k * PGSIZE) PGSIZE p (F (a\<^sub>0 + of_nat k * PGSIZE)) (s1\<lparr>mem := M\<rparr>) = Ok r s'
    \<and> kstep s s' \<and> (r = 0 \<and> grown A m\<^sub>0 pt a\<^sub>0 F C s' ps' (Suc k)
     \<or> r = - 1 \<and> length ps < 2 \<and> grown A m\<^sub>0 pt a\<^sub>0 F C s' ps' k \<and> fresh_page s' ps' pt p \<and> p \<in> A)
    \<and> length ps \<le> length ps' + 2"
proof -
  let ?a = "a\<^sub>0 + of_nat k * PGSIZE" and ?s2 = "s1\<lparr>mem := M\<rparr>"
  note gd = grownD [OF g] and ra = range_addr [OF a0 lessI]
  have s2: "aspace ?s2 ps pt" "kstep s ?s2" "pages M 2 pt = pages (mem s) 2 pt" "fresh_page ?s2 ps pt p"
      "pt_lookup M 2 pt va = pt_lookup (mem s) 2 pt va" for va
  proof -
    have "\<forall>M. same_outside {p} (mem s) M \<longrightarrow> aspace (s1\<lparr>mem := M\<rparr>) ps pt \<and> kstep s (s1\<lparr>mem := M\<rparr>)
        \<and> pages M 2 pt = pages (mem s) 2 pt \<and> fresh_page (s1\<lparr>mem := M\<rparr>) ps pt p
        \<and> (\<forall>va. pt_lookup M 2 pt va = pt_lookup (mem s) 2 pt va)"
      using kalloc_fill [OF gd(1)] unfolding k by (elim exE conjE) (simp only: res.inject)
    then show "aspace ?s2 ps pt" "kstep s ?s2" "pages M 2 pt = pages (mem s) 2 pt" "fresh_page ?s2 ps pt p"
      "pt_lookup M 2 pt va = pt_lookup (mem s) 2 pt va" using M(1) by blast+
  qed
  have Fa: "drop_bit 10 (F ?a) = 0" using F [of ?a] ra(2) by simp
  have pA: "p \<in> A" using gd(2) by auto
  have g2: "grown A m\<^sub>0 pt a\<^sub>0 F C ?s2 ps k"
    using gd(2) s2(3,5) pA aspaceD(2) [OF gd(1)] M(1) F
    by (intro grown_mono [OF g _ s2(1,2), of "{p}"]) auto
  have an: "pt_lookup (mem ?s2) 2 pt ?a = None"
    using none [OF ra(1)] ra(2) grownD(5) [OF g2 ra(1)] by simp
  obtain r s' ps' where m: "mappages pt ?a PGSIZE p (F ?a) ?s2 = Ok r s'" "pt_step 2 pt ?s2 ps s' ps'" "aspace s' ps' pt"
      "r = 0 \<and> maps_page (mem ?s2) (mem s') pt ?a (PA2PTE p OR F ?a OR PTE_V)
       \<or> r = - 1 \<and> ps' = [] \<and> length ps < 2 \<and> (\<forall>vb < MAXVA. pt_lookup (mem s') 2 pt vb = pt_lookup (mem ?s2) 2 pt vb)"
      "length ps \<le> length ps' + 2"
    using mappages_page [OF s2(1) ra(3,1) an s2(4) Fa] by blast
  obtain us where us: "ps = us @ ps'" "pages (mem s') 2 pt = pages (mem ?s2) 2 pt \<union> set us"
      and k': "kstep ?s2 s'" "same_outside (pages (mem s') 2 pt) (mem ?s2) (mem s')"
    using m(2) by (auto simp: pt_step_def)
  have inA: "pages (mem s') 2 pt \<union> set ps' \<subseteq> A" using grownD(2) [OF g2] us by auto
  have lq: "PTE2PA w \<notin> pages (mem s') 2 pt" if "vb < MAXVA" "pt_lookup (mem ?s2) 2 pt vb = Some w" for vb w
    using aspaceD(2) [OF s2(1) that] us by auto
  have p': "is_page s' p" "p \<notin> pages (mem s') 2 pt" "p \<notin> set ps'" "aligned 12 p"
    using s2(4) us kstepD(9) [OF k'(1)] by (auto simp: fresh_page_def is_page_def)
  have rp: "rd (mem s') p 4096 = C ?a" using rd_outside [OF k'(2) p'(4,2)] M(2) by simp
  show ?thesis
  proof (cases "r = 0")
    case True
    then have mp: "pt_lookup (mem s') 2 pt vb = (if slot 12 vb = slot 12 ?a then Some (PA2PTE p OR F ?a OR PTE_V)
        else pt_lookup (mem ?s2) 2 pt vb)" if "vb < MAXVA" for vb using m(4) that by (simp add: maps_page_def)
    note split = off_in_last_page [OF a0]
    have fil: "filled A s' pt vb (F vb) (C vb)" if "vb < MAXVA" "slot 12 vb = slot 12 ?a" for vb
      using mp [OF that(1)] FC [OF that(2)] that(2) pA p'(1) rp by (auto simp: filled_def)
    have "grown A m\<^sub>0 pt a\<^sub>0 F C s' ps' (Suc k)"
    proof (rule grown_mono [OF g2 _ m(3) k'(1) inA k'(2) _ lq])
      fix vb assume "vb < MAXVA" "off_in a\<^sub>0 vb < 4096 * Suc k"
      then show "off_in a\<^sub>0 vb < 4096 * k \<and> pt_lookup (mem s') 2 pt vb = pt_lookup (mem ?s2) 2 pt vb
        \<or> filled A s' pt vb (F vb) (C vb)"
        using mp split fil by auto
    next
      fix vb assume "vb < MAXVA" "\<not> off_in a\<^sub>0 vb < 4096 * Suc k"
      then show "\<not> off_in a\<^sub>0 vb < 4096 * k \<and> pt_lookup (mem s') 2 pt vb = pt_lookup (mem ?s2) 2 pt vb"
        using mp split by simp
    qed (use inA F in auto)
    then show ?thesis using m(1,5) True kstep_trans [OF s2(2) k'(1)] by blast
  next
    case False
    then have r: "r = - 1" "\<forall>vb < MAXVA. pt_lookup (mem s') 2 pt vb = pt_lookup (mem ?s2) 2 pt vb" "length ps < 2" using m(4) by auto
    have "grown A m\<^sub>0 pt a\<^sub>0 F C s' ps' k"
      by (rule grown_mono [OF g2 _ m(3) k'(1) inA k'(2) _ lq]) (use r(2) inA F in auto)
    moreover have "fresh_page s' ps' pt p"
      using s2(4) p' r(2) by (auto simp: fresh_page_def)
    ultimately show ?thesis using m(1,5) r(1,3) pA kstep_trans [OF s2(2) k'(1)] by blast
  qed
qed

lemma fresh_page_free:
  assumes "aspace s ps pt" "fresh_page s ps pt p"
  shows "\<exists>s'. kfree p s = Ok () s' \<and> kstep s s' \<and> aspace s' (p # ps) pt \<and> same_outside {p} (mem s) (mem s')
    \<and> pages (mem s') 2 pt = pages (mem s) 2 pt \<and> (\<forall>va. pt_lookup (mem s') 2 pt va = pt_lookup (mem s) 2 pt va)"
proof -
  note inv = aspaceD(1) [OF assms(1)]
  note d = pt_invD [OF inv]
  have p: "is_page s p" "p \<notin> set ps" "p \<notin> pages (mem s) 2 pt"
    "\<And>vb w. vb < MAXVA \<Longrightarrow> pt_lookup (mem s) 2 pt vb = Some w \<Longrightarrow> PTE2PA w \<noteq> p"
    using assms(2) unfolding fresh_page_def by blast+
  note k = kfree_Ok [OF d(1) p(1,2)]
  let ?s' = "(touch s)\<lparr>mem := store64 (wr (mem s) p (replicate 4096 1)) p (freelist s), freelist := p\<rparr>"
  have out: "same_outside {p} (mem s) (mem ?s')" using p(1) by (simp add: junk_page_outside is_page_def)
  have dis: "pages (mem s) 2 pt \<inter> {p} = {}" using p(3) by auto
  note o = pt_outside [OF out d(2) dis] and ol = pt_lookup_outside [OF out d(2) dis]
  have st: "kstep s ?s'" by simp
  have "aspace ?s' (p # ps) pt"
  proof (rule aspaceI)
    show "pt_inv ?s' (p # ps) pt"
      unfolding pt_inv_def o(1) using k(2) o(2) d(3,4) p(3) kstepD(9) [OF st] by auto
    fix va w assume w: "va < MAXVA" "pt_lookup (mem ?s') 2 pt va = Some w"
    then show "PTE2PA w \<noteq> 0 \<and> PTE2PA w \<notin> pages (mem ?s') 2 pt \<and> PTE2PA w \<notin> set (p # ps)"
      using aspaceD(2) [OF assms(1) w(1)] p(4) [OF w(1)] unfolding ol o(1) by auto
    fix vb w' assume "vb < MAXVA" "pt_lookup (mem ?s') 2 pt vb = Some w'" "PTE2PA w = PTE2PA w'"
    then show "slot 12 va = slot 12 vb" using aspaceD(3) [OF assms(1)] w unfolding ol by blast
  qed
  then show ?thesis using k(1) st out o(1) ol by blast
qed

lemma touch_inv [simp]:
  "kmem_inv (touch s) ps = kmem_inv s ps" "pt_inv (touch s) ps pt = pt_inv s ps pt"
  "aspace (touch s) ps pt = aspace s ps pt"
  by (simp_all only: kmem_inv_def pt_inv_def aspace_def touch_simps freelist_frame unheld_touch cpu_ok_touch upd_frame)

text \<open>Giving the unused page back keeps what the loop has done.\<close>

lemma grown_free:
  assumes g: "grown A m\<^sub>0 pt a\<^sub>0 F C s ps k" and F: "\<And>vb. off_in a\<^sub>0 vb < 4096 * k \<Longrightarrow> drop_bit 10 (F vb) = 0"
    and p: "fresh_page s ps pt p" "p \<in> A"
  shows "\<exists>s'. kfree p s = Ok () s' \<and> kstep s s' \<and> grown A m\<^sub>0 pt a\<^sub>0 F C s' (p # ps) k"
proof -
  obtain s2 where s2: "kfree p s = Ok () s2" "kstep s s2" "aspace s2 (p # ps) pt" "same_outside {p} (mem s) (mem s2)"
      "pages (mem s2) 2 pt = pages (mem s) 2 pt" "\<forall>va. pt_lookup (mem s2) 2 pt va = pt_lookup (mem s) 2 pt va"
    using fresh_page_free [OF grownD(1) [OF g] p(1)] by blast
  have "grown A m\<^sub>0 pt a\<^sub>0 F C s2 (p # ps) k"
    using p s2(5,6) grownD(2) [OF g] F
    by (intro grown_mono [OF g _ s2(3,2) _ s2(4)]) (auto simp: fresh_page_def)
  with s2 show ?thesis by blast
qed

lemma grown_touch: "grown A m\<^sub>0 pt a\<^sub>0 F C s ps k \<Longrightarrow> grown A m\<^sub>0 pt a\<^sub>0 F C (touch s) ps k"
  unfolding grown_def filled_def touch_inv touch_simps upd_frame by assumption

section \<open>\<open>uvmalloc\<close>\<close>

lemma memset_zero_page:
  assumes "same_outside {p} m m1" "aligned 12 p"
  shows "same_outside {p} m (memset p 0 (ucast PGSIZE) m1)" "rd (memset p 0 (ucast PGSIZE) m1) p 4096 = replicate 4096 0"
proof -
  have "same_outside ({p} \<union> {p}) m (memset p 0 (ucast PGSIZE) m1)"
    by (rule same_outside_trans [OF assms(1) memset_page(1) [OF assms(2)]])
  then show "same_outside {p} m (memset p 0 (ucast PGSIZE) m1)" by simp
  show "rd (memset p 0 (ucast PGSIZE) m1) p 4096 = replicate 4096 0"
    using rd_wr_same [of "replicate 4096 0" m1 p] by (simp add: memset_eq ucast_PGSIZE)
qed


lemma uvmalloc_flags:
  assumes "drop_bit 10 xperm = 0"
  shows "leaf_flags (PTE_R OR PTE_U OR xperm)" "drop_bit 10 (PTE_R OR PTE_U OR xperm) = 0"
proof -
  show d: "drop_bit 10 (PTE_R OR PTE_U OR xperm) = 0" using assms by (simp add: drop_bit_or c_defs)
  have "bit ((PTE_R OR PTE_U OR xperm) OR PTE_V) 1" "\<not> bit PTE_V 1" by (simp_all add: bit_or_iff c_defs)
  then have "(PTE_R OR PTE_U OR xperm) OR PTE_V \<noteq> PTE_V" by metis
  with d show "leaf_flags (PTE_R OR PTE_U OR xperm)" by (simp add: leaf_flags_def)
qed

lemma uvmalloc_loop_Ok:
  fixes xperm :: u64
  defines "F \<equiv> \<lambda>_ :: u64. PTE_R OR PTE_U OR xperm" and "C \<equiv> \<lambda>_ :: u64. replicate 4096 (0 :: u8)"
  assumes "grown A m\<^sub>0 pt a\<^sub>0 F C s ps k" "drop_bit 10 xperm = 0"
    "aligned 12 a\<^sub>0" "unat a\<^sub>0 + 4096 * (k + n) \<le> 2 ^ 38"
    "\<And>vb. vb < MAXVA \<Longrightarrow> off_in a\<^sub>0 vb < 4096 * (k + n) \<Longrightarrow> pt_lookup m\<^sub>0 2 pt vb = None"
    "unat newsz \<le> unat a\<^sub>0 + 4096 * (k + n)" "n \<noteq> 0 \<Longrightarrow> unat a\<^sub>0 + 4096 * (k + n) < unat newsz + 4096"
  shows "\<exists>r s' ps'. uvmalloc_loop pt (a\<^sub>0 + of_nat k * PGSIZE) a\<^sub>0 newsz xperm s = Ok r s' \<and> kstep s s'
    \<and> (r = newsz \<and> grown A m\<^sub>0 pt a\<^sub>0 F C s' ps' (k + n)
     \<or> r = 0 \<and> length ps < 3 * n \<and> grown A m\<^sub>0 pt a\<^sub>0 F C s' ps' 0)"
  using assms(3-)
proof (induction n arbitrary: s ps k)
  case (0 s ps k)
  have "unat (a\<^sub>0 + of_nat k * PGSIZE) = unat a\<^sub>0 + 4096 * k" using "0.prems"(4) by (intro unat_page_addr) simp
  then have "\<not> a\<^sub>0 + of_nat k * PGSIZE < newsz" using "0.prems"(6) by (simp add: word_less_nat_alt)
  then show ?case using "0.prems"(1) by (intro exI [of _ newsz] exI [of _ s] exI [of _ ps]) (simp add: uvmalloc_loop.simps)
next
  case (Suc n s ps k)
  let ?a = "a\<^sub>0 + of_nat k * PGSIZE"
  have ua: "unat ?a = unat a\<^sub>0 + 4096 * k" using Suc.prems(4) by (intro unat_page_addr) simp
  have lt: "?a < newsz" using Suc.prems(7) by (simp add: word_less_nat_alt ua)
  note fl = uvmalloc_flags [OF Suc.prems(2)]
  have b: "unat a\<^sub>0 + 4096 * Suc k \<le> 2 ^ 38" "unat a\<^sub>0 + 4096 * k \<le> 2 ^ 38" using Suc.prems(4) by simp_all
  have dealloc: "\<exists>r t ps'. uvmdealloc pt ?a a\<^sub>0 s = Ok r t \<and> kstep s t \<and> grown A m\<^sub>0 pt a\<^sub>0 F C t ps' 0"
    if "grown A m\<^sub>0 pt a\<^sub>0 F C s ps k" for s :: "'a kmem_scheme" and ps
    using fl Suc.prems(5) by (intro uvmdealloc_grown [OF that _ Suc.prems(3) b(2)]) (auto simp: F_def)
  show ?case
  proof (cases ps)
    case Nil
    note inv = pt_invD(1) [OF aspaceD(1) [OF grownD(1) [OF Suc.prems(1)]]]
    obtain r' s' ps' where u: "uvmdealloc pt ?a a\<^sub>0 (touch s) = Ok r' s'" "kstep (touch s) s'" "grown A m\<^sub>0 pt a\<^sub>0 F C s' ps' 0"
      using dealloc [OF grown_touch [OF Suc.prems(1)]] by blast
    have "uvmalloc_loop pt ?a a\<^sub>0 newsz xperm s = Ok 0 s'"
      using lt kalloc_Nil(1) [of s] inv Nil u(1) by (simp add: uvmalloc_loop.simps [of pt ?a])
    moreover have "length ps < 3 * Suc n" using Nil by simp
    ultimately show ?thesis using u(3) kstep_trans [OF kstep_updI(4) u(2)] by blast
  next
    case (Cons p ps1)
    note g0 = Suc.prems(1) [unfolded Cons]
    obtain s1 where s1: "kalloc s = Ok p s1" "same_outside {p} (mem s) (mem s1)" "p \<noteq> 0" "is_page s p"
      using kalloc_fill [OF grownD(1) [OF g0]] by blast
    let ?M = "memset p 0 (ucast PGSIZE) (mem s1)"
    have M: "same_outside {p} (mem s) ?M" "rd ?M p 4096 = C ?a"
      using memset_zero_page [OF s1(2)] s1(4) by (simp_all add: C_def is_page_def)
    obtain r s' ps' where st: "mappages pt ?a PGSIZE p (PTE_R OR PTE_U OR xperm) (s1\<lparr>mem := ?M\<rparr>) = Ok r s'" "kstep s s'"
        "r = 0 \<and> grown A m\<^sub>0 pt a\<^sub>0 F C s' ps' (Suc k)
         \<or> r = - 1 \<and> length ps1 < 2 \<and> grown A m\<^sub>0 pt a\<^sub>0 F C s' ps' k \<and> fresh_page s' ps' pt p \<and> p \<in> A"
        "length ps1 \<le> length ps' + 2"
      using grown_step [OF g0 _ _ Suc.prems(3) b(1) _ s1(1) M] fl(2) Suc.prems(5) by (auto simp: F_def C_def)
    show ?thesis
    proof (cases "r = 0")
      case True
      then have g: "grown A m\<^sub>0 pt a\<^sub>0 F C s' ps' (Suc k)" using st(3) by simp
      have e: "?a + PGSIZE = a\<^sub>0 + of_nat (Suc k) * PGSIZE" by (simp add: algebra_simps)
      have "uvmalloc_loop pt ?a a\<^sub>0 newsz xperm s = uvmalloc_loop pt (a\<^sub>0 + of_nat (Suc k) * PGSIZE) a\<^sub>0 newsz xperm s'"
        unfolding e [symmetric] using lt s1 st True by (simp add: uvmalloc_loop.simps [of pt ?a])
      moreover have "\<exists>r s'' ps''. uvmalloc_loop pt (a\<^sub>0 + of_nat (Suc k) * PGSIZE) a\<^sub>0 newsz xperm s' = Ok r s'' \<and> kstep s' s''
        \<and> (r = newsz \<and> grown A m\<^sub>0 pt a\<^sub>0 F C s'' ps'' (Suc k + n)
         \<or> r = 0 \<and> length ps' < 3 * n \<and> grown A m\<^sub>0 pt a\<^sub>0 F C s'' ps'' 0)"
        using Suc.prems by (intro Suc.IH [OF g]) simp_all
      moreover have "length ps' < 3 * n \<Longrightarrow> length ps < 3 * Suc n" using st(4) Cons by simp
      ultimately show ?thesis using kstep_trans [OF st(2)] by (simp add: add_Suc_shift) blast
    next
      case False
      then have g: "grown A m\<^sub>0 pt a\<^sub>0 F C s' ps' k" "fresh_page s' ps' pt p" "p \<in> A" "length ps < 3 * Suc n" using st(3) Cons by auto
      obtain s2 where s2: "kfree p s' = Ok () s2" "kstep s' s2" "grown A m\<^sub>0 pt a\<^sub>0 F C s2 (p # ps') k"
        using grown_free [OF g(1) _ g(2,3)] fl(2) by (auto simp: F_def)
      obtain r' s3 ps3 where u: "uvmdealloc pt ?a a\<^sub>0 s2 = Ok r' s3" "kstep s2 s3" "grown A m\<^sub>0 pt a\<^sub>0 F C s3 ps3 0"
        using dealloc [OF s2(3)] by blast
      have "uvmalloc_loop pt ?a a\<^sub>0 newsz xperm s = Ok 0 s3"
        using lt s1 st(1) False s2(1) u(1) by (simp add: uvmalloc_loop.simps [of pt ?a])
      then show ?thesis using g(4) u(3) kstep_trans [OF st(2) kstep_trans [OF s2(2) u(2)]] by blast
    qed
  qed
qed

section \<open>\<open>uvmcopy\<close>\<close>

text \<open>An address space none of whose tables and pages lie in \<open>A\<close>.\<close>

definition apart :: "u64 set \<Rightarrow> memory \<Rightarrow> u64 \<Rightarrow> bool" where
  "apart A m pt \<longleftrightarrow> wf_pt m 2 pt \<and> 0 \<notin> pages m 2 pt \<and> pages m 2 pt \<inter> A = {}
     \<and> (\<forall>va w. va < MAXVA \<longrightarrow> pt_lookup m 2 pt va = Some w \<longrightarrow> PTE2PA w \<notin> A)"

lemma apart_lookup:
  assumes "apart A m\<^sub>0 old" "same_outside A m\<^sub>0 m" "va < MAXVA" "pt_lookup m\<^sub>0 2 old va = Some w"
  shows "\<exists>a. pte_at m 2 old va = Some a \<and> a \<noteq> 0 \<and> load64 m a = w \<and> valid w"
    "rd m (PTE2PA w) 4096 = rd m\<^sub>0 (PTE2PA w) 4096"
proof -
  have ap: "wf_pt m\<^sub>0 2 old" "pages m\<^sub>0 2 old \<inter> A = {}" "0 \<notin> pages m\<^sub>0 2 old" "PTE2PA w \<notin> A"
    using assms(1,3,4) unfolding apart_def by blast+
  have lk: "pt_lookup m 2 old va = Some w" using pt_lookup_outside [OF assms(2) ap(1,2)] assms(4) by simp
  then obtain a where a: "pte_at m 2 old va = Some a" "load64 m a = w" "valid w"
    by (auto simp: pt_lookup_def split: option.splits if_splits)
  have "pte_at m\<^sub>0 2 old va = Some a" using pt_outside(3) [OF assms(2) ap(1,2)] a(1) by simp
  then obtain q where q: "q \<in> pages m\<^sub>0 2 old" "aligned 12 q" "a = ent q (px 0 va)"
    using pte_at_page [OF ap(1)] by blast
  then have "a \<noteq> 0" using ent_page [OF q(2) px_less, of 0 va] ap(3) by (auto simp: PGROUNDDOWN_def)
  with a show "\<exists>a. pte_at m 2 old va = Some a \<and> a \<noteq> 0 \<and> load64 m a = w \<and> valid w" by blast
  show "rd m (PTE2PA w) 4096 = rd m\<^sub>0 (PTE2PA w) 4096" using rd_outside [OF assms(2) aligned_PTE2PA ap(4)] .
qed

lemma page_no_wrap:
  assumes "aligned 12 x"
  shows "unat x + 4096 \<le> 2 ^ 64"
proof -
  obtain j where "unat x = 4096 * j" using assms by (auto simp: aligned_dvd)
  then show ?thesis using unat_bound [of x] by simp
qed

lemma memmove_page:
  assumes "same_outside {p} m m1" "aligned 12 p" "aligned 12 pa" "pa \<noteq> p"
  shows "same_outside {p} m (memmove p pa (ucast PGSIZE) m1)" "rd (memmove p pa (ucast PGSIZE) m1) p 4096 = rd m pa 4096"
proof -
  have mm: "memmove p pa (ucast PGSIZE) m1 x = (if off_in p x < 4096 then m1 (pa + of_nat (off_in p x)) else m1 x)" for x
    using page_no_wrap [OF assms(2)] page_no_wrap [OF assms(3)] by (simp add: memmove_apply ucast_PGSIZE)
  show "same_outside {p} m (memmove p pa (ucast PGSIZE) m1)"
    using assms(1) in_page [OF assms(2)] by (auto simp: same_outside_def mm)
  have "rd (memmove p pa (ucast PGSIZE) m1) p 4096 = rd m1 pa 4096"
    by (rule nth_equalityI) (simp_all add: mm)
  also have "\<dots> = rd m pa 4096" using assms(4) by (intro rd_outside [OF assms(1,3)]) simp
  finally show "rd (memmove p pa (ucast PGSIZE) m1) p 4096 = rd m pa 4096" .
qed

lemma copied_flags:
  assumes "valid w" "PTE_FLAGS w \<noteq> PTE_V"
  shows "leaf_flags (PTE_FLAGS w)" "drop_bit 10 (PTE_FLAGS w) = 0"
proof -
  have m: "PTE_FLAGS w = take_bit 10 w" by (simp add: PTE_FLAGS_def take_bit_eq_mask mask_eq_exp_minus_1)
  show d: "drop_bit 10 (PTE_FLAGS w) = 0" unfolding m by (rule bit_word_eqI) (simp add: bit_simps)
  have "bit w 0" using assms(1) by (simp add: PTE_V_def and_one_eq bit_0 odd_iff_mod_2_eq_one)
  then have "PTE_FLAGS w OR PTE_V = PTE_FLAGS w"
    unfolding m by (intro bit_word_eqI) (auto simp: bit_simps PTE_V_def)
  with assms(2) d show "leaf_flags (PTE_FLAGS w)" by (simp add: leaf_flags_def)
qed

lemma uvmcopy_loop_Ok:
  fixes m\<^sub>0 old
  defines "F \<equiv> \<lambda>vb. PTE_FLAGS (the (pt_lookup m\<^sub>0 2 old vb))" and "C \<equiv> \<lambda>vb. rd m\<^sub>0 (page_at m\<^sub>0 old vb) 4096"
  assumes "grown A m\<^sub>0 new 0 F C s ps k" "apart A m\<^sub>0 old" "4096 * (k + n) \<le> 2 ^ 38"
    "\<And>vb. off_in 0 vb < 4096 * (k + n) \<Longrightarrow> pt_lookup m\<^sub>0 2 new vb = None"
    "\<And>vb. off_in 0 vb < 4096 * (k + n) \<Longrightarrow> \<exists>w. pt_lookup m\<^sub>0 2 old vb = Some w \<and> PTE_FLAGS w \<noteq> PTE_V"
    "unat sz \<le> 4096 * (k + n)" "n \<noteq> 0 \<Longrightarrow> 4096 * (k + n) < unat sz + 4096"
  shows "\<exists>r s' ps'. uvmcopy_loop old new (of_nat k * PGSIZE) sz s = Ok r s' \<and> kstep s s'
    \<and> (r = 0 \<and> grown A m\<^sub>0 new 0 F C s' ps' (k + n)
     \<or> r = - 1 \<and> length ps < 3 * n \<and> grown A m\<^sub>0 new 0 F C s' ps' 0)"
  using assms(3-)
proof (induction n arbitrary: s ps k)
  case (0 s ps k)
  have "unat (0 + of_nat k * PGSIZE) = unat (0 :: u64) + 4096 * k" using "0.prems"(3) by (intro unat_page_addr) simp
  then have "\<not> of_nat k * PGSIZE < sz" using "0.prems"(6) by (simp add: word_less_nat_alt)
  then show ?case using "0.prems"(1) by (intro exI [of _ 0] exI [of _ s] exI [of _ ps]) (simp add: uvmcopy_loop.simps)
next
  case (Suc n s ps k)
  let ?a = "of_nat k * PGSIZE"
  have a0: "aligned 12 0" "unat (0 :: u64) + 4096 * Suc k \<le> 2 ^ 38" "unat (0 :: u64) + 4096 * k \<le> 2 ^ 38"
    using Suc.prems(3) by (simp_all add: aligned_def)
  note ra = range_addr [OF a0(1,2) lessI, simplified]
  have "unat (0 + ?a) = unat (0 :: u64) + 4096 * k" using a0(3) by (rule unat_page_addr)
  then have lt: "?a < sz" using Suc.prems(7) by (simp add: word_less_nat_alt)
  have FC: "F va = F vb \<and> C va = C vb" if "slot 12 va = slot 12 vb" for va vb
    using pt_lookup_slot [OF that, of m\<^sub>0 2 old] by (simp add: F_def C_def page_at_def)
  have fl: "leaf_flags (F vb)" "drop_bit 10 (F vb) = 0" if vb: "off_in 0 vb < 4096 * Suc k" for vb
  proof -
    obtain w where w: "pt_lookup m\<^sub>0 2 old vb = Some w" "PTE_FLAGS w \<noteq> PTE_V" using Suc.prems(5) [of vb] vb by auto
    then have "valid w" by (auto simp: pt_lookup_def split: option.splits if_splits)
    then show "leaf_flags (F vb)" "drop_bit 10 (F vb) = 0" using w copied_flags by (simp_all add: F_def)
  qed
  have nn: "\<And>vb. vb < MAXVA \<Longrightarrow> off_in 0 vb < 4096 * Suc k \<Longrightarrow> pt_lookup m\<^sub>0 2 new vb = None"
    using Suc.prems(4) by simp
  have unmap: "\<exists>t ps'. uvmunmap new 0 (?a div PGSIZE) True s = Ok () t \<and> kstep s t \<and> grown A m\<^sub>0 new 0 F C t ps' 0"
    if "grown A m\<^sub>0 new 0 F C s ps k" for s :: "'a kmem_scheme" and ps
    using uvmunmap_grown [OF that _ a0(1,3)] fl(1) nn page_index [of k] a0(2) by simp
  note gd = grownD [OF Suc.prems(1)]
  obtain w where w: "pt_lookup m\<^sub>0 2 old ?a = Some w" using Suc.prems(5) [of ?a] ra(2) by auto
  note ap = apart_lookup [OF Suc.prems(2) gd(3) ra(1) w]
  obtain a where a: "walk old ?a False s = Ok a s" "a \<noteq> 0" "load64 (mem s) a = w" "valid w"
    using ap(1) walk_lookup [OF ra(1), of old s] by auto
  have Fa: "F ?a = PTE_FLAGS w" and Ca: "C ?a = rd m\<^sub>0 (PTE2PA w) 4096" using w by (simp_all add: F_def C_def page_at_def)
  show ?case
  proof (cases ps)
    case Nil
    note inv = pt_invD(1) [OF aspaceD(1) [OF gd(1)]]
    obtain s' ps' where u: "uvmunmap new 0 (?a div PGSIZE) True (touch s) = Ok () s'" "kstep (touch s) s'" "grown A m\<^sub>0 new 0 F C s' ps' 0"
      using unmap [OF grown_touch [OF Suc.prems(1)]] by blast
    have "uvmcopy_loop old new ?a sz s = Ok (- 1) s'"
      using lt a kalloc_Nil(1) [of s] inv Nil u(1) by (simp add: uvmcopy_loop.simps [of old new ?a])
    moreover have "length ps < 3 * Suc n" using Nil by simp
    ultimately show ?thesis using u(3) kstep_trans [OF kstep_updI(4) u(2)] by blast
  next
    case (Cons p ps1)
    note g0 = Suc.prems(1) [unfolded Cons]
    obtain s1 where s1: "kalloc s = Ok p s1" "same_outside {p} (mem s) (mem s1)" "p \<noteq> 0" "is_page s p"
      using kalloc_fill [OF grownD(1) [OF g0]] by blast
    let ?M = "memmove p (PTE2PA w) (ucast PGSIZE) (mem s1)"
    have "p \<in> A" using grownD(2) [OF g0] by auto
    then have "PTE2PA w \<noteq> p" using Suc.prems(2) ra(1) w by (auto simp: apart_def)
    then have M: "same_outside {p} (mem s) ?M" "rd ?M p 4096 = C ?a"
      using memmove_page [OF s1(2) _ aligned_PTE2PA, of w] s1(4) ap(2) Ca by (simp_all add: is_page_def)
    obtain r s' ps' where st: "mappages new ?a PGSIZE p (PTE_FLAGS w) (s1\<lparr>mem := ?M\<rparr>) = Ok r s'" "kstep s s'"
        "r = 0 \<and> grown A m\<^sub>0 new 0 F C s' ps' (Suc k)
         \<or> r = - 1 \<and> length ps1 < 2 \<and> grown A m\<^sub>0 new 0 F C s' ps' k \<and> fresh_page s' ps' new p \<and> p \<in> A"
        "length ps1 \<le> length ps' + 2"
      using grown_step [OF g0 fl(2) FC a0(1,2) nn s1(1) M(1)] M(2) Fa by auto
    show ?thesis
    proof (cases "r = 0")
      case True
      then have g: "grown A m\<^sub>0 new 0 F C s' ps' (Suc k)" using st(3) by simp
      have e: "?a + PGSIZE = of_nat (Suc k) * PGSIZE" by (simp add: algebra_simps)
      have "uvmcopy_loop old new ?a sz s = uvmcopy_loop old new (of_nat (Suc k) * PGSIZE) sz s'"
        unfolding e [symmetric] using lt a s1 st True by (simp add: uvmcopy_loop.simps [of old new ?a])
      moreover have "\<exists>r s'' ps''. uvmcopy_loop old new (of_nat (Suc k) * PGSIZE) sz s' = Ok r s'' \<and> kstep s' s''
        \<and> (r = 0 \<and> grown A m\<^sub>0 new 0 F C s'' ps'' (Suc k + n)
         \<or> r = - 1 \<and> length ps' < 3 * n \<and> grown A m\<^sub>0 new 0 F C s'' ps'' 0)"
        using Suc.prems by (intro Suc.IH [OF g]) simp_all
      moreover have "length ps' < 3 * n \<Longrightarrow> length ps < 3 * Suc n" using st(4) Cons by simp
      ultimately show ?thesis using kstep_trans [OF st(2)] by (simp add: add_Suc_shift) blast
    next
      case False
      then have g: "grown A m\<^sub>0 new 0 F C s' ps' k" "fresh_page s' ps' new p" "p \<in> A" "length ps < 3 * Suc n" using st(3) Cons by auto
      obtain s2 where s2: "kfree p s' = Ok () s2" "kstep s' s2" "grown A m\<^sub>0 new 0 F C s2 (p # ps') k"
        using grown_free [OF g(1) _ g(2,3)] fl(2) by auto
      obtain s3 ps3 where u: "uvmunmap new 0 (?a div PGSIZE) True s2 = Ok () s3" "kstep s2 s3" "grown A m\<^sub>0 new 0 F C s3 ps3 0"
        using unmap [OF s2(3)] by blast
      have "uvmcopy_loop old new ?a sz s = Ok (- 1) s3"
        using lt a s1 st(1) False s2(1) u(1) by (simp add: uvmcopy_loop.simps [of old new ?a])
      then show ?thesis using g(4) u(3) kstep_trans [OF st(2) kstep_trans [OF s2(2) u(2)]] by blast
    qed
  qed
qed

end
