(* ===== verification/Proc_Alloc.thy ===== *)
theory Proc_Alloc
  imports Proc_Facts Ugrow
begin

text \<open>
  Allocating a process: the slot, the process id, and the page table with its two supervisor pages.
\<close>

lemma settled_kstep:
  assumes "settled s" "kstep s s'"
  shows "\<exists>m r. s' = s\<lparr>mem := m, freelist := r\<rparr>"
  using assms by (auto simp: kstep_def settled_touch)

lemma map_one:
  assumes "pt_inv s ps pt" "aligned 12 va" "va < MAXVA" "pt_lookup (mem s) 2 pt va = None" "2 \<le> length ps"
  shows "\<exists>s' ps'. mappages pt va PGSIZE pa perm s = Ok 0 s' \<and> pt_step 2 pt s ps s' ps' \<and> pt_inv s' ps' pt
    \<and> maps_page (mem s) (mem s') pt va (PA2PTE pa OR perm OR PTE_V) \<and> length ps \<le> length ps' + 2"
proof -
  have va: "unat va + 4096 \<le> 2 ^ 38" by (rule below_MAXVA [OF assms(2,3)])
  have al: "aligned 12 PGSIZE" "(0 :: u64) < PGSIZE" "unat PGSIZE = 4096" by (simp_all add: aligned_def PGSIZE_def)
  have none: "pt_lookup (mem s) 2 pt vb = None" if "off_in va vb < unat PGSIZE" for vb
    using that assms(4) pt_lookup_slot [of vb va] off_in_aligned [OF assms(2), of vb] by (simp add: al)
  obtain k s' ps' where k: "mappages pt va PGSIZE pa perm s = Ok (if 4096 * k = unat PGSIZE then 0 else - 1) s'"
      "4096 * k \<le> unat PGSIZE" "4096 * k < unat PGSIZE \<longrightarrow> ps' = [] \<and> 4096 * length ps < 2 * unat PGSIZE" "pt_step 2 pt s ps s' ps'"
      "maps_range (mem s) (mem s') pt va pa perm k" "4096 * length ps \<le> 4096 * length ps' + 2 * unat PGSIZE"
    using mappages_Ok [OF assms(1,2) al(1,2), of pa perm] va none unfolding al(3) by blast
  have "k = 1" using k(2,3) assms(5) by (cases k) (auto simp: al)
  moreover have "PGROUNDDOWN vb = va" if "slot 12 vb = slot 12 va" for vb
    using that off_in_aligned [OF assms(2), of vb] in_page [OF assms(2), of vb] by simp
  ultimately have "maps_page (mem s) (mem s') pt va (PA2PTE pa OR perm OR PTE_V)"
    using k(5) off_in_aligned [OF assms(2)] by (auto simp: maps_page_def maps_range_def range_pte_def)
  then show ?thesis using k \<open>k = 1\<close> pt_step_inv [OF assms(1) k(4)] by (auto simp: al)
qed

lemma high_pages: "aligned 12 TRAMPOLINE" "aligned 12 TRAPFRAME" "TRAMPOLINE < MAXVA" "TRAPFRAME < MAXVA"
  "slot 12 TRAMPOLINE \<noteq> slot 12 TRAPFRAME"
  by (simp_all add: aligned_def c_defs)

text \<open>The page table of a new process: the trampoline and the trapframe, for the supervisor only.\<close>

definition proc_map :: "u64 \<Rightarrow> u64 \<Rightarrow> u64 \<Rightarrow> u64 option" where
  "proc_map tramp tf vb =
     (if slot 12 vb = slot 12 TRAMPOLINE then Some (PA2PTE tramp OR (PTE_R OR PTE_X) OR PTE_V)
      else if slot 12 vb = slot 12 TRAPFRAME then Some (PA2PTE tf OR (PTE_R OR PTE_W) OR PTE_V)
      else None)"

lemma proc_pagetable_Ok:
  assumes inv: "kmem_inv s ps" and len: "5 \<le> length ps" and st: "settled s"
  shows "\<exists>pt m r ps'. proc_pagetable p s = Ok pt (s\<lparr>mem := m, freelist := r\<rparr>) \<and> pt_inv (s\<lparr>mem := m, freelist := r\<rparr>) ps' pt
    \<and> (\<forall>vb < MAXVA. pt_lookup m 2 pt vb = proc_map (sym_trampoline s) (p_trapframe (procs s p)) vb)
    \<and> same_outside (set ps) (mem s) m \<and> set ps' \<union> pages m 2 pt = set ps"
proof -
  obtain q ps1 where q: "ps = q # ps1" using len by (cases ps) auto
  obtain s0 where z: "kalloc s = Ok q s0" "kmem_inv (s0\<lparr>mem := memset q 0 (ucast PGSIZE) (mem s0)\<rparr>) ps1"
      "kstep s (s0\<lparr>mem := memset q 0 (ucast PGSIZE) (mem s0)\<rparr>)" "same_outside {q} (mem s) (memset q 0 (ucast PGSIZE) (mem s0))"
      "zero_page (memset q 0 (ucast PGSIZE) (mem s0)) q" "aligned 12 q" "q \<noteq> 0"
    using kalloc_zero [of s q ps1] inv unfolding q by blast
  define s1 where "s1 = s0\<lparr>mem := memset q 0 (ucast PGSIZE) (mem s0)\<rparr>"
  have s1: "kmem_inv s1 ps1" "kstep s s1" "same_outside {q} (mem s) (mem s1)" "zero_page (mem s1) q"
    using z by (simp_all add: s1_def)
  have c: "uvmcreate s = Ok q s1" using z(1,7) by (simp add: uvmcreate_def s1_def)
  note t = zero_table [OF s1(4) z(6)]
  have d: "distinct ps" "is_page s q" using kmem_invD(3,4) [OF inv] q by auto
  have p1: "pt_inv s1 ps1 q"
    using s1 t d q kstepD(9) [OF s1(2)] by (simp add: pt_inv_def)
  have len1: "4 \<le> length ps1" using len q by simp
  obtain s2 ps2 where m2: "mappages q TRAMPOLINE PGSIZE (sym_trampoline s1) (PTE_R OR PTE_X) s1 = Ok 0 s2" "pt_step 2 q s1 ps1 s2 ps2"
      "pt_inv s2 ps2 q" "maps_page (mem s1) (mem s2) q TRAMPOLINE (PA2PTE (sym_trampoline s1) OR (PTE_R OR PTE_X) OR PTE_V)"
      "length ps1 \<le> length ps2 + 2"
    using map_one [OF p1 high_pages(1,3) t(3)] len1 by force
  have none: "pt_lookup (mem s2) 2 q TRAPFRAME = None"
    using m2(4) high_pages t(3) by (simp add: maps_page_def)
  obtain s3 ps3 where m3: "mappages q TRAPFRAME PGSIZE (p_trapframe (procs s2 p)) (PTE_R OR PTE_W) s2 = Ok 0 s3" "pt_step 2 q s2 ps2 s3 ps3"
      "pt_inv s3 ps3 q" "maps_page (mem s2) (mem s3) q TRAPFRAME (PA2PTE (p_trapframe (procs s2 p)) OR (PTE_R OR PTE_W) OR PTE_V)"
    using map_one [OF m2(3) high_pages(2,4) none] m2(5) len1 by force
  have k: "kstep s s2" "kstep s s3" using s1(2) m2(2) m3(2) by (auto simp: pt_step_def intro: kstep_trans)
  obtain m r where s3: "s3 = s\<lparr>mem := m, freelist := r\<rparr>" using settled_kstep [OF st k(2)] by blast
  have same: "procs s2 = procs s" "sym_trampoline s1 = sym_trampoline s"
    using settled_kstep [OF st k(1)] kstepD(6) [OF s1(2)] by auto
  have "proc_pagetable p s = Ok q s3" using c z(7) m2(1) m3(1) by (simp add: proc_pagetable_def)
  moreover have "pt_lookup m 2 q vb = proc_map (sym_trampoline s) (p_trapframe (procs s p)) vb" if "vb < MAXVA" for vb
    using m2(4) m3(4) that t(3) high_pages(5) by (auto simp: maps_page_def proc_map_def s3 same)
  moreover have "set ps3 \<union> pages m 2 q = set ps" "same_outside (set ps) (mem s) m"
  proof -
    obtain u2 u3 where u: "ps1 = u2 @ ps2" "pages (mem s2) 2 q = {q} \<union> set u2" "ps2 = u3 @ ps3"
        "pages (mem s3) 2 q = pages (mem s2) 2 q \<union> set u3"
        "same_outside (pages (mem s2) 2 q) (mem s1) (mem s2)" "same_outside (pages (mem s3) 2 q) (mem s2) (mem s3)"
      using m2(2) m3(2) t(2) unfolding pt_step_def by auto
    show "set ps3 \<union> pages m 2 q = set ps" using u q by (auto simp: s3)
    have "pages (mem s2) 2 q \<subseteq> set ps" "pages (mem s3) 2 q \<subseteq> set ps" "{q} \<subseteq> set ps" using u q by auto
    then have "PGROUNDDOWN x \<notin> set ps \<Longrightarrow> mem s3 x = mem s x" for x
      using s1(3) u(5,6) unfolding same_outside_def by (metis subsetD)
    then show "same_outside (set ps) (mem s) m" by (simp add: same_outside_def s3)
  qed
  ultimately show ?thesis using m3(3) by (intro exI [of _ q] exI [of _ m] exI [of _ r] exI [of _ ps3]) (simp add: s3)
qed

lemma kmem_inv_frame [simp]:
  "kmem_inv (upd_proc p f s) ps = kmem_inv s ps" "kmem_inv (s\<lparr>nextpid := n\<rparr>) ps = kmem_inv s ps"
  by (simp_all add: kmem_inv_def is_page_def cpu_ok_def lock_defs unheld_def upd_proc_def)

lemma kmem_inv_take_lock [simp]: "kmem_inv s ps \<Longrightarrow> l \<noteq> L_kmem \<Longrightarrow> kmem_inv (take_lock l s) ps"
  by (auto simp: kmem_inv_def is_page_def)

lemma pt_inv_take_lock [simp]: "pt_inv s ps pt \<Longrightarrow> l \<noteq> L_kmem \<Longrightarrow> pt_inv (take_lock l s) ps pt"
  by (auto simp: pt_inv_def is_page_def)

lemma allocpid_eq [simp]:
  assumes "settled s" "unheld L_pid s"
  shows "allocpid s = Ok (nextpid s) (s\<lparr>nextpid := nextpid s + 1\<rparr>)"
  using assms by (simp add: allocpid_def Let_def)

lemma kalloc_settled:
  assumes "kmem_inv s (p # ps)" "settled s"
  shows "kalloc s = Ok p (s\<lparr>mem := wr (mem s) p (replicate 4096 5), freelist := load64 (mem s) p\<rparr>)"
    "kmem_inv (s\<lparr>mem := wr (mem s) p (replicate 4096 5), freelist := load64 (mem s) p\<rparr>) ps"
  using kalloc_Cons [OF assms(1)] assms(2) by (simp_all add: settled_touch)

definition new_context :: "'z kproc_scheme \<Rightarrow> nat \<Rightarrow> kcontext" where
  "new_context s i = \<lparr>ctx_ra = sym_forkret s, ctx_sp = p_kstack (procs s i) + PGSIZE, ctx_s = replicate 12 0\<rparr>"

definition new_proc :: "'z kproc_scheme \<Rightarrow> nat \<Rightarrow> u64 \<Rightarrow> u64 \<Rightarrow> proc \<Rightarrow> proc" where
  "new_proc s i tf pt q = q\<lparr>p_pid := nextpid s, p_state := USED, p_trapframe := tf, p_pagetable := pt, p_context := new_context s i\<rparr>"

lemma allocproc_found_Ok:
  assumes inv: "kmem_inv s ps" and len: "6 \<le> length ps" and st: "settled s" and free: "unheld L_pid s"
  shows "\<exists>tf pt m r ps'. let s' = (upd_proc i (new_proc s i tf pt) s)\<lparr>nextpid := nextpid s + 1, mem := m, freelist := r\<rparr> in
      allocproc_found i s = Ok (Some i) s' \<and> pt_inv s' ps' pt
    \<and> (\<forall>vb < MAXVA. pt_lookup m 2 pt vb = proc_map (sym_trampoline s) tf vb)
    \<and> insert tf (set ps' \<union> pages m 2 pt) = set ps \<and> tf \<notin> set ps' \<union> pages m 2 pt \<and> same_outside (set ps) (mem s) m"
proof -
  obtain tf ps1 where ps: "ps = tf # ps1" using len by (cases ps) auto
  let ?s1 = "upd_proc i (\<lambda>q. q\<lparr>p_pid := nextpid s, p_state := USED\<rparr>) (s\<lparr>nextpid := nextpid s + 1\<rparr>)"
  have k: "kmem_inv ?s1 (tf # ps1)" using inv ps by simp
  let ?s2 = "?s1\<lparr>mem := wr (mem s) tf (replicate 4096 5), freelist := load64 (mem s) tf\<rparr>"
  have k2: "kalloc ?s1 = Ok tf ?s2" "kmem_inv ?s2 ps1" using kalloc_settled [OF k] st by simp_all
  have tf: "tf \<noteq> 0" "aligned 12 tf" "tf \<notin> set ps1"
    using kmem_invD(3,4,6) [OF inv] ps by (auto simp: is_page_def)
  let ?s3 = "upd_proc i (\<lambda>q. q\<lparr>p_trapframe := tf\<rparr>) ?s2"
  have "kmem_inv ?s3 ps1" "settled ?s3" using k2(2) st by simp_all
  then obtain pt m r ps' where p: "proc_pagetable i ?s3 = Ok pt (?s3\<lparr>mem := m, freelist := r\<rparr>)"
      "pt_inv (?s3\<lparr>mem := m, freelist := r\<rparr>) ps' pt" "same_outside (set ps1) (mem ?s3) m" "set ps' \<union> pages m 2 pt = set ps1"
      "\<forall>vb < MAXVA. pt_lookup m 2 pt vb = proc_map (sym_trampoline ?s3) (p_trapframe (procs ?s3 i)) vb"
    using proc_pagetable_Ok [of ?s3 ps1 i] len ps by auto
  let ?s' = "(upd_proc i (new_proc s i tf pt) s)\<lparr>nextpid := nextpid s + 1, mem := m, freelist := r\<rparr>"
  have "pt \<noteq> 0" using pt_invD(6) [OF p(2)] .
  then have "allocproc_found i s = Ok (Some i) ?s'"
    using st free k2(1) tf(1) p(1) by (simp add: allocproc_found_def Let_def new_proc_def new_context_def upd_proc_def)
  moreover have "pt_inv ?s' ps' pt"
    using p(2) by (simp add: pt_inv_def kmem_inv_def is_page_def cpu_ok_def lock_defs unheld_def upd_proc_def)
  moreover have "same_outside (set ps) (mem s) m"
  proof -
    have "same_outside {tf} (mem s) (wr (mem s) tf (replicate 4096 5))" using tf(2) by (simp add: same_outside_wr)
    then show ?thesis using p(3) ps by (auto simp: same_outside_def)
  qed
  ultimately show ?thesis using p(4,5) ps tf(3)
    by (intro exI [of _ tf] exI [of _ pt] exI [of _ m] exI [of _ r] exI [of _ ps']) (simp add: Let_def)
qed

end
