(* ===== verification/Vm_Properties.thy ===== *)
theory Vm_Properties
  imports Ugrow
begin

text \<open>
  The properties of \<^verbatim>\<open>kernel/vm.c\<close>, with a small concrete machine (an empty page table and a short free
  list) on which they are instantiated.
\<close>

section \<open>A concrete machine\<close>

definition demo_free :: "u64 list" where
  "demo_free = [0x80030000, 0x80031000, 0x80032000, 0x80033000, 0x80034000, 0x80035000]"

definition demo_root :: u64 where
  "demo_root = 0x80040000"

definition demo_mem :: memory where
  "demo_mem = store64 (store64 (store64 (store64 (store64 (\<lambda>_. 0) 0x80030000 0x80031000) 0x80031000 0x80032000)
     0x80032000 0x80033000) 0x80033000 0x80034000) 0x80034000 0x80035000"

definition demo :: kmem where
  "demo = boot_kmem\<lparr>mem := demo_mem, freelist := 0x80030000\<rparr>"

lemma load64_zero: "load64 (\<lambda>_. 0) a = 0"
  by (auto simp: load64_def rd_def intro!: from_le_zero)

lemma demo_kmem: "kmem_inv demo demo_free"
  by (simp add: kmem_inv_def demo_def demo_free_def demo_mem_def is_page_def boot_kmem_simps c_defs aligned_def load64_zero)

lemma demo_outside: "same_outside {0x80030000, 0x80031000, 0x80032000, 0x80033000, 0x80034000} (\<lambda>_. 0) demo_mem"
proof -
  have st: "same_outside {p} m (store64 m p v)" if "aligned 12 p" for p m v
    using same_outside_store64 [of p m v] aligned_mono [OF that, of 3] PGROUNDDOWN_aligned [OF that] by simp
  have al: "aligned 12 0x80030000" "aligned 12 0x80031000" "aligned 12 0x80032000" "aligned 12 0x80033000" "aligned 12 0x80034000"
    by (simp_all add: aligned_def)
  have "same_outside (((({0x80030000} \<union> {0x80031000}) \<union> {0x80032000}) \<union> {0x80033000}) \<union> {0x80034000}) (\<lambda>_. 0) demo_mem"
    unfolding demo_mem_def by (rule same_outside_trans [OF same_outside_trans [OF same_outside_trans [OF same_outside_trans
      [OF st [OF al(1)] st [OF al(2)]] st [OF al(3)]] st [OF al(4)]] st [OF al(5)]])
  then show ?thesis by (rule same_outside_mono) auto
qed

lemma demo_zero: "zero_page demo_mem demo_root"
  using demo_outside unfolding zero_page_def same_outside_def demo_root_def by simp

lemma demo_table: "aligned 12 demo_root" "wf_pt demo_mem 2 demo_root" "pages demo_mem 2 demo_root = {demo_root}"
  "pt_lookup demo_mem 2 demo_root va = None"
proof -
  show "aligned 12 demo_root" by (simp add: demo_root_def aligned_def)
  from zero_table [OF demo_zero this] show "wf_pt demo_mem 2 demo_root" "pages demo_mem 2 demo_root = {demo_root}"
    "pt_lookup demo_mem 2 demo_root va = None" by blast+
qed

lemma demo_mem_simp [simp]: "mem demo = demo_mem"
  by (simp add: demo_def)

lemma demo_aspace: "aspace demo demo_free demo_root"
proof -
  have "is_page demo demo_root" "demo_root \<notin> set demo_free"
    by (simp_all add: demo_def is_page_def demo_root_def boot_kmem_simps c_defs aligned_def demo_free_def)
  then have "pt_inv demo demo_free demo_root" using demo_kmem demo_table by (simp add: pt_inv_def)
  then show ?thesis by (rule aspaceI) (simp_all add: demo_table)
qed

section \<open>Ranges\<close>

lemma off_in_range:
  assumes "a \<le> b"
  shows "off_in a x < unat b - unat a \<longleftrightarrow> a \<le> x \<and> x < b"
proof (cases "a \<le> x")
  case True
  then show ?thesis using assms by (auto simp: off_in_def unat_sub_le word_le_nat_alt word_less_nat_alt)
next
  case False
  then have "unat (x - a) = unat x + 2 ^ 64 - unat a" by (simp add: unat_sub_if' word_le_nat_alt)
  then show ?thesis using False unat_bound [of b] by (auto simp: off_in_def)
qed

lemma PGROUNDUP_mono:
  assumes "a \<le> b" "b \<le> MAXVA"
  shows "PGROUNDUP a \<le> PGROUNDUP b" "unat (PGROUNDUP b) \<le> 2 ^ 38" "unat b \<le> unat (PGROUNDUP b)"
    "unat (PGROUNDUP b) < unat b + 4096"
proof -
  have b: "unat b \<le> 2 ^ 38" "unat a \<le> unat b" using assms by (simp_all add: word_le_nat_alt MAXVA_def)
  have le: "b \<le> PGROUNDUP b" using b by (intro PGROUNDUP_ge) simp
  then show "unat b \<le> unat (PGROUNDUP b)" by (simp add: word_le_nat_alt)
  have "PGROUNDUP a \<le> PGROUNDUP b \<longleftrightarrow> a \<le> PGROUNDUP b" using b by (intro PGROUNDUP_le_iff) simp_all
  then show "PGROUNDUP a \<le> PGROUNDUP b" using assms(1) le by simp
  have "aligned 12 MAXVA" by (simp add: aligned_def MAXVA_def)
  then have "PGROUNDUP b \<le> MAXVA" using PGROUNDUP_le_iff [of b MAXVA] b assms(2) by simp
  then show "unat (PGROUNDUP b) \<le> 2 ^ 38" by (simp add: word_le_nat_alt MAXVA_def)
  have "unat (PGROUNDUP b) = (unat b + 4095) div 4096 * 4096" using b by (intro unat_PGROUNDUP) simp
  then show "unat (PGROUNDUP b) < unat b + 4096"
    using times_div_less_eq_dividend [of 4096 "unat b + 4095"] by simp
qed

lemma page_count:
  assumes "aligned 12 a" "aligned 12 b"
  shows "4096 * ((unat b - unat a) div 4096) = unat b - unat a"
proof -
  have "4096 dvd unat b - unat a" using assms by (auto simp: aligned_dvd intro: dvd_diff_nat)
  then show ?thesis by (rule dvd_mult_div_cancel)
qed

section \<open>Growing an address space\<close>

lemma uvmalloc_Ok:
  fixes xperm :: u64
  assumes as: "aspace s ps pt" and sz: "oldsz \<le> newsz" "newsz \<le> MAXVA" and perm: "drop_bit 10 xperm = 0"
    and none: "\<And>vb. PGROUNDUP oldsz \<le> vb \<Longrightarrow> vb < PGROUNDUP newsz \<Longrightarrow> pt_lookup (mem s) 2 pt vb = None"
  defines "n \<equiv> (unat (PGROUNDUP newsz) - unat (PGROUNDUP oldsz)) div 4096"
    and "G \<equiv> grown (pages (mem s) 2 pt \<union> set ps) (mem s) pt (PGROUNDUP oldsz) (\<lambda>_. PTE_R OR PTE_U OR xperm) (\<lambda>_. replicate 4096 0)"
  shows "\<exists>r s' ps'. uvmalloc pt oldsz newsz xperm s = Ok r s' \<and> kstep s s' \<and> (r = newsz \<and> G s' ps' n \<or> r = 0 \<and> length ps < 3 * n \<and> G s' ps' 0)"
    "4096 * n = unat (PGROUNDUP newsz) - unat (PGROUNDUP oldsz)"
    "off_in (PGROUNDUP oldsz) vb < 4096 * n \<longleftrightarrow> PGROUNDUP oldsz \<le> vb \<and> vb < PGROUNDUP newsz"
proof -
  let ?a0 = "PGROUNDUP oldsz" and ?a1 = "PGROUNDUP newsz"
  note m = PGROUNDUP_mono [OF sz]
  show n: "4096 * n = unat ?a1 - unat ?a0" unfolding n_def by (rule page_count) simp_all
  have rng: "off_in ?a0 vb < 4096 * n \<longleftrightarrow> ?a0 \<le> vb \<and> vb < ?a1" for vb unfolding n by (rule off_in_range [OF m(1)])
  then show "off_in ?a0 vb < 4096 * n \<longleftrightarrow> ?a0 \<le> vb \<and> vb < ?a1" .
  have le: "unat ?a0 \<le> unat ?a1" using m(1) by (simp add: word_le_nat_alt)
  have "\<exists>r s' ps'. uvmalloc_loop pt ?a0 ?a0 newsz xperm s = Ok r s' \<and> kstep s s'
      \<and> (r = newsz \<and> G s' ps' n \<or> r = 0 \<and> length ps < 3 * n \<and> G s' ps' 0)"
    unfolding G_def
    using uvmalloc_loop_Ok [of "pages (mem s) 2 pt \<union> set ps" "mem s" pt ?a0 xperm s ps 0 n newsz] grown_0 [OF as] perm none rng m le n by auto
  moreover have "uvmalloc pt oldsz newsz xperm s = uvmalloc_loop pt ?a0 ?a0 newsz xperm s" using leD [OF sz(1)] by (simp add: uvmalloc_def)
  ultimately show "\<exists>r s' ps'. uvmalloc pt oldsz newsz xperm s = Ok r s' \<and> kstep s s' \<and> (r = newsz \<and> G s' ps' n \<or> r = 0 \<and> length ps < 3 * n \<and> G s' ps' 0)"
    by simp
qed

section \<open>A concrete user page\<close>

definition demo_perm :: u64 where
  "demo_perm = PTE_R OR PTE_W OR PTE_U"

definition demo_user :: kmem where
  "demo_user = (case mappages demo_root 0 PGSIZE 0x80050000 demo_perm demo of Ok r s \<Rightarrow> s | _ \<Rightarrow> demo)"

lemma demo_user_aspace:
  "\<exists>ps. aspace demo_user ps demo_root \<and> maps_page demo_mem (mem demo_user) demo_root 0 (PA2PTE 0x80050000 OR demo_perm OR PTE_V)
    \<and> mem demo_user 0x80050000 = 0 \<and> aspace demo_user ps 0x80041000
    \<and> pages (mem demo_user) 2 0x80041000 = {0x80041000} \<and> 0x80041000 \<notin> pages (mem demo_user) 2 demo_root
    \<and> (\<forall>va. pt_lookup (mem demo_user) 2 0x80041000 va = None) \<and> 4 \<le> length ps"
proof -
  have "fresh_page demo demo_free demo_root 0x80050000"
    using demo_table(3,4)
    by (simp add: fresh_page_def is_page_def demo_def boot_kmem_simps c_defs aligned_def demo_free_def) (simp add: demo_root_def)
  moreover have "drop_bit 10 demo_perm = 0" by (simp add: demo_perm_def c_defs)
  moreover have "(0 :: u64) < MAXVA" "aligned 12 0" by (simp_all add: MAXVA_def aligned_def)
  ultimately obtain r s' ps' where s': "mappages demo_root 0 PGSIZE 0x80050000 demo_perm demo = Ok r s'"
      "aspace s' ps' demo_root" "pt_step 2 demo_root demo demo_free s' ps'" "length demo_free \<le> length ps' + 2" "r = 0 \<and> maps_page demo_mem (mem s') demo_root 0 (PA2PTE 0x80050000 OR demo_perm OR PTE_V)
        \<or> length demo_free < 2"
    using mappages_page [OF demo_aspace, of 0 "0x80050000" demo_perm] demo_table(4) by auto
  then have mp: "maps_page demo_mem (mem s') demo_root 0 (PA2PTE 0x80050000 OR demo_perm OR PTE_V)"
    by (simp add: demo_free_def)
  then have "pt_lookup (mem s') 2 demo_root 0 = Some (PA2PTE 0x80050000 OR demo_perm OR PTE_V)"
    by (simp add: maps_page_def MAXVA_def)
  moreover have "aligned 12 0x80050000" "drop_bit 10 (demo_perm OR PTE_V) = 0" by (simp_all add: aligned_def demo_perm_def c_defs)
  ultimately have "0x80050000 \<notin> pages (mem s') 2 demo_root"
    using aspaceD(2) [OF s'(2), of 0] by (simp add: MAXVA_def)
  then have "mem s' 0x80050000 = demo_mem 0x80050000"
    using s'(3) PGROUNDDOWN_aligned [OF \<open>aligned 12 0x80050000\<close>] by (simp add: pt_step_def same_outside_def)
  also have "\<dots> = 0" using demo_outside PGROUNDDOWN_aligned [OF \<open>aligned 12 0x80050000\<close>] by (simp add: same_outside_def)
  finally have z: "mem s' 0x80050000 = 0" .
  let ?n = "0x80041000 :: u64"
  obtain us where us: "demo_free = us @ ps'" "pages (mem s') 2 demo_root = {demo_root} \<union> set us"
      "same_outside (pages (mem s') 2 demo_root) demo_mem (mem s')" "kstep demo s'"
    using s'(3) demo_table(3) by (auto simp: pt_step_def)
  have "?n \<notin> set demo_free" "?n \<noteq> demo_root" by (simp_all add: demo_free_def demo_root_def)
  moreover have "set demo_free = set us \<union> set ps'" by (simp only: us(1) set_append)
  ultimately have nn: "?n \<notin> pages (mem s') 2 demo_root" "?n \<notin> set ps'" using us(2) by auto
  have "zero_page demo_mem ?n" using demo_outside unfolding zero_page_def same_outside_def by simp
  then have zn: "zero_page (mem s') ?n" using zero_page_outside [OF us(3) nn(1)] by simp
  have aln: "aligned 12 ?n" by (simp add: aligned_def)
  note zt = zero_table [OF zn aln]
  have "is_page demo ?n" by (simp add: is_page_def demo_def boot_kmem_simps c_defs aligned_def)
  then have "pt_inv s' ps' ?n"
    using zt nn(2) pt_invD(1) [OF aspaceD(1) [OF s'(2)]] kstepD(9) [OF us(4)] by (simp add: pt_inv_def)
  then have "aspace s' ps' ?n" by (rule aspaceI) (simp_all add: zt)
  then show ?thesis using s' mp z zt nn(1) by (intro exI [of _ ps']) (simp add: demo_user_def demo_free_def)
qed

lemma demo_user_writable:
  assumes "i < 4096"
  shows "writable (mem demo_user) demo_root (of_nat i)"
proof -
  have i: "unat (of_nat i :: u64) = i" using assms by (simp only: unat_of_nat) simp
  then have lt: "(of_nat i :: u64) < MAXVA" using assms by (simp only: word_less_nat_alt) (simp add: MAXVA_def)
  have "off_in 0 (of_nat i) < 2 ^ 12" using assms i by (simp add: off_in_def)
  then have "slot 12 (of_nat i) = slot 12 0" using off_in_aligned [of 12 0 "of_nat i"] by (simp add: aligned_def)
  then have "pt_lookup (mem demo_user) 2 demo_root (of_nat i) = Some (PA2PTE 0x80050000 OR demo_perm OR PTE_V)"
    using demo_user_aspace lt by (auto simp: maps_page_def)
  then show ?thesis using lt by (simp add: writable_def demo_perm_def PA2PTE_def c_defs)
qed

section \<open>Properties\<close>

text \<open>C12: \<open>mappages\<close> on an unmapped, page-aligned range below \<open>MAXVA\<close> never panics.  It returns 0 when the
  whole range got mapped: each page of the range to the corresponding physical page with the given
  permissions, every other virtual page as before.  It returns -1 when the allocator ran dry, with the
  first \<open>k\<close> pages mapped and nothing else changed.  The page table stays a tree of distinct pages that
  the free list does not contain.\<close>

theorem mappages_correct:
  assumes "pt_inv s ps pt" "aligned 12 va" "aligned 12 sz" "0 < sz" "unat va + unat sz \<le> 2 ^ 38"
    and "\<And>vb. vb < MAXVA \<Longrightarrow> off_in va vb < unat sz \<Longrightarrow> pt_lookup (mem s) 2 pt vb = None"
  shows "\<exists>r k s' ps'. mappages pt va sz pa perm s = Ok r s' \<and> pt_inv s' ps' pt
    \<and> (r = 0 \<and> 4096 * k = unat sz \<or> r = - 1 \<and> 4096 * k < unat sz \<and> ps' = [])
    \<and> (\<forall>vb < MAXVA. pt_lookup (mem s') 2 pt vb =
         (if off_in va vb < 4096 * k then Some (PA2PTE (pa + (PGROUNDDOWN vb - va)) OR perm OR PTE_V)
          else pt_lookup (mem s) 2 pt vb))"
proof -
  obtain k s' ps' where k: "mappages pt va sz pa perm s = Ok (if 4096 * k = unat sz then 0 else - 1) s'"
    "4096 * k \<le> unat sz" "4096 * k < unat sz \<longrightarrow> ps' = [] \<and> 4096 * length ps < 2 * unat sz"
    "pt_step 2 pt s ps s' ps'" "maps_range (mem s) (mem s') pt va pa perm k"
    using mappages_Ok [OF assms, of pa perm] by blast
  have "pt_inv s' ps' pt" by (rule pt_step_inv [OF assms(1) k(4)])
  then show ?thesis
    using k by (intro exI [of _ "if 4096 * k = unat sz then 0 else - 1"] exI [of _ k] exI [of _ s'] exI [of _ ps'])
      (auto simp: maps_range_def range_pte_def)
qed

theorem mappages_correct_witness:
  "\<exists>r k s' ps'. mappages demo_root 0x2000 0x1000 0x80050000 PTE_R demo = Ok r s' \<and> pt_inv s' ps' demo_root
    \<and> (r = 0 \<and> 4096 * k = 4096 \<or> r = - 1 \<and> 4096 * k < (4096 :: nat) \<and> ps' = [])"
proof -
  have "aligned 12 0x2000" "aligned 12 0x1000" by (simp_all add: aligned_def)
  from mappages_correct [OF aspaceD(1) [OF demo_aspace] this, of "0x80050000" PTE_R] show ?thesis
    by (simp add: demo_table) blast
qed



text \<open>C18: What \<open>copyout\<close> writes, \<open>copyin\<close> reads back.  If every byte of the destination is in a user-writable
  page, \<open>copyout\<close> returns 0 and a following \<open>copyin\<close> of the same range returns 0 and the same bytes,
  however many pages the range straddles; if some byte is not, \<open>copyout\<close> returns -1.  In either case the
  page table, the free list and all memory outside the written user bytes are untouched, and neither call
  panics.\<close>

theorem copyout_copyin:
  assumes as: "aspace s ps pt" and len: "length src \<le> 2 ^ 64"
  shows "\<exists>m'. copyout pt va src s = Ok (if \<forall>i < length src. writable (mem s) pt (va + of_nat i) then 0 else - 1) (s\<lparr>mem := m'\<rparr>)
    \<and> aspace (s\<lparr>mem := m'\<rparr>) ps pt \<and> (\<forall>vb. pt_lookup m' 2 pt vb = pt_lookup (mem s) 2 pt vb)
    \<and> (\<forall>x. (\<forall>i < length src. writable (mem s) pt (va + of_nat i) \<longrightarrow> x \<noteq> phys (mem s) pt (va + of_nat i)) \<longrightarrow> m' x = mem s x)
    \<and> ((\<forall>i < length src. writable (mem s) pt (va + of_nat i)) \<longrightarrow>
         copyin pt va (length src) (s\<lparr>mem := m'\<rparr>) = Ok (0, src) (s\<lparr>mem := m'\<rparr>))"
proof -
  obtain m' where m': "copyout pt va src s = Ok (if \<forall>i < length src. writable (mem s) pt (va + of_nat i) then 0 else - 1) (s\<lparr>mem := m'\<rparr>)"
      "aspace (s\<lparr>mem := m'\<rparr>) ps pt" "\<forall>vb. pt_lookup m' 2 pt vb = pt_lookup (mem s) 2 pt vb" "copied (mem s) m' pt va src"
    using copyout_eq [OF as] by blast
  note lc = lookup_cong [of m' pt "mem s", OF m'(3) [rule_format]]
  have "copyin pt va (length src) (s\<lparr>mem := m'\<rparr>) = Ok (0, src) (s\<lparr>mem := m'\<rparr>)"
    if W: "\<forall>i < length src. writable (mem s) pt (va + of_nat i)"
  proof -
    have R: "\<forall>i < length src. readable m' pt (va + of_nat i)"
      using W unfolding lc by (auto simp: writable_def readable_def)
    have "map (\<lambda>i. m' (phys m' pt (va + of_nat i))) [0..<length src] = src"
      using m'(4) W len unfolding lc copied_def by (intro nth_equalityI) auto
    then show ?thesis using copyin_eq [OF m'(2), of va "length src"] R by auto
  qed
  then show ?thesis using m' unfolding copied_def by blast
qed

theorem copyout_copyin_witness:
  "\<exists>s'. copyout demo_root 0xFFE [1, 2] demo_user = Ok 0 s' \<and> copyin demo_root 0xFFE 2 s' = Ok (0, [1, 2]) s'"
proof -
  obtain ps where as: "aspace demo_user ps demo_root" using demo_user_aspace by blast
  have "writable (mem demo_user) demo_root (0xFFE + of_nat i)" if "i < 2" for i
    using demo_user_writable [of "0xFFE + i"] that by simp
  then have W: "\<forall>i < 2. writable (mem demo_user) demo_root (0xFFE + of_nat i)" by blast
  have len: "length [1, 2 :: u8] \<le> 2 ^ 64" by simp
  have two: "length [1, 2 :: u8] = 2" by simp
  from copyout_copyin [OF as len, of "0xFFE", unfolded two] W show ?thesis by auto
qed

text \<open>C23: \<open>copyinstr\<close> fetches a string: it returns 0, and the bytes up to and including the first NUL, exactly
  if a NUL occurs within \<open>len\<close> bytes and every byte up to it is readable by the user; otherwise it
  returns -1.  It neither panics nor changes the state.\<close>

theorem copyinstr_correct:
  assumes "aspace s ps pt"
  shows "(\<exists>k < len. nul_at (mem s) pt va k
      \<and> copyinstr pt va len s = Ok (0, map (ubyte (mem s) pt va) [0..<k] @ [0]) s)
    \<or> (\<not> (\<exists>k < len. nul_at (mem s) pt va k)) \<and> (\<exists>bs. copyinstr pt va len s = Ok (- 1, bs) s)"
  by (rule copyinstr_eq [OF assms])

theorem copyinstr_correct_witness:
  "copyinstr demo_root 0 16 demo_user = Ok (0, [0]) demo_user"
proof -
  obtain ps where as: "aspace demo_user ps demo_root" "maps_page demo_mem (mem demo_user) demo_root 0 (PA2PTE 0x80050000 OR demo_perm OR PTE_V)"
    "mem demo_user 0x80050000 = 0" using demo_user_aspace by blast
  have "pt_lookup (mem demo_user) 2 demo_root 0 = Some (PA2PTE 0x80050000 OR demo_perm OR PTE_V)"
    using as(2) by (simp add: maps_page_def MAXVA_def)
  moreover have "aligned 12 0x80050000" "drop_bit 10 (demo_perm OR PTE_V) = 0" "PGROUNDDOWN 0 = 0"
    by (simp_all add: aligned_def demo_perm_def c_defs PGROUNDDOWN_def)
  ultimately have "phys (mem demo_user) demo_root 0 = 0x80050000" by (simp add: phys_def page_at_def)
  then have z: "ubyte (mem demo_user) demo_root 0 0 = 0" using as(3) by (simp add: ubyte_def)
  moreover have "readable (mem demo_user) demo_root 0"
    using demo_user_writable [of 0] by (auto simp: readable_def writable_def)
  ultimately have n: "nul_at (mem demo_user) demo_root 0 0" by (simp add: nul_at_def)
  have "k = 0" if "nul_at (mem demo_user) demo_root 0 k" for k
    using that z by (cases k) (auto simp: nul_at_def)
  with copyinstr_correct [OF as(1), of 16 0] n show ?thesis by auto
qed

text \<open>C2: \<open>uvmcopy\<close> gives a child a private copy of its parent's memory.  If the parent's first \<open>sz\<close> bytes are
  mapped by leaf entries, the child's are not, and their tables and pages are apart, then on success every
  virtual page below \<open>sz\<close> is mapped in the child with the parent's flags, to a page that is none of the
  parent's and whose contents equal the parent's page.  On failure (-1, only when fewer than three free pages per page are
  left) the child's page map is what it was.  The parent's page map and the contents of its pages do not
  change.\<close>

theorem uvmcopy_correct:
  assumes new: "aspace s ps new" and old: "aspace s ps old" and sz: "sz \<le> MAXVA"
    and apart: "pages (mem s) 2 old \<inter> pages (mem s) 2 new = {}"
      "\<And>va w. va < MAXVA \<Longrightarrow> pt_lookup (mem s) 2 old va = Some w \<Longrightarrow> PTE2PA w \<notin> pages (mem s) 2 new"
    and unmapped: "\<And>vb. vb < PGROUNDUP sz \<Longrightarrow> pt_lookup (mem s) 2 new vb = None"
    and mapped: "\<And>vb. vb < PGROUNDUP sz \<Longrightarrow> leaf s old vb"
  shows "\<exists>r s' ps'. uvmcopy old new sz s = Ok r s' \<and> aspace s' ps' new
    \<and> (r = 0 \<and> (\<forall>vb < MAXVA. if vb < PGROUNDUP sz
         then \<exists>p w. pt_lookup (mem s) 2 old vb = Some w \<and> pt_lookup (mem s') 2 new vb = Some (PA2PTE p OR PTE_FLAGS w OR PTE_V)
            \<and> rd (mem s') p 4096 = rd (mem s) (PTE2PA w) 4096
            \<and> (\<forall>vc < MAXVA. \<forall>w'. pt_lookup (mem s) 2 old vc = Some w' \<longrightarrow> PTE2PA w' \<noteq> p)
         else pt_lookup (mem s') 2 new vb = pt_lookup (mem s) 2 new vb)
      \<or> r = - 1 \<and> 4096 * length ps < 3 * unat (PGROUNDUP sz)
         \<and> (\<forall>vb < MAXVA. pt_lookup (mem s') 2 new vb = pt_lookup (mem s) 2 new vb))
    \<and> (\<forall>vb < MAXVA. pt_lookup (mem s') 2 old vb = pt_lookup (mem s) 2 old vb)
    \<and> (\<forall>vb < MAXVA. \<forall>w. pt_lookup (mem s) 2 old vb = Some w \<longrightarrow> rd (mem s') (PTE2PA w) 4096 = rd (mem s) (PTE2PA w) 4096)"
proof -
  let ?a1 = "PGROUNDUP sz" and ?A = "pages (mem s) 2 new \<union> set ps"
  let ?F = "\<lambda>vb. PTE_FLAGS (the (pt_lookup (mem s) 2 old vb))" and ?C = "\<lambda>vb. rd (mem s) (page_at (mem s) old vb) 4096"
  note inv = aspaceD(1) [OF old]
  note d = pt_invD [OF inv]
  note m = PGROUNDUP_mono [OF order_refl sz]
  have lv: "pt_lookup (mem s) 2 old va = Some w \<Longrightarrow> va < MAXVA \<Longrightarrow> PTE2PA w \<notin> ?A" for va w
    using apart(2) aspaceD(2) [OF old] by blast
  have "0 \<notin> pages (mem s) 2 old" using d(4) kmem_invD(6) [OF d(1)] by blast
  then have ap: "apart ?A (mem s) old" using d(2,3) apart(1) lv unfolding apart_def by auto
  define n where "n = unat ?a1 div 4096"
  have "aligned 12 0" by (simp add: aligned_def)
  from page_count [OF this aligned_PGROUNDUP, of sz] have n: "4096 * n = unat ?a1" by (simp add: n_def)
  have rng: "off_in 0 vb < 4096 * n \<longleftrightarrow> vb < ?a1" for vb by (simp add: off_in_def n word_less_nat_alt)
  have mp: "\<exists>w. pt_lookup (mem s) 2 old vb = Some w \<and> PTE_FLAGS w \<noteq> PTE_V" if "vb < ?a1" for vb
    using mapped [OF that] by (simp add: leaf_def)
  have "\<exists>r s' ps'. uvmcopy_loop old new (of_nat 0 * PGSIZE) sz s = Ok r s' \<and> kstep s s'
      \<and> (r = 0 \<and> grown ?A (mem s) new 0 ?F ?C s' ps' (0 + n) \<or> r = - 1 \<and> length ps < 3 * n \<and> grown ?A (mem s) new 0 ?F ?C s' ps' 0)"
    by (rule uvmcopy_loop_Ok [OF grown_0 [OF new] ap]) (use unmapped mp m n rng in simp_all)
  then obtain r s' ps' where r: "uvmcopy_loop old new 0 sz s = Ok r s'"
      "r = 0 \<and> grown ?A (mem s) new 0 ?F ?C s' ps' n \<or> r = - 1 \<and> length ps < 3 * n \<and> grown ?A (mem s) new 0 ?F ?C s' ps' 0"
    by auto
  have out: "same_outside ?A (mem s) (mem s')" "aspace s' ps' new" using r(2) grownD(1,3) by blast+
  have "rd (mem s') (PTE2PA w) 4096 = rd (mem s) (PTE2PA w) 4096" if "vb < MAXVA" "pt_lookup (mem s) 2 old vb = Some w" for vb w
    using lv that by (intro rd_outside [OF out(1) aligned_PTE2PA]) blast
  moreover have "pt_lookup (mem s') 2 old vb = pt_lookup (mem s) 2 old vb" for vb
    using ap by (intro pt_lookup_outside [OF out(1)]) (auto simp: apart_def)
  moreover have "r = 0 \<and> (\<forall>vb < MAXVA. if vb < ?a1
         then \<exists>p w. pt_lookup (mem s) 2 old vb = Some w \<and> pt_lookup (mem s') 2 new vb = Some (PA2PTE p OR PTE_FLAGS w OR PTE_V)
            \<and> rd (mem s') p 4096 = rd (mem s) (PTE2PA w) 4096
            \<and> (\<forall>vc < MAXVA. \<forall>w'. pt_lookup (mem s) 2 old vc = Some w' \<longrightarrow> PTE2PA w' \<noteq> p)
         else pt_lookup (mem s') 2 new vb = pt_lookup (mem s) 2 new vb)
      \<or> r = - 1 \<and> 4096 * length ps < 3 * unat ?a1 \<and> (\<forall>vb < MAXVA. pt_lookup (mem s') 2 new vb = pt_lookup (mem s) 2 new vb)"
    using r(2)
  proof (elim disjE conjE)
    assume r0: "r = 0" and g: "grown ?A (mem s) new 0 ?F ?C s' ps' n"
    have "\<exists>p w. pt_lookup (mem s) 2 old vb = Some w \<and> pt_lookup (mem s') 2 new vb = Some (PA2PTE p OR PTE_FLAGS w OR PTE_V)
        \<and> rd (mem s') p 4096 = rd (mem s) (PTE2PA w) 4096
        \<and> (\<forall>vc < MAXVA. \<forall>w'. pt_lookup (mem s) 2 old vc = Some w' \<longrightarrow> PTE2PA w' \<noteq> p)" if "vb < MAXVA" "vb < ?a1" for vb
    proof -
      obtain w where w: "pt_lookup (mem s) 2 old vb = Some w" using mp \<open>vb < ?a1\<close> by blast
      obtain p where p: "p \<in> ?A" "pt_lookup (mem s') 2 new vb = Some (PA2PTE p OR PTE_FLAGS w OR PTE_V)"
          "rd (mem s') p 4096 = rd (mem s) (PTE2PA w) 4096"
        using grownD(4) [OF g \<open>vb < MAXVA\<close>] \<open>vb < ?a1\<close> rng w by (auto simp: filled_def page_at_def)
      then show ?thesis using w lv by blast
    qed
    then show ?thesis using r0 grownD(5) [OF g] unfolding rng by auto
  next
    assume "r = - 1" "length ps < 3 * n" and g: "grown ?A (mem s) new 0 ?F ?C s' ps' 0"
    then show ?thesis using grownD(5) [OF g] n by auto
  qed
  ultimately show ?thesis using r(1) out(2) by (intro exI [of _ r] exI [of _ s'] exI [of _ ps']) (simp add: uvmcopy_def)
qed

theorem uvmcopy_correct_witness:
  "\<exists>s' p w. uvmcopy demo_root 0x80041000 0x1000 demo_user = Ok 0 s'
    \<and> pt_lookup (mem demo_user) 2 demo_root 0 = Some w
    \<and> pt_lookup (mem s') 2 0x80041000 0 = Some (PA2PTE p OR PTE_FLAGS w OR PTE_V) \<and> PTE2PA w \<noteq> p"
proof -
  obtain ps where as: "aspace demo_user ps demo_root" "aspace demo_user ps 0x80041000"
    "pages (mem demo_user) 2 0x80041000 = {0x80041000}" "0x80041000 \<notin> pages (mem demo_user) 2 demo_root"
    "\<forall>va. pt_lookup (mem demo_user) 2 0x80041000 va = None" "4 \<le> length ps"
    "maps_page demo_mem (mem demo_user) demo_root 0 (PA2PTE 0x80050000 OR demo_perm OR PTE_V)"
    using demo_user_aspace by blast
  have up: "PGROUNDUP 0x1000 = 0x1000" by (simp add: PGROUNDUP_aligned aligned_def)
  have d: "drop_bit 10 (demo_perm OR PTE_V) = 0" "demo_perm OR PTE_V \<noteq> PTE_V" by (simp_all add: demo_perm_def c_defs)
  have al: "aligned 12 0x80050000" "aligned 12 0" by (simp_all add: aligned_def)
  have lk: "pt_lookup (mem demo_user) 2 demo_root vb = Some (PA2PTE 0x80050000 OR demo_perm OR PTE_V)" if "vb < 0x1000" for vb
  proof -
    have "vb < MAXVA" using that by (simp add: word_less_nat_alt MAXVA_def)
    moreover have "slot 12 vb = slot 12 0"
      using that off_in_aligned [OF al(2), of vb] by (simp add: off_in_def word_less_nat_alt)
    ultimately show ?thesis using as(7) by (simp add: maps_page_def)
  qed
  have only: "PTE2PA w \<noteq> 0x80041000" if "va < MAXVA" "pt_lookup (mem demo_user) 2 demo_root va = Some w" for va w
    using as(7) that demo_table(4) al(1) d(1) by (auto simp: maps_page_def split: if_splits)
  have lf: "leaf demo_user demo_root vb" if "vb < PGROUNDUP 0x1000" for vb
    using lk that d unfolding up by (simp add: leaf_def)
  have "0x1000 \<le> MAXVA" "(0 :: u64) < MAXVA" by (simp_all add: MAXVA_def)
  note c = this
  have memory: "\<not> 4096 * length ps < 3 * unat (0x1000 :: u64)" using as(6) by simp
  have dis: "pages (mem demo_user) 2 demo_root \<inter> pages (mem demo_user) 2 0x80041000 = {}" using as(3,4) by simp
  have un: "PTE2PA w \<notin> pages (mem demo_user) 2 0x80041000" if "va < MAXVA" "pt_lookup (mem demo_user) 2 demo_root va = Some w" for va w
    using only [OF that] as(3) by simp
  have none: "pt_lookup (mem demo_user) 2 0x80041000 vb = None" if "vb < PGROUNDUP 0x1000" for vb using as(5) by blast
  obtain s' where s': "uvmcopy demo_root 0x80041000 0x1000 demo_user = Ok 0 s'"
      "\<forall>vb < MAXVA. if vb < 0x1000 then \<exists>p w. pt_lookup (mem demo_user) 2 demo_root vb = Some w
         \<and> pt_lookup (mem s') 2 0x80041000 vb = Some (PA2PTE p OR PTE_FLAGS w OR PTE_V) \<and> rd (mem s') p 4096 = rd (mem demo_user) (PTE2PA w) 4096
         \<and> (\<forall>vc < MAXVA. \<forall>w'. pt_lookup (mem demo_user) 2 demo_root vc = Some w' \<longrightarrow> PTE2PA w' \<noteq> p)
       else pt_lookup (mem s') 2 0x80041000 vb = pt_lookup (mem demo_user) 2 0x80041000 vb"
  proof -
    have dis2: "\<And>va w. va < MAXVA \<Longrightarrow> pt_lookup (mem demo_user) 2 demo_root va = Some w \<Longrightarrow> PTE2PA w \<notin> pages (mem demo_user) 2 0x80041000"
      using un by blast
    have none2: "\<And>vb. vb < PGROUNDUP 0x1000 \<Longrightarrow> pt_lookup (mem demo_user) 2 0x80041000 vb = None" using none by blast
    have lf2: "\<And>vb. vb < PGROUNDUP 0x1000 \<Longrightarrow> leaf demo_user demo_root vb" using lf by blast
    have "\<exists>r s'. uvmcopy demo_root 0x80041000 0x1000 demo_user = Ok r s' \<and> (r = 0 \<and> (\<forall>vb < MAXVA. if vb < PGROUNDUP 0x1000
         then \<exists>p w. pt_lookup (mem demo_user) 2 demo_root vb = Some w \<and> pt_lookup (mem s') 2 0x80041000 vb = Some (PA2PTE p OR PTE_FLAGS w OR PTE_V)
            \<and> rd (mem s') p 4096 = rd (mem demo_user) (PTE2PA w) 4096
            \<and> (\<forall>vc < MAXVA. \<forall>w'. pt_lookup (mem demo_user) 2 demo_root vc = Some w' \<longrightarrow> PTE2PA w' \<noteq> p)
         else pt_lookup (mem s') 2 0x80041000 vb = pt_lookup (mem demo_user) 2 0x80041000 vb)
      \<or> r = - 1 \<and> 4096 * length ps < 3 * unat (PGROUNDUP 0x1000)
         \<and> (\<forall>vb < MAXVA. pt_lookup (mem s') 2 0x80041000 vb = pt_lookup (mem demo_user) 2 0x80041000 vb))"
      by (rule exE [OF uvmcopy_correct [OF as(2,1) c(1) dis]]) (use dis2 none2 lf2 in \<open>blast+\<close>)
    then obtain r s' where o: "uvmcopy demo_root 0x80041000 0x1000 demo_user = Ok r s'"
      and c: "(r = 0 \<and> (\<forall>vb < MAXVA. if vb < PGROUNDUP 0x1000
         then \<exists>p w. pt_lookup (mem demo_user) 2 demo_root vb = Some w \<and> pt_lookup (mem s') 2 0x80041000 vb = Some (PA2PTE p OR PTE_FLAGS w OR PTE_V)
            \<and> rd (mem s') p 4096 = rd (mem demo_user) (PTE2PA w) 4096
            \<and> (\<forall>vc < MAXVA. \<forall>w'. pt_lookup (mem demo_user) 2 demo_root vc = Some w' \<longrightarrow> PTE2PA w' \<noteq> p)
         else pt_lookup (mem s') 2 0x80041000 vb = pt_lookup (mem demo_user) 2 0x80041000 vb)
      \<or> r = - 1 \<and> 4096 * length ps < 3 * unat (PGROUNDUP 0x1000)
         \<and> (\<forall>vb < MAXVA. pt_lookup (mem s') 2 0x80041000 vb = pt_lookup (mem demo_user) 2 0x80041000 vb))" by blast
    from c have "r = 0" using memory unfolding up by blast
    with c o show thesis unfolding up by (intro that) simp_all
  qed
  from s'(2) [rule_format, OF c(2)] c(2) s'(1) show ?thesis by auto
qed

end
