(* ===== verification/Proc_Properties.thy ===== *)
theory Proc_Properties
  imports Proc_Alloc Vm_Properties
begin

text \<open>
  The properties of \<^verbatim>\<open>kernel/proc.c\<close>, with a concrete kernel state on which they are instantiated.
\<close>

section \<open>Fairness of the scheduler\<close>

lemma scheduler_scan_touch: "i < NPROC \<Longrightarrow> scheduler_scan i (touch s) = scheduler_scan i s"
  by (simp add: scheduler_scan_def upt_conv_Cons scheduler_pick_touch)

definition sched_ok :: "nat \<Rightarrow> 'z kproc_scheme \<Rightarrow> bool" where
  "sched_ok p s \<longleftrightarrow> settled s \<and> noff (mycpu s) = 0 \<and> proc_locks_free s \<and> p_state (procs s p) = RUNNABLE"

lemma sched_ok_intr_on: "sched_ok p s \<Longrightarrow> sched_ok p (touch (intr_on s))"
  by (auto simp: sched_ok_def proc_locks_free_def touch_def settled_def unheld_def lock_defs)

lemma sched_ok_back:
  assumes "sched_ok p v" "q < NPROC"
  shows "scheduler_back q (take_lock (L_proc q) v) = Ok () (set_cproc None v)" "sched_ok p (set_cproc None v)"
  using assms scheduler_back_eq [of v q] by (auto simp: sched_ok_def proc_locks_free_def)

lemma sched_ok_scan:
  assumes "sched_ok p u"
  shows "scheduler_scan i u = Ok None u \<and> \<not> (i \<le> p \<and> p < NPROC)
    \<or> (\<exists>q. scheduler_scan i u = Ok (Some q) (run_proc q u) \<and> scheduler_pick q u = Ok True (run_proc q u)
        \<and> i \<le> q \<and> q < NPROC \<and> (i \<le> p \<longrightarrow> p < NPROC \<longrightarrow> q \<le> p))"
proof (cases "find (\<lambda>p. p_state (procs u p) = RUNNABLE) [i..<NPROC]")
  case None
  then have "scheduler_scan i u = Ok None u" using assms scheduler_scan_eq [of u i] by (simp add: sched_ok_def)
  then show ?thesis using assms None by (auto simp: sched_ok_def find_None_iff)
next
  case (Some q)
  then obtain j where j: "j < NPROC - i" "q = i + j" "p_state (procs u q) = RUNNABLE"
      "\<forall>k < j. p_state (procs u (i + k)) \<noteq> RUNNABLE"
    by (auto simp: find_Some_iff)
  have "q \<le> p" if "i \<le> p" "p < NPROC"
  proof (rule ccontr)
    assume "\<not> q \<le> p"
    then have "p - i < j" using that j(2) by auto
    with j(4) have "p_state (procs u (i + (p - i))) \<noteq> RUNNABLE" by blast
    then show False using assms that by (simp add: sched_ok_def)
  qed
  moreover have "scheduler_scan i u = Ok (Some q) (run_proc q u)"
    using assms Some scheduler_scan_eq [of u i] by (simp add: sched_ok_def)
  moreover have "scheduler_pick q u = Ok True (run_proc q u)"
    using assms j scheduler_pick_eq [of u q] by (simp add: sched_ok_def proc_locks_free_def)
  ultimately show ?thesis using j by auto
qed

lemma scheduler_run_up:
  assumes run: "\<And>q u t. q < NPROC \<Longrightarrow> q \<noteq> p \<Longrightarrow> sched_ok p u \<Longrightarrow> scheduler_pick q u = Ok True t \<Longrightarrow>
      \<exists>v. run q t = take_lock (L_proc q) v \<and> sched_ok p v"
  shows "sched_ok p u \<Longrightarrow> i \<le> p \<Longrightarrow> p < NPROC \<Longrightarrow> p - i < k \<Longrightarrow> p \<in> set (scheduler_run run k i u)"
proof (induction k arbitrary: i u)
  case (Suc k)
  from sched_ok_scan [OF Suc.prems(1), of i] Suc.prems(2,3) obtain q where
    q: "scheduler_scan i u = Ok (Some q) (run_proc q u)" "scheduler_pick q u = Ok True (run_proc q u)" "i \<le> q" "q \<le> p" by blast
  show ?case
  proof (cases "q = p")
    case False
    then have "q < NPROC" using q Suc.prems(3) by simp
    with run [OF _ False Suc.prems(1) q(2)] obtain v where v: "run q (run_proc q u) = take_lock (L_proc q) v" "sched_ok p v" by blast
    have "p \<in> set (scheduler_run run k (Suc q) (set_cproc None v))"
      by (rule Suc.IH [OF sched_ok_back(2) [OF v(2)]]) (use q False Suc.prems \<open>q < NPROC\<close> in auto)
    then show ?thesis using q(1) v sched_ok_back(1) [OF v(2) \<open>q < NPROC\<close>] by simp
  qed (use q(1) in simp)
qed simp

lemma scheduler_run_wrap:
  assumes run: "\<And>q u t. q < NPROC \<Longrightarrow> q \<noteq> p \<Longrightarrow> sched_ok p u \<Longrightarrow> scheduler_pick q u = Ok True t \<Longrightarrow>
      \<exists>v. run q t = take_lock (L_proc q) v \<and> sched_ok p v"
    and p: "p < NPROC"
  shows "sched_ok p u \<Longrightarrow> p < i \<Longrightarrow> i \<le> NPROC \<Longrightarrow> NPROC - i + p + 1 < k \<Longrightarrow> p \<in> set (scheduler_run run k i u)"
proof (induction k arbitrary: i u)
  case (Suc k)
  from sched_ok_scan [OF Suc.prems(1), of i] Suc.prems(2) consider
      (none) "scheduler_scan i u = Ok None u"
    | (some) q where "scheduler_scan i u = Ok (Some q) (run_proc q u)" "scheduler_pick q u = Ok True (run_proc q u)" "i \<le> q" "q < NPROC"
    by auto
  then show ?case
  proof cases
    case none
    have "p \<in> set (scheduler_run run k 0 (touch (intr_on u)))"
      by (rule scheduler_run_up [OF run sched_ok_intr_on [OF Suc.prems(1)]]) (use p Suc.prems in auto)
    moreover have "scheduler_run run k 0 (touch (intr_on u)) = scheduler_run run k 0 (intr_on u)"
      using p by (cases k) (simp_all add: scheduler_scan_touch)
    ultimately show ?thesis using none by simp
  next
    case some
    have "q \<noteq> p" using some Suc.prems(2) by simp
    with run [OF some(4) _ Suc.prems(1) some(2)] obtain v where v: "run q (run_proc q u) = take_lock (L_proc q) v" "sched_ok p v" by blast
    have "p \<in> set (scheduler_run run k (Suc q) (set_cproc None v))"
      by (rule Suc.IH [OF sched_ok_back(2) [OF v(2) some(4)]]) (use some Suc.prems in auto)
    then show ?thesis using some(1) v sched_ok_back(1) [OF v(2) some(4)] by simp
  qed
qed simp

section \<open>A concrete kernel\<close>

definition demo_proc :: proc where
  "demo_proc = \<lparr>p_state = UNUSED, p_chan = None, p_killed = 0, p_xstate = 0, p_pid = 0, p_parent = None, p_kstack = 0,
     p_sz = 0, p_pagetable = 0, p_trapframe = 0, p_context = \<lparr>ctx_ra = 0, ctx_sp = 0, ctx_s = []\<rparr>,
     p_ofile = [], p_cwd = None, p_name = [], p_intena = False\<rparr>"

text \<open>Process 0 is running with pid 1, process 1 sleeps on the ticks, process 2 is runnable; the rest of the
  table is unused.\<close>

definition demo_procs :: "nat \<Rightarrow> proc" where
  "demo_procs = (\<lambda>_. demo_proc)(0 := demo_proc\<lparr>p_pid := 1, p_state := RUNNING\<rparr>,
     1 := demo_proc\<lparr>p_pid := 2, p_state := SLEEPING, p_chan := Some Ch_ticks\<rparr>, 2 := demo_proc\<lparr>p_pid := 3, p_state := RUNNABLE\<rparr>)"

definition demo_kproc :: kproc where
  "demo_kproc = (kmem.extend demo \<lparr>kernel_pagetable = 0, satp = (\<lambda>_. 0), uart_regs = (\<lambda>_. 0), uart_out = [], uart_room = 0, uart_in = [], uart_tx_buf = [], uart_tx_w = 0,
     uart_tx_r = 0, panicked = False, pr_locking = False, procs = demo_procs, initproc = Some 0, nextpid = 4, sym_forkret = 0\<rparr>)\<lparr>cpus := (\<lambda>_. \<lparr>cproc = None, noff = 0, intena = True\<rparr>)\<rparr>"

lemma demo_kproc_simps [simp]:
  "procs demo_kproc = demo_procs" "nextpid demo_kproc = 4" "noff (mycpu demo_kproc) = 0" "settled demo_kproc"
  "unheld l demo_kproc" "proc_locks_free demo_kproc" "mem demo_kproc = demo_mem" "cur demo_kproc = None"
  by (simp_all add: demo_kproc_def kmem.defs demo_def boot_kmem_def machine.defs idle_machine_def settled_def lock_defs
    unheld_def proc_locks_free_def)

lemma demo_kproc_kmem: "kmem_inv demo_kproc demo_free"
  using demo_kmem by (simp add: demo_kproc_def kmem.defs demo_def boot_kmem_def machine.defs idle_machine_def
    kmem_inv_def is_page_def cpu_ok_def lock_defs unheld_def)

lemma demo_find:
  "find (\<lambda>i. p_state (demo_procs i) = UNUSED) [0..<NPROC] = Some 3"
  "find (\<lambda>i. p_pid (demo_procs i) = 0) [0..<NPROC] = Some 3"
  by (simp_all add: NPROC_def demo_procs_def demo_proc_def upt_conv_Cons)

section \<open>Allocation, sleeping and killing\<close>

lemma allocproc_eq:
  assumes "settled s" "proc_locks_free s"
  shows "allocproc s = (case find (\<lambda>i. p_state (procs s i) = UNUSED) [0..<NPROC] of
      None \<Rightarrow> Ok None s | Some i \<Rightarrow> allocproc_found i (take_lock (L_proc i) s))"
  unfolding allocproc_def
  by (subst scan_res_find [where P = "\<lambda>i. p_state (procs s i) = UNUSED"])
    (use assms in \<open>auto simp: proc_locks_freeD dest!: find_Some_iff [THEN iffD1] split: option.splits\<close>)

lemma sym_forkret_lock [simp]: "sym_forkret (take_lock l s) = sym_forkret s"
  by (simp add: take_lock_def push_off_eq lock_defs)

lemma kmem_inv_drop_lock: "kmem_inv (take_lock l s) ps \<Longrightarrow> cpu_ok s \<Longrightarrow> unheld L_kmem s \<Longrightarrow> kmem_inv s ps"
  by (simp add: kmem_inv_def is_page_def take_lock_def push_off_eq lock_defs)



text \<open>C26: \<open>wakeup\<close> makes exactly the processes that sleep on the channel runnable, the caller excepted, and
  changes nothing else: locks, interrupts and every other process are as before.\<close>

theorem wakeup_correct:
  assumes "settled s" "\<And>p. p < NPROC \<Longrightarrow> cur s \<noteq> Some p \<Longrightarrow> unheld (L_proc p) s"
  shows "wakeup ch s = Ok () (s\<lparr>procs := (\<lambda>p.
      if p < NPROC \<and> cur s \<noteq> Some p \<and> p_state (procs s p) = SLEEPING \<and> p_chan (procs s p) = ch
      then (procs s p)\<lparr>p_state := RUNNABLE\<rparr> else procs s p)\<rparr>)"
  by (subst wakeup_Ok) (use assms in \<open>auto simp: wake_def intro!: arg_cong [of _ _ "\<lambda>z. s\<lparr>procs := z\<rparr>"]\<close>)

theorem wakeup_correct_witness:
  "\<exists>s'. wakeup (Some Ch_ticks) demo_kproc = Ok () s' \<and> p_state (procs s' 1) = RUNNABLE"
  using wakeup_correct [of demo_kproc "Some Ch_ticks"] by (simp add: demo_procs_def proc_locks_freeD NPROC_def)



text \<open>C27: \<open>kill\<close> takes pid 0, the pid of every unused slot, for a process: \<open>kill(0)\<close> reports success and marks an
  unused slot killed, and since \<open>allocproc\<close> does not clear the mark, the next process allocated there starts its
  life killed.\<close>

theorem kill_zero:
  assumes "kmem_inv s ps" "6 \<le> length ps" "settled s" "proc_locks_free s" "unheld L_pid s"
    and "find (\<lambda>i. p_pid (procs s i) = 0) [0..<NPROC] = Some i" "find (\<lambda>i. p_state (procs s i) = UNUSED) [0..<NPROC] = Some i"
  shows "\<exists>s1 s2. kill 0 s = Ok 0 s1 \<and> allocproc s1 = Ok (Some i) s2 \<and> p_killed (procs s2 i) = 1"
proof -
  let ?s1 = "upd_proc i mark_killed s"
  have k: "kill 0 s = Ok 0 ?s1" using kill_eq [OF assms(3,4), of 0] assms(6) by simp
  have i: "i < NPROC" using assms(7) by (auto simp: find_Some_iff)
  have "p_state (procs ?s1 j) = UNUSED \<longleftrightarrow> p_state (procs s j) = UNUSED" for j
    by (cases "j = i") (auto simp: mark_killed_def)
  then have f: "find (\<lambda>i. p_state (procs ?s1 i) = UNUSED) [0..<NPROC] = Some i" using assms(7) by simp
  have ok: "kmem_inv ?s1 ps" "settled ?s1" "proc_locks_free ?s1" "unheld L_pid ?s1"
    using assms(1,3-5) by (simp_all add: proc_locks_free_def)
  have "unheld (L_proc i) ?s1" using proc_locks_freeD [OF ok(3) i] .
  from allocproc_found_Ok [of "take_lock (L_proc i) ?s1" ps i] ok this assms(2)
  obtain s2 where "allocproc_found i (take_lock (L_proc i) ?s1) = Ok (Some i) s2" "p_killed (procs s2 i) = 1"
    by (force simp: Let_def new_proc_def mark_killed_def)
  then show ?thesis using k f allocproc_eq [OF ok(2,3)] by simp
qed

theorem kill_zero_witness:
  "\<exists>s1 s2. kill 0 demo_kproc = Ok 0 s1 \<and> allocproc s1 = Ok (Some 3) s2 \<and> p_killed (procs s2 3) = 1"
  by (rule kill_zero [OF demo_kproc_kmem]) (simp_all add: demo_find demo_free_def)

text \<open>C10: The scheduler does not starve a runnable process: if every process it switches to eventually switches
  back, holding its own lock only and leaving \<open>p\<close> runnable, then \<open>p\<close> itself is switched to within
  \<open>NPROC + 1\<close> turns of the loops, wherever the scan stands.\<close>

theorem scheduler_fair:
  assumes "\<And>q u t. q < NPROC \<Longrightarrow> q \<noteq> p \<Longrightarrow> sched_ok p u \<Longrightarrow> scheduler_pick q u = Ok True t \<Longrightarrow>
      \<exists>v. run q t = take_lock (L_proc q) v \<and> sched_ok p v"
    and "sched_ok p s" "p < NPROC" "i \<le> NPROC"
  shows "p \<in> set (scheduler_run run (NPROC + 1) i s)"
proof (cases "i \<le> p")
  case True
  then show ?thesis using assms by (intro scheduler_run_up [of p run]) auto
next
  case False
  then show ?thesis using assms by (intro scheduler_run_wrap [of p run]) auto
qed

text \<open>A process that yields at once.\<close>

definition yields :: "nat \<Rightarrow> kproc \<Rightarrow> kproc" where
  "yields q s = upd_proc q (\<lambda>r. r\<lparr>p_state := RUNNABLE\<rparr>) s"

theorem scheduler_fair_witness: "2 \<in> set (scheduler_run yields (NPROC + 1) 7 demo_kproc)"
proof (rule scheduler_fair)
  fix q t and u :: kproc assume q: "q < NPROC" "q \<noteq> 2" "sched_ok 2 u" "scheduler_pick q u = Ok True t"
  then have "t = run_proc q u" using scheduler_pick_eq [of u q] by (auto simp: sched_ok_def proc_locks_freeD split: if_splits)
  then have "yields q t = take_lock (L_proc q) (set_cproc (Some q) (upd_proc q (\<lambda>r. r\<lparr>p_state := RUNNABLE\<rparr>) u))"
    by (simp add: yields_def run_proc_def)
  moreover have "sched_ok 2 (set_cproc (Some q) (upd_proc q (\<lambda>r. r\<lparr>p_state := RUNNABLE\<rparr>) u))"
    using q by (auto simp: sched_ok_def proc_locks_free_def)
  ultimately show "\<exists>v. yields q t = take_lock (L_proc q) v \<and> sched_ok 2 v" by blast
qed (simp_all add: sched_ok_def demo_procs_def NPROC_def)

end
