(* ===== verification/Console.thy ===== *)
theory Console
  imports Pipe
begin

text \<open>
  \<^verbatim>\<open>kernel/console.c\<close> and the interrupt-driven half of \<^verbatim>\<open>kernel/uart.c\<close>.  The input buffer holds three regions
  delimited by wrapping counters: \<open>cons_r .. cons_w\<close> is ready for \<open>consoleread\<close> and \<open>cons_w .. cons_e\<close> is the line
  being edited.  The transmit buffer is a second ring.
\<close>

definition INPUT_BUF_SIZE :: nat where "INPUT_BUF_SIZE = 128"

definition CONSOLE :: nat where "CONSOLE = 1"

datatype dev_driver = Console_driver

record kcons = kpipe +
  cons_buf :: "u8 list"
  cons_r :: u32
  cons_w :: u32
  cons_e :: u32
  devsw :: "nat \<Rightarrow> dev_driver option"

section \<open>UART\<close>

definition uart_tx_full :: "'z kcons_scheme \<Rightarrow> bool" where
  "uart_tx_full s \<longleftrightarrow> uart_tx_w s = uart_tx_r s + of_nat UART_TX_BUF_SIZE"

definition uart_tx_put :: "u8 \<Rightarrow> 'z kcons_scheme \<Rightarrow> 'z kcons_scheme" where
  "uart_tx_put c s = s\<lparr>uart_tx_buf := (uart_tx_buf s)[unat (uart_tx_w s) mod UART_TX_BUF_SIZE := c], uart_tx_w := uart_tx_w s + 1\<rparr>"

definition uart_tx_empty :: "'z kcons_scheme \<Rightarrow> bool" where
  "uart_tx_empty s \<longleftrightarrow> uart_tx_w s = uart_tx_r s"

definition uart_tx_get :: "'z kcons_scheme \<Rightarrow> u8 \<times> 'z kcons_scheme" where
  "uart_tx_get s = (uart_tx_buf s ! (unat (uart_tx_r s) mod UART_TX_BUF_SIZE), s\<lparr>uart_tx_r := uart_tx_r s + 1\<rparr>)"

text \<open>The loop of \<open>uartstart\<close> sends while the buffer is not empty and LSR_TX_IDLE is up; each turn takes one byte out
  of the buffer, so the number of buffered bytes bounds it.\<close>

fun uartstart_loop :: "nat \<Rightarrow> 'z kcons_scheme \<Rightarrow> (unit, 'z kcons_scheme) kres" where
  "uartstart_loop 0 s = Ok () s"
| "uartstart_loop (Suc n) s =
     (if uart_tx_empty s \<or> uart_room s = 0 then Ok () s
      else let (c, s) = uart_tx_get s
           in bindr (wakeup (Some Ch_uart) s) (\<lambda>_ s. uartstart_loop n (WriteReg THR c s)))"

definition uartstart :: "'z kcons_scheme \<Rightarrow> (unit, 'z kcons_scheme) kres" where
  "uartstart s = uartstart_loop (unat (uart_tx_w s - uart_tx_r s)) s"

definition uartputc_turn :: "u8 \<Rightarrow> 'z kcons_scheme \<Rightarrow> (unit, 'z kcons_scheme) kres" where
  "uartputc_turn c s =
     (if uart_tx_full s then sleep Ch_uart L_uart s
      else bindr (uartstart (uart_tx_put c s)) (\<lambda>_ s. release L_uart s))"

definition uartputc :: "u8 \<Rightarrow> 'z kcons_scheme \<Rightarrow> (unit, 'z kcons_scheme) kres" where
  "uartputc c s =
     bindr (acquire L_uart s) (\<lambda>_ s. if panicked s then Hang else uartputc_turn c s)"

definition uartgetc :: "'z kcons_scheme \<Rightarrow> u8 option \<times> 'z kcons_scheme" where
  "uartgetc s = (case uart_in s of [] \<Rightarrow> (None, s) | c # cs \<Rightarrow> (Some c, s\<lparr>uart_in := cs\<rparr>))"

section \<open>Console\<close>

fun consolewrite_loop :: "ksrc \<Rightarrow> nat \<Rightarrow> nat \<Rightarrow> 'z kcons_scheme \<Rightarrow> (int, 'z kcons_scheme) kres" where
  "consolewrite_loop src i 0 s = Ok (int i) s"
| "consolewrite_loop src i (Suc rest) s =
     bindr (either_copyin (ksrc_plus src i) 1 s) (\<lambda>(r, bs) s.
     if r = - 1 then Ok (int i) s
     else bindr (uartputc (hd bs) s) (\<lambda>_ s. consolewrite_loop src (Suc i) rest s))"

definition consolewrite :: "ksrc \<Rightarrow> u32 \<Rightarrow> 'z kcons_scheme \<Rightarrow> (int, 'z kcons_scheme) kres" where
  "consolewrite src n s = consolewrite_loop src 0 (nat (sint n)) s"

text \<open>\<open>consoleread\<close> with \<open>rest\<close> of \<open>target\<close> bytes still to deliver, entered with \<open>cons.lock\<close> held; a reader that slept
  continues here.\<close>

fun consoleread_loop :: "kdst \<Rightarrow> nat \<Rightarrow> nat \<Rightarrow> 'z kcons_scheme \<Rightarrow> (int, 'z kcons_scheme) kres" where
  "consoleread_loop dst target 0 s = bindr (release L_cons s) (\<lambda>_ s. Ok (int target) s)"
| "consoleread_loop dst target (Suc rest) s =
     (if cons_r s = cons_w s
      then bindr (curproc s) (\<lambda>p s. bindr (killed p s) (\<lambda>k s.
           if k \<noteq> 0 then bindr (release L_cons s) (\<lambda>_ s. Ok (- 1) s) else sleep Ch_cons L_cons s))
      else
        let c = cons_buf s ! (unat (cons_r s) mod INPUT_BUF_SIZE);
            s = s\<lparr>cons_r := cons_r s + 1\<rparr>
        in if c = 4
           then let s = (if Suc rest < target then s\<lparr>cons_r := cons_r s - 1\<rparr> else s)
                in bindr (release L_cons s) (\<lambda>_ s. Ok (int (target - Suc rest)) s)
           else bindr (either_copyout dst [c] s) (\<lambda>r s.
             if r = - 1 then bindr (release L_cons s) (\<lambda>_ s. Ok (int (target - Suc rest)) s)
             else if c = 10 then bindr (release L_cons s) (\<lambda>_ s. Ok (int (target - rest)) s)
             else consoleread_loop (kdst_plus dst 1) target rest s))"

definition consoleread :: "kdst \<Rightarrow> u32 \<Rightarrow> 'z kcons_scheme \<Rightarrow> (int, 'z kcons_scheme) kres" where
  "consoleread dst n s =
     bindr (acquire L_cons s) (\<lambda>_ s.
     if sint n \<le> 0 then bindr (release L_cons s) (\<lambda>_ s. Ok 0 s)
     else consoleread_loop dst (nat (sint n)) (nat (sint n)) s)"

definition cons_echo_erase :: "'z kcons_scheme \<Rightarrow> (unit, 'z kcons_scheme) kres" where
  "cons_echo_erase s = consputc BACKSPACE (s\<lparr>cons_e := cons_e s - 1\<rparr>)"

text \<open>The kill-line loop; each turn takes one character off the line being edited.\<close>

fun kill_line :: "nat \<Rightarrow> 'z kcons_scheme \<Rightarrow> (unit, 'z kcons_scheme) kres" where
  "kill_line 0 s = Ok () s"
| "kill_line (Suc n) s =
     (if cons_buf s ! (unat (cons_e s - 1) mod INPUT_BUF_SIZE) \<noteq> 10
      then bindr (cons_echo_erase s) (\<lambda>_ s. kill_line n s)
      else Ok () s)"

definition cons_put :: "u8 \<Rightarrow> 'z kcons_scheme \<Rightarrow> 'z kcons_scheme" where
  "cons_put c s = s\<lparr>cons_buf := (cons_buf s)[unat (cons_e s) mod INPUT_BUF_SIZE := c], cons_e := cons_e s + 1\<rparr>"

definition cons_commit :: "'z kcons_scheme \<Rightarrow> 'z kcons_scheme" where
  "cons_commit s = s\<lparr>cons_w := cons_e s\<rparr>"

definition consoleintr :: "u8 \<Rightarrow> 'z kcons_scheme \<Rightarrow> (unit, 'z kcons_scheme) kres" where
  "consoleintr c s =
     bindr (acquire L_cons s) (\<lambda>_ s.
     bindr (if c = 0x10 then procdump s
            else if c = 0x15 then kill_line (unat (cons_e s - cons_w s)) s
            else if c = 8 \<or> c = 0x7f then
              if cons_e s \<noteq> cons_w s then cons_echo_erase s else Ok () s
            else if c \<noteq> 0 \<and> cons_e s - cons_r s < of_nat INPUT_BUF_SIZE then
              let c = (if c = 13 then 10 else c)
              in bindr (consputc (ucast c) s) (\<lambda>_ s.
                 let s = cons_put c s
                 in if c = 10 \<or> c = 4 \<or> cons_e s - cons_r s = of_nat INPUT_BUF_SIZE
                    then wakeup (Some Ch_cons) (cons_commit s)
                    else Ok () s)
            else Ok () s) (\<lambda>_ s.
     release L_cons s))"

definition consoleinit :: "'z kcons_scheme \<Rightarrow> 'z kcons_scheme" where
  "consoleinit s =
     (let s = uartinit (initlock L_cons ''cons'' s)
      in s\<lparr>devsw := (devsw s)(CONSOLE := Some Console_driver)\<rparr>)"

text \<open>Each turn of the input loop of \<open>uartintr\<close> takes one byte from the receiver.\<close>

fun uartintr_input :: "nat \<Rightarrow> 'z kcons_scheme \<Rightarrow> (unit, 'z kcons_scheme) kres" where
  "uartintr_input 0 s = Ok () s"
| "uartintr_input (Suc n) s =
     (case uartgetc s of (None, s) \<Rightarrow> Ok () s
      | (Some c, s) \<Rightarrow> bindr (consoleintr c s) (\<lambda>_ s. uartintr_input n s))"

definition uartintr :: "'z kcons_scheme \<Rightarrow> (unit, 'z kcons_scheme) kres" where
  "uartintr s =
     bindr (uartintr_input (Suc (length (uart_in s))) s) (\<lambda>_ s.
     bindr (acquire L_uart s) (\<lambda>_ s. bindr (uartstart s) (\<lambda>_ s. release L_uart s)))"

end
