(* ===== verification/File.thy ===== *)
theory File
  imports Console
begin

text \<open>
  \<^verbatim>\<open>kernel/file.c\<close> and \<open>pipealloc\<close> of \<^verbatim>\<open>kernel/pipe.c\<close>: the table of open files.  A file is named by its index in
  \<^verbatim>\<open>ftable\<close>.  \<^verbatim>\<open>struct stat\<close> has four bytes of padding between \<open>nlink\<close> and \<open>size\<close>; \<open>filestat\<close> never writes them,
  so what they hold on the kernel stack is the argument \<open>pad\<close>.
\<close>

datatype filetype = FD_NONE | FD_PIPE | FD_INODE | FD_DEVICE

record file_struct =
  f_type :: filetype
  f_ref :: int
  f_readable :: bool
  f_writable :: bool
  f_pipe :: u64
  f_ip :: nat
  f_off :: u32
  f_major :: u16

record kfile = kcons +
  ftable :: "nat \<Rightarrow> file_struct"

definition upd_file :: "nat \<Rightarrow> (file_struct \<Rightarrow> file_struct) \<Rightarrow> 'z kfile_scheme \<Rightarrow> 'z kfile_scheme" where
  "upd_file f g s = s\<lparr>ftable := (ftable s)(f := g (ftable s f))\<rparr>"

definition fileinit :: "'z kfile_scheme \<Rightarrow> 'z kfile_scheme" where
  "fileinit s = initlock L_ftable ''ftable'' s"

definition filealloc :: "'z kfile_scheme \<Rightarrow> (nat option, 'z kfile_scheme) kres" where
  "filealloc s =
     bindr (acquire L_ftable s) (\<lambda>_ s.
     case find (\<lambda>f. f_ref (ftable s f) = 0) [0..<NFILE] of
       Some f \<Rightarrow> bindr (release L_ftable (upd_file f (\<lambda>x. x\<lparr>f_ref := 1\<rparr>) s)) (\<lambda>_ s. Ok (Some f) s)
     | None \<Rightarrow> bindr (release L_ftable s) (\<lambda>_ s. Ok None s))"

definition filedup :: "nat \<Rightarrow> 'z kfile_scheme \<Rightarrow> (nat, 'z kfile_scheme) kres" where
  "filedup f s =
     bindr (acquire L_ftable s) (\<lambda>_ s.
     if f_ref (ftable s f) < 1 then Panic ''filedup''
     else bindr (release L_ftable (upd_file f (\<lambda>x. x\<lparr>f_ref := f_ref x + 1\<rparr>) s)) (\<lambda>_ s. Ok f s))"

definition fileclose :: "nat \<Rightarrow> 'z kfile_scheme \<Rightarrow> (unit, 'z kfile_scheme) kres" where
  "fileclose f s =
     bindr (acquire L_ftable s) (\<lambda>_ s.
     if f_ref (ftable s f) < 1 then Panic ''fileclose''
     else
       let s = upd_file f (\<lambda>x. x\<lparr>f_ref := f_ref x - 1\<rparr>) s
       in if f_ref (ftable s f) > 0 then release L_ftable s
          else
            let ff = ftable s f; s = upd_file f (\<lambda>x. x\<lparr>f_ref := 0, f_type := FD_NONE\<rparr>) s
            in bindr (release L_ftable s) (\<lambda>_ s.
               if f_type ff = FD_PIPE then pipeclose (f_pipe ff) (f_writable ff) s
               else if f_type ff = FD_INODE \<or> f_type ff = FD_DEVICE
               then bindr (begin_op s) (\<lambda>_ s. bindr (iput (f_ip ff) s) (\<lambda>_ s. end_op s))
               else Ok () s))"

definition stat_bytes :: "u8 list \<Rightarrow> stat \<Rightarrow> u8 list" where
  "stat_bytes pad st =
     to_le 4 (st_dev st) @ to_le 4 (st_ino st) @ to_le 2 (st_type st) @ to_le 2 (st_nlink st) @ take 4 pad
       @ to_le 8 (st_size st)"

definition filestat :: "u8 list \<Rightarrow> nat \<Rightarrow> u64 \<Rightarrow> 'z kfile_scheme \<Rightarrow> (int, 'z kfile_scheme) kres" where
  "filestat pad f addr s =
     bindr (myproc s) (\<lambda>p s.
     if f_type (ftable s f) = FD_INODE \<or> f_type (ftable s f) = FD_DEVICE
     then let ip = f_ip (ftable s f)
          in bindr (ilock (Some ip) s) (\<lambda>_ s.
             let st = stati ip s
             in bindr (iunlock (Some ip) s) (\<lambda>_ s.
                case p of None \<Rightarrow> Panic ''kerneltrap''
                | Some p \<Rightarrow> bindr (copyout (p_pagetable (procs s p)) addr (stat_bytes pad st) s) (\<lambda>r s.
                    if r < 0 then Ok (- 1) s else Ok 0 s)))
     else Ok (- 1) s)"

definition dev_ok :: "u16 \<Rightarrow> 'z kfile_scheme \<Rightarrow> bool" where
  "dev_ok major s \<longleftrightarrow> \<not> (sint major < 0 \<or> sint major \<ge> int NDEV \<or> devsw s (unat major) = None)"

definition fileread :: "nat \<Rightarrow> u64 \<Rightarrow> u32 \<Rightarrow> 'z kfile_scheme \<Rightarrow> (int, 'z kfile_scheme) kres" where
  "fileread f addr n s =
     (if \<not> f_readable (ftable s f) then Ok (- 1) s
      else case f_type (ftable s f) of
        FD_PIPE \<Rightarrow> piperead (f_pipe (ftable s f)) addr n s
      | FD_DEVICE \<Rightarrow>
          if \<not> dev_ok (f_major (ftable s f)) s then Ok (- 1) s
          else consoleread (To_user addr) n s
      | FD_INODE \<Rightarrow>
          let ip = f_ip (ftable s f)
          in bindr (ilock (Some ip) s) (\<lambda>_ s.
             bindr (readi ip (To_user addr) (f_off (ftable s f)) n s) (\<lambda>(r, _) s.
             let s = (if r > 0 then upd_file f (\<lambda>x. x\<lparr>f_off := f_off x + of_int r\<rparr>) s else s)
             in bindr (iunlock (Some ip) s) (\<lambda>_ s. Ok r s)))
      | FD_NONE \<Rightarrow> Panic ''fileread'')"

definition filewrite_max :: nat where
  "filewrite_max = ((MAXOPBLOCKS - 1 - 1 - 2) div 2) * BSIZE"

lemma filewrite_max_pos: "0 < filewrite_max"
  by (simp add: filewrite_max_def MAXOPBLOCKS_def BSIZE_def)

text \<open>The loop of \<open>filewrite\<close> from byte \<open>i\<close> with \<open>rest = n - i\<close> bytes to go: the value of \<open>i\<close> when it ends.\<close>

function filewrite_loop :: "nat \<Rightarrow> u64 \<Rightarrow> nat \<Rightarrow> nat \<Rightarrow> 'z kfile_scheme \<Rightarrow> (nat, 'z kfile_scheme) kres" where
  "filewrite_loop f addr i rest s =
     (if rest = 0 then Ok i s
      else let n1 = min rest filewrite_max; ip = f_ip (ftable s f)
           in bindr (begin_op s) (\<lambda>_ s.
              bindr (ilock (Some ip) s) (\<lambda>_ s.
              bindr (writei ip (From_user (addr + of_nat i)) (f_off (ftable s f)) (of_nat n1) s) (\<lambda>r s.
              let s = (if r > 0 then upd_file f (\<lambda>x. x\<lparr>f_off := f_off x + of_int r\<rparr>) s else s)
              in bindr (iunlock (Some ip) s) (\<lambda>_ s.
                 bindr (end_op s) (\<lambda>_ s.
                 if r \<noteq> int n1 then Ok i s else filewrite_loop f addr (i + n1) (rest - n1) s))))))"
  by pat_completeness auto
termination
  by (relation "measure (\<lambda>(f, addr, i, rest, s). rest)") (auto simp: filewrite_max_pos)

declare filewrite_loop.simps [simp del]

definition filewrite :: "nat \<Rightarrow> u64 \<Rightarrow> u32 \<Rightarrow> 'z kfile_scheme \<Rightarrow> (int, 'z kfile_scheme) kres" where
  "filewrite f addr n s =
     (if \<not> f_writable (ftable s f) then Ok (- 1) s
      else case f_type (ftable s f) of
        FD_PIPE \<Rightarrow> pipewrite (f_pipe (ftable s f)) addr n s
      | FD_DEVICE \<Rightarrow>
          if \<not> dev_ok (f_major (ftable s f)) s then Ok (- 1) s
          else consolewrite (From_user addr) n s
      | FD_INODE \<Rightarrow>
          bindr (filewrite_loop f addr 0 (nat (sint n)) s) (\<lambda>i s. Ok (if int i = sint n then sint n else - 1) s)
      | FD_NONE \<Rightarrow> Panic ''filewrite'')"

definition pipealloc_bad ::
    "nat option \<Rightarrow> nat option \<Rightarrow> 'z kfile_scheme \<Rightarrow> ((nat \<times> nat) option, 'z kfile_scheme) kres" where
  "pipealloc_bad f0 f1 s =
     bindr (case f0 of None \<Rightarrow> Ok () s | Some f \<Rightarrow> fileclose f s) (\<lambda>_ s.
     bindr (case f1 of None \<Rightarrow> Ok () s | Some f \<Rightarrow> fileclose f s) (\<lambda>_ s. Ok None s))"

definition pipealloc :: "'z kfile_scheme \<Rightarrow> ((nat \<times> nat) option, 'z kfile_scheme) kres" where
  "pipealloc s =
     bindr (filealloc s) (\<lambda>f0 s.
     case f0 of None \<Rightarrow> pipealloc_bad None None s
     | Some f0 \<Rightarrow>
       bindr (filealloc s) (\<lambda>f1 s.
       case f1 of None \<Rightarrow> pipealloc_bad (Some f0) None s
       | Some f1 \<Rightarrow>
         bindr (kalloc s) (\<lambda>pi s.
         if pi = 0 then pipealloc_bad (Some f0) (Some f1) s
         else
           let s = upd_pipe pi (\<lambda>_. \<lparr>pi_data = rd (mem s) (pi + 24) PIPESIZE, pi_nread = 0, pi_nwrite = 0,
                                    pi_readopen = True, pi_writeopen = True\<rparr>) s;
               s = initlock (L_pipe pi) ''pipe'' s;
               s = upd_file f0 (\<lambda>x. x\<lparr>f_type := FD_PIPE, f_readable := True, f_writable := False, f_pipe := pi\<rparr>) s;
               s = upd_file f1 (\<lambda>x. x\<lparr>f_type := FD_PIPE, f_readable := False, f_writable := True, f_pipe := pi\<rparr>) s
           in Ok (Some (f0, f1)) s)))"

end
