(* ===== verification/Procfs.thy ===== *)
theory Procfs
  imports File
begin

text \<open>
  The functions of \<^verbatim>\<open>kernel/proc.c\<close> that use the file system: \<open>userinit\<close>, \<open>fork\<close> and \<open>exit\<close>.  \<open>exit\<close> ends in the
  switch to the scheduler, from which the process does not come back.
\<close>

definition initcode :: "u8 list" where
  "initcode =
    [0x17, 0x05, 0x00, 0x00, 0x13, 0x05, 0x45, 0x02,
     0x97, 0x05, 0x00, 0x00, 0x93, 0x85, 0x35, 0x02,
     0x93, 0x08, 0x70, 0x00, 0x73, 0x00, 0x00, 0x00,
     0x93, 0x08, 0x20, 0x00, 0x73, 0x00, 0x00, 0x00,
     0xef, 0xf0, 0x9f, 0xff, 0x2f, 0x69, 0x6e, 0x69,
     0x74, 0x00, 0x00, 0x24, 0x00, 0x00, 0x00, 0x00,
     0x00, 0x00, 0x00, 0x00]"

definition userinit :: "'z kfile_scheme \<Rightarrow> (unit, 'z kfile_scheme) kres" where
  "userinit s =
     bindr (allocproc s) (\<lambda>r s.
     let s = s\<lparr>initproc := r\<rparr>
     in case r of None \<Rightarrow> Panic ''kerneltrap''
        | Some p \<Rightarrow>
          bindr (uvmfirst (p_pagetable (procs s p)) initcode s) (\<lambda>_ s.
          let s = upd_proc p (\<lambda>q. q\<lparr>p_sz := PGSIZE\<rparr>) s;
              s = tf_set (p_trapframe (procs s p)) T_epc 0 s;
              s = tf_set (p_trapframe (procs s p)) T_sp PGSIZE s
          in bindr (of_option (safestrcpy (p_name (procs s p)) (bytes_of ''initcode'' @ [0]) 16) s) (\<lambda>nm s.
             bindr (namei (bytes_of ''/'') (upd_proc p (\<lambda>q. q\<lparr>p_name := nm\<rparr>) s)) (\<lambda>ip s.
             release (L_proc p) (upd_proc p (\<lambda>q. q\<lparr>p_cwd := ip, p_state := RUNNABLE\<rparr>) s)))))"

definition fork :: "'z kfile_scheme \<Rightarrow> (u32, 'z kfile_scheme) kres" where
  "fork s =
     bindr (curproc s) (\<lambda>p s.
     bindr (allocproc s) (\<lambda>r s.
     case r of None \<Rightarrow> Ok (- 1) s
     | Some np \<Rightarrow>
       bindr (uvmcopy (p_pagetable (procs s p)) (p_pagetable (procs s np)) (p_sz (procs s p)) s) (\<lambda>r s.
       if r < 0 then bindr (freeproc np s) (\<lambda>_ s. bindr (release (L_proc np) s) (\<lambda>_ s. Ok (- 1) s))
       else
         let s = upd_proc np (\<lambda>q. q\<lparr>p_sz := p_sz (procs s p)\<rparr>) s;
             s = s\<lparr>mem := wr (mem s) (p_trapframe (procs s np)) (rd (mem s) (p_trapframe (procs s p)) sizeof_trapframe)\<rparr>;
             s = tf_set (p_trapframe (procs s np)) T_a0 0 s
         in bindr (each_res (\<lambda>i s.
               case p_ofile (procs s p) ! i of None \<Rightarrow> Ok () s
               | Some f \<Rightarrow> bindr (filedup f s) (\<lambda>f s.
                   Ok () (upd_proc np (\<lambda>q. q\<lparr>p_ofile := (p_ofile q)[i := Some f]\<rparr>) s))) [0..<NOFILE] s) (\<lambda>_ s.
            case p_cwd (procs s p) of None \<Rightarrow> Panic ''kerneltrap''
            | Some ip \<Rightarrow>
              bindr (idup ip s) (\<lambda>ip s.
              let s = upd_proc np (\<lambda>q. q\<lparr>p_cwd := Some ip\<rparr>) s
              in bindr (of_option (safestrcpy (p_name (procs s np)) (p_name (procs s p)) 16) s) (\<lambda>nm s.
                 let s = upd_proc np (\<lambda>q. q\<lparr>p_name := nm\<rparr>) s; pid = p_pid (procs s np)
                 in bindr (release (L_proc np) s) (\<lambda>_ s.
                    bindr (acquire L_wait s) (\<lambda>_ s.
                    bindr (release L_wait (upd_proc np (\<lambda>q. q\<lparr>p_parent := Some p\<rparr>) s)) (\<lambda>_ s.
                    bindr (acquire (L_proc np) s) (\<lambda>_ s.
                    bindr (release (L_proc np) (upd_proc np (\<lambda>q. q\<lparr>p_state := RUNNABLE\<rparr>) s)) (\<lambda>_ s.
                    Ok pid s)))))))))))"

definition exit :: "u32 \<Rightarrow> 'z kfile_scheme \<Rightarrow> ('a, 'z kfile_scheme) kres" where
  "exit status s =
     bindr (curproc s) (\<lambda>p s.
     if Some p = initproc s then Panic ''init exiting''
     else bindr (each_res (\<lambda>fd s.
           case p_ofile (procs s p) ! fd of None \<Rightarrow> Ok () s
           | Some f \<Rightarrow> bindr (fileclose f s) (\<lambda>_ s.
               Ok () (upd_proc p (\<lambda>q. q\<lparr>p_ofile := (p_ofile q)[fd := None]\<rparr>) s))) [0..<NOFILE] s) (\<lambda>_ s.
       bindr (begin_op s) (\<lambda>_ s.
       bindr (case p_cwd (procs s p) of None \<Rightarrow> Panic ''kerneltrap'' | Some ip \<Rightarrow> iput ip s) (\<lambda>_ s.
       bindr (end_op s) (\<lambda>_ s.
       bindr (acquire L_wait (upd_proc p (\<lambda>q. q\<lparr>p_cwd := None\<rparr>) s)) (\<lambda>_ s.
       bindr (reparent p s) (\<lambda>_ s.
       bindr (wakeup (map_option Ch_proc (p_parent (procs s p))) s) (\<lambda>_ s.
       bindr (acquire (L_proc p) s) (\<lambda>_ s.
       bindr (release L_wait (upd_proc p (\<lambda>q. q\<lparr>p_xstate := status, p_state := ZOMBIE\<rparr>) s)) (\<lambda>_ s.
       bindr (sched s) (\<lambda>_ s. Block Ch_exit s)))))))))))"

end
