(* ===== verification/Exec.thy ===== *)
theory Exec
  imports Procfs
begin

text \<open>
  \<^verbatim>\<open>kernel/exec.c\<close>.  The ELF headers are read into byte lists at the offsets of \<^verbatim>\<open>elf.h\<close>.  The argument strings are
  where \<open>sys_exec\<close> put them, one physical page each; \<open>argv\<close> is the list of their addresses up to the null pointer.
\<close>

definition ELF_MAGIC :: u32 where "ELF_MAGIC = 0x464C457F"
definition ELF_PROG_LOAD :: u32 where "ELF_PROG_LOAD = 1"

definition get_u64 :: "nat \<Rightarrow> u8 list \<Rightarrow> u64" where
  "get_u64 off data = from_le (get_bytes off 8 data)"

record elfhdr =
  e_magic :: u32
  e_entry :: u64
  e_phoff :: u64
  e_phnum :: u16

definition elfhdr_of :: "u8 list \<Rightarrow> elfhdr" where
  "elfhdr_of d = \<lparr>e_magic = get_u32 0 d, e_entry = get_u64 24 d, e_phoff = get_u64 32 d, e_phnum = get_u16 56 d\<rparr>"

record proghdr =
  ph_type :: u32
  ph_flags :: u32
  ph_off :: u64
  ph_vaddr :: u64
  ph_filesz :: u64
  ph_memsz :: u64

definition proghdr_of :: "u8 list \<Rightarrow> proghdr" where
  "proghdr_of d = \<lparr>ph_type = get_u32 0 d, ph_flags = get_u32 4 d, ph_off = get_u64 8 d, ph_vaddr = get_u64 16 d,
     ph_filesz = get_u64 32 d, ph_memsz = get_u64 40 d\<rparr>"

definition flags2perm :: "u32 \<Rightarrow> u64" where
  "flags2perm flags = (if flags AND 1 \<noteq> 0 then PTE_X else 0) OR (if flags AND 2 \<noteq> 0 then PTE_W else 0)"

text \<open>The loop of \<open>loadseg\<close> over the pages of a segment; \<open>i\<close> is a \<^verbatim>\<open>uint\<close>.\<close>

definition loadseg :: "u64 \<Rightarrow> u64 \<Rightarrow> nat \<Rightarrow> u32 \<Rightarrow> u32 \<Rightarrow> 'z kfs_scheme \<Rightarrow> (int, 'z kfs_scheme) kres" where
  "loadseg pagetable va ip offset sz s =
     bindr (scan_res (\<lambda>k s.
       let i = of_nat (4096 * k) :: u32
       in bindr (walkaddr pagetable (va + ucast i) s) (\<lambda>pa s.
          if pa = 0 then Panic ''loadseg: address should exist''
          else let n = (if sz - i < 4096 then sz - i else 4096)
               in bindr (readi ip (To_mem pa) (offset + i) n s) (\<lambda>(r, _) s.
                  Ok (if of_int r \<noteq> n then Some (- 1) else None) s)))
       [0..<(unat sz + 4095) div 4096] s) (\<lambda>r s.
     Ok (case r of None \<Rightarrow> 0 | Some x \<Rightarrow> x) s)"

definition exec_bad :: "u64 \<Rightarrow> u64 \<Rightarrow> nat option \<Rightarrow> 'z kfile_scheme \<Rightarrow> (int, 'z kfile_scheme) kres" where
  "exec_bad pagetable sz ip s =
     bindr (if pagetable \<noteq> 0 then proc_freepagetable pagetable sz s else Ok () s) (\<lambda>_ s.
     bindr (case ip of None \<Rightarrow> Ok () s
            | Some ip \<Rightarrow> bindr (iunlockput ip s) (\<lambda>_ s. end_op s)) (\<lambda>_ s.
     Ok (- 1) s))"

text \<open>The program-header loop from header \<open>i\<close> of \<open>cnt\<close>: the new size, or \<open>Inl sz\<close> with the size at which it goes to
  \<open>bad\<close>.\<close>

fun exec_load :: "u64 \<Rightarrow> nat \<Rightarrow> u32 \<Rightarrow> nat \<Rightarrow> u64 \<Rightarrow> 'z kfile_scheme \<Rightarrow> (u64 + u64, 'z kfile_scheme) kres" where
  "exec_load pagetable ip off 0 sz s = Ok (Inr sz) s"
| "exec_load pagetable ip off (Suc cnt) sz s =
     bindr (readi ip To_obj off 56 s) (\<lambda>(r, d) s.
     if r \<noteq> 56 then Ok (Inl sz) s
     else
       let ph = proghdr_of d
       in if ph_type ph \<noteq> ELF_PROG_LOAD then exec_load pagetable ip (off + 56) cnt sz s
          else if ph_memsz ph < ph_filesz ph then Ok (Inl sz) s
          else if ph_vaddr ph + ph_memsz ph < ph_vaddr ph then Ok (Inl sz) s
          else if ph_vaddr ph mod PGSIZE \<noteq> 0 then Ok (Inl sz) s
          else bindr (uvmalloc pagetable sz (ph_vaddr ph + ph_memsz ph) (flags2perm (ph_flags ph)) s) (\<lambda>sz1 s.
            if sz1 = 0 then Ok (Inl sz) s
            else bindr (loadseg pagetable (ph_vaddr ph) ip (ucast (ph_off ph)) (ucast (ph_filesz ph)) s) (\<lambda>r s.
              if r < 0 then Ok (Inl sz1) s else exec_load pagetable ip (off + 56) cnt sz1 s)))"

text \<open>A NUL-terminated string in a page of physical memory.\<close>

definition str_at :: "u64 \<Rightarrow> 'z machine_scheme \<Rightarrow> u8 list" where
  "str_at a s = takeWhile (\<lambda>c. c \<noteq> 0) (rd (mem s) a 4096)"

text \<open>Pushing the argument strings: the stack pointer and the string addresses, or \<open>None\<close> for \<open>goto bad\<close>.\<close>

fun exec_args ::
    "u64 \<Rightarrow> u64 \<Rightarrow> u64 list \<Rightarrow> u64 \<Rightarrow> u64 list \<Rightarrow> 'z kfile_scheme \<Rightarrow> ((u64 \<times> u64 list) option, 'z kfile_scheme) kres" where
  "exec_args pagetable stackbase [] sp ustack s = Ok (Some (sp, ustack)) s"
| "exec_args pagetable stackbase (a # argv) sp ustack s =
     (if MAXARG \<le> length ustack then Ok None s
      else
        let str = str_at a s;
            sp = sp - (of_nat (length str) + 1); sp = sp - sp mod 16
        in if sp < stackbase then Ok None s
           else bindr (copyout pagetable sp (str @ [0]) s) (\<lambda>r s.
             if r < 0 then Ok None s
             else exec_args pagetable stackbase argv sp (ustack @ [sp]) s))"

text \<open>The part of a path after its last slash.\<close>

fun path_last :: "u8 list \<Rightarrow> u8 list \<Rightarrow> u8 list" where
  "path_last acc [] = acc"
| "path_last acc (c # cs) = path_last (if c = slash then cs else acc) cs"

text \<open>\<open>exec\<close> from the allocation of the user stack on.\<close>

definition exec_stack ::
    "u8 list \<Rightarrow> u64 list \<Rightarrow> elfhdr \<Rightarrow> u64 \<Rightarrow> u64 \<Rightarrow> 'z kfile_scheme \<Rightarrow> (int, 'z kfile_scheme) kres" where
  "exec_stack path argv elf pagetable sz s =
     bindr (curproc s) (\<lambda>p s.
     let oldsz = p_sz (procs s p); sz = PGROUNDUP sz
     in bindr (uvmalloc pagetable sz (sz + 2 * PGSIZE) PTE_W s) (\<lambda>sz1 s.
        if sz1 = 0 then exec_bad pagetable sz None s
        else
          let sz = sz1
          in bindr (uvmclear pagetable (sz - 2 * PGSIZE) s) (\<lambda>_ s.
             let stackbase = sz - PGSIZE
             in bindr (exec_args pagetable stackbase argv sz [] s) (\<lambda>r s.
                case r of None \<Rightarrow> exec_bad pagetable sz None s
                | Some (sp, ustack) \<Rightarrow>
                  let ustack = ustack @ [0];
                      sp = sp - of_nat (length ustack) * 8; sp = sp - sp mod 16
                  in if sp < stackbase then exec_bad pagetable sz None s
                     else bindr (copyout pagetable sp (concat (map (to_le 8) ustack)) s) (\<lambda>r s.
                       if r < 0 then exec_bad pagetable sz None s
                       else
                         let s = tf_set (p_trapframe (procs s p)) T_a1 sp s
                         in bindr (of_option (safestrcpy (p_name (procs s p)) (path_last path path @ [0]) 16) s) (\<lambda>nm s.
                            let oldpagetable = p_pagetable (procs s p);
                                s = upd_proc p (\<lambda>q. q\<lparr>p_name := nm, p_pagetable := pagetable, p_sz := sz\<rparr>) s;
                                s = tf_set (p_trapframe (procs s p)) T_epc (e_entry elf) s;
                                s = tf_set (p_trapframe (procs s p)) T_sp sp s
                            in bindr (proc_freepagetable oldpagetable oldsz s) (\<lambda>_ s.
                               Ok (int (length argv)) s)))))))"

definition exec :: "u8 list \<Rightarrow> u64 list \<Rightarrow> 'z kfile_scheme \<Rightarrow> (int, 'z kfile_scheme) kres" where
  "exec path argv s =
     bindr (curproc s) (\<lambda>p s.
     bindr (begin_op s) (\<lambda>_ s.
     bindr (namei path s) (\<lambda>r s.
     case r of None \<Rightarrow> bindr (end_op s) (\<lambda>_ s. Ok (- 1) s)
     | Some ip \<Rightarrow>
       bindr (ilock (Some ip) s) (\<lambda>_ s.
       bindr (readi ip To_obj 0 64 s) (\<lambda>(r, d) s.
       let elf = elfhdr_of d
       in if r \<noteq> 64 \<or> e_magic elf \<noteq> ELF_MAGIC then exec_bad 0 0 (Some ip) s
          else bindr (proc_pagetable p s) (\<lambda>pagetable s.
            if pagetable = 0 then exec_bad 0 0 (Some ip) s
            else bindr (exec_load pagetable ip (ucast (e_phoff elf)) (unat (e_phnum elf)) 0 s) (\<lambda>r s.
              case r of Inl sz \<Rightarrow> exec_bad pagetable sz (Some ip) s
              | Inr sz \<Rightarrow>
                bindr (iunlockput ip s) (\<lambda>_ s.
                bindr (end_op s) (\<lambda>_ s.
                exec_stack path argv elf pagetable sz s)))))))))"

end
