(* ===== verification/Syscall.thy ===== *)
theory Syscall
  imports Exec
begin

text \<open>
  \<^verbatim>\<open>kernel/syscall.c\<close>, \<^verbatim>\<open>kernel/sysproc.c\<close> and \<^verbatim>\<open>kernel/sysfile.c\<close>: fetching system-call arguments from the trapframe
  and user memory, the system calls, and the dispatch.  A system call returns the 64-bit value that goes into \<open>a0\<close>.
  \<open>pad\<close> is the stack garbage \<open>filestat\<close> passes on.
\<close>

record ksys = kfile +
  ticks :: u32


section \<open>Arguments\<close>

definition fetchaddr :: "u64 \<Rightarrow> 'z kproc_scheme \<Rightarrow> (int \<times> u64, 'z kproc_scheme) kres" where
  "fetchaddr addr s =
     bindr (curproc s) (\<lambda>p s.
     if addr \<ge> p_sz (procs s p) \<or> addr + 8 > p_sz (procs s p) then Ok (- 1, 0) s
     else bindr (copyin (p_pagetable (procs s p)) addr 8 s) (\<lambda>(r, bs) s.
       if r \<noteq> 0 then Ok (- 1, 0) s else Ok (0, from_le bs) s))"

text \<open>The length or -1, and the bytes stored in the buffer.\<close>

definition fetchstr :: "u64 \<Rightarrow> nat \<Rightarrow> 'z kproc_scheme \<Rightarrow> (int \<times> u8 list, 'z kproc_scheme) kres" where
  "fetchstr addr n_max s =
     bindr (curproc s) (\<lambda>p s.
     bindr (copyinstr (p_pagetable (procs s p)) addr n_max s) (\<lambda>(r, bs) s.
     if r < 0 then Ok (- 1, bs) s
     else bindr (of_option (strlen bs) s) (\<lambda>n s. Ok (int n, bs) s)))"

definition argraw :: "nat \<Rightarrow> 'z kproc_scheme \<Rightarrow> (u64, 'z kproc_scheme) kres" where
  "argraw n s =
     bindr (curproc s) (\<lambda>p s.
     let tf = p_trapframe (procs s p)
     in if n = 0 then Ok (tf_get tf T_a0 s) s
        else if n = 1 then Ok (tf_get tf T_a1 s) s
        else if n = 2 then Ok (tf_get tf T_a2 s) s
        else if n = 3 then Ok (tf_get tf T_a3 s) s
        else if n = 4 then Ok (tf_get tf T_a4 s) s
        else if n = 5 then Ok (tf_get tf T_a5 s) s
        else Panic ''argraw'')"

definition argint :: "nat \<Rightarrow> 'z kproc_scheme \<Rightarrow> (u32, 'z kproc_scheme) kres" where
  "argint n s = bindr (argraw n s) (\<lambda>x s. Ok (ucast x) s)"

definition argaddr :: "nat \<Rightarrow> 'z kproc_scheme \<Rightarrow> (u64, 'z kproc_scheme) kres" where
  "argaddr n s = argraw n s"

definition argstr :: "nat \<Rightarrow> nat \<Rightarrow> 'z kproc_scheme \<Rightarrow> (int \<times> u8 list, 'z kproc_scheme) kres" where
  "argstr n n_max s = bindr (argaddr n s) (\<lambda>addr s. fetchstr addr n_max s)"

text \<open>A path argument: \<open>None\<close> when \<open>argstr\<close> fails, otherwise the string without its NUL.\<close>

definition argpath :: "nat \<Rightarrow> 'z kproc_scheme \<Rightarrow> (u8 list option, 'z kproc_scheme) kres" where
  "argpath n s = bindr (argstr n MAXPATH s) (\<lambda>(r, bs) s. Ok (if r < 0 then None else Some (take (nat r) bs)) s)"

definition argfd :: "nat \<Rightarrow> 'z kproc_scheme \<Rightarrow> ((nat \<times> nat) option, 'z kproc_scheme) kres" where
  "argfd n s =
     bindr (argint n s) (\<lambda>fd s.
     if sint fd < 0 \<or> sint fd \<ge> int NOFILE then Ok None s
     else bindr (curproc s) (\<lambda>p s.
       Ok (map_option (\<lambda>f. (unat fd, f)) (p_ofile (procs s p) ! unat fd)) s))"

definition fdalloc :: "nat \<Rightarrow> 'z kproc_scheme \<Rightarrow> (nat option, 'z kproc_scheme) kres" where
  "fdalloc f s =
     bindr (curproc s) (\<lambda>p s.
     case find (\<lambda>fd. p_ofile (procs s p) ! fd = None) [0..<NOFILE] of
       None \<Rightarrow> Ok None s
     | Some fd \<Rightarrow> Ok (Some fd) (upd_proc p (\<lambda>q. q\<lparr>p_ofile := (p_ofile q)[fd := Some f]\<rparr>) s))"

section \<open>Processes and time\<close>

definition sys_exit :: "'z kfile_scheme \<Rightarrow> (u64, 'z kfile_scheme) kres" where
  "sys_exit s = bindr (argint 0 s) (\<lambda>n s. exit n s)"

definition sys_getpid :: "'z kproc_scheme \<Rightarrow> (u64, 'z kproc_scheme) kres" where
  "sys_getpid s = bindr (curproc s) (\<lambda>p s. Ok (scast (p_pid (procs s p))) s)"

definition sys_fork :: "'z kfile_scheme \<Rightarrow> (u64, 'z kfile_scheme) kres" where
  "sys_fork s = bindr (fork s) (\<lambda>r s. Ok (scast r) s)"

definition sys_wait :: "'z kproc_scheme \<Rightarrow> (u64, 'z kproc_scheme) kres" where
  "sys_wait s = bindr (argaddr 0 s) (\<lambda>p s. bindr (wait p s) (\<lambda>r s. Ok (scast r) s))"

definition sys_sbrk :: "'z kproc_scheme \<Rightarrow> (u64, 'z kproc_scheme) kres" where
  "sys_sbrk s =
     bindr (argint 0 s) (\<lambda>n s.
     bindr (curproc s) (\<lambda>p s.
     let addr = p_sz (procs s p)
     in bindr (growproc n s) (\<lambda>r s. Ok (if r < 0 then - 1 else addr) s)))"

text \<open>The loop of \<open>sys_sleep\<close> with \<open>tickslock\<close> held; a process that slept runs it again.\<close>

definition sys_sleep_turn :: "u32 \<Rightarrow> u32 \<Rightarrow> 'z ksys_scheme \<Rightarrow> (u64, 'z ksys_scheme) kres" where
  "sys_sleep_turn ticks0 n s =
     (if ticks s - ticks0 < n
      then bindr (curproc s) (\<lambda>p s. bindr (killed p s) (\<lambda>k s.
           if k \<noteq> 0 then bindr (release L_ticks s) (\<lambda>_ s. Ok (- 1) s)
           else sleep Ch_ticks L_ticks s))
      else bindr (release L_ticks s) (\<lambda>_ s. Ok 0 s))"

definition sys_sleep :: "'z ksys_scheme \<Rightarrow> (u64, 'z ksys_scheme) kres" where
  "sys_sleep s =
     bindr (argint 0 s) (\<lambda>n s.
     let n = (if sint n < 0 then 0 else n)
     in bindr (acquire L_ticks s) (\<lambda>_ s. sys_sleep_turn (ticks s) n s))"

definition sys_kill :: "'z kproc_scheme \<Rightarrow> (u64, 'z kproc_scheme) kres" where
  "sys_kill s = bindr (argint 0 s) (\<lambda>pid s. bindr (kill pid s) (\<lambda>r s. Ok (of_int r) s))"

definition sys_uptime :: "'z ksys_scheme \<Rightarrow> (u64, 'z ksys_scheme) kres" where
  "sys_uptime s =
     bindr (acquire L_ticks s) (\<lambda>_ s.
     let xticks = ticks s in bindr (release L_ticks s) (\<lambda>_ s. Ok (ucast xticks) s))"

section \<open>File descriptors\<close>

definition sys_dup :: "'z kfile_scheme \<Rightarrow> (u64, 'z kfile_scheme) kres" where
  "sys_dup s =
     bindr (argfd 0 s) (\<lambda>r s.
     case r of None \<Rightarrow> Ok (- 1) s
     | Some (_, f) \<Rightarrow> bindr (fdalloc f s) (\<lambda>fd s.
         case fd of None \<Rightarrow> Ok (- 1) s | Some fd \<Rightarrow> bindr (filedup f s) (\<lambda>_ s. Ok (of_nat fd) s)))"

definition sys_read :: "'z kfile_scheme \<Rightarrow> (u64, 'z kfile_scheme) kres" where
  "sys_read s =
     bindr (argaddr 1 s) (\<lambda>p s. bindr (argint 2 s) (\<lambda>n s. bindr (argfd 0 s) (\<lambda>r s.
     case r of None \<Rightarrow> Ok (- 1) s | Some (_, f) \<Rightarrow> bindr (fileread f p n s) (\<lambda>r s. Ok (of_int r) s))))"

definition sys_write :: "'z kfile_scheme \<Rightarrow> (u64, 'z kfile_scheme) kres" where
  "sys_write s =
     bindr (argaddr 1 s) (\<lambda>p s. bindr (argint 2 s) (\<lambda>n s. bindr (argfd 0 s) (\<lambda>r s.
     case r of None \<Rightarrow> Ok (- 1) s | Some (_, f) \<Rightarrow> bindr (filewrite f p n s) (\<lambda>r s. Ok (of_int r) s))))"

definition sys_close :: "'z kfile_scheme \<Rightarrow> (u64, 'z kfile_scheme) kres" where
  "sys_close s =
     bindr (argfd 0 s) (\<lambda>r s.
     case r of None \<Rightarrow> Ok (- 1) s
     | Some (fd, f) \<Rightarrow> bindr (curproc s) (\<lambda>p s.
         bindr (fileclose f (upd_proc p (\<lambda>q. q\<lparr>p_ofile := (p_ofile q)[fd := None]\<rparr>) s)) (\<lambda>_ s. Ok 0 s)))"

definition sys_fstat :: "u8 list \<Rightarrow> 'z kfile_scheme \<Rightarrow> (u64, 'z kfile_scheme) kres" where
  "sys_fstat pad s =
     bindr (argaddr 1 s) (\<lambda>st s. bindr (argfd 0 s) (\<lambda>r s.
     case r of None \<Rightarrow> Ok (- 1) s | Some (_, f) \<Rightarrow> bindr (filestat pad f st s) (\<lambda>r s. Ok (of_int r) s)))"

definition sys_pipe :: "'z kfile_scheme \<Rightarrow> (u64, 'z kfile_scheme) kres" where
  "sys_pipe s =
     bindr (curproc s) (\<lambda>p s.
     bindr (argaddr 0 s) (\<lambda>fdarray s.
     bindr (pipealloc s) (\<lambda>r s.
     case r of None \<Rightarrow> Ok (- 1) s
     | Some (rfile, wfile) \<Rightarrow>
       let close = (\<lambda>s. bindr (fileclose rfile s) (\<lambda>_ s. bindr (fileclose wfile s) (\<lambda>_ s. Ok (- 1) s)));
           unset = (\<lambda>fd s. upd_proc p (\<lambda>q. q\<lparr>p_ofile := (p_ofile q)[fd := None]\<rparr>) s)
       in bindr (fdalloc rfile s) (\<lambda>r s.
          case r of None \<Rightarrow> close s
          | Some fd0 \<Rightarrow>
            bindr (fdalloc wfile s) (\<lambda>r s.
            case r of None \<Rightarrow> close (unset fd0 s)
            | Some fd1 \<Rightarrow>
              bindr (copyout (p_pagetable (procs s p)) fdarray (to_le 4 (of_nat fd0 :: u32)) s) (\<lambda>r s.
              if r < 0 then close (unset fd1 (unset fd0 s))
              else bindr (copyout (p_pagetable (procs s p)) (fdarray + 4) (to_le 4 (of_nat fd1 :: u32)) s) (\<lambda>r s.
                if r < 0 then close (unset fd1 (unset fd0 s)) else Ok 0 s)))))))"

section \<open>Path names\<close>

definition sys_link_bad :: "nat \<Rightarrow> 'z kfile_scheme \<Rightarrow> (u64, 'z kfile_scheme) kres" where
  "sys_link_bad ip s =
     bindr (ilock (Some ip) s) (\<lambda>_ s.
     bindr (iupdate ip (upd_inode ip (\<lambda>n. n\<lparr>i_nlink := i_nlink n - 1\<rparr>) s)) (\<lambda>_ s.
     bindr (iunlockput ip s) (\<lambda>_ s.
     bindr (end_op s) (\<lambda>_ s. Ok (- 1) s))))"

definition sys_link :: "'z kfile_scheme \<Rightarrow> (u64, 'z kfile_scheme) kres" where
  "sys_link s =
     bindr (argpath 0 s) (\<lambda>old s. case old of None \<Rightarrow> Ok (- 1) s | Some old \<Rightarrow>
     bindr (argpath 1 s) (\<lambda>new s. case new of None \<Rightarrow> Ok (- 1) s | Some new \<Rightarrow>
     bindr (begin_op s) (\<lambda>_ s.
     bindr (namei old s) (\<lambda>r s.
     case r of None \<Rightarrow> bindr (end_op s) (\<lambda>_ s. Ok (- 1) s)
     | Some ip \<Rightarrow>
       bindr (ilock (Some ip) s) (\<lambda>_ s.
       if i_type (itable s ip) = T_DIR
       then bindr (iunlockput ip s) (\<lambda>_ s. bindr (end_op s) (\<lambda>_ s. Ok (- 1) s))
       else
         bindr (iupdate ip (upd_inode ip (\<lambda>n. n\<lparr>i_nlink := i_nlink n + 1\<rparr>) s)) (\<lambda>_ s.
         bindr (iunlock (Some ip) s) (\<lambda>_ s.
         bindr (nameiparent new s) (\<lambda>(r, name) s.
         case r of None \<Rightarrow> sys_link_bad ip s
         | Some dp \<Rightarrow>
           bindr (ilock (Some dp) s) (\<lambda>_ s.
           bindr (if i_dev (itable s dp) \<noteq> i_dev (itable s ip) then Ok (- 1) s
                  else dirlink dp name (i_inum (itable s ip)) s) (\<lambda>r s.
           if r < 0 then bindr (iunlockput dp s) (\<lambda>_ s. sys_link_bad ip s)
           else bindr (iunlockput dp s) (\<lambda>_ s.
                bindr (iput ip s) (\<lambda>_ s.
                bindr (end_op s) (\<lambda>_ s. Ok 0 s)))))))))))))"

definition isdirempty :: "nat \<Rightarrow> 'z kfs_scheme \<Rightarrow> (bool, 'z kfs_scheme) kres" where
  "isdirempty dp s =
     bindr (scan_res (\<lambda>k s.
         bindr (readi dp To_obj (of_nat (16 * k)) 16 s) (\<lambda>(r, de) s.
         if r \<noteq> 16 then Panic ''isdirempty: readi''
         else Ok (if get_u16 0 de \<noteq> 0 then Some () else None) s))
       [2..<(unat (i_size (itable s dp)) + 15) div 16] s) (\<lambda>r s.
     Ok (r = None) s)"

definition sys_unlink_bad :: "nat \<Rightarrow> 'z kfile_scheme \<Rightarrow> (u64, 'z kfile_scheme) kres" where
  "sys_unlink_bad dp s = bindr (iunlockput dp s) (\<lambda>_ s. bindr (end_op s) (\<lambda>_ s. Ok (- 1) s))"

definition sys_unlink :: "'z kfile_scheme \<Rightarrow> (u64, 'z kfile_scheme) kres" where
  "sys_unlink s =
     bindr (argpath 0 s) (\<lambda>path s. case path of None \<Rightarrow> Ok (- 1) s | Some path \<Rightarrow>
     bindr (begin_op s) (\<lambda>_ s.
     bindr (nameiparent path s) (\<lambda>(r, name) s.
     case r of None \<Rightarrow> bindr (end_op s) (\<lambda>_ s. Ok (- 1) s)
     | Some dp \<Rightarrow>
       bindr (ilock (Some dp) s) (\<lambda>_ s.
       bindr (of_option (namecmp name (bytes_of ''.'' @ [0])) s) (\<lambda>c1 s.
       bindr (if c1 = 0 then Ok 0 s else of_option (namecmp name (bytes_of ''..'' @ [0])) s) (\<lambda>c2 s.
       if c1 = 0 \<or> c2 = 0 then sys_unlink_bad dp s
       else bindr (dirlookup dp name s) (\<lambda>r s.
         case r of None \<Rightarrow> sys_unlink_bad dp s
         | Some (ip, off) \<Rightarrow>
           bindr (ilock (Some ip) s) (\<lambda>_ s.
           if sint (i_nlink (itable s ip)) < 1 then Panic ''unlink: nlink < 1''
           else bindr (if i_type (itable s ip) = T_DIR then isdirempty ip s else Ok True s) (\<lambda>empty s.
             if \<not> empty then bindr (iunlockput ip s) (\<lambda>_ s. sys_unlink_bad dp s)
             else bindr (writei dp (From_obj (replicate 16 0)) off 16 s) (\<lambda>r s.
               if r \<noteq> 16 then Panic ''unlink: writei''
               else bindr (if i_type (itable s ip) = T_DIR
                           then iupdate dp (upd_inode dp (\<lambda>n. n\<lparr>i_nlink := i_nlink n - 1\<rparr>) s)
                           else Ok () s) (\<lambda>_ s.
                 bindr (iunlockput dp s) (\<lambda>_ s.
                 bindr (iupdate ip (upd_inode ip (\<lambda>n. n\<lparr>i_nlink := i_nlink n - 1\<rparr>) s)) (\<lambda>_ s.
                 bindr (iunlockput ip s) (\<lambda>_ s.
                 bindr (end_op s) (\<lambda>_ s. Ok 0 s)))))))))))))))"

definition create_fail :: "nat \<Rightarrow> nat \<Rightarrow> 'z kfs_scheme \<Rightarrow> (nat option, 'z kfs_scheme) kres" where
  "create_fail ip dp s =
     bindr (iupdate ip (upd_inode ip (\<lambda>n. n\<lparr>i_nlink := 0\<rparr>) s)) (\<lambda>_ s.
     bindr (iunlockput ip s) (\<lambda>_ s.
     bindr (iunlockput dp s) (\<lambda>_ s. Ok None s)))"

definition create :: "u8 list \<Rightarrow> u16 \<Rightarrow> u16 \<Rightarrow> u16 \<Rightarrow> 'z kfs_scheme \<Rightarrow> (nat option, 'z kfs_scheme) kres" where
  "create path type major minor s =
     bindr (nameiparent path s) (\<lambda>(r, name) s.
     case r of None \<Rightarrow> Ok None s
     | Some dp \<Rightarrow>
       bindr (ilock (Some dp) s) (\<lambda>_ s.
       bindr (dirlookup dp name s) (\<lambda>r s.
       case r of
         Some (ip, _) \<Rightarrow>
           bindr (iunlockput dp s) (\<lambda>_ s.
           bindr (ilock (Some ip) s) (\<lambda>_ s.
           if type = T_FILE \<and> (i_type (itable s ip) = T_FILE \<or> i_type (itable s ip) = T_DEVICE) then Ok (Some ip) s
           else bindr (iunlockput ip s) (\<lambda>_ s. Ok None s)))
       | None \<Rightarrow>
           bindr (ialloc (i_dev (itable s dp)) type s) (\<lambda>r s.
           case r of None \<Rightarrow> bindr (iunlockput dp s) (\<lambda>_ s. Ok None s)
           | Some ip \<Rightarrow>
             bindr (ilock (Some ip) s) (\<lambda>_ s.
             bindr (iupdate ip (upd_inode ip (\<lambda>n. n\<lparr>i_major := major, i_minor := minor, i_nlink := 1\<rparr>) s)) (\<lambda>_ s.
             bindr (if type = T_DIR
                    then bindr (dirlink ip (bytes_of ''.'' @ [0]) (i_inum (itable s ip)) s) (\<lambda>r s.
                         if r < 0 then Ok r s
                         else dirlink ip (bytes_of ''..'' @ [0]) (i_inum (itable s dp)) s)
                    else Ok 0 s) (\<lambda>r s.
             if r < 0 then create_fail ip dp s
             else bindr (dirlink dp name (i_inum (itable s ip)) s) (\<lambda>r s.
               if r < 0 then create_fail ip dp s
               else bindr (if type = T_DIR
                           then iupdate dp (upd_inode dp (\<lambda>n. n\<lparr>i_nlink := i_nlink n + 1\<rparr>) s)
                           else Ok () s) (\<lambda>_ s.
                 bindr (iunlockput dp s) (\<lambda>_ s. Ok (Some ip) s))))))))))"

text \<open>\<open>sys_open\<close> once the inode \<open>ip\<close> is found or created, and locked.\<close>

definition sys_open_inode :: "nat \<Rightarrow> u32 \<Rightarrow> 'z kfile_scheme \<Rightarrow> (u64, 'z kfile_scheme) kres" where
  "sys_open_inode ip omode s =
     (let bad = (\<lambda>s. bindr (iunlockput ip s) (\<lambda>_ s. bindr (end_op s) (\<lambda>_ s. Ok (- 1) s)))
      in if i_type (itable s ip) = T_DEVICE \<and> (sint (i_major (itable s ip)) < 0 \<or> sint (i_major (itable s ip)) \<ge> int NDEV)
         then bad s
         else bindr (filealloc s) (\<lambda>f s.
           case f of None \<Rightarrow> bad s
           | Some f \<Rightarrow>
             bindr (fdalloc f s) (\<lambda>fd s.
             case fd of None \<Rightarrow> bindr (fileclose f s) (\<lambda>_ s. bad s)
             | Some fd \<Rightarrow>
               let s = (if i_type (itable s ip) = T_DEVICE
                        then upd_file f (\<lambda>x. x\<lparr>f_type := FD_DEVICE, f_major := i_major (itable s ip)\<rparr>) s
                        else upd_file f (\<lambda>x. x\<lparr>f_type := FD_INODE, f_off := 0\<rparr>) s);
                   s = upd_file f (\<lambda>x. x\<lparr>f_ip := ip, f_readable := (omode AND O_WRONLY = 0),
                         f_writable := (omode AND O_WRONLY \<noteq> 0 \<or> omode AND O_RDWR \<noteq> 0)\<rparr>) s
               in bindr (if omode AND O_TRUNC \<noteq> 0 \<and> i_type (itable s ip) = T_FILE then itrunc ip s else Ok () s) (\<lambda>_ s.
                  bindr (iunlock (Some ip) s) (\<lambda>_ s.
                  bindr (end_op s) (\<lambda>_ s. Ok (of_nat fd) s))))))"

definition sys_open :: "'z kfile_scheme \<Rightarrow> (u64, 'z kfile_scheme) kres" where
  "sys_open s =
     bindr (argint 1 s) (\<lambda>omode s.
     bindr (argpath 0 s) (\<lambda>path s. case path of None \<Rightarrow> Ok (- 1) s | Some path \<Rightarrow>
     bindr (begin_op s) (\<lambda>_ s.
     if omode AND O_CREATE \<noteq> 0
     then bindr (create path T_FILE 0 0 s) (\<lambda>r s.
       case r of None \<Rightarrow> bindr (end_op s) (\<lambda>_ s. Ok (- 1) s) | Some ip \<Rightarrow> sys_open_inode ip omode s)
     else bindr (namei path s) (\<lambda>r s.
       case r of None \<Rightarrow> bindr (end_op s) (\<lambda>_ s. Ok (- 1) s)
       | Some ip \<Rightarrow>
         bindr (ilock (Some ip) s) (\<lambda>_ s.
         if i_type (itable s ip) = T_DIR \<and> omode \<noteq> O_RDONLY
         then bindr (iunlockput ip s) (\<lambda>_ s. bindr (end_op s) (\<lambda>_ s. Ok (- 1) s))
         else sys_open_inode ip omode s)))))"

definition sys_mkdir :: "'z kfile_scheme \<Rightarrow> (u64, 'z kfile_scheme) kres" where
  "sys_mkdir s =
     bindr (begin_op s) (\<lambda>_ s.
     bindr (argpath 0 s) (\<lambda>path s.
     bindr (case path of None \<Rightarrow> Ok None s | Some path \<Rightarrow> create path T_DIR 0 0 s) (\<lambda>r s.
     case r of None \<Rightarrow> bindr (end_op s) (\<lambda>_ s. Ok (- 1) s)
     | Some ip \<Rightarrow> bindr (iunlockput ip s) (\<lambda>_ s. bindr (end_op s) (\<lambda>_ s. Ok 0 s)))))"

definition sys_mknod :: "'z kfile_scheme \<Rightarrow> (u64, 'z kfile_scheme) kres" where
  "sys_mknod s =
     bindr (begin_op s) (\<lambda>_ s.
     bindr (argint 1 s) (\<lambda>major s. bindr (argint 2 s) (\<lambda>minor s.
     bindr (argpath 0 s) (\<lambda>path s.
     bindr (case path of None \<Rightarrow> Ok None s | Some path \<Rightarrow> create path T_DEVICE (ucast major) (ucast minor) s) (\<lambda>r s.
     case r of None \<Rightarrow> bindr (end_op s) (\<lambda>_ s. Ok (- 1) s)
     | Some ip \<Rightarrow> bindr (iunlockput ip s) (\<lambda>_ s. bindr (end_op s) (\<lambda>_ s. Ok 0 s)))))))"

definition sys_chdir :: "'z kfile_scheme \<Rightarrow> (u64, 'z kfile_scheme) kres" where
  "sys_chdir s =
     bindr (curproc s) (\<lambda>p s.
     bindr (begin_op s) (\<lambda>_ s.
     bindr (argpath 0 s) (\<lambda>path s.
     bindr (case path of None \<Rightarrow> Ok None s | Some path \<Rightarrow> namei path s) (\<lambda>r s.
     case r of None \<Rightarrow> bindr (end_op s) (\<lambda>_ s. Ok (- 1) s)
     | Some ip \<Rightarrow>
       bindr (ilock (Some ip) s) (\<lambda>_ s.
       if i_type (itable s ip) \<noteq> T_DIR
       then bindr (iunlockput ip s) (\<lambda>_ s. bindr (end_op s) (\<lambda>_ s. Ok (- 1) s))
       else bindr (iunlock (Some ip) s) (\<lambda>_ s.
         bindr (case p_cwd (procs s p) of None \<Rightarrow> Panic ''kerneltrap'' | Some c \<Rightarrow> iput c s) (\<lambda>_ s.
         bindr (end_op s) (\<lambda>_ s.
         Ok 0 (upd_proc p (\<lambda>q. q\<lparr>p_cwd := Some ip\<rparr>) s)))))))))"

text \<open>Fetching \<open>argv\<close>: the pages allocated so far, and whether the loop ran to the null pointer (\<open>True\<close>) or to \<open>bad\<close>.
  A page whose string could not be fetched is among them.\<close>

fun fetch_argv :: "u64 \<Rightarrow> nat \<Rightarrow> nat \<Rightarrow> 'z kproc_scheme \<Rightarrow> (bool \<times> u64 list, 'z kproc_scheme) kres" where
  "fetch_argv uargv i 0 s = Ok (False, []) s"
| "fetch_argv uargv i (Suc room) s =
     bindr (fetchaddr (uargv + 8 * of_nat i) s) (\<lambda>(r, uarg) s.
     if r < 0 then Ok (False, []) s
     else if uarg = 0 then Ok (True, []) s
     else bindr (kalloc s) (\<lambda>pg s.
       if pg = 0 then Ok (False, []) s
       else bindr (fetchstr uarg 4096 s) (\<lambda>(r, bs) s.
         let s = s\<lparr>mem := wr (mem s) pg bs\<rparr>
         in if r < 0 then Ok (False, [pg]) s
            else bindr (fetch_argv uargv (Suc i) room s) (\<lambda>(ok, pgs) s. Ok (ok, pg # pgs) s))))"

definition sys_exec :: "'z kfile_scheme \<Rightarrow> (u64, 'z kfile_scheme) kres" where
  "sys_exec s =
     bindr (argaddr 1 s) (\<lambda>uargv s.
     bindr (argpath 0 s) (\<lambda>path s. case path of None \<Rightarrow> Ok (- 1) s | Some path \<Rightarrow>
     bindr (fetch_argv uargv 0 MAXARG s) (\<lambda>(ok, argv) s.
     bindr (if ok then exec path argv s else Ok (- 1) s) (\<lambda>ret s.
     bindr (each_res kfree argv s) (\<lambda>_ s. Ok (of_int ret) s)))))"

section \<open>Dispatch\<close>

definition syscall_fun :: "u8 list \<Rightarrow> int \<Rightarrow> ('z ksys_scheme \<Rightarrow> (u64, 'z ksys_scheme) kres) option" where
  "syscall_fun pad num =
     (if num = 1 then Some sys_fork else if num = 2 then Some sys_exit else if num = 3 then Some sys_wait
      else if num = 4 then Some sys_pipe else if num = 5 then Some sys_read else if num = 6 then Some sys_kill
      else if num = 7 then Some sys_exec else if num = 8 then Some (sys_fstat pad) else if num = 9 then Some sys_chdir
      else if num = 10 then Some sys_dup else if num = 11 then Some sys_getpid else if num = 12 then Some sys_sbrk
      else if num = 13 then Some sys_sleep else if num = 14 then Some sys_uptime else if num = 15 then Some sys_open
      else if num = 16 then Some sys_write else if num = 17 then Some sys_mknod else if num = 18 then Some sys_unlink
      else if num = 19 then Some sys_link else if num = 20 then Some sys_mkdir else if num = 21 then Some sys_close
      else None)"

definition syscall :: "u8 list \<Rightarrow> 'z ksys_scheme \<Rightarrow> (unit, 'z ksys_scheme) kres" where
  "syscall pad s =
     bindr (curproc s) (\<lambda>p s.
     let num = (ucast (tf_get (p_trapframe (procs s p)) T_a7 s) :: u32)
     in case syscall_fun pad (sint num) of
          Some f \<Rightarrow> bindr (f s) (\<lambda>r s. Ok () (tf_set (p_trapframe (procs s p)) T_a0 r s))
        | None \<Rightarrow>
          bindr (kprintf (''%d %s: unknown sys call %d'' @ [CHR 0x0A])
                   [V_int (p_pid (procs s p)), V_str (Some (p_name (procs s p))), V_int num] s) (\<lambda>_ s.
          Ok () (tf_set (p_trapframe (procs s p)) T_a0 (- 1) s)))"

end
