(* ===== verification/Demo_Kernel.thy ===== *)
theory Demo_Kernel
  imports Proc_Properties Syscall
begin

text \<open>
  A concrete kernel state: process 0 runs with a page of user memory at address 0, process 1 sleeps on the ticks,
  process 2 is runnable, all buffers, inodes and files are unused and no lock is held.
\<close>

definition demo_pipe :: pipe where
  "demo_pipe = \<lparr>pi_data = replicate PIPESIZE 0, pi_nread = 0, pi_nwrite = 0, pi_readopen = True, pi_writeopen = True\<rparr>"

definition demo_inode :: inode where
  "demo_inode = \<lparr>i_dev = 0, i_inum = 0, i_ref = 0, i_valid = False, i_type = 0, i_major = 0, i_minor = 0, i_nlink = 0,
     i_size = 0, i_addrs = replicate 13 0\<rparr>"

definition demo_file :: file_struct where
  "demo_file = \<lparr>f_type = FD_NONE, f_ref = 0, f_readable = False, f_writable = False, f_pipe = 0, f_ip = 0, f_off = 0, f_major = 0\<rparr>"

definition demo_kernel :: ksys where
  "demo_kernel =
    \<lparr>mem = mem demo_user, tp = 0, sie = (\<lambda>_. True), cpus = (\<lambda>_. \<lparr>cproc = Some 0, noff = 0, intena = True\<rparr>),
     locks = (\<lambda>_. \<lparr>locked = False, lname = ''lock'', lcpu = None\<rparr>), sym_end = sym_end demo_user, sym_etext = 0x80008000,
     sym_trampoline = 0x80007000, freelist = freelist demo_user, kernel_pagetable = 0, satp = (\<lambda>_. 0),
     uart_regs = (\<lambda>_. 0), uart_out = [], uart_room = 100, uart_in = [], uart_tx_buf = replicate UART_TX_BUF_SIZE 0,
     uart_tx_w = 0, uart_tx_r = 0, panicked = False, pr_locking = True,
     procs = demo_procs(0 := (demo_procs 0)\<lparr>p_pagetable := demo_root, p_sz := PGSIZE, p_ofile := replicate NOFILE None\<rparr>),
     initproc = Some 0, nextpid = 4, sym_forkret = 0,
     sleeplocks = (\<lambda>_. \<lparr>sl_locked = False, sl_name = ''sleep'', sl_pid = 0\<rparr>),
     bufs = (\<lambda>i. \<lparr>b_valid = False, b_disk = False, b_dev = 0, b_blockno = 0, b_refcnt = 0, b_prev = i, b_next = i, b_data = replicate BSIZE 0\<rparr>),
     vd_mmio = (\<lambda>_. 0), vd_desc_page = 0, vd_avail_page = 0, vd_used_page = 0,
     vd_desc = (\<lambda>_. \<lparr>d_addr = D_null, d_len = 0, d_flags = 0, d_next = 0\<rparr>), vd_avail_idx = 0, vd_avail_ring = (\<lambda>_. 0),
     vd_used_idx_dev = 0, vd_used_ring = (\<lambda>_. 0), vd_free = (\<lambda>_. True), vd_used_idx = 0, vd_info_b = (\<lambda>_. None),
     vd_info_status = (\<lambda>_. 0), vd_ops = (\<lambda>_. \<lparr>rq_type = 0, rq_reserved = 0, rq_sector = 0\<rparr>), vd_seen = 0,
     disk = (\<lambda>_. 0), disk_trace = [],
     log_start = 2, log_size = 30, log_outstanding = 0, log_committing = False, log_dev = 1, lh_n = 0, lh_block = replicate LOGSIZE 0,
     sb = \<lparr>sb_magic = FSMAGIC, sb_size = 2000, sb_nblocks = 1954, sb_ninodes = 200, sb_nlog = 30, sb_logstart = 2,
           sb_inodestart = 32, sb_bmapstart = 45\<rparr>,
     itable = (\<lambda>_. demo_inode), pipes = (\<lambda>_. demo_pipe),
     cons_buf = replicate INPUT_BUF_SIZE 0, cons_r = 0, cons_w = 0, cons_e = 0, devsw = (\<lambda>_. None),
     ftable = (\<lambda>_. demo_file), ticks = 0\<rparr>"

lemma demo_kernel_simps [simp]:
  "settled demo_kernel" "unheld l demo_kernel" "proc_locks_free demo_kernel" "noff (mycpu demo_kernel) = 0" "cproc (cpus demo_kernel i) = Some 0"
  "mem demo_kernel = mem demo_user" "p_pagetable (procs demo_kernel 0) = demo_root" "p_killed (procs demo_kernel 0) = 0"
  "pipes demo_kernel pi = demo_pipe" "tp demo_kernel = 0" "procs demo_kernel (Suc n) = demo_procs (Suc n)"
  by (simp_all add: demo_kernel_def settled_def unheld_def proc_locks_free_def lock_defs demo_procs_def demo_proc_def)

end
