(* ===== verification/Pipe_Properties.thy ===== *)
theory Pipe_Properties
  imports Pipe_Facts Demo_Kernel
begin

text \<open>
  The properties of \<^verbatim>\<open>kernel/pipe.c\<close>.
\<close>

lemma demo_pipe_ready: "\<exists>ps. pipe_ready pi 0 ps demo_kernel"
proof -
  obtain ps where "aspace demo_user ps demo_root" using demo_user_aspace by blast
  then have "aspace demo_kernel ps demo_root"
    by (rule aspace_frame [rotated -1]) (simp_all add: demo_kernel_def cpu_ok_def lock_defs unheld_def)
  then show ?thesis
    by (auto simp: pipe_ready_def NPROC_def pipe_ok_def ring_ok_def demo_pipe_def)
qed

lemma demo_pipe_items [simp]: "pipe_items demo_pipe = []" "pi_readopen demo_pipe" "pi_writeopen demo_pipe"
  by (simp_all add: demo_pipe_def pipe_items_def ring_items_def)

text \<open>C4: \<open>pipewrite\<close> appends to the pipe's queue exactly the bytes of the user buffer, in order.  Called by a live
  process on a pipe with a reader, it moves \<open>k\<close> bytes and then returns \<open>k\<close>, having woken the readers, if all \<open>n\<close>
  are moved or the next byte is not readable by the process, and sleeps, having woken the readers, if the
  512 bytes of the pipe are full.  If the reader is gone or the process is killed it returns -1 and
  changes nothing.\<close>

theorem pipewrite_correct:
  assumes "pipe_ready pi pr ps s"
  defines "pt \<equiv> p_pagetable (procs s pr)" and "q \<equiv> pipes s pi"
  shows "if pi_readopen q \<and> p_killed (procs s pr) = 0 \<or> sint n \<le> 0
    then \<exists>k q'. k \<le> nat (sint n) \<and> (\<forall>j < k. readable (mem s) pt (addr + of_nat j))
      \<and> pipe_ok q' \<and> pipe_items q' = pipe_items q @ map (\<lambda>j. mem s (phys (mem s) pt (addr + of_nat j))) [0..<k]
      \<and> pi_readopen q' = pi_readopen q \<and> pi_writeopen q' = pi_writeopen q
      \<and> (let s' = woken (Ch_pipe_read pi) (s\<lparr>pipes := (pipes s)(pi := q')\<rparr>)
         in if k < nat (sint n) \<and> length (pipe_items q') = PIPESIZE
            then pipewrite pi addr n s = Block (Ch_pipe_write pi) (take_lock (L_proc pr) (go_to_sleep pr (Ch_pipe_write pi) s'))
            else (k = nat (sint n) \<or> \<not> readable (mem s) pt (addr + of_nat k)) \<and> pipewrite pi addr n s = Ok (int k) s')
    else pipewrite pi addr n s = Ok (- 1) s"
proof -
  have w: "pipewrite pi addr n s = pipewrite_loop pi pr addr 0 (nat (sint n)) (take_lock (L_pipe pi) s)"
    using assms(1) by (simp add: pipewrite_def pipe_ready_def)
  have full: "pipe_full x \<longleftrightarrow> length (pipe_items x) = PIPESIZE" if "pipe_ok x" for x
    using that by (rule pq.full_iff)
  consider (stop) rest where "\<not> pipe_going pi pr s" "nat (sint n) = Suc rest" "0 < sint n"
    | (none) "\<not> pipe_going pi pr s" "nat (sint n) = 0" "sint n \<le> 0" | (go) "pipe_going pi pr s"
    by (cases "nat (sint n)") (auto simp: nat_eq_iff split: if_splits)
  then show ?thesis
  proof cases
    case stop
    then have "pipewrite pi addr n s = Ok (- 1) s" using w pipewrite_loop_stop [OF assms(1), of addr 0 rest] by simp
    then show ?thesis using stop by (auto simp: pipe_going_def q_def)
  next
    case none
    then have "pipewrite pi addr n s = Ok 0 (woken (Ch_pipe_read pi) s)" using w assms(1) by (simp add: pipe_ready_def)
    then show ?thesis using none assms(1) by (auto simp: q_def pipe_ready_def intro!: exI [of _ 0] exI [of _ q])
  next
    case go
    have q: "pipe_ok q" "pi_readopen q" "with_pipe pi q s = s" using go assms(1) by (simp_all add: q_def pipe_going_def pipe_ready_def)
    from pipewrite_loop_eq [OF assms(1) go pt_def [THEN meta_eq_to_obj_eq] q(1,2), of "nat (sint n)" addr 0]
    obtain k q' where k: "k \<le> nat (sint n)" "\<forall>j < k. readable (mem s) pt (addr + of_nat j)"
        "pipe_step q (map (ubyte (mem s) pt addr) [0..<k]) q'"
      and res: "if k < nat (sint n) \<and> pipe_full q'
          then pipewrite pi addr n s =
            Block (Ch_pipe_write pi) (take_lock (L_proc pr) (go_to_sleep pr (Ch_pipe_write pi) (woken (Ch_pipe_read pi) (with_pipe pi q' s))))
          else (k < nat (sint n) \<longrightarrow> \<not> readable (mem s) pt (addr + of_nat k))
            \<and> pipewrite pi addr n s = Ok (int k) (woken (Ch_pipe_read pi) (with_pipe pi q' s))"
      unfolding w q(3) add_0 by blast
    show ?thesis using k res go full [of q']
      by (auto simp: pipe_going_def q_def pipe_step_def with_pipe_def ubyte_def Let_def intro!: exI [of _ k] exI [of _ q'])
  qed
qed

theorem pipewrite_correct_witness:
  "\<exists>s'. pipewrite 0x80060000 16 3 demo_kernel = Ok 3 s'
    \<and> pipe_items (pipes s' 0x80060000) = map (\<lambda>j. mem demo_user (phys (mem demo_user) demo_root (16 + of_nat j))) [0..<3]"
proof -
  let ?pi = "0x80060000 :: u64" and ?d = "mem demo_user"
  obtain ps where rdy: "pipe_ready ?pi 0 ps demo_kernel" using demo_pipe_ready by blast
  have rd: "readable ?d demo_root (16 + of_nat j)" if "j < 3" for j
    using demo_user_writable [of "16 + j"] that by (auto simp: readable_def writable_def)
  have n: "nat (sint (3 :: u32)) = 3" by simp
  have "\<exists>k q'. k \<le> 3 \<and> pipe_items q' = map (\<lambda>j. ?d (phys ?d demo_root (16 + of_nat j))) [0..<k]
      \<and> (k < 3 \<and> length (pipe_items q') = PIPESIZE \<or> (k = 3 \<or> \<not> readable ?d demo_root (16 + of_nat k))
         \<and> pipewrite ?pi 16 3 demo_kernel = Ok (int k) (woken (Ch_pipe_read ?pi) (demo_kernel\<lparr>pipes := (pipes demo_kernel)(?pi := q')\<rparr>)))"
    using pipewrite_correct [OF rdy, of 3 16, unfolded n] by (simp only: Let_def demo_kernel_simps demo_pipe_items if_True simp_thms append_Nil) metis
  then obtain k q' where k: "k \<le> 3" "pipe_items q' = map (\<lambda>j. ?d (phys ?d demo_root (16 + of_nat j))) [0..<k]"
      "k < 3 \<and> length (pipe_items q') = PIPESIZE \<or> (k = 3 \<or> \<not> readable ?d demo_root (16 + of_nat k))
         \<and> pipewrite ?pi 16 3 demo_kernel = Ok (int k) (woken (Ch_pipe_read ?pi) (demo_kernel\<lparr>pipes := (pipes demo_kernel)(?pi := q')\<rparr>))"
    by blast
  have "length (pipe_items q') \<noteq> PIPESIZE" using k(1,2) by (simp add: PIPESIZE_def)
  moreover from this have "k = 3" using k(1,3) rd [of k] by (auto simp: le_less)
  ultimately show ?thesis using k(2,3) by simp
qed

text \<open>C15: \<open>piperead\<close> delivers the bytes of the pipe's queue, oldest first.  On an empty pipe that still has a writer it
  sleeps, or returns -1 if the process is killed.  Otherwise it moves the first \<open>k = min n (length queue)\<close> bytes
  to the user buffer, removes them from the queue, wakes the writers and returns \<open>k\<close>; 0 means end of file.  If byte \<open>k\<close> of
  the buffer is not writable by the process it stops after \<open>k\<close> bytes and returns \<open>k\<close>, but the byte it could not
  deliver is gone from the queue too.  Nothing but the \<open>k\<close> user bytes changes in memory.\<close>

theorem piperead_correct:
  fixes s :: "'z kpipe_scheme"
  assumes "pipe_ready pi pr ps s"
  defines "pt \<equiv> p_pagetable (procs s pr)" and "q \<equiv> pipes s pi"
  shows "if pipe_items q = [] \<and> pi_writeopen q
    then piperead pi addr n s =
      (if p_killed (procs s pr) = 0 then Block (Ch_pipe_read pi) (take_lock (L_proc pr) (go_to_sleep pr (Ch_pipe_read pi) s))
       else Ok (- 1) s)
    else \<exists>k q' m'. (k = min (nat (sint n)) (length (pipe_items q)) \<and> pipe_items q' = drop k (pipe_items q)
         \<or> k < min (nat (sint n)) (length (pipe_items q)) \<and> \<not> writable (mem s) pt (addr + of_nat k)
             \<and> pipe_items q' = drop (Suc k) (pipe_items q))
      \<and> pipe_ok q' \<and> pi_readopen q' = pi_readopen q \<and> pi_writeopen q' = pi_writeopen q
      \<and> (\<forall>j < k. writable (mem s) pt (addr + of_nat j) \<and> m' (phys (mem s) pt (addr + of_nat j)) = pipe_items q ! j)
      \<and> (\<forall>x. (\<forall>j < k. x \<noteq> phys (mem s) pt (addr + of_nat j)) \<longrightarrow> m' x = mem s x)
      \<and> piperead pi addr n s = Ok (int k) (woken (Ch_pipe_write pi) (s\<lparr>mem := m', pipes := (pipes s)(pi := q')\<rparr>))"
proof -
  have st: "settled s" "noff (mycpu s) = 0" "cur s = Some pr" "unheld (L_proc pr) s" "unheld (L_pipe pi) s" "proc_locks_free s"
    "aspace s ps pt" and q: "pipe_ok q" "with_pipe pi q s = s"
    using assms(1) by (simp_all add: pipe_ready_def proc_locks_freeD pt_def q_def)
  note em = pq.empty_iff [OF q(1)]
  have t: "piperead pi addr n s = piperead_turn pi pr addr n (take_lock (L_pipe pi) s)" using st by (simp add: piperead_def)
  show ?thesis
  proof (cases "pipe_items q = [] \<and> pi_writeopen q")
    case True
    have "sleep (Ch_pipe_read pi) (L_pipe pi) (take_lock (L_pipe pi) s) =
        (Block (Ch_pipe_read pi) (take_lock (L_proc pr) (go_to_sleep pr (Ch_pipe_read pi) s)) :: (int, 'z kpipe_scheme) kres)"
      using st by (intro sleep_Block) simp_all
    then show ?thesis using True st t em by (simp add: piperead_turn_def q_def)
  next
    case False
    from piperead_copy_eq [OF pt_def [THEN meta_eq_to_obj_eq] st(7,1) q(1), of "nat (sint n)" addr 0 pi] obtain k q' m' where
      k: "k \<le> length (pipe_items q)" "\<forall>j < k. writable (mem s) pt (addr + of_nat j)"
        "k = min (nat (sint n)) (length (pipe_items q)) \<and> pipe_items q' = drop k (pipe_items q)
         \<or> k < min (nat (sint n)) (length (pipe_items q)) \<and> \<not> writable (mem s) pt (addr + of_nat k) \<and> pipe_items q' = drop (Suc k) (pipe_items q)"
        "pipe_ok q'" "pi_readopen q' = pi_readopen q" "pi_writeopen q' = pi_writeopen q" and
      res: "piperead_copy pi pr addr 0 (nat (sint n)) (take_lock (L_pipe pi) s) =
          Ok k (take_lock (L_pipe pi) (with_pipe pi q' (s\<lparr>mem := m'\<rparr>)))" and
      c: "copied (mem s) m' pt addr (take k (pipe_items q))"
      unfolding q(2) add_0 of_nat_0 by auto
    have len: "length (take k (pipe_items q)) = k" using k(1) by simp
    have "k \<le> 2 ^ 64" using k(1) pq.bound [OF q(1)] by (simp add: PIPESIZE_def)
    then have d: "\<forall>j < k. m' (phys (mem s) pt (addr + of_nat j)) = pipe_items q ! j"
      using c k(2) unfolding copied_def len by auto
    have o: "\<forall>x. (\<forall>j < k. x \<noteq> phys (mem s) pt (addr + of_nat j)) \<longrightarrow> m' x = mem s x"
      using c unfolding copied_def len by auto
    have "\<not> (pipe_empty (pipes s pi) \<and> pi_writeopen (pipes s pi))" using False em by (simp add: q_def)
    then have "piperead pi addr n s = Ok (int k) (woken (Ch_pipe_write pi) (with_pipe pi q' (s\<lparr>mem := m'\<rparr>)))"
      using res st by (simp only: t piperead_turn_def pipes_take_lock if_False) simp
    then have "piperead pi addr n s = Ok (int k) (woken (Ch_pipe_write pi) (s\<lparr>mem := m', pipes := (pipes s)(pi := q')\<rparr>))"
      by (simp add: with_pipe_def)
    then show ?thesis using False k d o by (simp only: if_False) blast
  qed
qed

text \<open>A pipe with three bytes in it, across the end of the array and of the counters.\<close>

definition demo_full_pipe :: pipe where
  "demo_full_pipe = \<lparr>pi_data = (replicate PIPESIZE 0)[511 := 7, 0 := 8, 1 := 9], pi_nread = 0xFFFFFFFF, pi_nwrite = 2,
     pi_readopen = True, pi_writeopen = True\<rparr>"

theorem piperead_correct_witness:
  "\<exists>s'. piperead 0x80060000 16 2 (with_pipe 0x80060000 demo_full_pipe demo_kernel) = Ok 2 s'
    \<and> pipe_items (pipes s' 0x80060000) = [9] \<and> mem s' (phys (mem demo_user) demo_root 17) = 8"
proof -
  let ?pi = "0x80060000 :: u64" and ?s = "with_pipe 0x80060000 demo_full_pipe demo_kernel"
  have items: "pipe_items demo_full_pipe = [7, 8, 9]"
    by (simp add: demo_full_pipe_def pipe_items_def ring_items_def PIPESIZE_def upt_conv_Cons)
  have "pipe_ok demo_full_pipe" by (simp add: pipe_ok_def ring_ok_def demo_full_pipe_def PIPESIZE_def)
  moreover obtain ps where r: "pipe_ready ?pi 0 ps demo_kernel" using demo_pipe_ready by blast
  moreover have "aspace ?s ps demo_root"
    by (rule aspace_frame [of _ demo_kernel]) (use r in \<open>auto simp: pipe_ready_def cpu_ok_def lock_defs\<close>)
  ultimately have rdy: "pipe_ready ?pi 0 ps ?s" by (simp add: pipe_ready_def)
  have wr: "writable (mem demo_user) demo_root (16 + of_nat j)" if "j < 2" for j
    using demo_user_writable [of "16 + j"] that by simp
  define pi S where "pi = ?pi" and "S = ?s"
  have S: "pipe_ready pi 0 ps S" "pipe_items (pipes S pi) = [7, 8, 9]" "mem S = mem demo_user" "p_pagetable (procs S 0) = demo_root"
    using rdy items by (simp_all add: pi_def S_def)
  have ne: "\<not> (pipe_items (pipes S pi) = [] \<and> pi_writeopen (pipes S pi))" using S(2) by simp
  from piperead_correct [OF S(1), of 16 2, unfolded if_not_P [OF ne], unfolded S(2-4)] obtain k q' m' where
    k: "k = min (nat (sint (2 :: u32))) (length [7, 8, 9 :: u8]) \<and> pipe_items q' = drop k [7, 8, 9]
         \<or> k < min (nat (sint (2 :: u32))) (length [7, 8, 9 :: u8]) \<and> \<not> writable (mem demo_user) demo_root (16 + of_nat k)
             \<and> pipe_items q' = drop (Suc k) [7, 8, 9]"
      "\<forall>j < k. writable (mem demo_user) demo_root (16 + of_nat j) \<and> m' (phys (mem demo_user) demo_root (16 + of_nat j)) = [7, 8, 9] ! j"
      "piperead pi 16 2 S = Ok (int k) (woken (Ch_pipe_write pi) (S\<lparr>mem := m', pipes := (pipes S)(pi := q')\<rparr>))"
    by (elim exE conjE) (rule that, assumption+)
  then have "k = 2" "pipe_items q' = [9]" using wr by auto
  then show ?thesis using k(3) k(2) [rule_format, of 1] unfolding pi_def S_def by simp
qed

end
