(* ===== verification/Kprintf_Facts.thy ===== *)
theory Kprintf_Facts
  imports Kprintf Lockset
begin

text \<open>
  Properties of \<^verbatim>\<open>kernel/printf.c\<close>: what the digit loop computes, and what reaches the UART.
\<close>

section \<open>Digits\<close>

function nat_digits :: "nat \<Rightarrow> nat \<Rightarrow> nat list" where
  "nat_digits b n = (if b \<le> 1 \<or> n < b then [n] else n mod b # nat_digits b (n div b))"
  by pat_completeness auto
termination
  by (relation "measure (\<lambda>(b, n). n)") auto

declare nat_digits.simps [simp del]

lemma nat_digits_ne [simp]: "nat_digits b n \<noteq> []"
  by (subst nat_digits.simps) auto

lemma nat_digits_less: "2 \<le> b \<Longrightarrow> d \<in> set (nat_digits b n) \<Longrightarrow> d < b"
proof (induction b n rule: nat_digits.induct)
  case (1 b n)
  then show ?case by (subst (asm) nat_digits.simps) (auto split: if_splits)
qed

lemma nat_digits_value: "2 \<le> b \<Longrightarrow> foldl (\<lambda>a d. a * b + d) 0 (rev (nat_digits b n)) = n"
proof (induction b n rule: nat_digits.induct)
  case (1 b n)
  then show ?case by (subst nat_digits.simps) auto
qed

text \<open>No leading zero.\<close>

lemma nat_digits_leading: "2 \<le> b \<Longrightarrow> 0 < n \<Longrightarrow> last (nat_digits b n) \<noteq> 0"
proof (induction b n rule: nat_digits.induct)
  case (1 b n)
  then show ?case by (subst nat_digits.simps) (auto simp: div_greater_zero_iff)
qed

lemma nat_digits_length: "2 \<le> b \<Longrightarrow> n < b ^ Suc k \<Longrightarrow> length (nat_digits b n) \<le> Suc k"
proof (induction k arbitrary: n)
  case 0
  then show ?case by (subst nat_digits.simps) simp
next
  case (Suc k)
  have "n div b < b ^ Suc k" using Suc.prems by (simp add: div_less_iff_less_mult mult.commute)
  with Suc.IH [of "n div b"] Suc.prems(1) show ?case by (subst nat_digits.simps) auto
qed

lemma digit_loop_eq:
  assumes "2 \<le> unat base" "unat x < unat base ^ Suc k"
  shows "digit_loop ds (Suc k) x base = Some (map ((!) ds) (nat_digits (unat base) (unat x)))"
  using assms
proof (induction k arbitrary: x)
  case 0
  then have "unat (x div base) = 0" by (simp add: unat_div)
  with 0 show ?case by (subst nat_digits.simps) (auto simp: Let_def unat_eq_0 unat_mod)
next
  case (Suc k)
  have ze: "x div base = 0 \<longleftrightarrow> unat x < unat base"
    using Suc.prems(1) by (auto simp: unat_div div_eq_0_iff simp flip: unat_eq_0)
  have "unat (x div base) < unat base ^ Suc k"
    using Suc.prems by (simp add: unat_div div_less_iff_less_mult mult.commute)
  then have "digit_loop ds (Suc k) (x div base) base = Some (map ((!) ds) (nat_digits (unat base) (unat x div unat base)))"
    using Suc.IH [OF Suc.prems(1)] by (simp add: unat_div del: digit_loop.simps)
  then show ?case using Suc.prems(1) ze
    by (subst nat_digits.simps, subst digit_loop.simps(2)) (auto simp: Let_def unat_mod simp del: digit_loop.simps)
qed

lemma unat_minus_sint:
  fixes x :: u32
  assumes "sint x < 0"
  shows "unat (- x) = nat (- sint x)"
proof -
  have "- x = of_int (- sint x)" by simp
  then have "uint (- x) = uint (of_int (- sint x) :: u32)" by (rule arg_cong)
  also have "\<dots> = (- sint x) mod 2 ^ 32" by (simp only: uint_word_of_int) simp
  finally have "uint (- x) = (- sint x) mod 2 ^ 32" .
  moreover have "- sint x \<le> 2 ^ 31" using sint_greater_eq [of x] by simp
  ultimately have "uint (- x) = - sint x" using assms by simp
  then show ?thesis by (simp only: unat_eq_nat_uint)
qed

definition signed_text :: "u8 list \<Rightarrow> nat \<Rightarrow> u32 \<Rightarrow> bool \<Rightarrow> u8 list" where
  "signed_text ds b x sign =
     (if sign \<and> sint x < 0 then 0x2d # map ((!) ds) (rev (nat_digits b (nat (- sint x))))
      else map ((!) ds) (rev (nat_digits b (unat x))))"

lemma int_chars_eq:
  assumes "base = 10 \<or> base = 16"
  shows "int_chars ds x base sign = Some (signed_text ds (unat base) x sign)"
proof -
  have b: "2 \<le> unat base" "unat base ^ 10 \<ge> 2 ^ 32" "unat base ^ 16 \<ge> 2 ^ 32" using assms by auto
  have len: "length (nat_digits (unat base) (unat y)) \<le> 10" for y :: u32
    using nat_digits_length [OF b(1), of "unat y" 9] unat_bound [of y] b(2) by simp
  have dl: "digit_loop ds 16 y base = Some (map ((!) ds) (nat_digits (unat base) (unat y)))" for y
    using unat_bound [of y] b digit_loop_eq [of base y 15 ds] by (simp del: digit_loop.simps) 
  show ?thesis
  proof (cases "sign \<and> sint x < 0")
    case True
    then show ?thesis using len [of "- x"] unat_minus_sint [of x] by (simp add: int_chars_def Let_def dl signed_text_def rev_map)
  next
    case False
    then show ?thesis by (auto simp: int_chars_def Let_def dl signed_text_def rev_map)
  qed
qed

section \<open>The UART\<close>

text \<open>The UART is ready for characters: no panic, and THR is not the divisor latch.\<close>

definition uart_up :: "'z kdev_scheme \<Rightarrow> bool" where
  "uart_up s \<longleftrightarrow> settled s \<and> \<not> panicked s \<and> uart_regs s LCR AND LCR_BAUD_LATCH = 0"

definition transmit :: "u8 list \<Rightarrow> 'z kdev_scheme \<Rightarrow> 'z kdev_scheme" where
  "transmit cs s = s\<lparr>uart_out := uart_out s @ cs, uart_room := uart_room s - length cs\<rparr>"

lemma transmit_simps [simp]:
  "transmit [] s = s" "transmit ds (transmit cs s) = transmit (cs @ ds) s"
  "uart_out (transmit cs s) = uart_out s @ cs"
  by (simp_all add: transmit_def)

lemma uart_up_transmit [simp]: "uart_up (transmit cs s) = uart_up s"
  by (simp add: uart_up_def transmit_def)

lemma uartputc_sync_eq:
  assumes "uart_up s"
  shows "uartputc_sync c s = Ok () (transmit [ucast c] s)"
proof -
  have "pop_off (transmit cs t) = map_state (transmit cs) (pop_off t)" for cs :: "u8 list" and t :: "'a kdev_scheme"
    by (simp add: transmit_def lock_op_defs)
  moreover have "uartputc_sync c s = pop_off (transmit [ucast c] (push_off s))"
    using assms by (simp add: uartputc_sync_def uart_up_def WriteReg_def transmit_def push_off_eq lock_defs)
  ultimately show ?thesis using assms pop_push [of s] by (simp add: uart_up_def)
qed

lemma consputc_eq:
  assumes "uart_up s"
  shows "consputc (ucast c) s = Ok () (transmit [c] s)" "consputc BACKSPACE s = Ok () (transmit [8, 32, 8] s)"
proof -
  have "unat (ucast c :: u32) < 256" using unat_bound [of c] by (simp add: unat_ucast_up)
  then have "(ucast c :: u32) \<noteq> BACKSPACE" by (auto simp: BACKSPACE_def)
  moreover have "ucast (ucast c :: u32) = c" by (rule bit_word_eqI) (simp add: bit_ucast_iff)
  ultimately show "consputc (ucast c) s = Ok () (transmit [c] s)" using assms by (simp add: consputc_def uartputc_sync_eq)
  show "consputc BACKSPACE s = Ok () (transmit [8, 32, 8] s)"
    using assms by (simp add: consputc_def uartputc_sync_eq)
qed

lemma consputs_eq: "uart_up s \<Longrightarrow> consputs cs s = Ok () (transmit cs s)"
  unfolding consputs_def by (induction cs arbitrary: s) (simp_all add: consputc_eq)

end
