(* ===== verification/Console_Facts.thy ===== *)
theory Console_Facts
  imports Kprintf_Facts Proc_Facts Ring Console
begin

text \<open>
  Facts about \<^verbatim>\<open>kernel/console.c\<close> and the buffered half of \<^verbatim>\<open>kernel/uart.c\<close>: formatted output reaches the UART, the
  transmit buffer is a bounded queue, and the input buffer implements a line discipline.
\<close>

section \<open>Formatted output\<close>

lemma transmit_lock [simp]:
  "take_lock l (transmit cs s) = transmit cs (take_lock l s)"
  "unheld l (transmit cs s) = unheld l s" "settled (transmit cs s) = settled s"
  "release l (transmit cs s) = map_state (transmit cs) (release l s)"
  by (simp_all add: transmit_def take_lock_def unheld_def settled_def lock_op_defs)

lemma uart_up_lock [simp]: "uart_up s \<Longrightarrow> uart_up (take_lock l s)"
  by (simp add: uart_up_def) (simp add: take_lock_def push_off_eq lock_defs)

fun format_text :: "u8 list \<Rightarrow> vararg list \<Rightarrow> u8 list option" where
  "format_text [] ap = Some []"
| "format_text (c # fmt) ap =
     (if c = 0 then Some []
      else if c \<noteq> of_char CHR ''%'' then map_option ((#) c) (format_text fmt ap)
      else case fmt of [] \<Rightarrow> Some []
        | c # fmt \<Rightarrow>
          if c = 0 then Some []
          else if c = of_char CHR ''d'' then
            (case ap of V_int x # ap \<Rightarrow> map_option ((@) (signed_text digits 10 x True)) (format_text fmt ap) | _ \<Rightarrow> None)
          else if c = of_char CHR ''x'' then
            (case ap of V_int x # ap \<Rightarrow> map_option ((@) (signed_text digits 16 x True)) (format_text fmt ap) | _ \<Rightarrow> None)
          else if c = of_char CHR ''p'' then
            (case ap of V_ptr x # ap \<Rightarrow> map_option ((@) (bytes_of ''0x'' @ ptr_digits 16 x)) (format_text fmt ap) | _ \<Rightarrow> None)
          else if c = of_char CHR ''s'' then
            (case ap of V_str x # ap \<Rightarrow>
               map_option ((@) (case x of None \<Rightarrow> bytes_of ''(null)'' | Some cs \<Rightarrow> takeWhile (\<lambda>c. c \<noteq> 0) cs)) (format_text fmt ap)
             | _ \<Rightarrow> None)
          else if c = of_char CHR ''%'' then map_option ((#) (of_char CHR ''%'')) (format_text fmt ap)
          else map_option (\<lambda>cs. of_char CHR ''%'' # c # cs) (format_text fmt ap))"

lemma consputc_percent: "uart_up s \<Longrightarrow> consputc 37 s = Ok () (transmit [37] s)"
  using consputc_eq(1) [of s 37] by simp

lemma printint_eq: "uart_up s \<Longrightarrow> base = 10 \<or> base = 16 \<Longrightarrow>
    printint x base sign s = Ok () (transmit (signed_text digits (unat base) x sign) s)"
  by (simp add: printint_def int_chars_eq of_option_def consputs_eq)

lemma format_loop_eq:
  fixes s :: "'z kdev_scheme"
  shows "format_text fmt ap = Some cs \<Longrightarrow> uart_up s \<Longrightarrow> format_loop fmt ap s = Ok () (transmit cs s)"
proof (induction "length fmt" arbitrary: fmt ap cs s rule: less_induct)
  case less
  show ?case
  proof (cases fmt)
    case Nil
    then show ?thesis using less.prems by simp
  next
    case (Cons c fmt1)
    show ?thesis
    proof (cases "c = of_char CHR ''%'' \<and> fmt1 \<noteq> []")
      case False
      have IH: "format_text fmt1 ap' = Some cs' \<Longrightarrow> uart_up s' \<Longrightarrow> format_loop fmt1 ap' s' = Ok () (transmit cs' s')"
        for ap' cs' and s' :: "'z kdev_scheme" using less.hyps [of fmt1] Cons by simp
      consider "c = 0" | "c = of_char CHR ''%''" "fmt1 = []" | "c \<noteq> 0" "c \<noteq> of_char CHR ''%''" using False by blast
      then show ?thesis
      proof cases
        case 3
        then obtain ds where "format_text fmt1 ap = Some ds" "cs = c # ds" using less.prems(1) Cons by auto
        then show ?thesis using 3 less.prems(2) Cons IH by (simp add: consputc_eq)
      qed (use less.prems Cons in simp_all)
    next
      case True
      then obtain d fmt2 where f: "fmt = of_char CHR ''%'' # d # fmt2" using Cons by (cases fmt1) auto
      have IH: "format_text fmt2 ap' = Some cs' \<Longrightarrow> uart_up s' \<Longrightarrow> format_loop fmt2 ap' s' = Ok () (transmit cs' s')"
        for ap' cs' and s' :: "'z kdev_scheme" using less.hyps [of fmt2] f by simp
      show ?thesis using less.prems IH unfolding f
        by (auto simp: consputc_eq consputc_percent printint_eq printptr_def consputs_eq
          split: if_splits list.splits vararg.splits)
    qed
  qed
qed

lemma printf_eq:
  assumes "uart_up s" "pr_locking s \<Longrightarrow> unheld L_pr s" "format_text fmt ap = Some cs"
  shows "printf (Some fmt) ap s = Ok () (transmit cs s)"
proof (cases "pr_locking s")
  case True
  then have "release L_pr (take_lock L_pr s) = Ok () s" using assms by (simp add: uart_up_def)
  with True assms show ?thesis by (simp add: printf_def Let_def format_loop_eq)
next
  case False
  then show ?thesis using assms by (simp add: printf_def Let_def format_loop_eq)
qed

lemma pr_locking_simps [simp]: "pr_locking (transmit cs s) = pr_locking s" "pr_locking (take_lock l s) = pr_locking s"
  by (simp_all add: transmit_def take_lock_def push_off_eq lock_defs)

lemma procs_transmit [simp]: "procs (transmit cs s) = procs s"
  by (simp add: transmit_def)

lemma procdump_eq:
  assumes "uart_up s" "pr_locking s \<Longrightarrow> unheld L_pr s"
  shows "\<exists>cs. procdump s = Ok () (transmit cs s)"
proof -
  have nl: "kprintf [CHR 0x0A] [] (transmit cs s) = Ok () (transmit (cs @ [10]) s)" for cs
    using assms printf_eq [of "transmit cs s" "bytes_of [CHR 0x0A]" "[]" "[10]"] by (simp add: bytes_of_def)
  have line: "\<exists>ds. kprintf ''%d %s %s'' [V_int x, V_str (Some a), V_str (Some b)] (transmit cs s) = Ok () (transmit ds s)" for x a b cs
    using assms printf_eq [of "transmit cs s" "bytes_of ''%d %s %s''" "[V_int x, V_str (Some a), V_str (Some b)]"]
    by (auto simp: bytes_of_def)
  let ?I = "\<lambda>ys t. \<exists>cs. t = transmit cs s"
  have "\<exists>s'. each_res (\<lambda>p s.
       if p_state (procs s p) = UNUSED then Ok () s
       else bindr (kprintf ''%d %s %s'' [V_int (p_pid (procs s p)),
              V_str (Some (bytes_of (state_name (p_state (procs s p))))), V_str (Some (p_name (procs s p)))] s) (\<lambda>_ s.
            kprintf [CHR 0x0A] [] s)) [0..<NPROC] (transmit [10] s) = Ok () s' \<and> ?I [0..<NPROC] s'"
  proof (rule each_res_inv)
    fix ys x zs t assume "?I ys t"
    then obtain cs where t: "t = transmit cs s" by blast
    obtain ds where "kprintf ''%d %s %s'' [V_int (p_pid (procs t x)),
              V_str (Some (bytes_of (state_name (p_state (procs t x))))), V_str (Some (p_name (procs t x)))] t = Ok () (transmit ds s)"
      using line [of "p_pid (procs t x)" "bytes_of (state_name (p_state (procs t x)))" "p_name (procs t x)" cs] t by auto
    then show "\<exists>s'. (if p_state (procs t x) = UNUSED then Ok () t
       else bindr (kprintf ''%d %s %s'' [V_int (p_pid (procs t x)),
              V_str (Some (bytes_of (state_name (p_state (procs t x))))), V_str (Some (p_name (procs t x)))] t) (\<lambda>_ s.
            kprintf [CHR 0x0A] [] s)) = Ok () s' \<and> ?I (ys @ [x]) s'"
      using t nl by auto
  qed blast
  then show ?thesis using nl [of "[]"] by (auto simp: procdump_def)
qed

section \<open>The transmit buffer\<close>

definition uart_pending :: "'z kcons_scheme \<Rightarrow> u8 list" where
  "uart_pending s = ring_items UART_TX_BUF_SIZE (uart_tx_buf s) (uart_tx_r s) (uart_tx_w s)"

definition uart_tx_ok :: "'z kcons_scheme \<Rightarrow> bool" where
  "uart_tx_ok s \<longleftrightarrow> ring_ok UART_TX_BUF_SIZE (uart_tx_buf s) (uart_tx_r s) (uart_tx_w s)"

interpretation ur: ring_buffer UART_TX_BUF_SIZE uart_tx_buf uart_tx_r uart_tx_w uart_tx_put uart_tx_get uart_tx_full uart_tx_empty
  by unfold_locales (auto simp: UART_TX_BUF_SIZE_def uart_tx_put_def uart_tx_get_def uart_tx_full_def uart_tx_empty_def)

interpretation uq: bounded_queue uart_pending uart_tx_ok UART_TX_BUF_SIZE uart_tx_put uart_tx_get uart_tx_full uart_tx_empty
  using ur.bounded_queue_axioms by (simp add: uart_pending_def [abs_def] uart_tx_ok_def [abs_def])

definition uart_ready :: "'z kcons_scheme \<Rightarrow> bool" where
  "uart_ready s \<longleftrightarrow> uart_up s \<and> uart_tx_ok s \<and> proc_locks_free s"

text \<open>What the loop of \<open>uartstart\<close> does in one turn.\<close>

definition uart_send :: "'z kcons_scheme \<Rightarrow> 'z kcons_scheme" where
  "uart_send s = transmit [fst (uart_tx_get s)] (woken Ch_uart (snd (uart_tx_get s)))"

lemma uart_send_fields:
  "uart_out (uart_send s) = uart_out s @ [fst (uart_tx_get s)]" "uart_room (uart_send s) = uart_room s - 1"
  "uart_pending (uart_send s) = uart_pending (snd (uart_tx_get s))" "locks (uart_send s) = locks s" "mem (uart_send s) = mem s"
  by (simp_all add: uart_send_def transmit_def woken_def uart_tx_get_def uart_pending_def)

lemma uart_ready_send:
  assumes "uart_ready s" "\<not> uart_tx_empty s"
  shows "uart_ready (uart_send s)"
proof -
  have "uart_tx_ok (snd (uart_tx_get s))" using assms uq.get_law [of s] by (simp add: uart_ready_def)
  then show ?thesis using assms(1)
    by (simp add: uart_ready_def uart_send_def transmit_def woken_def uart_tx_get_def uart_tx_ok_def uart_up_def proc_locks_free_def settled_def unheld_def)
qed

lemma uartstart_step:
  assumes "uart_ready s" "\<not> uart_tx_empty s" "uart_room s \<noteq> 0"
  shows "uartstart_loop (Suc n) (take_lock L_uart s) = uartstart_loop n (take_lock L_uart (uart_send s))"
proof -
  let ?c = "fst (uart_tx_get s)" and ?s1 = "snd (uart_tx_get s)"
  have ok: "settled ?s1" "proc_locks_free ?s1" "uart_regs (woken Ch_uart ?s1) LCR AND LCR_BAUD_LATCH = 0"
    using assms(1) by (simp_all add: uart_ready_def uart_up_def uart_tx_get_def proc_locks_free_def settled_def unheld_def woken_def)
  have get: "uart_tx_get (take_lock L_uart s) = (?c, take_lock L_uart ?s1)"
    "uart_tx_empty (take_lock L_uart s) = uart_tx_empty s" "uart_room (take_lock L_uart s) = uart_room s"
    by (simp_all add: uart_tx_get_def uart_tx_empty_def take_lock_def push_off_eq lock_defs)
  have w: "wakeup (Some Ch_uart) (take_lock L_uart ?s1) = Ok () (take_lock L_uart (woken Ch_uart ?s1))"
    using ok by (intro wakeup_locked) simp_all
  have "WriteReg THR ?c (take_lock L_uart (woken Ch_uart ?s1)) = take_lock L_uart (uart_send s)"
    using ok(3) by (simp add: WriteReg_def uart_send_def transmit_def take_lock_def push_off_eq lock_defs)
  then show ?thesis using get w assms(2,3) by (simp add: Let_def)
qed

lemma uartstart_loop_eq:
  assumes "uart_ready s" "length (uart_pending s) \<le> n"
  shows "\<exists>s'. uartstart_loop n (take_lock L_uart s) = Ok () (take_lock L_uart s') \<and> uart_ready s'
    \<and> uart_out s' @ uart_pending s' = uart_out s @ uart_pending s \<and> (uart_pending s' = [] \<or> uart_room s' = 0)
    \<and> locks s' = locks s \<and> mem s' = mem s"
  using assms
proof (induction n arbitrary: s)
  case 0
  then show ?case by (intro exI [of _ s]) simp
next
  case (Suc n)
  have em: "uart_tx_empty s \<longleftrightarrow> uart_pending s = []" using Suc.prems(1) uq.empty_iff [of s] by (simp add: uart_ready_def)
  show ?case
  proof (cases "uart_tx_empty s \<or> uart_room s = 0")
    case True
    then have "uartstart_loop (Suc n) (take_lock L_uart s) = Ok () (take_lock L_uart s)"
      by (auto simp: uart_tx_empty_def take_lock_def push_off_eq lock_defs)
    with True em Suc.prems show ?thesis by (intro exI [of _ s]) auto
  next
    case False
    have p: "uart_pending s = fst (uart_tx_get s) # uart_pending (snd (uart_tx_get s))"
      using uq.get_law [of s] False Suc.prems(1) by (simp add: uart_ready_def)
    have "\<exists>s'. uartstart_loop n (take_lock L_uart (uart_send s)) = Ok () (take_lock L_uart s') \<and> uart_ready s'
      \<and> uart_out s' @ uart_pending s' = uart_out (uart_send s) @ uart_pending (uart_send s) \<and> (uart_pending s' = [] \<or> uart_room s' = 0)
      \<and> locks s' = locks (uart_send s) \<and> mem s' = mem (uart_send s)"
      by (rule Suc.IH) (use uart_ready_send False Suc.prems p in \<open>auto simp: uart_send_fields\<close>)
    then show ?thesis using uartstart_step [OF Suc.prems(1)] False p by (simp add: uart_send_fields)
  qed
qed

lemma uartputc_eq:
  assumes "uart_ready s" "unheld L_uart s" "\<not> uart_tx_full s"
  shows "\<exists>s'. uartputc c s = Ok () s' \<and> uart_ready s' \<and> uart_out s' @ uart_pending s' = uart_out s @ uart_pending s @ [c]
    \<and> (uart_pending s' = [] \<or> uart_room s' = 0) \<and> locks s' = locks s \<and> mem s' = mem s"
proof -
  let ?p = "uart_tx_put c s"
  have "uart_tx_ok ?p" "uart_pending ?p = uart_pending s @ [c]" using assms uq.put_law [of s c] by (simp_all add: uart_ready_def)
  moreover have r: "uart_ready ?p" using assms(1) calculation(1)
    by (simp add: uart_ready_def uart_tx_put_def uart_up_def proc_locks_free_def settled_def unheld_def)
  moreover have "length (uart_pending ?p) = unat (uart_tx_w ?p - uart_tx_r ?p)" by (simp add: uart_pending_def)
  ultimately obtain s' where s': "uartstart_loop (unat (uart_tx_w ?p - uart_tx_r ?p)) (take_lock L_uart ?p) = Ok () (take_lock L_uart s')"
      "uart_ready s'" "uart_out s' @ uart_pending s' = uart_out ?p @ uart_pending s @ [c]" "uart_pending s' = [] \<or> uart_room s' = 0"
      "locks s' = locks ?p" "mem s' = mem ?p"
    using uartstart_loop_eq [of ?p "unat (uart_tx_w ?p - uart_tx_r ?p)"] by auto
  have put: "uart_tx_put c (take_lock L_uart s) = take_lock L_uart ?p" "uart_tx_full (take_lock L_uart s) = uart_tx_full s"
    "panicked (take_lock L_uart s) = panicked s" "uartstart (take_lock L_uart ?p) = uartstart_loop (unat (uart_tx_w ?p - uart_tx_r ?p)) (take_lock L_uart ?p)"
    by (simp_all add: uart_tx_put_def uart_tx_full_def uartstart_def take_lock_def push_off_eq lock_defs)
  have "unheld L_uart s'" using assms(2) s'(5) by (simp add: unheld_def uart_tx_put_def)
  then have "uartputc c s = Ok () s'" using assms put s'(1,2)
    by (simp add: uartputc_def uartputc_turn_def uart_ready_def uart_up_def)
  then show ?thesis using s' by (intro exI [of _ s']) (simp add: uart_tx_put_def)
qed

section \<open>The input buffer\<close>

lemma cons_buf_lock [simp]:
  "cons_buf (take_lock l s) = cons_buf s" "cons_buf (transmit cs s) = cons_buf s"
  "take_lock l (s\<lparr>cons_buf := x\<rparr>) = (take_lock l s)\<lparr>cons_buf := x\<rparr>"
  "unheld l (s\<lparr>cons_buf := x\<rparr>) = unheld l s" "settled (s\<lparr>cons_buf := x\<rparr>) = settled s" "uart_up (s\<lparr>cons_buf := x\<rparr>) = uart_up s"
  "release l (s\<lparr>cons_buf := x\<rparr>) = map_state (\<lambda>s. s\<lparr>cons_buf := x\<rparr>) (release l s)"
  by (simp_all add: take_lock_def unheld_def settled_def transmit_def uart_up_def lock_op_defs)

lemma cons_r_lock [simp]:
  "cons_r (take_lock l s) = cons_r s" "cons_r (transmit cs s) = cons_r s"
  "take_lock l (s\<lparr>cons_r := x\<rparr>) = (take_lock l s)\<lparr>cons_r := x\<rparr>"
  "unheld l (s\<lparr>cons_r := x\<rparr>) = unheld l s" "settled (s\<lparr>cons_r := x\<rparr>) = settled s" "uart_up (s\<lparr>cons_r := x\<rparr>) = uart_up s"
  "release l (s\<lparr>cons_r := x\<rparr>) = map_state (\<lambda>s. s\<lparr>cons_r := x\<rparr>) (release l s)"
  by (simp_all add: take_lock_def unheld_def settled_def transmit_def uart_up_def lock_op_defs)

lemma cons_w_lock [simp]:
  "cons_w (take_lock l s) = cons_w s" "cons_w (transmit cs s) = cons_w s"
  "take_lock l (s\<lparr>cons_w := x\<rparr>) = (take_lock l s)\<lparr>cons_w := x\<rparr>"
  "unheld l (s\<lparr>cons_w := x\<rparr>) = unheld l s" "settled (s\<lparr>cons_w := x\<rparr>) = settled s" "uart_up (s\<lparr>cons_w := x\<rparr>) = uart_up s"
  "release l (s\<lparr>cons_w := x\<rparr>) = map_state (\<lambda>s. s\<lparr>cons_w := x\<rparr>) (release l s)"
  by (simp_all add: take_lock_def unheld_def settled_def transmit_def uart_up_def lock_op_defs)

lemma cons_e_lock [simp]:
  "cons_e (take_lock l s) = cons_e s" "cons_e (transmit cs s) = cons_e s"
  "take_lock l (s\<lparr>cons_e := x\<rparr>) = (take_lock l s)\<lparr>cons_e := x\<rparr>"
  "unheld l (s\<lparr>cons_e := x\<rparr>) = unheld l s" "settled (s\<lparr>cons_e := x\<rparr>) = settled s" "uart_up (s\<lparr>cons_e := x\<rparr>) = uart_up s"
  "release l (s\<lparr>cons_e := x\<rparr>) = map_state (\<lambda>s. s\<lparr>cons_e := x\<rparr>) (release l s)"
  by (simp_all add: take_lock_def unheld_def settled_def transmit_def uart_up_def lock_op_defs)

definition cons_ready :: "'z kcons_scheme \<Rightarrow> u8 list" where
  "cons_ready s = ring_items INPUT_BUF_SIZE (cons_buf s) (cons_r s) (cons_w s)"

definition cons_line :: "'z kcons_scheme \<Rightarrow> u8 list" where
  "cons_line s = ring_items INPUT_BUF_SIZE (cons_buf s) (cons_w s) (cons_e s)"

definition cons_inv :: "'z kcons_scheme \<Rightarrow> bool" where
  "cons_inv s \<longleftrightarrow> ring_ok INPUT_BUF_SIZE (cons_buf s) (cons_r s) (cons_e s)
     \<and> unat (cons_w s - cons_r s) \<le> unat (cons_e s - cons_r s) \<and> 10 \<notin> set (cons_line s)"

text \<open>A line discipline on the bytes that are ready and the line being edited.\<close>

definition line_edit :: "u8 \<Rightarrow> u8 list \<times> u8 list \<Rightarrow> u8 list \<times> u8 list" where
  "line_edit c = (\<lambda>(ready, line).
     if c = 0x10 then (ready, line)
     else if c = 0x15 then (ready, [])
     else if c = 8 \<or> c = 0x7f then (ready, butlast line)
     else if c = 0 \<or> length ready + length line \<ge> 128 then (ready, line)
     else let line' = line @ [if c = 13 then 10 else c]
          in if c = 13 \<or> c = 10 \<or> c = 4 \<or> length ready + length line' = 128 then (ready @ line', []) else (ready, line'))"

lemma input_size: "INPUT_BUF_SIZE dvd 2 ^ LENGTH(32)" "INPUT_BUF_SIZE < 2 ^ LENGTH(32)"
  by (simp_all add: INPUT_BUF_SIZE_def)

lemma cons_lengths:
  assumes "cons_inv s"
  shows "length (cons_ready s) + length (cons_line s) = unat (cons_e s - cons_r s)" "unat (cons_e s - cons_r s) \<le> INPUT_BUF_SIZE"
  using assms ring_split(2) [of "cons_w s" "cons_r s" "cons_e s"] by (simp_all add: cons_inv_def cons_ready_def cons_line_def ring_ok_def)

lemma cons_all:
  fixes r w e :: u32 and d :: "u8 list"
  assumes w: "unat (w - r) \<le> unat (e - r)" and ok: "ring_ok INPUT_BUF_SIZE d r e" and lt: "unat (e - r) < INPUT_BUF_SIZE"
    and d': "d' = d[unat e mod INPUT_BUF_SIZE := c]"
  shows "ring_items INPUT_BUF_SIZE d' r w = ring_items INPUT_BUF_SIZE d r w"
    "ring_items INPUT_BUF_SIZE d' w (e + 1) = ring_items INPUT_BUF_SIZE d w e @ [c]"
    "ring_items INPUT_BUF_SIZE d' r (e + 1) = ring_items INPUT_BUF_SIZE d r w @ ring_items INPUT_BUF_SIZE d w e @ [c]"
    "ring_ok INPUT_BUF_SIZE d' r (e + 1)" "unat (w - r) \<le> unat (e + 1 - r)"
proof -
  have we: "unat (e - w) < INPUT_BUF_SIZE" using ring_split(2) [OF w] lt by simp
  then have "ring_ok INPUT_BUF_SIZE d w e" using ok by (simp add: ring_ok_def)
  from ring_put(2) [OF this input_size we] show l: "ring_items INPUT_BUF_SIZE d' w (e + 1) = ring_items INPUT_BUF_SIZE d w e @ [c]"
    by (simp add: d')
  show "ring_ok INPUT_BUF_SIZE d' r (e + 1)" using ring_put(1) [OF ok input_size lt] by (simp add: d')
  show w': "unat (w - r) \<le> unat (e + 1 - r)" using w unat_suc_diff [OF lt input_size(2)] by simp
  show a: "ring_items INPUT_BUF_SIZE d' r (e + 1) = ring_items INPUT_BUF_SIZE d r w @ ring_items INPUT_BUF_SIZE d w e @ [c]"
    using ring_put(2) [OF ok input_size lt] ring_split(1) [OF w, of INPUT_BUF_SIZE d] by (simp add: d')
  show "ring_items INPUT_BUF_SIZE d' r w = ring_items INPUT_BUF_SIZE d r w"
    using a l ring_split(1) [OF w', of INPUT_BUF_SIZE d'] by simp
qed

lemma cons_erase:
  assumes "cons_inv s" "cons_e s \<noteq> cons_w s"
  shows "cons_inv (s\<lparr>cons_e := cons_e s - 1\<rparr>)" "cons_line (s\<lparr>cons_e := cons_e s - 1\<rparr>) = butlast (cons_line s)"
    "cons_buf s ! (unat (cons_e s - 1) mod INPUT_BUF_SIZE) = last (cons_line s)" "cons_line s \<noteq> []"
proof -
  let ?r = "cons_r s" and ?w = "cons_w s" and ?e = "cons_e s"
  have w: "unat (?w - ?r) \<le> unat (?e - ?r)" and ok: "ring_ok INPUT_BUF_SIZE (cons_buf s) ?r ?e" using assms(1) by (simp_all add: cons_inv_def)
  note sp = ring_split(2) [OF w]
  have ok': "ring_ok INPUT_BUF_SIZE (cons_buf s) ?w ?e" using ok sp by (simp add: ring_ok_def)
  note u = ring_unput [OF ok' assms(2)]
  have er: "?e \<noteq> ?r" using assms(2) sp by (auto simp: unat_eq_0)
  have "unat (?e - ?r) = Suc (unat (?e - 1 - ?r))" using unat_diff_suc [OF er] by (simp add: algebra_simps)
  moreover have "unat (?e - ?w) \<noteq> 0" using assms(2) by (simp add: unat_eq_0)
  ultimately have w': "unat (?w - ?r) \<le> unat (?e - 1 - ?r)" using sp by simp
  show l: "cons_line (s\<lparr>cons_e := ?e - 1\<rparr>) = butlast (cons_line s)" using u(2) by (simp add: cons_line_def)
  show "cons_buf s ! (unat (?e - 1) mod INPUT_BUF_SIZE) = last (cons_line s)" "cons_line s \<noteq> []" using u(2) by (simp_all add: cons_line_def)
  have "10 \<notin> set (butlast (cons_line s))" using assms(1) by (auto simp: cons_inv_def dest: in_set_butlastD)
  then show "cons_inv (s\<lparr>cons_e := ?e - 1\<rparr>)" using ring_unput(1) [OF ok er] w' l by (simp add: cons_inv_def)
qed

lemma cons_transmit [simp]:
  "cons_line (transmit cs s) = cons_line s" "cons_ready (transmit cs s) = cons_ready s" "cons_inv (transmit cs s) = cons_inv s"
  "(transmit cs s)\<lparr>cons_e := x\<rparr> = transmit cs (s\<lparr>cons_e := x\<rparr>)"
  by (simp_all add: cons_line_def cons_ready_def cons_inv_def) (simp add: transmit_def)

abbreviation erased :: "nat \<Rightarrow> u8 list" where
  "erased n \<equiv> concat (replicate n [8, 32, 8])"

lemma kill_line_eq:
  assumes "cons_inv s" "uart_up s" "n = length (cons_line s)"
  shows "kill_line n s = Ok () (transmit (erased n) (s\<lparr>cons_e := cons_w s\<rparr>))"
  using assms
proof (induction n arbitrary: s)
  case 0
  then have "cons_e s = cons_w s" by (simp add: cons_line_def unat_diff_zero_iff)
  moreover have "s\<lparr>cons_e := cons_e s\<rparr> = s" by simp
  ultimately show ?case by simp
next
  case (Suc n)
  then have ne: "cons_e s \<noteq> cons_w s" by (auto simp: cons_line_def)
  note e = cons_erase [OF Suc.prems(1) ne]
  let ?s = "transmit [8, 32, 8] (s\<lparr>cons_e := cons_e s - 1\<rparr>)"
  have "last (cons_line s) \<noteq> 10" using Suc.prems(1) last_in_set [OF e(4)] by (metis cons_inv_def)
  then have "kill_line (Suc n) s = kill_line n ?s" using e(3) Suc.prems(2) by (simp add: cons_echo_erase_def consputc_eq)
  moreover have "n = length (cons_line ?s)" using e(2) Suc.prems(3) by simp
  then have "kill_line n ?s = Ok () (transmit (erased n) (?s\<lparr>cons_e := cons_w ?s\<rparr>))"
    by (intro Suc.IH) (use e(1) Suc.prems(2) in simp_all)
  ultimately show ?case by simp
qed

lemma cons_take_lock [simp]:
  "cons_line (take_lock l s) = cons_line s" "cons_ready (take_lock l s) = cons_ready s" "cons_inv (take_lock l s) = cons_inv s"
  by (simp_all add: cons_line_def cons_ready_def cons_inv_def)

definition line_echo :: "u8 \<Rightarrow> u8 list \<times> u8 list \<Rightarrow> u8 list" where
  "line_echo c = (\<lambda>(ready, line).
     if c = 0x15 then erased (length line)
     else if c = 8 \<or> c = 0x7f then if line = [] then [] else [8, 32, 8]
     else if c = 0 \<or> length ready + length line \<ge> 128 then [] else [if c = 13 then 10 else c])"

lemma cons_put_lock [simp]:
  "cons_put c (take_lock l s) = take_lock l (cons_put c s)" "cons_commit (take_lock l s) = take_lock l (cons_commit s)"
  "unheld l (cons_put c s) = unheld l s" "unheld l (cons_commit s) = unheld l s"
  "settled (cons_put c s) = settled s" "settled (cons_commit s) = settled s"
  by (simp_all add: cons_put_def cons_commit_def)

lemma proc_locks_free_cons [simp]:
  "proc_locks_free (cons_put c s) = proc_locks_free s" "proc_locks_free (cons_commit s) = proc_locks_free s"
  "proc_locks_free (transmit cs s) = proc_locks_free s"
  by (simp_all add: proc_locks_free_def)

lemma cons_put_abs:
  assumes "cons_inv s" "length (cons_ready s) + length (cons_line s) < 128"
  shows "cons_ready (cons_put c s) = cons_ready s" "cons_line (cons_put c s) = cons_line s @ [c]"
    "cons_ready (cons_commit (cons_put c s)) = cons_ready s @ cons_line s @ [c]" "cons_line (cons_commit (cons_put c s)) = []"
    "c \<noteq> 10 \<Longrightarrow> cons_inv (cons_put c s)" "cons_inv (cons_commit (cons_put c s))"
proof -
  have lt: "unat (cons_e s - cons_r s) < INPUT_BUF_SIZE" using assms cons_lengths [OF assms(1)] by (simp add: INPUT_BUF_SIZE_def)
  have w: "unat (cons_w s - cons_r s) \<le> unat (cons_e s - cons_r s)" and ok: "ring_ok INPUT_BUF_SIZE (cons_buf s) (cons_r s) (cons_e s)"
    using assms(1) by (simp_all add: cons_inv_def)
  note c = cons_all [OF w ok lt refl [of "(cons_buf s)[unat (cons_e s) mod INPUT_BUF_SIZE := c]"]]
  show "cons_ready (cons_put c s) = cons_ready s" using c(1) by (simp add: cons_ready_def cons_put_def)
  show l: "cons_line (cons_put c s) = cons_line s @ [c]" using c(2) by (simp add: cons_line_def cons_put_def)
  show "cons_ready (cons_commit (cons_put c s)) = cons_ready s @ cons_line s @ [c]"
    using c(3) by (simp add: cons_ready_def cons_line_def cons_put_def cons_commit_def)
  show l': "cons_line (cons_commit (cons_put c s)) = []" by (simp add: cons_line_def cons_commit_def ring_items_def)
  show "cons_inv (cons_put c s)" if "c \<noteq> 10" using that assms(1) l c(4,5) by (simp add: cons_inv_def) (simp add: cons_put_def)
  show "cons_inv (cons_commit (cons_put c s))" using l' c(4) by (simp add: cons_inv_def) (simp add: cons_put_def cons_commit_def)
qed

lemma cons_frame [simp]:
  "cons_ready (woken ch s) = cons_ready s" "cons_line (woken ch s) = cons_line s" "cons_inv (woken ch s) = cons_inv s"
  "cons_put c (transmit cs s) = transmit cs (cons_put c s)" "cons_commit (transmit cs s) = transmit cs (cons_commit s)"
  "woken ch (transmit cs s) = transmit cs (woken ch s)" "locks (transmit cs s) = locks s" "locks (cons_put c s) = locks s"
  "locks (cons_commit s) = locks s" "locks (woken ch s) = locks s" "uart_out (cons_put c s) = uart_out s" "uart_out (cons_commit s) = uart_out s"
  "uart_out (woken ch s) = uart_out s"
  by (simp_all add: cons_ready_def cons_line_def cons_inv_def woken_def cons_put_def cons_commit_def transmit_def cong: if_cong)

text \<open>The console is ready for a character.\<close>

definition cons_up :: "'z kcons_scheme \<Rightarrow> bool" where
  "cons_up s \<longleftrightarrow> proc_locks_free s \<and> uart_up s \<and> unheld L_cons s \<and> (pr_locking s \<longrightarrow> unheld L_pr s) \<and> cons_inv s"

lemma cons_upD:
  assumes "cons_up s"
  shows "uart_up (take_lock L_cons s)" "settled s" "unheld L_cons s" "cons_inv s" "proc_locks_free s"
  using assms by (simp_all add: cons_up_def) (simp add: uart_up_def)

lemma consoleintr_dump:
  assumes "cons_up s"
  obtains cs where "consoleintr 0x10 s = Ok () (transmit cs s)"
proof -
  note up = cons_upD [OF assms]
  have "\<exists>cs. procdump (take_lock L_cons s) = Ok () (transmit cs (take_lock L_cons s))"
    using assms by (intro procdump_eq up(1)) (simp add: cons_up_def)
  then obtain cs where "procdump (take_lock L_cons s) = Ok () (transmit cs (take_lock L_cons s))" ..
  then have "consoleintr 0x10 s = Ok () (transmit cs s)" using up by (simp add: consoleintr_def)
  then show ?thesis by (rule that)
qed

lemma consoleintr_kill:
  assumes "cons_up s"
  defines "t \<equiv> s\<lparr>cons_e := cons_w s\<rparr>"
  shows "consoleintr 0x15 s = Ok () (transmit (erased (length (cons_line s))) t)"
    "cons_line t = []" "cons_ready t = cons_ready s" "cons_inv t"
proof -
  let ?t = "take_lock L_cons s"
  note up = cons_upD [OF assms(1)]
  have "unat (cons_e s - cons_w s) = length (cons_line s)" by (simp add: cons_line_def)
  then have "kill_line (unat (cons_e ?t - cons_w ?t)) ?t = Ok () (transmit (erased (length (cons_line s))) (?t\<lparr>cons_e := cons_w s\<rparr>))"
    using kill_line_eq [of ?t "length (cons_line s)"] up by simp
  then show "consoleintr 0x15 s = Ok () (transmit (erased (length (cons_line s))) t)"
    using up by (simp add: consoleintr_def t_def)
  show "cons_line t = []" "cons_ready t = cons_ready s" by (simp_all add: cons_line_def cons_ready_def ring_items_def t_def)
  show "cons_inv t" using up(4) by (auto simp: cons_inv_def ring_ok_def cons_line_def ring_items_def t_def)
qed

lemma consoleintr_erase:
  assumes "cons_up s" "c = 8 \<or> c = 0x7f"
  shows "cons_line s = [] \<Longrightarrow> consoleintr c s = Ok () s"
    "cons_line s \<noteq> [] \<Longrightarrow> cons_e s \<noteq> cons_w s \<and> consoleintr c s = Ok () (transmit [8, 32, 8] (s\<lparr>cons_e := cons_e s - 1\<rparr>))"
proof -
  note up = cons_upD [OF assms(1)]
  have em: "cons_e s = cons_w s \<longleftrightarrow> cons_line s = []" by (auto simp: cons_line_def ring_items_def unat_eq_0)
  show "cons_line s = [] \<Longrightarrow> consoleintr c s = Ok () s" using assms(2) em up by (auto simp: consoleintr_def)
  show "cons_line s \<noteq> [] \<Longrightarrow> cons_e s \<noteq> cons_w s \<and> consoleintr c s = Ok () (transmit [8, 32, 8] (s\<lparr>cons_e := cons_e s - 1\<rparr>))"
    using assms(2) em up by (auto simp: consoleintr_def cons_echo_erase_def consputc_eq)
qed

abbreviation plain :: "u8 \<Rightarrow> bool" where
  "plain c \<equiv> c \<noteq> 0x10 \<and> c \<noteq> 0x15 \<and> c \<noteq> 8 \<and> c \<noteq> 0x7f"

lemma cons_room:
  assumes "cons_inv s"
  shows "cons_e s - cons_r s < of_nat INPUT_BUF_SIZE \<longleftrightarrow> length (cons_ready s) + length (cons_line s) < 128"
    "length (cons_ready s) + length (cons_line s) < 128 \<Longrightarrow>
      cons_e s + 1 - cons_r s = of_nat INPUT_BUF_SIZE \<longleftrightarrow> length (cons_ready s) + length (cons_line s) = 127"
proof -
  show "cons_e s - cons_r s < of_nat INPUT_BUF_SIZE \<longleftrightarrow> length (cons_ready s) + length (cons_line s) < 128"
    using cons_lengths [OF assms] by (simp add: word_less_nat_alt INPUT_BUF_SIZE_def)
  assume "length (cons_ready s) + length (cons_line s) < 128"
  then have "unat (cons_e s - cons_r s) < INPUT_BUF_SIZE" using cons_lengths [OF assms] by (simp add: INPUT_BUF_SIZE_def)
  then have "unat (cons_e s + 1 - cons_r s) = Suc (length (cons_ready s) + length (cons_line s))"
    using unat_suc_diff [OF _ input_size(2)] cons_lengths(1) [OF assms] by simp
  then show "cons_e s + 1 - cons_r s = of_nat INPUT_BUF_SIZE \<longleftrightarrow> length (cons_ready s) + length (cons_line s) = 127"
    using unat_diff_full_iff [OF input_size(2), of "cons_e s + 1" "cons_r s"] by (auto simp: INPUT_BUF_SIZE_def algebra_simps)
qed

lemma consoleintr_full:
  assumes "cons_up s" "plain c" "c = 0 \<or> length (cons_ready s) + length (cons_line s) \<ge> 128"
  shows "consoleintr c s = Ok () s"
  using assms cons_upD [OF assms(1)] cons_room(1) [of s] by (auto simp: consoleintr_def)

lemma consoleintr_char:
  assumes "cons_up s" "plain c" "c \<noteq> 0" "length (cons_ready s) + length (cons_line s) < 128"
  defines "d \<equiv> if c = 13 then 10 else c"
  defines "u \<equiv> transmit [d] (cons_put d s)"
  shows "consoleintr c s = Ok () (if d = 10 \<or> d = 4 \<or> length (cons_ready s) + length (cons_line s) = 127
    then woken Ch_cons (cons_commit u) else u)"
proof -
  note up = cons_upD [OF assms(1)]
  have u: "cons_e u = cons_e s + 1" "cons_r u = cons_r s" by (simp_all add: u_def cons_put_def transmit_def)
  have put: "cons_put d (transmit [d] (take_lock L_cons s)) = take_lock L_cons u" by (simp add: u_def)
  have ok: "settled u" "proc_locks_free u" "unheld L_cons u" using up by (simp_all add: u_def)
  have "consputc (ucast d) (take_lock L_cons s) = Ok () (transmit [d] (take_lock L_cons s))" using up(1) by (rule consputc_eq)
  moreover have "cons_commit (take_lock L_cons u) = take_lock L_cons (cons_commit u)" by simp
  ultimately show ?thesis using assms(2-4) up(2,3) put ok u cons_room [OF up(4)]
    by (simp add: consoleintr_def Let_def d_def [symmetric])
qed

lemma consoleintr_eq:
  assumes up: "cons_up s"
  shows "\<exists>s'. consoleintr c s = Ok () s' \<and> cons_inv s' \<and> (cons_ready s', cons_line s') = line_edit c (cons_ready s, cons_line s)
    \<and> locks s' = locks s \<and> (c \<noteq> 0x10 \<longrightarrow> uart_out s' = uart_out s @ line_echo c (cons_ready s, cons_line s))"
proof -
  note inv = cons_upD(4) [OF up]
  consider (dump) "c = 0x10" | (kill) "c = 0x15" | (bs) "c = 8 \<or> c = 0x7f"
    | (full) "plain c" "c = 0 \<or> length (cons_ready s) + length (cons_line s) \<ge> 128"
    | (char) "plain c" "c \<noteq> 0" "length (cons_ready s) + length (cons_line s) < 128"
    by linarith
  then show ?thesis
  proof cases
    case dump
    from consoleintr_dump [OF up] obtain cs where "consoleintr 0x10 s = Ok () (transmit cs s)" .
    then show ?thesis using dump inv by (intro exI [of _ "transmit cs s"]) (simp add: line_edit_def)
  next
    case kill
    then show ?thesis using consoleintr_kill [OF up] by (simp add: line_edit_def line_echo_def)
  next
    case bs
    have "cons_ready (s\<lparr>cons_e := x\<rparr>) = cons_ready s" for x by (simp add: cons_ready_def)
    then show ?thesis using consoleintr_erase [OF up bs] cons_erase [OF inv] inv bs
      by (cases "cons_line s = []") (auto simp: line_edit_def line_echo_def)
  next
    case full
    then show ?thesis using consoleintr_full [OF up full] inv by (auto simp: line_edit_def line_echo_def)
  next
    case char
    then show ?thesis using consoleintr_char [OF up char] cons_put_abs [OF inv char(3), of "if c = 13 then 10 else c"]
      by (auto simp: line_edit_def line_echo_def Let_def split: if_splits)
  qed
qed

end
