(* ===== verification/Console_Properties.thy ===== *)
theory Console_Properties
  imports Console_Facts Demo_Kernel
begin

text \<open>
  The properties of \<^verbatim>\<open>kernel/printf.c\<close>, \<^verbatim>\<open>kernel/uart.c\<close> and \<^verbatim>\<open>kernel/console.c\<close>.
\<close>

lemma demo_kernel_uart [simp]:
  "uart_up demo_kernel" "uart_tx_ok demo_kernel" "\<not> panicked demo_kernel" "uart_regs demo_kernel LCR AND LCR_BAUD_LATCH = 0"
  "uart_pending demo_kernel = []" "uart_out demo_kernel = []" "\<not> uart_tx_full demo_kernel"
  by (simp_all add: uart_up_def) (simp_all add: demo_kernel_def uart_tx_ok_def uart_pending_def ring_ok_def ring_items_def uart_tx_full_def UART_TX_BUF_SIZE_def)

text \<open>C28: \<open>printint\<close> prints the number it is given: it sends to the UART an optional minus sign and the digits of
  the number's absolute value in the given base, most significant first and without leading zeros, never
  overflowing its buffer of 16 characters; with \<open>sign\<close> the argument is read as signed, otherwise as unsigned.\<close>

theorem printint_correct:
  assumes "settled s" "\<not> panicked s" "uart_regs s LCR AND LCR_BAUD_LATCH = 0" "base = 10 \<or> base = 16"
  shows "\<exists>ds. printint x base sign s =
      Ok () (transmit ((if sign \<and> sint x < 0 then [0x2d] else []) @ map ((!) digits) ds) s)
    \<and> (\<forall>d \<in> set ds. d < unat base) \<and> foldl (\<lambda>a d. a * unat base + d) 0 ds = (if sign \<and> sint x < 0 then nat (- sint x) else unat x)
    \<and> ds \<noteq> [] \<and> (hd ds = 0 \<longrightarrow> ds = [0])"
proof -
  let ?n = "if sign \<and> sint x < 0 then nat (- sint x) else unat x"
  let ?ds = "rev (nat_digits (unat base) ?n)"
  have b: "2 \<le> unat base" using assms(4) by auto
  have "printint x base sign s = Ok () (transmit ((if sign \<and> sint x < 0 then [0x2d] else []) @ map ((!) digits) ?ds) s)"
    using assms(1-3) by (auto simp: printint_def int_chars_eq [OF assms(4)] signed_text_def consputs_eq uart_up_def of_option_def)
  moreover have "?ds = [0]" if "hd ?ds = 0"
  proof -
    have "?n = 0" using that nat_digits_leading [OF b, of ?n] by (cases "?n = 0") (auto simp: hd_rev)
    then show ?thesis using b by (subst nat_digits.simps) simp
  qed
  ultimately show ?thesis using nat_digits_less [OF b] nat_digits_value [OF b]
    by (intro exI [of _ ?ds]) auto
qed

theorem printint_correct_witness:
  "\<exists>ds. printint (- 42) 10 True demo_kernel = Ok () (transmit (0x2d # map ((!) digits) ds) demo_kernel)
    \<and> foldl (\<lambda>a d. a * 10 + d) 0 ds = 42"
  using printint_correct [of demo_kernel 10 "- 42" True] by auto

text \<open>C21: The transmit buffer never loses, duplicates or reorders a byte.  \<open>uartputc\<close> on a buffer with room returns with
  the byte appended to the stream: what has left through the UART followed by what is still buffered is what it was, plus the new byte,
  and bytes are left behind only if the UART takes no more.  On a full buffer (32 bytes) it sleeps, having changed nothing.\<close>

theorem uartputc_fifo:
  assumes "uart_up s" "uart_tx_ok s" "proc_locks_free s" "unheld L_uart s" "noff (mycpu s) = 0" "cur s = Some p" "p < NPROC"
  shows "if length (uart_pending s) = UART_TX_BUF_SIZE
    then uartputc c s = Block Ch_uart (take_lock (L_proc p) (go_to_sleep p Ch_uart s))
    else \<exists>s'. uartputc c s = Ok () s' \<and> uart_tx_ok s' \<and> uart_out s' @ uart_pending s' = uart_out s @ uart_pending s @ [c]
      \<and> (uart_pending s' = [] \<or> uart_room s' = 0) \<and> locks s' = locks s \<and> mem s' = mem s"
proof (cases "uart_tx_full s")
  case True
  have "settled s" "\<not> panicked s" using assms(1) by (simp_all add: uart_up_def)
  moreover have "panicked (take_lock L_uart s) = panicked s" "uart_tx_full (take_lock L_uart s) = uart_tx_full s"
    by (simp_all add: uart_tx_full_def take_lock_def push_off_eq lock_defs)
  ultimately show ?thesis using True assms uq.full_iff [OF assms(2)] sleep_Block [of s p L_uart Ch_uart]
    by (simp add: uartputc_def uartputc_turn_def proc_locks_freeD)
next
  case False
  then show ?thesis using uartputc_eq [of s c] assms uq.full_iff [OF assms(2)] by (simp add: uart_ready_def) blast
qed

theorem uartputc_fifo_witness:
  "\<exists>s'. uartputc 65 demo_kernel = Ok () s' \<and> uart_out s' @ uart_pending s' = [65]"
  using uartputc_fifo [of demo_kernel 0 65] by (auto simp: UART_TX_BUF_SIZE_def NPROC_def)

text \<open>C16: \<open>consoleintr\<close> implements a line discipline.  On the bytes ready for \<open>consoleread\<close> and the line being edited,
  control-U kills the line, backspace and delete take its last character, a character is appended while fewer than 128 are
  buffered (carriage return as newline), and newline, control-D or a full buffer hands the line over to the reader; each
  keystroke is echoed, and the buffer's counters stay consistent across their wrap-around.\<close>

theorem consoleintr_refines:
  assumes "proc_locks_free s" "uart_up s" "unheld L_cons s" "pr_locking s \<Longrightarrow> unheld L_pr s" "cons_inv s"
  shows "\<exists>s'. consoleintr c s = Ok () s' \<and> cons_inv s' \<and> (cons_ready s', cons_line s') = line_edit c (cons_ready s, cons_line s)
    \<and> locks s' = locks s \<and> (c \<noteq> 0x10 \<longrightarrow> uart_out s' = uart_out s @ line_echo c (cons_ready s, cons_line s))"
  by (rule consoleintr_eq) (use assms in \<open>simp add: cons_up_def\<close>)

theorem consoleintr_refines_witness:
  "\<exists>s'. consoleintr 13 demo_kernel = Ok () s' \<and> cons_ready s' = [10] \<and> cons_line s' = [] \<and> uart_out s' = [10]"
proof -
  have z: "cons_inv demo_kernel" "cons_ready demo_kernel = []" "cons_line demo_kernel = []"
    by (simp_all add: cons_inv_def cons_ready_def cons_line_def ring_ok_def ring_items_def demo_kernel_def)
  show ?thesis using consoleintr_refines [of demo_kernel 13] z by (auto simp: line_edit_def line_echo_def)
qed

end
