(* ===== verification/Disk_Facts.thy ===== *)
theory Disk_Facts
  imports Proc_Facts Bio
begin

text \<open>
  What \<open>virtio_disk_rw\<close> does: with the queue idle and no lock held, a read or write of a buffer goes through the
  descriptor chain, the device, the interrupt handler and the scheduler, and comes back with the block
  transferred and the queue idle again.
\<close>

section \<open>Between operations\<close>

text \<open>Process \<open>p\<close> runs in the kernel with interrupts on, holds no spin lock, and no request is in flight.\<close>

definition queue_idle :: "'z kdisk_scheme \<Rightarrow> bool" where
  "queue_idle s \<longleftrightarrow> (\<forall>i < NUM. vd_free s i) \<and> vd_seen s = vd_avail_idx s \<and> vd_used_idx s = vd_used_idx_dev s"

definition at_ease :: "nat \<Rightarrow> 'z kproc_scheme \<Rightarrow> bool" where
  "at_ease p s \<longleftrightarrow> settled s \<and> noff (mycpu s) = 0 \<and> intr_get s \<and> cur s = Some p \<and> p < NPROC \<and> (\<forall>l. unheld l s)
     \<and> p_state (procs s p) = RUNNING"

text \<open>Scheduling changes a process only in its state, its channel and its saved interrupt bit.\<close>

definition same_proc :: "proc \<Rightarrow> proc \<Rightarrow> bool" where
  "same_proc q q' \<longleftrightarrow> q' = q\<lparr>p_state := p_state q', p_chan := p_chan q', p_intena := p_intena q'\<rparr>"

definition same_procs :: "(nat \<Rightarrow> proc) \<Rightarrow> (nat \<Rightarrow> proc) \<Rightarrow> bool" where
  "same_procs f g \<longleftrightarrow> (\<forall>p. same_proc (f p) (g p))"

lemma same_proc_refl [simp]: "same_proc q q"
  by (cases q) (simp add: same_proc_def)

lemma same_proc_upd [simp]:
  "same_proc q (q'\<lparr>p_state := x\<rparr>) = same_proc q q'" "same_proc q (q'\<lparr>p_chan := c\<rparr>) = same_proc q q'"
  "same_proc q (q'\<lparr>p_intena := i\<rparr>) = same_proc q q'"
  by (cases q; cases q'; simp add: same_proc_def)+

lemma same_proc_wake [simp]: "same_proc q (wake ch q') = same_proc q q'"
  by (simp add: wake_def)

lemma same_proc_trans: "same_proc a b \<Longrightarrow> same_proc b c \<Longrightarrow> same_proc a c"
  by (cases a; cases b; cases c; simp add: same_proc_def)

lemma same_proc_fields: "same_proc q q' \<Longrightarrow> p_pid q' = p_pid q \<and> p_pagetable q' = p_pagetable q \<and> p_sz q' = p_sz q \<and> p_killed q' = p_killed q"
  by (cases q; cases q'; simp add: same_proc_def)

lemma same_procs_refl [simp]: "same_procs f f"
  by (simp add: same_procs_def)

lemma same_procs_trans: "same_procs f g \<Longrightarrow> same_procs g h \<Longrightarrow> same_procs f h"
  by (auto simp: same_procs_def intro: same_proc_trans)

lemma same_procs_woken [simp]: "same_procs f (procs (woken ch s)) = same_procs f (procs s)"
  by (auto simp: same_procs_def woken_def)

section \<open>The driver under its lock\<close>

lemma submit_locked:
  "virtio_disk_submit b w ijk (take_lock l s) = take_lock l (virtio_disk_submit b w ijk s)"
  by (cases ijk) (simp add: virtio_disk_submit_def upd_desc_def upd_buf_def mmio_write_def Let_def take_lock_def push_off_eq lock_defs)

lemma alloc3_locked:
  assumes "\<forall>i < NUM. vd_free s i"
  shows "alloc3_desc (take_lock l s) = Ok (Some (0, 1, 2)) (take_lock l (s\<lparr>vd_free := (vd_free s)(0 := False, 1 := False, 2 := False)\<rparr>))"
proof -
  have "[0..<NUM] = [0, 1, 2] @ [3..<8]" by (simp add: NUM_def upt_conv_Cons)
  moreover have "vd_free (take_lock l s) = vd_free s" by (simp add: take_lock_def push_off_eq lock_defs)
  ultimately show ?thesis using assms
    by (simp add: alloc3_desc_def alloc_desc_def NUM_def) (simp add: take_lock_def push_off_eq lock_defs)
qed

lemma free_desc_locked:
  assumes "i < NUM" "\<not> vd_free s i" "settled s" "\<forall>l. unheld l s"
  shows "free_desc i (take_lock L_vdisk s) = Ok () (take_lock L_vdisk (woken Ch_disk_free
    ((upd_desc i (\<lambda>_. \<lparr>d_addr = D_null, d_len = 0, d_flags = 0, d_next = 0\<rparr>) s)\<lparr>vd_free := (vd_free s)(i := True)\<rparr>)))"
proof -
  let ?t = "(upd_desc i (\<lambda>_. \<lparr>d_addr = D_null, d_len = 0, d_flags = 0, d_next = 0\<rparr>) s)\<lparr>vd_free := (vd_free s)(i := True)\<rparr>"
  have "(upd_desc i (\<lambda>_. \<lparr>d_addr = D_null, d_len = 0, d_flags = 0, d_next = 0\<rparr>) (take_lock L_vdisk s))\<lparr>vd_free := (vd_free s)(i := True)\<rparr> =
      take_lock L_vdisk ?t" "vd_free (take_lock L_vdisk s) = vd_free s"
    by (simp_all add: upd_desc_def take_lock_def push_off_eq lock_defs)
  then have "free_desc i (take_lock L_vdisk s) = wakeup (Some Ch_disk_free) (take_lock L_vdisk ?t)"
    using assms(1,2) by (simp add: free_desc_def Let_def) (simp add: upd_desc_def)
  moreover have "settled ?t" "proc_locks_free ?t"
    using assms(3,4) by (simp_all add: upd_desc_def settled_def proc_locks_free_def unheld_def)
  ultimately show ?thesis by simp
qed

section \<open>A submitted request and its completion\<close>

definition submitted :: "bool \<Rightarrow> nat \<Rightarrow> 'z kdisk_scheme \<Rightarrow> bool" where
  "submitted w b s \<longleftrightarrow> vd_avail_idx s = vd_seen s + 1 \<and> vd_avail_ring s (unat (vd_seen s) mod NUM) = 0
     \<and> vd_used_idx s = vd_used_idx_dev s \<and> vd_info_b s 0 = Some b \<and> b_disk (bufs s b)
     \<and> rq_type (vd_ops s 0) = (if w then VIRTIO_BLK_T_OUT else VIRTIO_BLK_T_IN)
     \<and> d_addr (vd_desc s 0) = D_req 0 \<and> d_next (vd_desc s 0) = 1 \<and> d_addr (vd_desc s 1) = D_data b \<and> d_next (vd_desc s 1) = 2
     \<and> d_addr (vd_desc s 2) = D_status 0"

definition req_addr :: "'z kdisk_scheme \<Rightarrow> u64" where
  "req_addr s = 512 * rq_sector (vd_ops s 0)"

definition served :: "bool \<Rightarrow> nat \<Rightarrow> 'z kdisk_scheme \<Rightarrow> 'z kdisk_scheme" where
  "served w b s =
     (let s = (if w then s\<lparr>disk := wr (disk s) (req_addr s) (b_data (bufs s b)),
                          disk_trace := disk_trace s @ [(req_addr s, b_data (bufs s b))]\<rparr>
               else upd_buf b (\<lambda>c. c\<lparr>b_data := rd (disk s) (req_addr s) BSIZE\<rparr>) s)
      in s\<lparr>vd_info_status := (vd_info_status s)(0 := 0),
           vd_used_ring := (vd_used_ring s)(unat (vd_used_idx_dev s) mod NUM := 0),
           vd_used_idx_dev := vd_used_idx_dev s + 1, vd_seen := vd_seen s + 1\<rparr>)"

lemma device_serves: "submitted w b s \<Longrightarrow> virtio_device s = served w b s"
  by (simp add: submitted_def virtio_device_def served_def req_addr_def Let_def virtio_consts)

definition completed :: "nat \<Rightarrow> 'z kdisk_scheme \<Rightarrow> 'z kdisk_scheme" where
  "completed b s = woken (Ch_buf b) (upd_buf b (\<lambda>c. c\<lparr>b_disk := False\<rparr>)
     (mmio_write R_INTERRUPT_ACK (vd_mmio s R_INTERRUPT_STATUS AND 0x3) (s\<lparr>vd_used_idx := vd_used_idx s + 1\<rparr>)))"

lemma virtio_disk_intr_eq:
  assumes "settled s" "\<forall>l. unheld l s" "vd_used_idx_dev s = vd_used_idx s + 1" "vd_used_ring s (unat (vd_used_idx s) mod NUM) = 0"
    "vd_info_status s 0 = 0" "vd_info_b s 0 = Some b"
  shows "virtio_disk_intr s = Ok () (completed b s)"
proof -
  let ?m = "mmio_write R_INTERRUPT_ACK (vd_mmio s R_INTERRUPT_STATUS AND 0x3) s"
  let ?t = "upd_buf b (\<lambda>c. c\<lparr>b_disk := False\<rparr>) ?m"
  have m: "mmio_write R_INTERRUPT_ACK (vd_mmio (take_lock L_vdisk s) R_INTERRUPT_STATUS AND 0x3) (take_lock L_vdisk s) = take_lock L_vdisk ?m"
    by (simp add: mmio_write_def take_lock_def push_off_eq lock_defs)
  have t: "upd_buf b (\<lambda>c. c\<lparr>b_disk := False\<rparr>) (take_lock L_vdisk ?m) = take_lock L_vdisk ?t"
    "(take_lock L_vdisk (woken (Ch_buf b) ?t))\<lparr>vd_used_idx := vd_used_idx s + 1\<rparr> = take_lock L_vdisk (completed b s)"
    "vd_used_idx (take_lock L_vdisk (woken (Ch_buf b) ?t)) = vd_used_idx s"
    by (simp_all add: upd_buf_def mmio_write_def take_lock_def push_off_eq lock_defs completed_def woken_def cong: if_cong)
  have ok: "settled ?t" "proc_locks_free ?t"  "settled (completed b s)" "unheld L_vdisk (completed b s)"
    using assms(1,2) by (simp_all add: upd_buf_def mmio_write_def settled_def proc_locks_free_def unheld_def completed_def woken_def cong: if_cong)
  have f: "vd_used_idx_dev (take_lock L_vdisk ?m) = vd_used_idx s + 1" "vd_used_idx (take_lock L_vdisk ?m) = vd_used_idx s"
    "vd_used_ring (take_lock L_vdisk ?m) = vd_used_ring s" "vd_info_status (take_lock L_vdisk ?m) = vd_info_status s" "vd_info_b (take_lock L_vdisk ?m) = vd_info_b s"
    using assms by (simp_all add: mmio_write_def take_lock_def push_off_eq lock_defs)
  have "complete_loop 1 (take_lock L_vdisk ?m) = Ok () (take_lock L_vdisk (completed b s))"
    using assms(4-) ok(1,2) by (simp add: f t)
  then show ?thesis
    using assms(1,2) ok(3,4) by (simp add: virtio_disk_intr_def m f Let_def)
qed

definition resumed :: "nat \<Rightarrow> 'z kproc_scheme \<Rightarrow> 'z kproc_scheme" where
  "resumed p s = upd_proc p (\<lambda>q. q\<lparr>p_state := RUNNING, p_chan := None\<rparr>) (set_cproc (Some p) s)"

definition asleep :: "nat \<Rightarrow> chan \<Rightarrow> 'z kproc_scheme \<Rightarrow> 'z kproc_scheme" where
  "asleep p ch s = set_cproc None (go_to_sleep p ch s)"

lemma asleep_simps:
  "settled (asleep p ch s) = settled s" "unheld l (asleep p ch s) = unheld l s" "noff (mycpu (asleep p ch s)) = noff (mycpu s)"
  "intr_get (asleep p ch s) = intr_get s" "procs (asleep p ch s) = (procs s)(p := (procs s p)\<lparr>p_chan := Some ch, p_state := SLEEPING, p_intena := intr_get s\<rparr>)"
  "cur (asleep p ch s) = None"
  by (simp_all add: asleep_def go_to_sleep_def set_cproc_def upd_proc_def settled_def unheld_def lock_defs)

lemma submitted_asleep: "submitted w b (asleep p ch s) = submitted w b s"
  by (simp add: submitted_def asleep_def go_to_sleep_def set_cproc_def upd_proc_def lock_defs)

lemma served_simps:
  "settled (served w b s) = settled s" "unheld l (served w b s) = unheld l s" "mycpu (served w b s) = mycpu s"
  "intr_get (served w b s) = intr_get s" "procs (served w b s) = procs s" "cur (served w b s) = cur s"
  by (simp_all add: served_def upd_buf_def settled_def unheld_def lock_defs Let_def)

lemma served_submitted:
  assumes "submitted w b s"
  shows "vd_used_idx_dev (served w b s) = vd_used_idx (served w b s) + 1" "vd_used_ring (served w b s) (unat (vd_used_idx (served w b s)) mod NUM) = 0"
    "vd_info_status (served w b s) 0 = 0" "vd_info_b (served w b s) 0 = Some b"
  using assms by (auto simp: submitted_def served_def upd_buf_def Let_def)

lemma completed_simps:
  "settled (completed b s) = settled s" "unheld l (completed b s) = unheld l s" "mycpu (completed b s) = mycpu s"
  "intr_get (completed b s) = intr_get s" "cur (completed b s) = cur s" "\<not> b_disk (bufs (completed b s) b)"
  "procs (completed b s) = procs (woken (Ch_buf b) s)"
  by (simp_all add: completed_def mmio_write_def upd_buf_def settled_def unheld_def lock_defs woken_def cong: if_cong)

text \<open>The interrupt finds interrupts off, and leaves a state that differs only in that.\<close>

lemma touch_intr:
  assumes "settled s" "noff (mycpu s) = 0" "intr_get s"
  shows "touch (intr_on (completed b (touch (intr_off s)))) = completed b s" "settled (touch (intr_off s))"
    "virtio_disk_intr (intr_off s) = virtio_disk_intr (touch (intr_off s))"
proof -
  have "(sie s)(tp s := True) = sie s" "(cpus s (tp s))\<lparr>intena := True\<rparr> = cpus s (tp s)"
    using assms by (auto simp: settled_def lock_defs fun_eq_iff intena_idem)
  then show "touch (intr_on (completed b (touch (intr_off s)))) = completed b s"
    using assms by (simp add: completed_def touch_def lock_defs mmio_write_def upd_buf_def woken_def cong: if_cong)
  show "settled (touch (intr_off s))" using assms by (auto simp: settled_def touch_def lock_defs)
  show "virtio_disk_intr (intr_off s) = virtio_disk_intr (touch (intr_off s))" by (simp add: virtio_disk_intr_def acquire_touch)
qed

lemma virtio_disk_wait_eq:
  fixes s :: "'z kdisk_scheme"
  assumes ease: "at_ease p s" and sub: "submitted w b s"
  shows "virtio_disk_wait b (take_lock L_vdisk s) =
    Ok () (take_lock L_vdisk (resumed p (completed b (served w b (asleep p (Ch_buf b) s)))))"
proof -
  let ?a = "asleep p (Ch_buf b) s"
  let ?u = "served w b ?a"
  let ?c = "completed b ?u"
  define v where "v = upd_proc p (\<lambda>q. q\<lparr>p_state := RUNNING\<rparr>) (set_cproc (Some p) ?c)"
  have st: "settled s" "noff (mycpu s) = 0" "intr_get s" "cur s = Some p" "p < NPROC" "\<And>l. unheld l s"
    using ease by (simp_all add: at_ease_def)
  have disk: "b_disk (bufs (take_lock L_vdisk s) b)"
    using sub by (simp add: submitted_def take_lock_def push_off_eq lock_defs)
  have sl: "sleep (Ch_buf b) L_vdisk (take_lock L_vdisk s) = (Block (Ch_buf b) (take_lock (L_proc p) (go_to_sleep p (Ch_buf b) s)) :: (unit, 'z kdisk_scheme) kres)"
    by (rule sleep_Block) (simp_all add: st)
  have cur: "cproc (mycpu (take_lock (L_proc p) (go_to_sleep p (Ch_buf b) s))) = Some p"
    using st by (simp add: go_to_sleep_def take_lock_def push_off_eq lock_defs upd_proc_def)
  have bk: "scheduler_back p (take_lock (L_proc p) (go_to_sleep p (Ch_buf b) s)) = Ok () ?a"
    unfolding asleep_def by (rule scheduler_back_eq) (simp_all add: st)
  have on: "intr_on ?a = ?a"
  proof -
    have "(sie s)(tp s := True) = sie s" using st(3) by (auto simp: intr_get_def fun_eq_iff)
    then show ?thesis by (simp add: asleep_def go_to_sleep_def set_cproc_def upd_proc_def lock_defs)
  qed
  have u: "settled ?u" "noff (mycpu ?u) = 0" "intr_get ?u" "\<And>l. unheld l ?u"
    using st by (simp_all add: served_simps asleep_simps)
  have intr: "virtio_disk_intr (intr_off ?u) = Ok () (completed b (touch (intr_off ?u)))"
  proof -
    have "virtio_disk_intr (touch (intr_off ?u)) = Ok () (completed b (touch (intr_off ?u)))"
      by (rule virtio_disk_intr_eq)
        (use touch_intr(2) [OF u(1-3)] u(4) served_submitted [of w b ?a] sub in
          \<open>simp_all add: submitted_asleep touch_def lock_defs unheld_def\<close>)
    then show ?thesis using touch_intr(3) [OF u(1-3)] by simp
  qed
  have pick: "scheduler_pick p (intr_on (completed b (touch (intr_off ?u)))) = Ok True (take_lock (L_proc p) v)"
  proof -
    have "scheduler_pick p (intr_on (completed b (touch (intr_off ?u)))) = scheduler_pick p ?c"
      using touch_intr(1) [OF u(1-3), of b] scheduler_pick_touch by metis
    also have "\<dots> = Ok True (take_lock (L_proc p) v)"
      using u st by (subst scheduler_pick_eq) (simp_all add: completed_simps woken_def served_simps asleep_simps wake_def run_proc_def v_def)
    finally show ?thesis .
  qed
  have ret: "sleep_return p L_vdisk (take_lock (L_proc p) v) = Ok () (take_lock L_vdisk (resumed p ?c))"
    using u st by (subst sleep_return_eq) (simp_all add: completed_simps woken_def served_simps asleep_simps wake_def resumed_def v_def)
  have "\<not> b_disk (bufs (take_lock L_vdisk (resumed p ?c)) b)"
    using completed_simps(6) [of b ?u] by (simp add: resumed_def take_lock_def push_off_eq lock_defs upd_proc_def set_cproc_def)
  then show ?thesis
    using device_serves [of w b ?a] sub by (simp add: virtio_disk_wait_def disk sl cur bk on intr pick ret submitted_asleep)
qed

section \<open>Freeing the chain\<close>

definition chain :: "'z kdisk_scheme \<Rightarrow> bool" where
  "chain s \<longleftrightarrow> d_flags (vd_desc s 0) AND VRING_DESC_F_NEXT \<noteq> 0 \<and> d_next (vd_desc s 0) = 1
     \<and> d_flags (vd_desc s 1) AND VRING_DESC_F_NEXT \<noteq> 0 \<and> d_next (vd_desc s 1) = 2 \<and> d_flags (vd_desc s 2) AND VRING_DESC_F_NEXT = 0"

definition freed :: "nat \<Rightarrow> 'z kdisk_scheme \<Rightarrow> 'z kdisk_scheme" where
  "freed i s = woken Ch_disk_free
    ((upd_desc i (\<lambda>_. \<lparr>d_addr = D_null, d_len = 0, d_flags = 0, d_next = 0\<rparr>) s)\<lparr>vd_free := (vd_free s)(i := True)\<rparr>)"

lemma freed_simps:
  "settled (freed i s) = settled s" "unheld l (freed i s) = unheld l s"
  "vd_free (freed i s) = (vd_free s)(i := True)" "j \<noteq> i \<Longrightarrow> vd_desc (freed i s) j = vd_desc s j"
  by (simp_all add: freed_def upd_desc_def woken_def settled_def unheld_def)

lemma vd_desc_locked: "vd_desc (take_lock l s) = vd_desc s"
  by (simp add: take_lock_def push_off_eq lock_defs)

lemma free_chain_step:
  assumes "i < NUM" "\<not> vd_free s i" "settled s" "\<forall>l. unheld l s"
  shows "free_desc_chain (Suc n) i (take_lock L_vdisk s) =
    (if d_flags (vd_desc s i) AND VRING_DESC_F_NEXT \<noteq> 0
     then free_desc_chain n (unat (d_next (vd_desc s i))) (take_lock L_vdisk (freed i s))
     else Ok () (take_lock L_vdisk (freed i s)))"
  using assms free_desc_locked [OF assms] by (simp add: Let_def vd_desc_locked freed_def)

lemma free_chain_locked:
  assumes "chain s" "\<not> vd_free s 0" "\<not> vd_free s 1" "\<not> vd_free s 2" "settled s" "\<forall>l. unheld l s"
  shows "free_desc_chain NUM 0 (take_lock L_vdisk s) = Ok () (take_lock L_vdisk (freed 2 (freed 1 (freed 0 s))))"
proof -
  obtain n where n: "NUM = Suc (Suc (Suc n))" by (simp add: NUM_def)
  show ?thesis using assms unfolding n
    by (simp del: free_desc_chain.simps add: chain_def free_chain_step freed_simps NUM_def)
qed

section \<open>Reading and writing a block\<close>

text \<open>What disk and buffer operations may change.\<close>

definition io_frame :: "'z kdisk_scheme \<Rightarrow> 'z kdisk_scheme \<Rightarrow> bool" where
  "io_frame s t \<longleftrightarrow> t = s\<lparr>procs := procs t, sleeplocks := sleeplocks t, bufs := bufs t, vd_mmio := vd_mmio t, vd_desc := vd_desc t,
     vd_avail_idx := vd_avail_idx t, vd_avail_ring := vd_avail_ring t, vd_used_idx_dev := vd_used_idx_dev t,
     vd_used_ring := vd_used_ring t, vd_free := vd_free t, vd_used_idx := vd_used_idx t, vd_info_b := vd_info_b t,
     vd_info_status := vd_info_status t, vd_ops := vd_ops t, vd_seen := vd_seen t, disk := disk t, disk_trace := disk_trace t\<rparr>
   \<and> same_procs (procs s) (procs t)"

lemma io_frame_refl [simp]: "io_frame s s"
  by (simp add: io_frame_def)

lemma io_frame_trans: "io_frame s t \<Longrightarrow> io_frame t u \<Longrightarrow> io_frame s u"
  by (cases s; cases t; cases u; auto simp: io_frame_def intro: same_procs_trans)

lemma io_frameD:
  "io_frame s t \<Longrightarrow> kdisk.more t = kdisk.more s" "io_frame s t \<Longrightarrow> cpus t = cpus s" "io_frame s t \<Longrightarrow> tp t = tp s"
  "io_frame s t \<Longrightarrow> sie t = sie s" "io_frame s t \<Longrightarrow> locks t = locks s" "io_frame s t \<Longrightarrow> mem t = mem s" "io_frame s t \<Longrightarrow> same_procs (procs s) (procs t)"
  by (cases s; cases t; simp add: io_frame_def)+

lemma at_ease_frame:
  assumes "at_ease p s" "io_frame s t" "p_state (procs t p) = RUNNING"
  shows "at_ease p t"
  using assms io_frameD(2-5) [OF assms(2)] by (simp add: at_ease_def settled_def unheld_def lock_defs)

definition rw_bufs :: "nat \<Rightarrow> bool \<Rightarrow> u64 \<Rightarrow> 'z kdisk_scheme \<Rightarrow> nat \<Rightarrow> buf" where
  "rw_bufs b w a s = (bufs s)(b := if w then (bufs s b)\<lparr>b_disk := False\<rparr>
     else (bufs s b)\<lparr>b_data := rd (disk s) a BSIZE, b_disk := False\<rparr>)"

definition rw_done :: "nat \<Rightarrow> bool \<Rightarrow> u64 \<Rightarrow> 'z kdisk_scheme \<Rightarrow> 'z kdisk_scheme \<Rightarrow> bool" where
  "rw_done b w a s t \<longleftrightarrow> bufs t = rw_bufs b w a s \<and> sleeplocks t = sleeplocks s
     \<and> disk t = (if w then wr (disk s) a (b_data (bufs s b)) else disk s)
     \<and> disk_trace t = disk_trace s @ (if w then [(a, b_data (bufs s b))] else [])"

lemma wait_effect:
  fixes b :: nat and w :: bool
  assumes ease: "at_ease p s"
  defines "t \<equiv> resumed p (completed b (served w b (asleep p (Ch_buf b) s)))"
  shows "io_frame s t" "rw_done b w (req_addr s) s t" "p_state (procs t p) = RUNNING"
    "vd_desc t = vd_desc s" "vd_free t = vd_free s" "vd_seen t = vd_seen s + 1" "vd_avail_idx t = vd_avail_idx s"
    "vd_used_idx t = vd_used_idx s + 1" "vd_used_idx_dev t = vd_used_idx_dev s + 1"
proof -
  note run = t_def woken_def resumed_def completed_def served_def asleep_def go_to_sleep_def set_cproc_def upd_proc_def
    mmio_write_def upd_buf_def Let_def lock_defs
  have "(cpus s (tp s))\<lparr>cproc := Some p\<rparr> = cpus s (tp s)"
    using ease by (cases "cpus s (tp s)") (simp add: at_ease_def)
  then have "cpus t = cpus s" by (simp add: run)
  then show "io_frame s t" by (cases w) (auto simp: io_frame_def run same_procs_def cong: if_cong)
  show "rw_done b w (req_addr s) s t" "p_state (procs t p) = RUNNING"
    "vd_desc t = vd_desc s" "vd_free t = vd_free s" "vd_seen t = vd_seen s + 1" "vd_avail_idx t = vd_avail_idx s"
    "vd_used_idx t = vd_used_idx s + 1" "vd_used_idx_dev t = vd_used_idx_dev s + 1"
    by (auto simp: rw_done_def rw_bufs_def run req_addr_def)
qed

lemma freed_effect:
  "io_frame s (freed i s)" "rw_done b w a r (freed i s) = rw_done b w a r s" "cur s = Some p \<Longrightarrow> procs (freed i s) p = procs s p"
  "cpus (freed i s) = cpus s" "tp (freed i s) = tp s"
  "vd_seen (freed i s) = vd_seen s" "vd_avail_idx (freed i s) = vd_avail_idx s" "vd_used_idx (freed i s) = vd_used_idx s"
  "vd_used_idx_dev (freed i s) = vd_used_idx_dev s"
  by (simp_all add: freed_def woken_def upd_desc_def io_frame_def rw_done_def same_procs_def)

lemma virtio_disk_rw_Ok:
  fixes s :: "'z kdisk_scheme"
  assumes ease: "at_ease p s" and idle: "queue_idle s"
  shows "\<exists>t. virtio_disk_rw b w s = Ok () t \<and> at_ease p t \<and> queue_idle t \<and> io_frame s t
    \<and> rw_done b w (512 * ucast (b_blockno (bufs s b) * 2)) s t"
proof -
  have st: "settled s" "noff (mycpu s) = 0" "intr_get s" "cur s = Some p" "p < NPROC" "\<And>l. unheld l s"
    using ease by (simp_all add: at_ease_def)
  have free: "\<forall>i < NUM. vd_free s i" and idx: "vd_seen s = vd_avail_idx s" "vd_used_idx s = vd_used_idx_dev s"
    using idle by (simp_all add: queue_idle_def)
  define s1 where "s1 = virtio_disk_submit b w (0, 1, 2) (s\<lparr>vd_free := (vd_free s)(0 := False, 1 := False, 2 := False)\<rparr>)"
  define s2 where "s2 = resumed p (completed b (served w b (asleep p (Ch_buf b) s1)))"
  define s3 where "s3 = s2\<lparr>vd_info_b := (vd_info_b s2)(0 := None)\<rparr>"
  define t where "t = freed 2 (freed 1 (freed 0 s3))"
  note sub = s1_def virtio_disk_submit_def upd_desc_def upd_buf_def mmio_write_def Let_def
  have s1: "at_ease p s1" "submitted w b s1"
    using ease idx by (simp_all add: sub at_ease_def settled_def unheld_def lock_defs submitted_def)
  note eff = wait_effect [OF s1(1), where b = b and w = w, folded s2_def]
  have "at_ease p s2" by (rule at_ease_frame [OF s1(1) eff(1,3)])
  then have s3: "settled s3" "\<forall>l. unheld l s3" "chain s3" "\<not> vd_free s3 0" "\<not> vd_free s3 1" "\<not> vd_free s3 2" "cur s3 = Some p"
    by (simp_all add: s3_def at_ease_def settled_def unheld_def chain_def eff sub virtio_consts)
  have l3: "(take_lock L_vdisk s2)\<lparr>vd_info_b := (vd_info_b (take_lock L_vdisk s2))(0 := None)\<rparr> = take_lock L_vdisk s3"
    by (simp add: s3_def take_lock_def push_off_eq lock_defs)
  have rw: "virtio_disk_rw b w s = Ok () t"
    using st s3(1,2) free_chain_locked [OF s3(3-6,1,2)] virtio_disk_wait_eq [OF s1]
    by (simp add: virtio_disk_rw_def alloc3_locked [OF free] submit_locked l3 freed_simps t_def del: One_nat_def flip: s1_def s2_def)
  have "io_frame s s1" by (simp add: sub io_frame_def)
  then have "io_frame s s2" using eff(1) io_frame_trans by blast
  moreover have "io_frame s2 s3" by (simp add: s3_def io_frame_def)
  moreover have "io_frame s3 t" unfolding t_def by (blast intro: io_frame_trans freed_effect(1))
  ultimately have "io_frame s t" by (blast intro: io_frame_trans)
  moreover have "rw_done b w (512 * ucast (b_blockno (bufs s b) * 2)) s t"
  proof -
    have "rw_done b w (req_addr s1) s1 t"
      using eff(2) unfolding t_def freed_effect by (simp add: s3_def rw_done_def)
    moreover have "rw_bufs b w a s1 = rw_bufs b w a s" "b_data (bufs s1 b) = b_data (bufs s b)" "disk s1 = disk s"
      "disk_trace s1 = disk_trace s" "sleeplocks s1 = sleeplocks s" for a by (simp_all add: rw_bufs_def sub)
    ultimately have "rw_done b w (req_addr s1) s t" by (simp add: rw_done_def)
    then show ?thesis by (simp add: req_addr_def sub)
  qed
  moreover have "p_state (procs t p) = RUNNING"
    using s3(7) eff(3) by (simp add: t_def freed_effect) (simp add: s3_def)
  moreover have "queue_idle t"
    using free idx by (auto simp: queue_idle_def t_def freed_effect freed_simps s3_def eff sub)
  ultimately show ?thesis using rw at_ease_frame [OF ease] by blast
qed

end
