(* ===== verification/Sleeplock_Facts.thy ===== *)
theory Sleeplock_Facts
  imports Disk_Facts
begin

text \<open>
  Sleep locks of a process that runs undisturbed: each operation takes and gives back the spin lock inside.
\<close>

lemma sleeplocks_lock [simp]:
  "sleeplocks (take_lock l s) = sleeplocks s"
  "take_lock l (s\<lparr>sleeplocks := x\<rparr>) = (take_lock l s)\<lparr>sleeplocks := x\<rparr>"
  "unheld l (s\<lparr>sleeplocks := x\<rparr>) = unheld l s" "settled (s\<lparr>sleeplocks := x\<rparr>) = settled s"
  "release l (s\<lparr>sleeplocks := x\<rparr>) = map_state (\<lambda>s. s\<lparr>sleeplocks := x\<rparr>) (release l s)"
  by (simp_all add: take_lock_def unheld_def settled_def lock_op_defs)

lemma acquiresleep_eq:
  assumes "at_ease p s" "\<not> sl_locked (sleeplocks s lk)"
  shows "acquiresleep lk s = Ok () (upd_sleeplock lk (\<lambda>l. l\<lparr>sl_locked := True, sl_pid := p_pid (procs s p)\<rparr>) s)"
  using assms by (simp add: at_ease_def acquiresleep_def acquiresleep_turn_def upd_sleeplock_def Let_def)

lemma releasesleep_eq:
  assumes "at_ease p s" "\<And>p. lk \<noteq> L_proc p"
  shows "releasesleep lk s = Ok () (woken (Ch_sleeplock lk) (upd_sleeplock lk (\<lambda>l. l\<lparr>sl_locked := False, sl_pid := 0\<rparr>) s))"
proof -
  let ?t = "upd_sleeplock lk (\<lambda>l. l\<lparr>sl_locked := False, sl_pid := 0\<rparr>) s"
  have "upd_sleeplock lk (\<lambda>l. l\<lparr>sl_locked := False, sl_pid := 0\<rparr>) (take_lock lk s) = take_lock lk ?t"
    "settled ?t" "proc_locks_free ?t" "unheld lk ?t"
    using assms(1) by (simp_all add: upd_sleeplock_def at_ease_def proc_locks_free_def)
  then show ?thesis using assms by (simp add: releasesleep_def at_ease_def Let_def)
qed

lemma holdingsleep_eq:
  assumes "at_ease p s"
  shows "holdingsleep lk s = Ok (sl_locked (sleeplocks s lk) \<and> sl_pid (sleeplocks s lk) = p_pid (procs s p)) s"
  using assms by (auto simp: holdingsleep_def at_ease_def)

end
