(* ===== verification/Block_Layer.thy ===== *)
theory Block_Layer
  imports Prelude
begin

text \<open>
  What a block cache promises: a store of blocks, each with its current contents, its contents on the disk, a count of
  pins and a lock.  The locale \<open>block_store\<close> states the laws of the five operations of \<^verbatim>\<open>kernel/bio.c\<close> and of writing to a
  locked buffer, and derives from them the two ways in which \<^verbatim>\<open>kernel/log.c\<close> copies one block to another.
\<close>

section \<open>The store\<close>

record bstore =
  bs_view :: "u32 \<Rightarrow> u8 list"
  bs_media :: "u32 \<Rightarrow> u8 list"
  bs_pins :: "u32 \<Rightarrow> nat"
  bs_held :: "u32 \<Rightarrow> bool"
  bs_trace :: "(u32 \<times> u8 list) list"

definition pin :: "u32 \<Rightarrow> bstore \<Rightarrow> bstore" where
  "pin n S = S\<lparr>bs_pins := (bs_pins S)(n := bs_pins S n + 1)\<rparr>"

definition unpin :: "u32 \<Rightarrow> bstore \<Rightarrow> bstore" where
  "unpin n S = S\<lparr>bs_pins := (bs_pins S)(n := bs_pins S n - 1)\<rparr>"

definition hold :: "u32 \<Rightarrow> bool \<Rightarrow> bstore \<Rightarrow> bstore" where
  "hold n x S = S\<lparr>bs_held := (bs_held S)(n := x)\<rparr>"

definition flush :: "u32 \<Rightarrow> bstore \<Rightarrow> bstore" where
  "flush n S = S\<lparr>bs_media := (bs_media S)(n := bs_view S n), bs_trace := bs_trace S @ [(n, bs_view S n)]\<rparr>"

definition edit :: "u32 \<Rightarrow> u8 list \<Rightarrow> bstore \<Rightarrow> bstore" where
  "edit n d S = S\<lparr>bs_view := (bs_view S)(n := d)\<rparr>"

lemmas store_ops = pin_def unpin_def hold_def flush_def edit_def

definition pinned :: "bstore \<Rightarrow> u32 set" where
  "pinned S = {m. 0 < bs_pins S m}"

text \<open>A block that may lose a pin: another one remains, or the disk has its contents.\<close>

definition spare :: "u32 \<Rightarrow> bstore \<Rightarrow> bool" where
  "spare n S \<longleftrightarrow> 1 < bs_pins S n \<or> bs_pins S n = 1 \<and> bs_view S n = bs_media S n"

definition block_ok :: "u32 \<Rightarrow> bool" where
  "block_ok n \<longleftrightarrow> unat n < 2 ^ 31"

text \<open>A block can be read: it exists, it is not locked, its count does not overflow, and a buffer is at hand.\<close>

definition readable :: "nat \<Rightarrow> u32 \<Rightarrow> bstore \<Rightarrow> bool" where
  "readable cap n S \<longleftrightarrow> block_ok n \<and> \<not> bs_held S n \<and> bs_pins S n + 1 < 2 ^ 32 \<and> card (insert n (pinned S)) \<le> cap"

section \<open>The interface\<close>

locale block_store =
  fixes inv :: "'s \<Rightarrow> bool" and store :: "'s \<Rightarrow> bstore" and slot :: "'s \<Rightarrow> u32 \<Rightarrow> nat option" and frame :: "'s \<Rightarrow> 's \<Rightarrow> bool"
    and cap :: nat and bread :: "u32 \<Rightarrow> 's \<Rightarrow> (nat, 'c, 's) res"
    and bwrite brelse bpin bunpin :: "nat \<Rightarrow> 's \<Rightarrow> (unit, 'c, 's) res"
    and upd_data :: "nat \<Rightarrow> (u8 list \<Rightarrow> u8 list) \<Rightarrow> 's \<Rightarrow> 's" and data :: "nat \<Rightarrow> 's \<Rightarrow> u8 list" and bsize :: nat
  assumes frame_trans: "frame s t \<Longrightarrow> frame t u \<Longrightarrow> frame s u"
    and slot_data: "inv s \<Longrightarrow> slot s n = Some b \<Longrightarrow> data b s = bs_view (store s) n \<and> length (data b s) = bsize"
    and clean: "inv s \<Longrightarrow> bs_pins (store s) n = 0 \<Longrightarrow> bs_view (store s) n = bs_media (store s) n"
    and bread_law: "inv s \<Longrightarrow> readable cap n (store s) \<Longrightarrow> \<exists>b t. bread n s = Ok b t \<and> inv t \<and> frame s t \<and> slot t n = Some b
      \<and> (\<forall>m \<in> pinned (store s). slot t m = slot s m) \<and> store t = hold n True (pin n (store s))"
    and bwrite_law: "inv s \<Longrightarrow> slot s n = Some b \<Longrightarrow> bs_held (store s) n \<Longrightarrow>
      \<exists>t. bwrite b s = Ok () t \<and> inv t \<and> frame s t \<and> slot t = slot s \<and> store t = flush n (store s)"
    and brelse_law: "inv s \<Longrightarrow> slot s n = Some b \<Longrightarrow> spare n (store s) \<Longrightarrow> bs_held (store s) n \<Longrightarrow>
      \<exists>t. brelse b s = Ok () t \<and> inv t \<and> frame s t \<and> slot t = slot s \<and> store t = hold n False (unpin n (store s))"
    and bpin_law: "inv s \<Longrightarrow> slot s n = Some b \<Longrightarrow> bs_pins (store s) n + 1 < 2 ^ 32 \<Longrightarrow>
      \<exists>t. bpin b s = Ok () t \<and> inv t \<and> frame s t \<and> slot t = slot s \<and> store t = pin n (store s)"
    and bunpin_law: "inv s \<Longrightarrow> slot s n = Some b \<Longrightarrow> spare n (store s) \<Longrightarrow> (bs_held (store s) n \<Longrightarrow> 1 < bs_pins (store s) n) \<Longrightarrow>
      \<exists>t. bunpin b s = Ok () t \<and> inv t \<and> frame s t \<and> slot t = slot s \<and> store t = unpin n (store s)"
    and upd_law: "inv s \<Longrightarrow> slot s n = Some b \<Longrightarrow> bs_held (store s) n \<Longrightarrow> length (f (bs_view (store s) n)) = bsize \<Longrightarrow>
      inv (upd_data b f s) \<and> frame s (upd_data b f s) \<and> slot (upd_data b f s) = slot s
      \<and> store (upd_data b f s) = edit n (f (bs_view (store s) n)) (store s)"
begin

lemma read_two:
  assumes "inv s" "x \<noteq> y" "readable cap x (store s)" "readable cap y (pin x (store s))"
  shows "\<exists>a s1 b s2. bread x s = Ok a s1 \<and> frame s s1 \<and> bread y s1 = Ok b s2 \<and> inv s2 \<and> frame s s2 \<and> slot s2 x = Some a \<and> slot s2 y = Some b
    \<and> store s2 = hold y True (pin y (hold x True (pin x (store s))))"
proof -
  obtain a s1 where a: "bread x s = Ok a s1" "inv s1" "frame s s1" "slot s1 x = Some a" "store s1 = hold x True (pin x (store s))"
    using bread_law [OF assms(1,3)] by blast
  have x: "x \<in> pinned (store s1)" by (simp add: a(5) pinned_def store_ops)
  have "readable cap y (store s1)" using assms(2,4) by (simp add: a(5) readable_def pinned_def store_ops)
  then obtain b s2 where b: "bread y s1 = Ok b s2" "inv s2" "frame s1 s2" "slot s2 y = Some b" "\<forall>m \<in> pinned (store s1). slot s2 m = slot s1 m"
    "store s2 = hold y True (pin y (store s1))" using bread_law [OF a(2)] by blast
  have "slot s2 x = Some a" using b(5) x a(4) by simp
  moreover have "frame s s2" using frame_trans a(3) b(3) by blast
  moreover have "store s2 = hold y True (pin y (hold x True (pin x (store s))))" using a(5) b(6) by simp
  ultimately show ?thesis using a(1,3) b(1,2,4) by blast
qed

lemma put_block:
  assumes "inv s" "slot s n = Some b" "bs_held (store s) n" "length d = bsize"
  shows "\<exists>t. bwrite b (upd_data b (\<lambda>_. d) s) = Ok () t \<and> inv t \<and> frame s t \<and> slot t = slot s \<and> store t = flush n (edit n d (store s))"
proof -
  let ?u = "upd_data b (\<lambda>_. d) s"
  have u: "inv ?u" "frame s ?u" "slot ?u = slot s" "store ?u = edit n d (store s)"
    using upd_law [OF assms(1-3), of "\<lambda>_. d"] assms(4) by simp_all
  then obtain t where "bwrite b ?u = Ok () t" "inv t" "frame ?u t" "slot t = slot ?u" "store t = flush n (store ?u)"
    using bwrite_law [of ?u n b] assms(2,3) by (auto simp: edit_def)
  then show ?thesis using u frame_trans by fastforce
qed

text \<open>Copying the pinned block \<open>y\<close> to \<open>x\<close>, as \<open>write_log\<close> does, and \<open>x\<close> to \<open>y\<close>, as \<open>install_trans\<close> does.\<close>

lemma copy_out:
  assumes inv: "inv s" "x \<noteq> y" "readable cap x (store s)" "readable cap y (pin x (store s))" and y: "0 < bs_pins (store s) y"
  shows "\<exists>a s1 b s2 s3 s4 s5. bread x s = Ok a s1 \<and> frame s s1 \<and> bread y s1 = Ok b s2
    \<and> bwrite a (upd_data a (\<lambda>_. data b s2) s2) = Ok () s3 \<and> brelse b s3 = Ok () s4 \<and> brelse a s4 = Ok () s5
    \<and> inv s5 \<and> frame s s5 \<and> store s5 = flush x (edit x (bs_view (store s) y) (store s))"
proof -
  obtain a s1 b s2 where r: "bread x s = Ok a s1" "frame s s1" "bread y s1 = Ok b s2" "inv s2" "frame s s2" "slot s2 x = Some a" "slot s2 y = Some b"
    and S2: "store s2 = hold y True (pin y (hold x True (pin x (store s))))"
    using read_two [OF inv] by (elim exE conjE) (rule that)
  have d: "data b s2 = bs_view (store s) y" "length (data b s2) = bsize" using slot_data [OF r(4,7)] by (auto simp: S2 store_ops)
  have "bs_held (store s2) x" by (simp add: S2 store_ops)
  then obtain s3 where s3: "bwrite a (upd_data a (\<lambda>_. data b s2) s2) = Ok () s3" "inv s3" "frame s2 s3" "slot s3 = slot s2"
      "store s3 = flush x (edit x (data b s2) (store s2))"
    using put_block [OF r(4,6) _ d(2)] by blast
  have "slot s3 y = Some b" "spare y (store s3)" "bs_held (store s3) y"
    using y inv(2) by (simp_all add: r(7) s3(4,5) S2 spare_def store_ops)
  then obtain s4 where s4: "brelse b s3 = Ok () s4" "inv s4" "frame s3 s4" "slot s4 = slot s3" "store s4 = hold y False (unpin y (store s3))"
    using brelse_law [OF s3(2)] by blast
  have "slot s4 x = Some a" "spare x (store s4)" "bs_held (store s4) x"
    using inv(2) by (auto simp: r(6) s4(4,5) s3(4,5) S2 spare_def store_ops)
  then obtain s5 where s5: "brelse a s4 = Ok () s5" "inv s5" "frame s4 s5" "store s5 = hold x False (unpin x (store s4))"
    using brelse_law [OF s4(2)] by blast
  have "frame s s5" by (rule frame_trans [OF r(5) frame_trans [OF s3(3) frame_trans [OF s4(3) s5(3)]]])
  moreover have "store s5 = flush x (edit x (bs_view (store s) y) (store s))"
    using inv(2-4) by (simp add: s5(4) s4(5) s3(5) S2 d(1) store_ops readable_def fun_upd_twist fun_upd_idem)
  ultimately show ?thesis using r(1-3) s3(1) s4(1) s5(1,2) by blast
qed

lemma copy_home:
  assumes inv: "inv s" "x \<noteq> y" "readable cap x (store s)" "readable cap y (pin x (store s))"
    and y: "u \<longrightarrow> 0 < bs_pins (store s) y" and x: "bs_view (store s) x = bs_media (store s) x"
  shows "\<exists>a s1 b s2 s3 s4 s5 s6. bread x s = Ok a s1 \<and> frame s s1 \<and> bread y s1 = Ok b s2
    \<and> bwrite b (upd_data b (\<lambda>_. data a s2) s2) = Ok () s3 \<and> (if u then bunpin b s3 else Ok () s3) = Ok () s4
    \<and> brelse a s4 = Ok () s5 \<and> brelse b s5 = Ok () s6 \<and> inv s6 \<and> frame s s6
    \<and> store s6 = (if u then unpin y else (\<lambda>S. S)) (flush y (edit y (bs_view (store s) x) (store s)))"
proof -
  obtain a s1 b s2 where r: "bread x s = Ok a s1" "frame s s1" "bread y s1 = Ok b s2" "inv s2" "frame s s2" "slot s2 x = Some a" "slot s2 y = Some b"
    and S2: "store s2 = hold y True (pin y (hold x True (pin x (store s))))"
    using read_two [OF inv] by (elim exE conjE) (rule that)
  have d: "data a s2 = bs_view (store s) x" "length (data a s2) = bsize" using slot_data [OF r(4,6)] by (auto simp: S2 store_ops)
  have "bs_held (store s2) y" by (simp add: S2 store_ops)
  then obtain s3 where s3: "bwrite b (upd_data b (\<lambda>_. data a s2) s2) = Ok () s3" "inv s3" "frame s2 s3" "slot s3 = slot s2"
      "store s3 = flush y (edit y (data a s2) (store s2))"
    using put_block [OF r(4,7) _ d(2)] by blast
  obtain s4 where s4: "(if u then bunpin b s3 else Ok () s3) = Ok () s4" "inv s4" "frame s s4" "slot s4 = slot s2"
      "store s4 = (if u then unpin y (store s3) else store s3)"
  proof (cases u)
    case True
    then have "slot s3 y = Some b" "spare y (store s3)" "1 < bs_pins (store s3) y"
      using y inv(2) by (simp_all add: r(7) s3(4,5) S2 spare_def store_ops)
    then show ?thesis using bunpin_law [OF s3(2)] True that s3(4) frame_trans [OF r(5) frame_trans [OF s3(3)]] by (metis (full_types))
  next
    case False
    show ?thesis by (rule that [of s3]) (use False s3 frame_trans [OF r(5) s3(3)] in simp_all)
  qed
  have "slot s4 x = Some a" "spare x (store s4)" "bs_held (store s4) x"
    using inv(2) x by (auto simp: r(6) s4(4,5) s3(5) S2 spare_def store_ops)
  then obtain s5 where s5: "brelse a s4 = Ok () s5" "inv s5" "frame s4 s5" "slot s5 = slot s4" "store s5 = hold x False (unpin x (store s4))"
    using brelse_law [OF s4(2)] by blast
  have "slot s5 y = Some b" "spare y (store s5)" "bs_held (store s5) y"
    using y inv(2) by (auto simp: r(7) s5(4,5) s4(4,5) s3(5) S2 spare_def store_ops)
  then obtain s6 where s6: "brelse b s5 = Ok () s6" "inv s6" "frame s5 s6" "store s6 = hold y False (unpin y (store s5))"
    using brelse_law [OF s5(2)] by blast
  have "frame s s6" by (rule frame_trans [OF s4(3) frame_trans [OF s5(3) s6(3)]])
  moreover have "store s6 = (if u then unpin y else (\<lambda>S. S)) (flush y (edit y (bs_view (store s) x) (store s)))"
    using inv(2-4) by (simp add: s6(4) s5(5) s4(5) s3(5) S2 d(1) store_ops readable_def fun_upd_twist fun_upd_idem)
  ultimately show ?thesis using r(1-3) s3(1) s4(1) s5(1) s6(1,2) by blast
qed

end

end
