(* ===== verification/Bio_Facts.thy ===== *)
theory Bio_Facts
  imports Sleeplock_Facts Block_Layer
begin

text \<open>
  The disk as an array of blocks, and the doubly linked ring of \<^verbatim>\<open>kernel/bio.c\<close> as a list in order of use.
\<close>

section \<open>Blocks on the disk\<close>

definition baddr :: "u32 \<Rightarrow> u64" where
  "baddr n = 1024 * ucast n"

definition blocks :: "(u64 \<Rightarrow> u8) \<Rightarrow> u32 \<Rightarrow> u8 list" where
  "blocks d n = rd d (baddr n) BSIZE"

lemma unat_baddr: "unat (baddr n) = 1024 * unat n"
proof -
  have "unat n < 2 ^ 32" using unat_bound [of n] by simp
  then have "1024 * unat (ucast n :: u64) < 2 ^ 64" by (simp add: unat_ucast_up)
  then have "unat (1024 * ucast n :: u64) = 1024 * unat (ucast n :: u64)" by (simp add: unat_word_ariths)
  then show ?thesis by (simp add: baddr_def unat_ucast_up)
qed

lemma sector_baddr: "block_ok n \<Longrightarrow> 512 * ucast (n * 2) = baddr n"
proof -
  assume "block_ok n"
  then have "unat (n * 2) = 2 * unat n" by (simp add: block_ok_def unat_word_ariths)
  then have "unat (512 * ucast (n * 2) :: u64) = 1024 * unat n"
    using unat_bound [of n] by (simp add: unat_word_ariths unat_ucast_up)
  then show ?thesis using unat_baddr [of n] by (metis unsigned_word_eqI)
qed

lemma baddr_apart:
  assumes "n \<noteq> m" "i < 1024"
  shows "1024 \<le> unat (baddr m + of_nat i - baddr n)"
proof (rule ccontr)
  define k where "k = unat (baddr m + of_nat i - baddr n)"
  assume "\<not> ?thesis"
  then have k: "k < 1024" by (simp add: k_def)
  have bound: "1024 * unat x + j < 2 ^ 64" if "j < 1024" for x :: u32 and j
    using that unat_bound [of x] by simp
  have "baddr n + of_nat k = baddr m + of_nat i" by (simp add: k_def)
  then have "unat (baddr n + of_nat k) = unat (baddr m + of_nat i)" by (rule arg_cong)
  moreover have "unat (baddr x + of_nat j) = 1024 * unat x + j" if "j < 1024" for x j
    using that bound [OF that, of x] by (simp add: unat_word_ariths unat_baddr unat_of_nat)
  ultimately have "1024 * unat n + k = 1024 * unat m + i" using k assms(2) by simp
  then have "(1024 * unat n + k) div 1024 = (1024 * unat m + i) div 1024" by simp
  then have "unat n = unat m" using k assms(2) by simp
  then show False using assms(1) by (metis unsigned_word_eqI)
qed

lemma blocks_wr:
  assumes "length bs = BSIZE"
  shows "blocks (wr d (baddr n) bs) = (blocks d)(n := bs)"
proof
  fix m
  show "blocks (wr d (baddr n) bs) m = ((blocks d)(n := bs)) m"
  proof (cases "n = m")
    case True
    then show ?thesis using rd_wr_same [of bs d "baddr n"] assms by (simp add: blocks_def BSIZE_def)
  next
    case False
    have "rd (wr d (baddr n) bs) (baddr m) BSIZE = rd d (baddr m) BSIZE"
      by (rule rd_cong) (use baddr_apart [OF False] assms in \<open>simp add: wr_apply_out BSIZE_def off_in_def\<close>)
    then show ?thesis using False by (simp add: blocks_def)
  qed
qed

lemma length_blocks [simp]: "length (blocks d n) = BSIZE"
  by (simp add: blocks_def)

section \<open>Linked rings\<close>

text \<open>From \<open>a\<close> the links \<open>f\<close> lead through \<open>xs\<close> to \<open>z\<close>.\<close>

fun path :: "('a \<Rightarrow> 'a) \<Rightarrow> 'a \<Rightarrow> 'a list \<Rightarrow> 'a \<Rightarrow> bool" where
  "path f a [] z \<longleftrightarrow> f a = z"
| "path f a (x # xs) z \<longleftrightarrow> f a = x \<and> path f x xs z"

lemma path_append: "path f a (us @ x # vs) z \<longleftrightarrow> path f a us x \<and> path f x vs z"
  by (induction us arbitrary: a) auto

lemma path_snoc: "path f a (us @ [x]) z \<longleftrightarrow> path f a us x \<and> f x = z"
  by (simp add: path_append)

lemma path_cong: "(\<And>x. x \<in> set (a # xs) \<Longrightarrow> f x = g x) \<Longrightarrow> path f a xs z = path g a xs z"
  by (induction xs arbitrary: a) auto

lemma path_upd [simp]: "y \<notin> set (a # xs) \<Longrightarrow> path (f(y := v)) a xs z = path f a xs z"
  by (rule path_cong) auto

lemma path_last: "path f a xs z \<Longrightarrow> f (last (a # xs)) = z"
  by (induction xs arbitrary: a) auto

lemma path_hd: "path f a xs z \<Longrightarrow> f a = hd (xs @ [z])"
  by (cases xs) auto

lemma path_redirect: "path f a xs z \<Longrightarrow> distinct (a # xs) \<Longrightarrow> path (f(last (a # xs) := y)) a xs y"
  by (induction xs arbitrary: a) auto

definition dring :: "(nat \<Rightarrow> nat) \<Rightarrow> (nat \<Rightarrow> nat) \<Rightarrow> nat \<Rightarrow> nat list \<Rightarrow> bool" where
  "dring nx pv h xs \<longleftrightarrow> path nx h xs h \<and> path pv h (rev xs) h \<and> distinct (h # xs)"

lemma dring_sym: "dring nx pv h xs \<longleftrightarrow> dring pv nx h (rev xs)"
  by (auto simp: dring_def)

lemma path_unlink:
  assumes "path f h (us @ b # vs) h" "distinct (h # us @ b # vs)"
  shows "path (f(last (h # us) := f b)) h (us @ vs) h"
proof (cases vs)
  case Nil
  then show ?thesis using assms path_redirect [of f h us b h] by (simp add: path_append)
next
  case (Cons v vs')
  have "last (h # us) \<in> set (h # us)" by simp
  then have "last (h # us) \<notin> set (v # vs')" using assms(2) Cons by auto
  then show ?thesis using assms path_redirect [of f h us b v] Cons by (simp add: path_append)
qed

lemma dring_unlink:
  assumes "dring nx pv h (us @ b # vs)"
  shows "dring (nx(pv b := nx b)) (pv(nx b := pv b)) h (us @ vs)"
proof -
  have p: "path nx h (us @ b # vs) h" "path pv h (rev vs @ b # rev us) h" and d: "distinct (h # us @ b # vs)"
    using assms by (simp_all add: dring_def)
  then have "distinct (h # rev vs @ b # rev us)" by auto
  note q = path_unlink [OF p(1) d] path_unlink [OF p(2) this]
  have "pv b = hd (rev us @ [h])" "nx b = hd (vs @ [h])" using p by (simp_all add: path_append path_hd)
  moreover have "hd (rev us @ [h]) = last (h # us)" "hd (vs @ [h]) = last (h # rev vs)"
    by (cases us rule: rev_cases; simp) (cases vs; simp)
  ultimately have "last (h # us) = pv b" "last (h # rev vs) = nx b" by simp_all
  with q have "path (nx(pv b := nx b)) h (us @ vs) h" "path (pv(nx b := pv b)) h (rev vs @ rev us) h" by (simp_all only:)
  then show ?thesis using d by (simp add: dring_def)
qed

lemma dring_push:
  assumes "dring nx pv h ys" "b \<notin> set (h # ys)"
  shows "dring (nx(b := nx h, h := b)) (pv(b := h, nx h := b)) h (b # ys)"
proof -
  have p: "path nx h ys h" "path pv h (rev ys) h" and d: "distinct (h # ys)"
    using assms(1) by (simp_all add: dring_def)
  have hd: "nx h = last (h # rev ys)" using path_hd [OF p(1)] by (cases ys) auto
  then have ne: "nx h \<noteq> b" using assms(2) last_in_set [of "h # rev ys"] by auto
  have "path (nx(b := nx h, h := b)) h (b # ys) h" using p(1) d assms(2) by (cases ys) auto
  moreover have "path (pv(b := h, nx h := b)) h (rev (b # ys)) h"
    using path_redirect [OF p(2), of b, folded hd] d assms(2) ne
    by (simp add: path_append fun_upd_twist [of b])
  ultimately show ?thesis using d assms(2) by (simp add: dring_def)
qed

section \<open>The ring of buffers\<close>

definition nxt :: "(nat \<Rightarrow> buf) \<Rightarrow> nat \<Rightarrow> nat" where
  "nxt B b = b_next (B b)"

definition prv :: "(nat \<Rightarrow> buf) \<Rightarrow> nat \<Rightarrow> nat" where
  "prv B b = b_prev (B b)"

definition lru :: "(nat \<Rightarrow> buf) \<Rightarrow> nat list \<Rightarrow> bool" where
  "lru B xs \<longleftrightarrow> dring (nxt B) (prv B) bhead xs \<and> set xs = {0..<NBUF}"

lemma lru_cong: "(\<And>b. b_next (B' b) = b_next (B b)) \<Longrightarrow> (\<And>b. b_prev (B' b) = b_prev (B b)) \<Longrightarrow> lru B' xs = lru B xs"
  by (simp add: lru_def nxt_def [abs_def] prv_def [abs_def])

lemma ring_find_eq:
  assumes "path (\<lambda>b. nx (bufs s b)) a xs bhead" "bhead \<notin> set xs" "length xs < n"
  shows "ring_find n nx P (nx (bufs s a)) s = Ok (find (\<lambda>b. P (bufs s b)) xs) s"
  using assms
proof (induction xs arbitrary: a n)
  case Nil
  then show ?case by (cases n) auto
next
  case (Cons x xs)
  then obtain k where "n = Suc k" by (cases n) auto
  with Cons show ?case by auto
qed

lemma lru_length: "lru B xs \<Longrightarrow> length xs = NBUF"
  using distinct_card [of xs] by (simp add: lru_def dring_def)

lemma ring_find_lru:
  assumes "lru (bufs s) xs"
  shows "ring_find (NBUF + 1) b_next P (b_next (bufs s bhead)) s = Ok (find (\<lambda>b. P (bufs s b)) xs) s"
    "ring_find (NBUF + 1) b_prev P (b_prev (bufs s bhead)) s = Ok (find (\<lambda>b. P (bufs s b)) (rev xs)) s"
proof -
  have "path (\<lambda>b. b_next (bufs s b)) bhead xs bhead" "path (\<lambda>b. b_prev (bufs s b)) bhead (rev xs) bhead"
    "bhead \<notin> set xs" "length xs < NBUF + 1"
    using assms lru_length [OF assms] by (simp_all add: lru_def dring_def bhead_def nxt_def [abs_def] prv_def [abs_def])
  note p = this
  show "ring_find (NBUF + 1) b_next P (b_next (bufs s bhead)) s = Ok (find (\<lambda>b. P (bufs s b)) xs) s"
    by (rule ring_find_eq [OF p(1,3,4)])
  show "ring_find (NBUF + 1) b_prev P (b_prev (bufs s bhead)) s = Ok (find (\<lambda>b. P (bufs s b)) (rev xs)) s"
    by (rule ring_find_eq [OF p(2)]) (use p(3,4) in simp_all)
qed

declare ring_find.simps [simp del]

text \<open>The buffer table after the last reference to \<open>b\<close> is dropped: \<open>b\<close> moves to the front of the ring.\<close>

definition to_front :: "nat \<Rightarrow> 'z kdisk_scheme \<Rightarrow> 'z kdisk_scheme" where
  "to_front b s = link_front b (let s = set_prev (b_next (bufs s b)) (b_prev (bufs s b)) s
     in set_next (b_prev (bufs s b)) (b_next (bufs s b)) s)"

definition links :: "(nat \<Rightarrow> nat) \<Rightarrow> (nat \<Rightarrow> nat) \<Rightarrow> (nat \<Rightarrow> buf) \<Rightarrow> nat \<Rightarrow> buf" where
  "links n p B = (\<lambda>i. (B i)\<lparr>b_next := n i, b_prev := p i\<rparr>)"

lemma links_links [simp]: "links n p (links n' p' B) = links n p B"
  by (simp add: links_def)

lemma links_sel [simp]:
  "b_next (links n p B i) = n i" "b_prev (links n p B i) = p i" "b_dev (links n p B i) = b_dev (B i)"
  "b_blockno (links n p B i) = b_blockno (B i)" "b_valid (links n p B i) = b_valid (B i)" "b_disk (links n p B i) = b_disk (B i)"
  "b_refcnt (links n p B i) = b_refcnt (B i)" "b_data (links n p B i) = b_data (B i)"
  by (simp_all add: links_def)

lemma links_nxt [simp]: "nxt (links n p B) = n" "prv (links n p B) = p"
  by (auto simp: nxt_def prv_def)

lemma set_links:
  "set_next x v s = s\<lparr>bufs := links ((nxt (bufs s))(x := v)) (prv (bufs s)) (bufs s)\<rparr>"
  "set_prev x v s = s\<lparr>bufs := links (nxt (bufs s)) ((prv (bufs s))(x := v)) (bufs s)\<rparr>"
  by (auto simp: set_next_def set_prev_def upd_buf_def links_def fun_eq_iff nxt_def prv_def intro!: arg_cong [of _ _ "\<lambda>z. s\<lparr>bufs := z\<rparr>"])

lemma dring_off:
  assumes "dring nx pv h (us @ b # vs)"
  shows "nx b \<noteq> b" "pv b \<noteq> b" "h \<noteq> b"
proof -
  have p: "path nx b vs h" "path pv b (rev us) h" and d: "distinct (h # us @ b # vs)"
    using assms by (simp_all add: dring_def path_append)
  show "nx b \<noteq> b" using d path_hd [OF p(1)] by (cases vs) auto
  show "pv b \<noteq> b" using d path_hd [OF p(2)] by (cases us rule: rev_cases) auto
  show "h \<noteq> b" using d by simp
qed

lemma to_front_bufs:
  assumes "lru (bufs s) (us @ b # vs)"
  shows "\<exists>n p. to_front b s = s\<lparr>bufs := links n p (bufs s)\<rparr> \<and> lru (links n p (bufs s)) (b # us @ vs)"
proof -
  let ?nx = "nxt (bufs s)" and ?pv = "prv (bufs s)"
  let ?n1 = "?nx(?pv b := ?nx b)" and ?p1 = "?pv(?nx b := ?pv b)"
  let ?n = "?n1(b := ?n1 bhead, bhead := b)" and ?p = "?p1(b := bhead, ?n1 bhead := b)"
  have r: "dring ?nx ?pv bhead (us @ b # vs)" and set: "set (us @ b # vs) = {0..<NBUF}" using assms by (simp_all add: lru_def)
  have "to_front b s = s\<lparr>bufs := links ?n ?p (bufs s)\<rparr>"
    using dring_off [OF r] by (simp add: to_front_def link_front_def Let_def set_links flip: nxt_def prv_def)
  moreover have "dring ?n ?p bhead (b # us @ vs)"
    using r by (intro dring_push dring_unlink) (auto simp: dring_def)
  then have "lru (links ?n ?p (bufs s)) (b # us @ vs)" using set by (auto simp: lru_def)
  ultimately show ?thesis by blast
qed

end
