(* ===== verification/Bio_Laws.thy ===== *)
theory Bio_Laws
  imports Bio_Facts
begin

text \<open>
  The buffer cache implements a store of blocks: \<open>bcache_inv\<close> is its invariant, \<open>store\<close> the store a state represents, and
  the operations satisfy the laws of \<open>block_store\<close>.
\<close>

section \<open>The store\<close>

definition bslot :: "u32 \<Rightarrow> 'z kdisk_scheme \<Rightarrow> u32 \<Rightarrow> nat option" where
  "bslot dev s n = find (\<lambda>i. b_dev (bufs s i) = dev \<and> b_blockno (bufs s i) = n) [0..<NBUF]"

definition block_trace :: "(u64 \<times> u8 list) list \<Rightarrow> (u32 \<times> u8 list) list" where
  "block_trace = map (\<lambda>(a, d). (ucast (a div 1024), d))"

definition store :: "u32 \<Rightarrow> 'z kdisk_scheme \<Rightarrow> bstore" where
  "store dev s = \<lparr>
     bs_view = (\<lambda>n. case bslot dev s n of Some i \<Rightarrow> b_data (bufs s i) | None \<Rightarrow> blocks (disk s) n),
     bs_media = blocks (disk s),
     bs_pins = (\<lambda>n. case bslot dev s n of Some i \<Rightarrow> unat (b_refcnt (bufs s i)) | None \<Rightarrow> 0),
     bs_held = (\<lambda>n. case bslot dev s n of Some i \<Rightarrow> sl_locked (sleeplocks s (L_buf i)) | None \<Rightarrow> False),
     bs_trace = block_trace (disk_trace s)\<rparr>"

section \<open>The invariant\<close>

definition buf_ok :: "u32 \<Rightarrow> nat \<Rightarrow> 'z kdisk_scheme \<Rightarrow> nat \<Rightarrow> bool" where
  "buf_ok dev p s i \<longleftrightarrow> (let c = bufs s i; l = sleeplocks s (L_buf i) in
     (b_refcnt c \<noteq> 0 \<longrightarrow> b_dev c = dev)
     \<and> (b_dev c = dev \<longrightarrow> b_valid c \<and> length (b_data c) = BSIZE \<and> block_ok (b_blockno c)
          \<and> (b_refcnt c = 0 \<longrightarrow> b_data c = blocks (disk s) (b_blockno c)))
     \<and> (sl_locked l \<longrightarrow> b_refcnt c \<noteq> 0 \<and> sl_pid l = p_pid (procs s p)))"

definition unique_bufs :: "u32 \<Rightarrow> (nat \<Rightarrow> buf) \<Rightarrow> bool" where
  "unique_bufs dev B \<longleftrightarrow> (\<forall>i < NBUF. \<forall>j < NBUF. b_dev (B i) = dev \<longrightarrow> b_dev (B j) = dev \<longrightarrow> b_blockno (B i) = b_blockno (B j) \<longrightarrow> i = j)"

definition bcache_inv :: "u32 \<Rightarrow> nat \<Rightarrow> 'z kdisk_scheme \<Rightarrow> bool" where
  "bcache_inv dev p s \<longleftrightarrow> at_ease p s \<and> queue_idle s \<and> (\<exists>xs. lru (bufs s) xs) \<and> unique_bufs dev (bufs s) \<and> (\<forall>i < NBUF. buf_ok dev p s i)"

lemma find_SomeD: "find P xs = Some x \<Longrightarrow> x \<in> set xs \<and> P x"
  by (induction xs) (auto split: if_splits)

lemma find_unique:
  assumes "set xs = set ys" "\<And>x y. x \<in> set xs \<Longrightarrow> y \<in> set xs \<Longrightarrow> P x \<Longrightarrow> P y \<Longrightarrow> x = y"
  shows "find P xs = find P ys"
proof (cases "find P xs")
  case None
  then show ?thesis using assms(1) by (metis find_None_iff)
next
  case (Some x)
  then have x: "x \<in> set xs" "P x" by (auto simp: find_Some_iff)
  then obtain y where y: "find P ys = Some y" using assms(1) by (metis find_None_iff option.exhaust)
  then have "y \<in> set xs" "P y" using assms(1) by (auto simp: find_Some_iff)
  then show ?thesis using x y Some assms(2) by simp
qed

lemma bslot_iff:
  assumes "unique_bufs dev (bufs s)"
  shows "bslot dev s n = Some i \<longleftrightarrow> i < NBUF \<and> b_dev (bufs s i) = dev \<and> b_blockno (bufs s i) = n"
proof
  assume "bslot dev s n = Some i"
  then show "i < NBUF \<and> b_dev (bufs s i) = dev \<and> b_blockno (bufs s i) = n"
    by (auto simp: bslot_def find_Some_iff)
next
  assume i: "i < NBUF \<and> b_dev (bufs s i) = dev \<and> b_blockno (bufs s i) = n"
  then obtain j where j: "bslot dev s n = Some j"
    by (cases "bslot dev s n") (auto simp: bslot_def find_None_iff)
  then have "j < NBUF \<and> b_dev (bufs s j) = dev \<and> b_blockno (bufs s j) = n" by (auto simp: bslot_def find_Some_iff)
  then show "bslot dev s n = Some i" using i j assms unfolding unique_bufs_def by blast
qed

lemma bslot_cong:
  "(\<And>i. b_dev (bufs t i) = b_dev (bufs s i)) \<Longrightarrow> (\<And>i. b_blockno (bufs t i) = b_blockno (bufs s i)) \<Longrightarrow> bslot dev t = bslot dev s"
  by (simp add: bslot_def fun_eq_iff)

lemma ring_find_slot:
  assumes "lru (bufs s) xs" "unique_bufs dev (bufs s)"
  shows "find (\<lambda>b. b_dev (bufs s b) = dev \<and> b_blockno (bufs s b) = n) xs = bslot dev s n"
  unfolding bslot_def by (rule find_unique) (use assms in \<open>auto simp: lru_def unique_bufs_def\<close>)

section \<open>Frames\<close>

lemma bufs_lock [simp]:
  "bufs (take_lock l s) = bufs s"
  "take_lock l (s\<lparr>bufs := x\<rparr>) = (take_lock l s)\<lparr>bufs := x\<rparr>"
  "unheld l (s\<lparr>bufs := x\<rparr>) = unheld l s" "settled (s\<lparr>bufs := x\<rparr>) = settled s"
  "release l (s\<lparr>bufs := x\<rparr>) = map_state (\<lambda>s. s\<lparr>bufs := x\<rparr>) (release l s)"
  by (simp_all add: take_lock_def unheld_def settled_def lock_op_defs)

lemma upd_buf_simps [simp]:
  "bufs (upd_buf b f s) = (bufs s)(b := f (bufs s b))" "sleeplocks (upd_buf b f s) = sleeplocks s" "disk (upd_buf b f s) = disk s"
  "disk_trace (upd_buf b f s) = disk_trace s" "procs (upd_buf b f s) = procs s" "at_ease p (upd_buf b f s) = at_ease p s"
  "queue_idle (upd_buf b f s) = queue_idle s" "io_frame s (upd_buf b f s)"
  by (simp_all add: upd_buf_def at_ease_def settled_def unheld_def queue_idle_def io_frame_def lock_defs)

lemma queue_idle_bufs: "queue_idle (s\<lparr>bufs := B\<rparr>) = queue_idle s"
  by (simp add: queue_idle_def)

lemma upd_sleeplock_simps [simp]:
  "bufs (upd_sleeplock k f s) = bufs s" "sleeplocks (upd_sleeplock k f s) = (sleeplocks s)(k := f (sleeplocks s k))"
  "disk (upd_sleeplock k f s) = disk s" "procs (upd_sleeplock k f s) = procs s" "disk_trace (upd_sleeplock k f s) = disk_trace s" "at_ease p (upd_sleeplock k f s) = at_ease p s"
  "queue_idle (upd_sleeplock k f s) = queue_idle s" "io_frame s (upd_sleeplock k f s)"
  by (simp_all add: upd_sleeplock_def at_ease_def settled_def unheld_def queue_idle_def io_frame_def lock_defs)

lemma woken_io [simp]:
  "bufs (woken ch s) = bufs s" "sleeplocks (woken ch s) = sleeplocks s" "disk (woken ch s) = disk s"
  "disk_trace (woken ch s) = disk_trace s" "queue_idle (woken ch s) = queue_idle s" "io_frame s (woken ch s)"
  by (simp_all add: woken_def queue_idle_def io_frame_def same_procs_def)

lemma woken_ease: "at_ease p s \<Longrightarrow> at_ease p (woken ch s)" "at_ease p s \<Longrightarrow> procs (woken ch s) p = procs s p"
  by (simp_all add: at_ease_def woken_def settled_def unheld_def lock_defs)

lemma frame_pid: "io_frame s t \<Longrightarrow> p_pid (procs t p) = p_pid (procs s p)"
  using io_frameD(7) [of s t] same_proc_fields by (simp add: same_procs_def)

lemma release_upd_buf: "settled s \<Longrightarrow> unheld l s \<Longrightarrow> release l (upd_buf b f (take_lock l s)) = Ok () (upd_buf b f s)"
  by (simp add: upd_buf_def)

text \<open>The buffer \<open>b\<close> with its lock taken.\<close>

definition lock_buf :: "nat \<Rightarrow> nat \<Rightarrow> 'z kdisk_scheme \<Rightarrow> 'z kdisk_scheme" where
  "lock_buf p b s = upd_sleeplock (L_buf b) (\<lambda>l. l\<lparr>sl_locked := True, sl_pid := p_pid (procs s p)\<rparr>) s"

lemma bget_hit:
  assumes "at_ease p s" "lru (bufs s) xs" "unique_bufs dev (bufs s)" "bslot dev s n = Some b" "\<not> sl_locked (sleeplocks s (L_buf b))"
  shows "bget dev n s = Ok b (lock_buf p b (upd_buf b (\<lambda>c. c\<lparr>b_refcnt := b_refcnt c + 1\<rparr>) s))"
proof -
  have st: "settled s" "\<And>l. unheld l s" using assms(1) by (simp_all add: at_ease_def)
  have "acquiresleep (L_buf b) (upd_buf b f s) = Ok () (lock_buf p b (upd_buf b f s))" for f
    unfolding lock_buf_def by (rule acquiresleep_eq) (use assms(1,5) in simp_all)
  then show ?thesis
    using st assms(2-4) ring_find_lru(1) [of "take_lock L_bcache s" xs] ring_find_slot [of s xs dev n]
    by (simp add: bget_def release_upd_buf)
qed

lemma bget_miss:
  assumes "at_ease p s" "lru (bufs s) xs" "unique_bufs dev (bufs s)" "bslot dev s n = None"
    "find (\<lambda>i. b_refcnt (bufs s i) = 0) (rev xs) = Some b" "\<not> sl_locked (sleeplocks s (L_buf b))"
  shows "bget dev n s = Ok b (lock_buf p b (upd_buf b (\<lambda>c. c\<lparr>b_dev := dev, b_blockno := n, b_valid := False, b_refcnt := 1\<rparr>) s))"
proof -
  have st: "settled s" "\<And>l. unheld l s" using assms(1) by (simp_all add: at_ease_def)
  have "acquiresleep (L_buf b) (upd_buf b f s) = Ok () (lock_buf p b (upd_buf b f s))" for f
    unfolding lock_buf_def by (rule acquiresleep_eq) (use assms(1,6) in simp_all)
  then show ?thesis
    using st assms(2-5) ring_find_lru [of "take_lock L_bcache s" xs] ring_find_slot [of s xs dev n]
    by (simp add: bget_def release_upd_buf)
qed

section \<open>bread\<close>

lemma store_slot:
  assumes "bslot dev s n = Some b"
  shows "bs_view (store dev s) n = b_data (bufs s b)" "bs_pins (store dev s) n = unat (b_refcnt (bufs s b))"
    "bs_held (store dev s) n = sl_locked (sleeplocks s (L_buf b))"
  using assms by (simp_all add: store_def)

lemma bcache_invD:
  assumes "bcache_inv dev p s"
  shows "at_ease p s" "queue_idle s" "\<exists>xs. lru (bufs s) xs" "unique_bufs dev (bufs s)" "i < NBUF \<Longrightarrow> buf_ok dev p s i"
  using assms by (simp_all add: bcache_inv_def)

lemma bcache_keep:
  assumes "bcache_inv dev p s" "io_frame s t" "at_ease p t" "queue_idle t" "\<exists>xs. lru (bufs t) xs"
    "\<And>i. b_dev (bufs t i) = b_dev (bufs s i)" "\<And>i. b_blockno (bufs t i) = b_blockno (bufs s i)" "\<And>i. i < NBUF \<Longrightarrow> buf_ok dev p t i"
  shows "bcache_inv dev p t" "bslot dev t = bslot dev s"
  using assms bslot_cong [of t s dev] by (simp_all add: bcache_inv_def unique_bufs_def)

lemma unat_inc32: "unat (x :: u32) + 1 < 2 ^ 32 \<Longrightarrow> unat (x + 1) = unat x + 1"
  by (simp add: unat_word_ariths)

text \<open>An operation on one buffer changes the store at its block only.\<close>

lemma store_upd:
  assumes u: "unique_bufs dev (bufs s)" and sl: "bslot dev t = bslot dev s" and b: "bslot dev s n = Some b"
    and other: "\<And>i. i \<noteq> b \<Longrightarrow> b_data (bufs t i) = b_data (bufs s i) \<and> b_refcnt (bufs t i) = b_refcnt (bufs s i)
      \<and> sl_locked (sleeplocks t (L_buf i)) = sl_locked (sleeplocks s (L_buf i))"
    and disk: "\<And>m. m \<noteq> n \<Longrightarrow> blocks (disk t) m = blocks (disk s) m"
  shows "store dev t = \<lparr>bs_view = (bs_view (store dev s))(n := b_data (bufs t b)), bs_media = blocks (disk t),
    bs_pins = (bs_pins (store dev s))(n := unat (b_refcnt (bufs t b))),
    bs_held = (bs_held (store dev s))(n := sl_locked (sleeplocks t (L_buf b))), bs_trace = block_trace (disk_trace t)\<rparr>"
proof -
  have ib: "i \<noteq> b" if "bslot dev s m = Some i" "m \<noteq> n" for i m
    using that b by (auto simp: bslot_iff [OF u])
  have "bs_view (store dev t) m = ((bs_view (store dev s))(n := b_data (bufs t b))) m
      \<and> bs_pins (store dev t) m = ((bs_pins (store dev s))(n := unat (b_refcnt (bufs t b)))) m
      \<and> bs_held (store dev t) m = ((bs_held (store dev s))(n := sl_locked (sleeplocks t (L_buf b)))) m" for m
  proof (cases "m = n")
    case True
    then show ?thesis using b by (simp add: store_def sl)
  next
    case False
    then show ?thesis
      by (cases "bslot dev s m") (use other [OF ib [OF _ False]] disk [OF False] in \<open>simp_all add: store_def sl\<close>)
  qed
  then show ?thesis by (simp add: fun_eq_iff store_def)
qed

lemma bread_hit:
  fixes s :: "'z kdisk_scheme"
  assumes inv: "bcache_inv dev p s" and b: "bslot dev s n = Some b" and free: "\<not> bs_held (store dev s) n"
    and room: "bs_pins (store dev s) n + 1 < 2 ^ 32"
  defines "t \<equiv> lock_buf p b (upd_buf b (\<lambda>c. c\<lparr>b_refcnt := b_refcnt c + 1\<rparr>) s)"
  shows "bread dev n s = Ok b t" "bcache_inv dev p t" "io_frame s t" "bslot dev t = bslot dev s"
    "store dev t = (store dev s)\<lparr>bs_pins := (bs_pins (store dev s))(n := bs_pins (store dev s) n + 1), bs_held := (bs_held (store dev s))(n := True)\<rparr>"
proof -
  note I = bcache_invD [OF inv]
  obtain xs where xs: "lru (bufs s) xs" using I(3) by blast
  have bn: "b < NBUF" "b_dev (bufs s b) = dev" "b_blockno (bufs s b) = n" using b by (simp_all add: bslot_iff [OF I(4)])
  have ok: "buf_ok dev p s b" by (rule I(5) [OF bn(1)])
  have inc: "unat (b_refcnt (bufs s b) + 1) = unat (b_refcnt (bufs s b)) + 1"
    using room by (intro unat_inc32) (simp add: store_slot [OF b])
  then have nz: "b_refcnt (bufs s b) + 1 \<noteq> 0" by (metis Suc_eq_plus1 nat.distinct(1) unsigned_0)
  show "io_frame s t" unfolding t_def lock_buf_def by (rule io_frame_trans [OF upd_buf_simps(8) upd_sleeplock_simps(8)])
  have lru: "\<exists>xs. lru (bufs t) xs" using xs lru_cong [of "bufs t" "bufs s"] by (auto simp: t_def lock_buf_def)
  have oks: "buf_ok dev p t i" if "i < NBUF" for i
    using I(5) [OF that] ok nz bn by (auto simp: buf_ok_def t_def lock_buf_def Let_def)
  show inv': "bcache_inv dev p t" and sl: "bslot dev t = bslot dev s"
    by (rule bcache_keep [OF inv \<open>io_frame s t\<close> _ _ lru]; use oks I(1,2) in \<open>simp add: t_def lock_buf_def\<close>)+
  have "bget dev n s = Ok b t" unfolding t_def
    by (rule bget_hit [OF I(1) xs I(4) b]) (use free in \<open>simp add: store_slot [OF b]\<close>)
  then show "bread dev n s = Ok b t" using ok bn by (simp add: bread_def t_def lock_buf_def buf_ok_def Let_def)
  show "store dev t = (store dev s)\<lparr>bs_pins := (bs_pins (store dev s))(n := bs_pins (store dev s) n + 1), bs_held := (bs_held (store dev s))(n := True)\<rparr>"
    by (subst store_upd [OF I(4) sl b]) (use inc b in \<open>simp_all add: store_slot [OF b] t_def lock_buf_def\<close>, simp_all add: store_def fun_upd_idem)
qed

lemma bslot_None:
  assumes "bslot dev s n = None" "i < NBUF" "b_dev (bufs s i) = dev"
  shows "b_blockno (bufs s i) \<noteq> n"
  using assms by (auto simp: bslot_def find_None_iff)

text \<open>The state after a miss: the unreferenced buffer \<open>b\<close> has been given to block \<open>n\<close>.\<close>

definition recycled :: "u32 \<Rightarrow> nat \<Rightarrow> u32 \<Rightarrow> nat \<Rightarrow> 'z kdisk_scheme \<Rightarrow> 'z kdisk_scheme \<Rightarrow> bool" where
  "recycled dev p n b s t \<longleftrightarrow> io_frame s t \<and> at_ease p t \<and> queue_idle t \<and> disk t = disk s \<and> disk_trace t = disk_trace s
     \<and> bufs t = (bufs s)(b := (bufs s b)\<lparr>b_dev := dev, b_blockno := n, b_valid := True, b_refcnt := 1,
          b_data := blocks (disk s) n, b_disk := False\<rparr>)
     \<and> sleeplocks t = (sleeplocks s)(L_buf b := (sleeplocks s (L_buf b))\<lparr>sl_locked := True, sl_pid := p_pid (procs s p)\<rparr>)"

lemma bread_recycles:
  assumes inv: "bcache_inv dev p s" and n: "block_ok n" and none: "bslot dev s n = None"
    and room: "i < NBUF" "b_refcnt (bufs s i) = 0"
  shows "\<exists>b t. bread dev n s = Ok b t \<and> b < NBUF \<and> b_refcnt (bufs s b) = 0 \<and> recycled dev p n b s t"
proof -
  note I = bcache_invD [OF inv]
  obtain xs where xs: "lru (bufs s) xs" using I(3) by blast
  then have "i \<in> set xs" using room by (simp add: lru_def)
  then obtain b where b: "find (\<lambda>i. b_refcnt (bufs s i) = 0) (rev xs) = Some b"
    using room(2) by (cases "find (\<lambda>i. b_refcnt (bufs s i) = 0) (rev xs)") (auto simp: find_None_iff)
  then have b0: "b_refcnt (bufs s b) = 0" "b < NBUF" using xs by (auto simp: lru_def dest!: find_SomeD)
  then have "\<not> sl_locked (sleeplocks s (L_buf b))" using I(5) [of b] by (auto simp: buf_ok_def Let_def)
  note get = bget_miss [OF I(1) xs I(4) none b this]
  define t1 where "t1 = lock_buf p b (upd_buf b (\<lambda>c. c\<lparr>b_dev := dev, b_blockno := n, b_valid := False, b_refcnt := 1\<rparr>) s)"
  have t1: "at_ease p t1" "queue_idle t1" "io_frame s t1" using I(1,2) io_frame_trans [OF upd_buf_simps(8) upd_sleeplock_simps(8)]
    by (simp_all add: t1_def lock_buf_def)
  obtain t2 where t2: "virtio_disk_rw b False t1 = Ok () t2" "at_ease p t2" "queue_idle t2" "io_frame t1 t2"
    "rw_done b False (baddr n) t1 t2"
    using virtio_disk_rw_Ok [OF t1(1,2), of b False] sector_baddr [OF n] by (auto simp: t1_def lock_buf_def)
  let ?t = "upd_buf b (\<lambda>c. c\<lparr>b_valid := True\<rparr>) t2"
  have "bread dev n s = Ok b ?t" using get t2(1) by (simp add: bread_def flip: t1_def) (simp add: t1_def lock_buf_def)
  moreover have "recycled dev p n b s ?t"
    using t2(2-) io_frame_trans [OF t1(3) io_frame_trans [OF t2(4) upd_buf_simps(8)]]
    by (auto simp: recycled_def rw_done_def rw_bufs_def t1_def lock_buf_def blocks_def)
  ultimately show ?thesis using b0 by blast
qed

lemma recycled_inv:
  assumes inv: "bcache_inv dev p s" and n: "block_ok n" and none: "bslot dev s n = None"
    and b: "b < NBUF" "b_refcnt (bufs s b) = 0" and r: "recycled dev p n b s t"
  shows "bcache_inv dev p t"
    "bslot dev t m = (if m = n then Some b else if bslot dev s m = Some b then None else bslot dev s m)"
proof -
  note I = bcache_invD [OF inv]
  have t: "io_frame s t" "at_ease p t" "queue_idle t" "disk t = disk s" "disk_trace t = disk_trace s"
    "bufs t = (bufs s)(b := (bufs s b)\<lparr>b_dev := dev, b_blockno := n, b_valid := True, b_refcnt := 1, b_data := blocks (disk s) n, b_disk := False\<rparr>)"
    "sleeplocks t = (sleeplocks s)(L_buf b := (sleeplocks s (L_buf b))\<lparr>sl_locked := True, sl_pid := p_pid (procs s p)\<rparr>)"
    using r by (simp_all add: recycled_def)
  have "\<exists>xs. lru (bufs t) xs" using I(3) lru_cong [of "bufs t" "bufs s"] by (auto simp: t(6))
  moreover have u: "unique_bufs dev (bufs t)"
    using I(4) bslot_None [OF none] b unfolding unique_bufs_def t(6) by (auto split: if_splits)
  moreover have "buf_ok dev p t i" if "i < NBUF" for i
    using I(5) [OF that] n by (auto simp: buf_ok_def t(4,6,7) Let_def frame_pid [OF t(1)])
  ultimately show inv': "bcache_inv dev p t" using t(2,3) by (simp add: bcache_inv_def)
  show sl: "bslot dev t m = (if m = n then Some b else if bslot dev s m = Some b then None else bslot dev s m)" for m
  proof (cases "m = n")
    case True
    then show ?thesis using b by (simp add: bslot_iff [OF u] t(6))
  next
    case False
    have eq: "bslot dev t m = Some i \<longleftrightarrow> bslot dev s m = Some i \<and> i \<noteq> b" for i
      using False b by (auto simp: bslot_iff [OF u] bslot_iff [OF I(4)] t(6))
    show ?thesis
    proof (cases "bslot dev t m")
      case None
      then show ?thesis using eq False by (cases "bslot dev s m") auto
    qed (use eq False in auto)
  qed
qed

lemma recycled_store:
  assumes inv: "bcache_inv dev p s" and n: "block_ok n" and none: "bslot dev s n = None"
    and b: "b < NBUF" "b_refcnt (bufs s b) = 0" and r: "recycled dev p n b s t"
  shows "store dev t = (store dev s)\<lparr>bs_pins := (bs_pins (store dev s))(n := 1), bs_held := (bs_held (store dev s))(n := True)\<rparr>"
proof -
  note I = bcache_invD [OF inv]
  note sl = recycled_inv(2) [OF inv n none b r]
  have t: "disk t = disk s" "disk_trace t = disk_trace s"
    "bufs t = (bufs s)(b := (bufs s b)\<lparr>b_dev := dev, b_blockno := n, b_valid := True, b_refcnt := 1, b_data := blocks (disk s) n, b_disk := False\<rparr>)"
    "sleeplocks t = (sleeplocks s)(L_buf b := (sleeplocks s (L_buf b))\<lparr>sl_locked := True, sl_pid := p_pid (procs s p)\<rparr>)"
    using r by (simp_all add: recycled_def)
  have old: "bs_view (store dev s) m = blocks (disk s) m" "bs_pins (store dev s) m = 0" "\<not> bs_held (store dev s) m"
    if "bslot dev s m = Some b" for m
  proof -
    have "b_dev (bufs s b) = dev" "b_blockno (bufs s b) = m" using that by (simp_all add: bslot_iff [OF I(4)])
    then show "bs_view (store dev s) m = blocks (disk s) m" "bs_pins (store dev s) m = 0" "\<not> bs_held (store dev s) m"
      using I(5) [OF b(1)] b(2) by (auto simp: store_slot [OF that] buf_ok_def Let_def)
  qed
  have ib: "i \<noteq> b \<Longrightarrow> bufs t i = bufs s i \<and> sleeplocks t (L_buf i) = sleeplocks s (L_buf i)" for i by (simp add: t(3,4))
  have "bs_view (store dev t) m = bs_view (store dev s) m
    \<and> bs_pins (store dev t) m = ((bs_pins (store dev s))(n := 1)) m
    \<and> bs_held (store dev t) m = ((bs_held (store dev s))(n := True)) m" for m
  proof (cases "m = n")
    case True
    then show ?thesis using none by (simp add: store_def sl t)
  next
    case False
    show ?thesis
    proof (cases "bslot dev s m")
      case None
      then show ?thesis using False t(1) by (simp add: store_def sl)
    next
      case (Some i)
      then show ?thesis using False old [of m] ib [of i] t(1) by (cases "i = b") (simp_all add: store_def sl)
    qed
  qed
  then show ?thesis by (simp add: fun_eq_iff store_def t(1,2))
qed

section \<open>The laws\<close>

lemma free_buffer:
  assumes inv: "bcache_inv dev p s" and "card (pinned (store dev s)) < NBUF"
  shows "\<exists>i < NBUF. b_refcnt (bufs s i) = 0"
proof (rule ccontr)
  note I = bcache_invD [OF inv]
  assume "\<not> ?thesis"
  then have all: "b_refcnt (bufs s i) \<noteq> 0 \<and> b_dev (bufs s i) = dev" if "i < NBUF" for i
    using that I(5) [OF that] by (auto simp: buf_ok_def Let_def)
  let ?f = "\<lambda>i. b_blockno (bufs s i)"
  have "inj_on ?f {0..<NBUF}" using I(4) all by (auto simp: inj_on_def unique_bufs_def)
  then have "card (?f ` {0..<NBUF}) = NBUF" by (simp add: card_image)
  moreover have "?f i \<in> pinned (store dev s)" if "i < NBUF" for i
  proof -
    have "bslot dev s (?f i) = Some i" using all [OF that] that by (simp add: bslot_iff [OF I(4)])
    then show ?thesis using all [OF that] by (simp add: pinned_def store_slot unat_gt_0)
  qed
  then have "?f ` {0..<NBUF} \<subseteq> pinned (store dev s)" by auto
  moreover have "finite (pinned (store dev s))" by simp
  ultimately show False using assms(2) card_mono by (metis leD)
qed

lemma bread_law:
  assumes inv: "bcache_inv dev p s" and n: "block_ok n" and free: "\<not> bs_held (store dev s) n" and few: "bs_pins (store dev s) n + 1 < 2 ^ 32"
    and room: "n \<in> pinned (store dev s) \<or> card (pinned (store dev s)) < NBUF"
  shows "\<exists>b t. bread dev n s = Ok b t \<and> bcache_inv dev p t \<and> io_frame s t \<and> bslot dev t n = Some b
    \<and> (\<forall>m \<in> pinned (store dev s). bslot dev t m = bslot dev s m) \<and> store dev t = hold n True (pin n (store dev s))"
proof (cases "bslot dev s n")
  case None
  then have n0: "bs_pins (store dev s) n = 0" by (simp add: store_def)
  then have "card (pinned (store dev s)) < NBUF" using room by (simp add: pinned_def)
  then obtain i where "i < NBUF" "b_refcnt (bufs s i) = 0" using free_buffer [OF inv] by blast
  then obtain b t where b: "bread dev n s = Ok b t" "b < NBUF" "b_refcnt (bufs s b) = 0" "recycled dev p n b s t"
    using bread_recycles [OF inv n None] by blast
  note r = recycled_inv [OF inv n None b(2-4)]
  have "bslot dev t m = bslot dev s m" if "m \<in> pinned (store dev s)" for m
    using that n0 b(3) by (auto simp: r(2) pinned_def store_slot)
  moreover have "store dev t = hold n True (pin n (store dev s))"
    using n0 by (simp add: recycled_store [OF inv n None b(2-4)] hold_def pin_def)
  moreover have "io_frame s t" using b(4) by (simp add: recycled_def)
  ultimately show ?thesis using b(1) r(1) r(2) [of n] by auto
next
  case (Some b)
  show ?thesis using bread_hit [OF inv Some free few] Some by (auto simp: hold_def pin_def)
qed

section \<open>The other operations\<close>

lemma baddr_block: "ucast (baddr n div 1024) = n"
proof -
  have "unat (baddr n div 1024) = unat n" by (simp add: unat_div unat_baddr)
  then have "unat (ucast (baddr n div 1024) :: u32) = unat n"
    using unat_bound [of n] by (simp add: unsigned_ucast_eq take_bit_nat_eq_self)
  then show ?thesis by (metis unsigned_word_eqI)
qed

text \<open>What is known of the buffer of a block in the cache.\<close>

lemma slot_facts:
  assumes "bcache_inv dev p s" "bslot dev s n = Some b"
  shows "b < NBUF" "b_dev (bufs s b) = dev" "b_blockno (bufs s b) = n" "buf_ok dev p s b" "block_ok n" "length (b_data (bufs s b)) = BSIZE"
    "b_valid (bufs s b)"
proof -
  note I = bcache_invD [OF assms(1)]
  show b: "b < NBUF" "b_dev (bufs s b) = dev" "b_blockno (bufs s b) = n" using assms(2) by (simp_all add: bslot_iff [OF I(4)])
  show ok: "buf_ok dev p s b" by (rule I(5) [OF b(1)])
  show "block_ok n" "length (b_data (bufs s b)) = BSIZE" "b_valid (bufs s b)" using ok b by (auto simp: buf_ok_def Let_def)
qed

lemma bwrite_law:
  assumes inv: "bcache_inv dev p s" and b: "bslot dev s n = Some b" and held: "bs_held (store dev s) n"
  shows "\<exists>t. bwrite b s = Ok () t \<and> bcache_inv dev p t \<and> io_frame s t \<and> bslot dev t = bslot dev s \<and> store dev t = flush n (store dev s)"
proof -
  note I = bcache_invD [OF inv] and B = slot_facts [OF inv b]
  have lk: "sl_locked (sleeplocks s (L_buf b))" "sl_pid (sleeplocks s (L_buf b)) = p_pid (procs s p)" "b_refcnt (bufs s b) \<noteq> 0"
    using held B(4) by (auto simp: store_slot [OF b] buf_ok_def Let_def)
  obtain t where t: "virtio_disk_rw b True s = Ok () t" "at_ease p t" "queue_idle t" "io_frame s t" "rw_done b True (baddr n) s t"
    using virtio_disk_rw_Ok [OF I(1,2), of b True] sector_baddr [OF B(5)] B(3) by auto
  have bufs: "bufs t = (bufs s)(b := (bufs s b)\<lparr>b_disk := False\<rparr>)" and sl: "sleeplocks t = sleeplocks s"
    and disk: "blocks (disk t) = (blocks (disk s))(n := b_data (bufs s b))"
    and tr: "disk_trace t = disk_trace s @ [(baddr n, b_data (bufs s b))]"
    using t(5) blocks_wr [OF B(6), of "disk s" n] by (simp_all add: rw_done_def rw_bufs_def)
  have lru: "\<exists>xs. lru (bufs t) xs" using I(3) lru_cong [of "bufs t" "bufs s"] by (auto simp: bufs)
  have ok: "buf_ok dev p t i" if "i < NBUF" for i
    using I(5) [OF that] lk(3) B(2,3) I(4) that B(1)
    by (auto simp: buf_ok_def bufs sl disk Let_def frame_pid [OF t(4)] unique_bufs_def)
  note keep = bcache_keep [OF inv t(4,2,3) lru _ _ ok]
  have inv': "bcache_inv dev p t" "bslot dev t = bslot dev s" by (rule keep; simp add: bufs)+
  moreover have "store dev t = flush n (store dev s)"
    by (subst store_upd [OF I(4) inv'(2) b])
      (simp_all add: bufs sl disk tr flush_def block_trace_def baddr_block store_slot [OF b], simp_all add: store_def b block_trace_def fun_upd_idem)
  moreover have "bwrite b s = Ok () t" using lk t(1) by (simp add: bwrite_def holdingsleep_eq [OF I(1)])
  ultimately show ?thesis using t(4) by blast
qed

lemma upd_data_law:
  assumes inv: "bcache_inv dev p s" and b: "bslot dev s n = Some b" and held: "bs_held (store dev s) n"
    and len: "length (f (bs_view (store dev s) n)) = BSIZE"
  shows "bcache_inv dev p (upd_data b f s)" "io_frame s (upd_data b f s)" "bslot dev (upd_data b f s) = bslot dev s"
    "store dev (upd_data b f s) = edit n (f (bs_view (store dev s) n)) (store dev s)"
proof -
  note I = bcache_invD [OF inv] and B = slot_facts [OF inv b]
  let ?t = "upd_data b f s"
  show fr: "io_frame s ?t" by (simp add: upd_data_def)
  have "b_refcnt (bufs s b) \<noteq> 0" using held B(4) by (auto simp: store_slot [OF b] buf_ok_def Let_def)
  then have ok: "buf_ok dev p ?t i" if "i < NBUF" for i
    using I(5) [OF that] len by (auto simp: buf_ok_def upd_data_def store_slot [OF b] Let_def)
  have lru: "\<exists>xs. lru (bufs ?t) xs" using I(3) lru_cong [of "bufs ?t" "bufs s"] by (auto simp: upd_data_def)
  note keep = bcache_keep [OF inv fr _ _ lru _ _ ok]
  show inv': "bcache_inv dev p ?t" and sl: "bslot dev ?t = bslot dev s" by (rule keep; simp add: upd_data_def I(1,2))+
  show "store dev ?t = edit n (f (bs_view (store dev s) n)) (store dev s)"
    by (subst store_upd [OF I(4) sl b]) (simp_all add: upd_data_def edit_def store_slot [OF b], simp_all add: store_def b fun_upd_idem)
qed

lemma bpin_law:
  assumes inv: "bcache_inv dev p s" and b: "bslot dev s n = Some b" and few: "bs_pins (store dev s) n + 1 < 2 ^ 32"
  shows "\<exists>t. bpin b s = Ok () t \<and> bcache_inv dev p t \<and> io_frame s t \<and> bslot dev t = bslot dev s \<and> store dev t = pin n (store dev s)"
proof -
  note I = bcache_invD [OF inv] and B = slot_facts [OF inv b]
  let ?t = "upd_buf b (\<lambda>c. c\<lparr>b_refcnt := b_refcnt c + 1\<rparr>) s"
  have inc: "unat (b_refcnt (bufs s b) + 1) = unat (b_refcnt (bufs s b)) + 1"
    using few by (intro unat_inc32) (simp add: store_slot [OF b])
  then have nz: "b_refcnt (bufs s b) + 1 \<noteq> 0" by (metis Suc_eq_plus1 nat.distinct(1) unsigned_0)
  have ok: "buf_ok dev p ?t i" if "i < NBUF" for i
    using I(5) [OF that] nz B(2) by (auto simp: buf_ok_def Let_def)
  have lru: "\<exists>xs. lru (bufs ?t) xs" using I(3) lru_cong [of "bufs ?t" "bufs s"] by auto
  note keep = bcache_keep [OF inv upd_buf_simps(8) _ _ lru _ _ ok]
  have inv': "bcache_inv dev p ?t" and sl: "bslot dev ?t = bslot dev s" by (rule keep; simp add: I(1,2))+
  have "store dev ?t = pin n (store dev s)"
    by (subst store_upd [OF I(4) sl b]) (simp_all add: inc pin_def store_slot [OF b], simp_all add: store_def b fun_upd_idem)
  moreover have "bpin b s = Ok () ?t" using I(1) by (simp add: bpin_def at_ease_def release_upd_buf)
  ultimately show ?thesis using inv' sl upd_buf_simps(8) by blast
qed

text \<open>A buffer that has lost a pin, possibly moved in the ring, is in order if the block was spare and is not held
  without a pin.\<close>

lemma unpinned:
  assumes inv: "bcache_inv dev p s" and b: "bslot dev s n = Some b" and spare: "spare n (store dev s)"
    and t: "io_frame s t" "at_ease p t" "queue_idle t" "\<exists>xs. lru (bufs t) xs" "disk t = disk s" "disk_trace t = disk_trace s"
    and bufs: "bufs t = links nx pv ((bufs s)(b := (bufs s b)\<lparr>b_refcnt := b_refcnt (bufs s b) - 1\<rparr>))"
    and sl: "\<And>i. i \<noteq> b \<Longrightarrow> sleeplocks t (L_buf i) = sleeplocks s (L_buf i)"
    and held: "sl_locked (sleeplocks t (L_buf b)) \<Longrightarrow> 1 < bs_pins (store dev s) n \<and> sleeplocks t (L_buf b) = sleeplocks s (L_buf b)"
  shows "bcache_inv dev p t" "bslot dev t = bslot dev s" "store dev t = hold n (sl_locked (sleeplocks t (L_buf b))) (unpin n (store dev s))"
proof -
  note I = bcache_invD [OF inv] and B = slot_facts [OF inv b]
  let ?r = "b_refcnt (bufs s b)"
  have r: "unat ?r \<noteq> 0" "unat ?r = 1 \<Longrightarrow> b_data (bufs s b) = blocks (disk s) n"
    using spare by (auto simp: spare_def store_slot [OF b]) (simp add: store_def)
  have dec: "unat (?r - 1) = unat ?r - 1" using r(1) by (simp add: unat_minus_one unsigned_eq_0_iff)
  have okb: "buf_ok dev p t b"
  proof -
    have "unat ?r = 1" if "?r = 1" using that by simp
    moreover have "?r - 1 = 0 \<longleftrightarrow> ?r = 1" by simp
    ultimately show ?thesis
      using B(2-7) r(2) held by (auto simp: buf_ok_def bufs Let_def t(5) frame_pid [OF t(1)] store_slot [OF b])
  qed
  have ok: "buf_ok dev p t i" if "i < NBUF" for i
    using okb I(5) [OF that] sl [of i] by (cases "i = b") (auto simp: buf_ok_def bufs Let_def t(5) frame_pid [OF t(1)])
  note keep = bcache_keep [OF inv t(1-4) _ _ ok]
  show inv': "bcache_inv dev p t" and sl': "bslot dev t = bslot dev s" by (rule keep; simp add: bufs)+
  show "store dev t = hold n (sl_locked (sleeplocks t (L_buf b))) (unpin n (store dev s))"
    by (subst store_upd [OF I(4) sl' b])
      (simp_all add: dec bufs sl t(5,6) hold_def unpin_def store_slot [OF b], simp_all add: store_def b fun_upd_idem)
qed

lemma links_same: "links (nxt B) (prv B) B = B"
  by (simp add: links_def nxt_def prv_def fun_eq_iff)

lemma bunpin_law:
  assumes inv: "bcache_inv dev p s" and b: "bslot dev s n = Some b" and spare: "spare n (store dev s)"
    and held: "bs_held (store dev s) n \<Longrightarrow> 1 < bs_pins (store dev s) n"
  shows "\<exists>t. bunpin b s = Ok () t \<and> bcache_inv dev p t \<and> io_frame s t \<and> bslot dev t = bslot dev s \<and> store dev t = unpin n (store dev s)"
proof -
  note I = bcache_invD [OF inv]
  let ?t = "upd_buf b (\<lambda>c. c\<lparr>b_refcnt := b_refcnt c - 1\<rparr>) s"
  have lru: "\<exists>xs. lru (bufs ?t) xs" using I(3) lru_cong [of "bufs ?t" "bufs s"] by auto
  have "bufs ?t = links (nxt (bufs s)) (prv (bufs s)) ((bufs s)(b := (bufs s b)\<lparr>b_refcnt := b_refcnt (bufs s b) - 1\<rparr>))"
    by (simp add: links_def nxt_def prv_def fun_eq_iff)
  note u = unpinned [OF inv b spare upd_buf_simps(8) _ _ lru _ _ this]
  have inv': "bcache_inv dev p ?t" "bslot dev ?t = bslot dev s" "store dev ?t = hold n (sl_locked (sleeplocks ?t (L_buf b))) (unpin n (store dev s))"
    by (rule u; use held I(1,2) in \<open>simp add: store_slot [OF b]\<close>)+
  have "store dev ?t = unpin n (store dev s)"
    unfolding inv'(3) by (simp add: hold_def unpin_def store_def b fun_upd_idem)
  moreover have "bunpin b s = Ok () ?t" using I(1) by (simp add: bunpin_def at_ease_def release_upd_buf)
  ultimately show ?thesis using inv'(1,2) upd_buf_simps(8) by blast
qed

lemma brelse_alt:
  "brelse b s = bindr (holdingsleep (L_buf b) s) (\<lambda>h s. if \<not> h then Panic ''brelse''
     else bindr (releasesleep (L_buf b) s) (\<lambda>_ s. bindr (acquire L_bcache s) (\<lambda>_ s.
       release L_bcache (if b_refcnt (bufs s b) - 1 = 0 then to_front b (upd_buf b (\<lambda>c. c\<lparr>b_refcnt := b_refcnt c - 1\<rparr>) s)
         else upd_buf b (\<lambda>c. c\<lparr>b_refcnt := b_refcnt c - 1\<rparr>) s))))"
  by (simp add: brelse_def to_front_def Let_def cong: if_cong)

lemma brelse_eq:
  assumes "at_ease p s" "sl_locked (sleeplocks s (L_buf b))" "sl_pid (sleeplocks s (L_buf b)) = p_pid (procs s p)"
  defines "t \<equiv> upd_buf b (\<lambda>c. c\<lparr>b_refcnt := b_refcnt c - 1\<rparr>) (woken (Ch_sleeplock (L_buf b))
     (upd_sleeplock (L_buf b) (\<lambda>l. l\<lparr>sl_locked := False, sl_pid := 0\<rparr>) s))"
  shows "brelse b s = Ok () (if b_refcnt (bufs s b) - 1 = 0 then to_front b t else t)" "at_ease p t"
proof -
  let ?u = "woken (Ch_sleeplock (L_buf b)) (upd_sleeplock (L_buf b) (\<lambda>l. l\<lparr>sl_locked := False, sl_pid := 0\<rparr>) s)"
  have u: "at_ease p ?u" by (rule woken_ease(1)) (use assms(1) in simp)
  then show t: "at_ease p t" by (simp add: t_def)
  have comm: "upd_buf b f (take_lock l x) = take_lock l (upd_buf b f x)" "to_front b (take_lock l x) = take_lock l (to_front b x)" for f l and x :: "'a kdisk_scheme"
    by (simp_all add: upd_buf_def to_front_def link_front_def set_next_def set_prev_def Let_def)
  have st: "settled ?u" "unheld L_bcache ?u" using u by (simp_all add: at_ease_def)
  then have "settled t" "unheld L_bcache t" "settled (to_front b t)" "unheld L_bcache (to_front b t)"
    by (simp_all add: t_def upd_buf_def to_front_def link_front_def set_next_def set_prev_def Let_def)
  then show "brelse b s = Ok () (if b_refcnt (bufs s b) - 1 = 0 then to_front b t else t)"
    using assms(1-3) st
    by (simp add: brelse_alt holdingsleep_eq [OF assms(1)] releasesleep_eq [OF assms(1)] comm flip: t_def)
qed

lemma brelse_law:
  assumes inv: "bcache_inv dev p s" and b: "bslot dev s n = Some b" and spare: "spare n (store dev s)" and held: "bs_held (store dev s) n"
  shows "\<exists>t. brelse b s = Ok () t \<and> bcache_inv dev p t \<and> io_frame s t \<and> bslot dev t = bslot dev s
    \<and> store dev t = hold n False (unpin n (store dev s))"
proof -
  note I = bcache_invD [OF inv] and B = slot_facts [OF inv b]
  have lk: "sl_locked (sleeplocks s (L_buf b))" "sl_pid (sleeplocks s (L_buf b)) = p_pid (procs s p)"
    using held B(4) by (auto simp: store_slot [OF b] buf_ok_def Let_def)
  define t where "t = upd_buf b (\<lambda>c. c\<lparr>b_refcnt := b_refcnt c - 1\<rparr>) (woken (Ch_sleeplock (L_buf b))
     (upd_sleeplock (L_buf b) (\<lambda>l. l\<lparr>sl_locked := False, sl_pid := 0\<rparr>) s))"
  define u where "u = (if b_refcnt (bufs s b) - 1 = 0 then to_front b t else t)"
  have r: "brelse b s = Ok () u" "at_ease p t" using brelse_eq [OF I(1) lk] by (simp_all only: u_def t_def)
  let ?B = "(bufs s)(b := (bufs s b)\<lparr>b_refcnt := b_refcnt (bufs s b) - 1\<rparr>)"
  have bt: "bufs t = ?B" by (simp add: t_def)
  obtain xs where xs: "lru (bufs t) xs" using I(3) lru_cong [of "bufs t" "bufs s"] by (auto simp: bt)
  then have "b \<in> set xs" using B(1) by (simp add: lru_def)
  then obtain ys zs where "xs = ys @ b # zs" by (meson split_list)
  with xs obtain nx pv ys' where tf: "to_front b t = t\<lparr>bufs := links nx pv (bufs t)\<rparr>" "lru (links nx pv (bufs t)) ys'"
    using to_front_bufs [of t ys b zs] by auto
  obtain nx' pv' where u: "u = t\<lparr>bufs := links nx' pv' ?B\<rparr>" "\<exists>xs. lru (links nx' pv' ?B) xs"
  proof (cases "b_refcnt (bufs s b) - 1 = 0")
    case True
    then show ?thesis using tf that by (simp add: u_def bt) blast
  next
    case False
    then show ?thesis using xs that [of "nxt ?B" "prv ?B"] by (auto simp: u_def links_same bt t_def upd_buf_def)
  qed
  have "io_frame s t"
    unfolding t_def by (rule io_frame_trans [OF upd_sleeplock_simps(8) io_frame_trans [OF woken_io(6) upd_buf_simps(8)]])
  moreover have "io_frame t u" by (simp add: u(1) io_frame_def)
  ultimately have fr: "io_frame s u" by (rule io_frame_trans)
  have flds: "bufs u = links nx' pv' ?B" "disk u = disk s" "disk_trace u = disk_trace s"
    "sleeplocks u = (sleeplocks s)(L_buf b := (sleeplocks s (L_buf b))\<lparr>sl_locked := False, sl_pid := 0\<rparr>)" "queue_idle u = queue_idle s"
    by (simp_all add: u(1) t_def queue_idle_bufs)
  have ease: "at_ease p u" using r(2) by (simp add: u(1) at_ease_def settled_def unheld_def lock_defs)
  have lru: "\<exists>xs. lru (bufs u) xs" using u(2) by (simp add: flds)
  note up = unpinned [OF inv b spare fr ease _ lru flds(2,3,1)]
  have "bcache_inv dev p u" "bslot dev u = bslot dev s" "store dev u = hold n (sl_locked (sleeplocks u (L_buf b))) (unpin n (store dev s))"
    by (rule up; simp add: flds I(2))+
  moreover have "sl_locked (sleeplocks u (L_buf b)) = False" by (simp add: flds)
  ultimately show ?thesis using r(1) fr by (intro exI [of _ u]) simp
qed

section \<open>The interface\<close>

lemma unpinned_clean:
  assumes inv: "bcache_inv dev p s" and "bs_pins (store dev s) n = 0"
  shows "bs_view (store dev s) n = bs_media (store dev s) n"
proof (cases "bslot dev s n")
  case (Some b)
  then have "b_refcnt (bufs s b) = 0" using assms(2) by (simp add: store_slot unsigned_eq_0_iff)
  then show ?thesis using slot_facts [OF inv Some] by (auto simp: store_slot [OF Some] buf_ok_def Let_def) (simp add: store_def)
qed (simp add: store_def)

interpretation bc: block_store "bcache_inv dev p" "store dev" "bslot dev" io_frame NBUF "bread dev" bwrite brelse bpin bunpin upd_data
  "\<lambda>b s. b_data (bufs s b)" BSIZE for dev p
proof (unfold_locales, goal_cases)
  case (1 s t u)
  then show ?case by (rule io_frame_trans)
next
  case (2 s n b)
  then show ?case using slot_facts(6) store_slot(1) by metis
next
  case (3 s n)
  then show ?case by (rule unpinned_clean)
next
  case (4 s n)
  have "n \<in> pinned (store dev s) \<or> card (pinned (store dev s)) < NBUF"
    using 4(2) by (cases "n \<in> pinned (store dev s)") (auto simp: readable_def)
  with 4 show ?case by (intro bread_law) (auto simp: readable_def)
next
  case (5 s n b)
  then show ?case by (rule bwrite_law)
next
  case (6 s n b)
  then show ?case by (rule brelse_law)
next
  case (7 s n b)
  then show ?case by (rule bpin_law)
next
  case (8 s n b)
  then show ?case by (rule bunpin_law)
next
  case (9 s n b f)
  then show ?case by (intro conjI upd_data_law)
qed

end
