(* ===== verification/Bio_Properties.thy ===== *)
theory Bio_Properties
  imports Bio_Laws Demo_Kernel
begin

text \<open>
  The properties of the disk driver \<^verbatim>\<open>kernel/virtio_disk.c\<close> and of the buffer cache \<^verbatim>\<open>kernel/bio.c\<close>, exercised on the kernel that
  \<open>binit\<close> leaves.
\<close>

section \<open>A fresh buffer cache\<close>

lemma link_front_links:
  assumes "b \<noteq> bhead"
  shows "link_front b s = s\<lparr>bufs := links ((nxt (bufs s))(b := nxt (bufs s) bhead, bhead := b))
    ((prv (bufs s))(b := bhead, nxt (bufs s) bhead := b)) (bufs s)\<rparr>"
  using assms by (simp add: link_front_def Let_def set_links flip: nxt_def prv_def)

text \<open>The state of \<open>binit\<close> after \<open>k\<close> buffers have been linked in.\<close>

definition linked :: "nat \<Rightarrow> 'z kdisk_scheme \<Rightarrow> 'z kdisk_scheme \<Rightarrow> bool" where
  "linked k s t \<longleftrightarrow> (\<exists>n p L K. t = s\<lparr>bufs := links n p (bufs s), sleeplocks := L, locks := K\<rparr> \<and> dring n p bhead (rev [0..<k])
     \<and> (\<forall>i < k. \<not> sl_locked (L (L_buf i))) \<and> (\<forall>l. unheld l s \<longrightarrow> \<not> locked (K l) \<and> lcpu (K l) = None))"

lemma linked_step:
  assumes "linked k s t" "k < NBUF"
  shows "linked (Suc k) s (initsleeplock (L_buf k) ''buffer'' (link_front k t))"
proof -
  obtain n p L K where t: "t = s\<lparr>bufs := links n p (bufs s), sleeplocks := L, locks := K\<rparr>" "dring n p bhead (rev [0..<k])"
    "\<forall>i < k. \<not> sl_locked (L (L_buf i))" "\<forall>l. unheld l s \<longrightarrow> \<not> locked (K l) \<and> lcpu (K l) = None"
    using assms(1) unfolding linked_def by blast
  have b: "k \<noteq> bhead" "k \<notin> set (bhead # rev [0..<k])" using assms(2) by (auto simp: bhead_def)
  let ?n = "n(k := n bhead, bhead := k)" and ?p = "p(k := bhead, n bhead := k)"
  have "initsleeplock (L_buf k) ''buffer'' (link_front k t) =
    s\<lparr>bufs := links ?n ?p (bufs s), sleeplocks := L(L_buf k := \<lparr>sl_locked = False, sl_name = ''buffer'', sl_pid = 0\<rparr>),
      locks := K(L_buf k := \<lparr>locked = False, lname = ''sleep lock'', lcpu = None\<rparr>)\<rparr>"
    by (simp add: link_front_links [OF b(1)] t(1) initsleeplock_def initlock_def upd_sleeplock_def lock_defs)
  moreover have "dring ?n ?p bhead (rev [0..<Suc k])" using dring_push [OF t(2) b(2)] by simp
  ultimately show ?thesis using t(3,4) unfolding linked_def by (auto simp: less_Suc_eq intro!: exI split: if_splits)
qed

lemma binit_linked: "linked NBUF s (binit s)"
proof -
  let ?s0 = "set_next bhead bhead (set_prev bhead bhead (initlock L_bcache ''bcache'' s))"
  let ?n = "(nxt (bufs s))(bhead := bhead)" and ?p = "(prv (bufs s))(bhead := bhead)"
  have "?s0 = s\<lparr>bufs := links ?n ?p (bufs s), sleeplocks := sleeplocks s,
      locks := (locks s)(L_bcache := \<lparr>locked = False, lname = ''bcache'', lcpu = None\<rparr>)\<rparr>"
    by (simp add: set_links initlock_def lock_defs)
  moreover have "dring ?n ?p bhead (rev [0..<0])" by (simp add: dring_def)
  ultimately have "linked 0 s ?s0" unfolding linked_def
    by (intro exI [of _ ?n] exI [of _ ?p] exI [of _ "sleeplocks s"]) (auto simp: unheld_def split: if_splits)
  then have "k \<le> NBUF \<Longrightarrow> linked k s (fold (\<lambda>b s. initsleeplock (L_buf b) ''buffer'' (link_front b s)) [0..<k] ?s0)" for k
    by (induction k) (auto intro: linked_step)
  then show ?thesis by (simp add: binit_def)
qed

text \<open>Static buffers start zeroed, so none belongs to a device with a number other than 0.\<close>

lemma binit_inv:
  assumes ease: "at_ease p s" and idle: "queue_idle s" and zero: "\<forall>i < NBUF. b_refcnt (bufs s i) = 0 \<and> b_dev (bufs s i) \<noteq> dev"
  shows "bcache_inv dev p (binit s)" "bs_pins (store dev (binit s)) = (\<lambda>_. 0)" "bs_held (store dev (binit s)) = (\<lambda>_. False)"
    "\<exists>B L K. binit s = s\<lparr>bufs := B, sleeplocks := L, locks := K\<rparr>"
proof -
  obtain n q L K where t: "binit s = s\<lparr>bufs := links n q (bufs s), sleeplocks := L, locks := K\<rparr>" "dring n q bhead (rev [0..<NBUF])"
    "\<forall>i < NBUF. \<not> sl_locked (L (L_buf i))" "\<forall>l. unheld l s \<longrightarrow> \<not> locked (K l) \<and> lcpu (K l) = None"
    using binit_linked [of s] unfolding linked_def by blast
  have "at_ease p (binit s)" using ease t(4) by (auto simp: t(1) at_ease_def settled_def unheld_def lock_defs)
  moreover have "queue_idle (binit s)" using idle by (simp add: t(1) queue_idle_def)
  moreover have "lru (bufs (binit s)) (rev [0..<NBUF])" using t(2) by (auto simp: t(1) lru_def)
  moreover have "unique_bufs dev (bufs (binit s))" using zero by (simp add: t(1) unique_bufs_def)
  moreover have "buf_ok dev p (binit s) i" if "i < NBUF" for i using that zero t(3) by (simp add: t(1) buf_ok_def Let_def)
  ultimately show "bcache_inv dev p (binit s)" unfolding bcache_inv_def by blast
  have "bslot dev (binit s) m = None" for m using zero by (auto simp: bslot_def find_None_iff t(1))
  then show "bs_pins (store dev (binit s)) = (\<lambda>_. 0)" "bs_held (store dev (binit s)) = (\<lambda>_. False)" by (simp_all add: store_def)
  show "\<exists>B L K. binit s = s\<lparr>bufs := B, sleeplocks := L, locks := K\<rparr>" using t(1) by blast
qed

section \<open>The kernel of the examples\<close>

text \<open>The kernel of the examples, booted with a given disk.\<close>

definition demo_boot :: "(u64 \<Rightarrow> u8) \<Rightarrow> ksys" where
  "demo_boot D = binit (demo_kernel\<lparr>disk := D\<rparr>)"

lemma demo_ease: "at_ease 0 (demo_kernel\<lparr>disk := D\<rparr>)" "queue_idle (demo_kernel\<lparr>disk := D\<rparr>)"
  by (simp_all add: at_ease_def settled_def unheld_def NPROC_def demo_kernel_def lock_defs demo_procs_def queue_idle_def)

lemma demo_boot_inv:
  "bcache_inv 1 0 (demo_boot D)" "bs_pins (store 1 (demo_boot D)) = (\<lambda>_. 0)" "bs_held (store 1 (demo_boot D)) = (\<lambda>_. False)"
  "\<exists>B L K. demo_boot D = demo_kernel\<lparr>disk := D, bufs := B, sleeplocks := L, locks := K\<rparr>"
  using binit_inv [OF demo_ease, where dev = 1] by (simp_all add: demo_boot_def demo_kernel_def)

lemma demo_boot_fields:
  "disk (demo_boot D) = D" "log_start (demo_boot D) = 2" "log_size (demo_boot D) = 30" "log_dev (demo_boot D) = 1" "lh_n (demo_boot D) = 0"
  "length (lh_block (demo_boot D)) = LOGSIZE" "log_outstanding (demo_boot D) = 0" "\<not> log_committing (demo_boot D)"
proof -
  obtain B L K where d: "demo_boot D = demo_kernel\<lparr>disk := D, bufs := B, sleeplocks := L, locks := K\<rparr>" using demo_boot_inv(4) by blast
  show "disk (demo_boot D) = D" "log_start (demo_boot D) = 2" "log_size (demo_boot D) = 30" "log_dev (demo_boot D) = 1" "lh_n (demo_boot D) = 0"
    "length (lh_block (demo_boot D)) = LOGSIZE" "log_outstanding (demo_boot D) = 0" "\<not> log_committing (demo_boot D)"
    unfolding d by (simp_all add: demo_kernel_def)
qed

section \<open>Properties\<close>





text \<open>C13: The buffer cache refines a store of blocks.  Under its invariant, and while a buffer is at hand, \<open>bread\<close> returns a buffer,
  locked and counted once more, with the current contents of the block; \<open>bwrite\<close> of a locked buffer makes these the contents on the
  disk and nothing else; \<open>brelse\<close> unlocks the block and gives up its count.  Each keeps the invariant, and none changes what the cache
  shows of any block.\<close>

theorem bcache_refines_store:
  assumes "bcache_inv dev p s"
  shows "(Block_Layer.readable NBUF n (store dev s) \<longrightarrow> (\<exists>b t. bread dev n s = Ok b t \<and> bcache_inv dev p t \<and> bslot dev t n = Some b
      \<and> b_data (bufs t b) = bs_view (store dev s) n \<and> store dev t = hold n True (pin n (store dev s))))
    \<and> (\<forall>b. bslot dev s n = Some b \<and> bs_held (store dev s) n \<longrightarrow>
      (\<exists>t. bwrite b s = Ok () t \<and> bcache_inv dev p t \<and> bslot dev t n = Some b \<and> store dev t = flush n (store dev s)))
    \<and> (\<forall>b. bslot dev s n = Some b \<and> bs_held (store dev s) n \<and> spare n (store dev s) \<longrightarrow>
      (\<exists>t. brelse b s = Ok () t \<and> bcache_inv dev p t \<and> store dev t = hold n False (unpin n (store dev s))))"
proof (intro conjI allI impI; (elim conjE)?)
  show "\<exists>b t. bread dev n s = Ok b t \<and> bcache_inv dev p t \<and> bslot dev t n = Some b
      \<and> b_data (bufs t b) = bs_view (store dev s) n \<and> store dev t = hold n True (pin n (store dev s))" if r: "Block_Layer.readable NBUF n (store dev s)"
  proof -
    obtain b t where t: "bread dev n s = Ok b t" "bcache_inv dev p t" "bslot dev t n = Some b" "store dev t = hold n True (pin n (store dev s))"
      using bc.bread_law [OF assms r] by blast
    then show ?thesis using bc.slot_data [OF t(2,3)] by (intro exI [of _ b] exI [of _ t]) (simp add: hold_def pin_def)
  qed
  show "\<exists>t. bwrite b s = Ok () t \<and> bcache_inv dev p t \<and> bslot dev t n = Some b \<and> store dev t = flush n (store dev s)"
    if "bslot dev s n = Some b" "bs_held (store dev s) n" for b using bc.bwrite_law [OF assms that] that(1) by metis
  show "\<exists>t. brelse b s = Ok () t \<and> bcache_inv dev p t \<and> store dev t = hold n False (unpin n (store dev s))"
    if "bslot dev s n = Some b" "bs_held (store dev s) n" "spare n (store dev s)" for b using bc.brelse_law [OF assms that(1,3,2)] by blast
qed

text \<open>A block read, written and released on a fresh cache.\<close>

theorem bcache_refines_store_witness:
  "\<exists>b s1 s2 s3. bread 1 50 (demo_boot (\<lambda>_. 9)) = Ok b s1 \<and> b_data (bufs s1 b) = blocks (\<lambda>_. 9) 50 \<and> bwrite b s1 = Ok () s2
    \<and> brelse b s2 = Ok () s3 \<and> bcache_inv 1 0 s3 \<and> \<not> bs_held (store 1 s3) 50"
proof -
  let ?s = "demo_boot (\<lambda>_. 9)" and ?S = "store 1 (demo_boot (\<lambda>_. 9))"
  note d = demo_boot_inv [of "\<lambda>_. 9"]
  have "pinned ?S = {}" by (simp add: pinned_def d(2))
  then have r: "Block_Layer.readable NBUF 50 ?S" by (simp add: Block_Layer.readable_def block_ok_def d(2,3) NBUF_def MAXOPBLOCKS_def)
  have "bs_media ?S = blocks (\<lambda>_. 9)" by (simp add: store_def demo_boot_fields)
  then have v: "bs_view ?S 50 = blocks (\<lambda>_. 9) 50" using bc.clean [OF d(1), of 50] d(2) by simp
  obtain b s1 where s1: "bread 1 50 ?s = Ok b s1" "bcache_inv 1 0 s1" "bslot 1 s1 50 = Some b" "b_data (bufs s1 b) = bs_view ?S 50"
    "store 1 s1 = hold 50 True (pin 50 ?S)" using bcache_refines_store [OF d(1)] r by blast
  then have "bs_held (store 1 s1) 50" by (simp add: hold_def)
  then obtain s2 where s2: "bwrite b s1 = Ok () s2" "bcache_inv 1 0 s2" "bslot 1 s2 50 = Some b" "store 1 s2 = flush 50 (store 1 s1)"
    using bcache_refines_store [OF s1(2)] s1(3) by blast
  then have "bs_held (store 1 s2) 50" "spare 50 (store 1 s2)" by (simp_all add: s1(5) d(2) spare_def store_ops)
  then obtain s3 where "brelse b s2 = Ok () s3" "bcache_inv 1 0 s3" "store 1 s3 = hold 50 False (unpin 50 (store 1 s2))"
    using bcache_refines_store [OF s2(2)] s2(3) by blast
  then show ?thesis using s1(1,4) s2(1) v by (intro exI [of _ b] exI [of _ s1] exI [of _ s2] exI [of _ s3]) (simp add: hold_def)
qed

end
