(* ===== verification/Redo.thy ===== *)
theory Redo
  imports Prelude
begin

text \<open>
  Redo logging on an array of blocks.  A transaction first copies the new contents of its blocks to the slots of the log,
  then commits by writing the list of their addresses to the head of the log, then installs the blocks in their homes
  and finally empties the head.  Recovery installs what the head lists and empties it.  The locale \<open>redo_log\<close> fixes how an
  address list is encoded in the head block; its theorems are the crash safety of the two sequences of writes.
\<close>

section \<open>Sequences of block writes\<close>

definition apply_writes :: "('a \<times> 'd) list \<Rightarrow> ('a \<Rightarrow> 'd) \<Rightarrow> 'a \<Rightarrow> 'd" where
  "apply_writes ws m = fold (\<lambda>(a, d) m. m(a := d)) ws m"

lemma apply_writes_simps [simp]:
  "apply_writes [] m = m" "apply_writes ((a, d) # ws) m = apply_writes ws (m(a := d))"
  "apply_writes (us @ ws) m = apply_writes ws (apply_writes us m)"
  by (simp_all add: apply_writes_def)

lemma apply_writes_other: "x \<notin> fst ` set ws \<Longrightarrow> apply_writes ws m x = m x"
  by (induction ws arbitrary: m) (auto simp: apply_writes_def)

text \<open>If all writes to \<open>x\<close> write the same, that is what \<open>x\<close> holds in the end.\<close>

lemma apply_writes_at:
  assumes "x \<in> fst ` set ws" "\<And>d. (x, d) \<in> set ws \<Longrightarrow> d = v"
  shows "apply_writes ws m x = v"
  using assms
proof (induction ws arbitrary: m)
  case (Cons w ws)
  obtain a d where w: "w = (a, d)" by (cases w)
  show ?case
  proof (cases "x \<in> fst ` set ws")
    case True
    then show ?thesis using Cons.IH Cons.prems(2) w by auto
  next
    case False
    then show ?thesis using Cons.prems w by (auto simp: apply_writes_other)
  qed
qed simp

text \<open>The final value at \<open>x\<close> is that of the last write to it, whatever was there before.\<close>

lemma apply_writes_same:
  assumes "x \<in> fst ` set ws"
  shows "apply_writes ws m x = apply_writes ws m' x"
  using assms
proof (induction ws arbitrary: m m')
  case (Cons w ws)
  then show ?case by (cases w; cases "x \<in> fst ` set ws") (auto simp: apply_writes_other)
qed simp

section \<open>The protocol\<close>

definition log_writes :: "(nat \<Rightarrow> 'a) \<Rightarrow> ('a \<Rightarrow> 'd) \<Rightarrow> 'a list \<Rightarrow> ('a \<times> 'd) list" where
  "log_writes lb V bs = map (\<lambda>i. (lb i, V (bs ! i))) [0..<length bs]"

definition home_writes :: "(nat \<Rightarrow> 'd) \<Rightarrow> 'a list \<Rightarrow> ('a \<times> 'd) list" where
  "home_writes c bs = map (\<lambda>i. (bs ! i, c i)) [0..<length bs]"

definition commit_writes :: "('a list \<Rightarrow> 'd \<Rightarrow> 'd) \<Rightarrow> 'a \<Rightarrow> (nat \<Rightarrow> 'a) \<Rightarrow> ('a \<Rightarrow> 'd) \<Rightarrow> 'a list \<Rightarrow> 'd \<Rightarrow> ('a \<times> 'd) list" where
  "commit_writes enc head lb V bs h =
     log_writes lb V bs @ (head, enc bs h) # home_writes (\<lambda>i. V (bs ! i)) bs @ [(head, enc [] (enc bs h))]"

definition recover_writes :: "('a list \<Rightarrow> 'd \<Rightarrow> 'd) \<Rightarrow> ('d \<Rightarrow> 'a list) \<Rightarrow> 'a \<Rightarrow> (nat \<Rightarrow> 'a) \<Rightarrow> ('a \<Rightarrow> 'd) \<Rightarrow> ('a \<times> 'd) list" where
  "recover_writes enc dec head lb m = home_writes (\<lambda>i. m (lb i)) (dec (m head)) @ [(head, enc [] (m head))]"

definition recovered :: "('a list \<Rightarrow> 'd \<Rightarrow> 'd) \<Rightarrow> ('d \<Rightarrow> 'a list) \<Rightarrow> 'a \<Rightarrow> (nat \<Rightarrow> 'a) \<Rightarrow> ('a \<Rightarrow> 'd) \<Rightarrow> 'a \<Rightarrow> 'd" where
  "recovered enc dec head lb m = apply_writes (recover_writes enc dec head lb m) m"

text \<open>The blocks of the log: its head and \<open>n\<close> slots, all different.\<close>

definition log_area :: "'a \<Rightarrow> (nat \<Rightarrow> 'a) \<Rightarrow> nat \<Rightarrow> 'a set" where
  "log_area head lb n = insert head (lb ` {..<n})"

definition area_ok :: "'a \<Rightarrow> (nat \<Rightarrow> 'a) \<Rightarrow> nat \<Rightarrow> bool" where
  "area_ok head lb n \<longleftrightarrow> inj_on lb {..<n} \<and> head \<notin> lb ` {..<n}"

lemma log_writes_slot:
  assumes "inj_on lb {..<n}" "length bs \<le> n" "i < length bs"
  shows "apply_writes (log_writes lb V bs) m (lb i) = V (bs ! i)"
proof (rule apply_writes_at)
  show "lb i \<in> fst ` set (log_writes lb V bs)" using assms(3) by (auto simp: log_writes_def image_iff)
  fix d assume "(lb i, d) \<in> set (log_writes lb V bs)"
  then obtain j where "j < length bs" "lb i = lb j" "d = V (bs ! j)" by (auto simp: log_writes_def)
  moreover from this have "j = i" using assms by (auto dest: inj_onD)
  ultimately show "d = V (bs ! i)" by simp
qed

lemma log_writes_other: "x \<notin> lb ` {..<length bs} \<Longrightarrow> apply_writes (log_writes lb V bs) m x = m x"
  by (rule apply_writes_other) (auto simp: log_writes_def)

lemma home_writes_other: "x \<notin> set bs \<Longrightarrow> apply_writes (home_writes c bs) m x = m x"
  by (rule apply_writes_other) (auto simp: home_writes_def)

lemma home_writes_addr: "fst ` set (home_writes c bs) = set bs"
  by (force simp: home_writes_def in_set_conv_nth)

lemma home_writes_new: "apply_writes (home_writes (\<lambda>i. V (bs ! i)) bs) m x = (if x \<in> set bs then V x else m x)"
proof (cases "x \<in> set bs")
  case True
  then have "apply_writes (home_writes (\<lambda>i. V (bs ! i)) bs) m x = V x"
    by (intro apply_writes_at) (auto simp: home_writes_addr, auto simp: home_writes_def)
  then show ?thesis using True by simp
qed (simp add: home_writes_other)

section \<open>Crash safety\<close>

locale redo_log =
  fixes enc :: "'a list \<Rightarrow> 'd \<Rightarrow> 'd" and dec :: "'d \<Rightarrow> 'a list" and ok :: "'d \<Rightarrow> bool" and cap :: nat
  assumes dec_enc: "ok d \<Longrightarrow> length bs \<le> cap \<Longrightarrow> dec (enc bs d) = bs"
    and ok_enc: "ok d \<Longrightarrow> length bs \<le> cap \<Longrightarrow> ok (enc bs d)"
begin

lemma recovered_empty: "dec (m head) = [] \<Longrightarrow> x \<noteq> head \<Longrightarrow> recovered enc dec head lb m x = m x"
  by (simp add: recovered_def recover_writes_def home_writes_def)

lemma recovered_full:
  assumes "dec (m head) = bs" "head \<notin> set bs" "x \<noteq> head"
  shows "recovered enc dec head lb m x = apply_writes (home_writes (\<lambda>i. m (lb i)) bs) m x"
  using assms by (simp add: recovered_def recover_writes_def)

lemma recovered_committed:
  assumes area: "area_ok head lb n" "length bs \<le> n" "n \<le> cap" and home: "set bs \<inter> log_area head lb n = {}"
    and h: "ok h" and x: "x \<notin> log_area head lb n"
  shows "recovered enc dec head lb
      (apply_writes (take j (home_writes (\<lambda>i. V (bs ! i)) bs)) ((apply_writes (log_writes lb V bs) m)(head := enc bs h))) x =
    (if x \<in> set bs then V x else m x)"
proof -
  let ?H = "home_writes (\<lambda>i. V (bs ! i)) bs" and ?m1 = "(apply_writes (log_writes lb V bs) m)(head := enc bs h)"
  let ?D = "apply_writes (take j ?H) ?m1"
  have hd: "head \<notin> set bs" "x \<noteq> head" "x \<notin> lb ` {..<length bs}"
    using area home x by (auto simp: area_ok_def log_area_def)
  have part: "?D y = ?m1 y" if "y \<notin> set bs" for y
    by (rule apply_writes_other) (use that home_writes_addr [of "\<lambda>i. V (bs ! i)" bs] in \<open>auto dest!: in_set_takeD\<close>)
  have "?D (lb i) = V (bs ! i)" if "i < length bs" for i
  proof -
    have "lb i \<in> lb ` {..<n}" using that area(2) by simp
    then have "lb i \<notin> set bs" "lb i \<noteq> head" using home area(1) by (auto simp: log_area_def area_ok_def)
    then show ?thesis using part log_writes_slot [of lb n bs i] area that by (simp add: area_ok_def)
  qed
  then have slots: "home_writes (\<lambda>i. ?D (lb i)) bs = ?H" by (simp add: home_writes_def)
  have "dec (?D head) = bs" using part [OF hd(1)] dec_enc [OF h] area by simp
  then have "recovered enc dec head lb ?D x = apply_writes ?H ?D x"
    using hd recovered_full [of ?D head bs x lb] unfolding slots by blast
  then show ?thesis using part [of x] hd by (simp add: home_writes_new log_writes_other)
qed

text \<open>After a crash that lets the first \<open>k\<close> writes of a commit reach the disk, recovery finds all of the transaction or
  nothing of it.\<close>

lemma commit_atomic:
  assumes area: "area_ok head lb n" "length bs \<le> n" "n \<le> cap" and home: "set bs \<inter> log_area head lb n = {}"
    and old: "dec (m head) = []" "ok h" and x: "x \<notin> log_area head lb n"
  shows "recovered enc dec head lb (apply_writes (take k (commit_writes enc head lb V bs h)) m) x =
    (if k \<le> length bs then m x else if x \<in> set bs then V x else m x)"
proof -
  let ?L = "log_writes lb V bs" and ?H = "home_writes (\<lambda>i. V (bs ! i)) bs"
  let ?m1 = "(apply_writes ?L m)(head := enc bs h)"
  have len: "length ?L = length bs" "length ?H = length bs" by (simp_all add: log_writes_def home_writes_def)
  have hd: "head \<notin> lb ` {..<n}" "head \<notin> set bs" "x \<noteq> head" "x \<notin> lb ` {..<n}" "x \<notin> lb ` {..<length bs}"
    using area home x by (auto simp: area_ok_def log_area_def)
  consider (log) "k \<le> length bs" | (home) "length bs < k" "k \<le> 2 * length bs + 1" | (over) "2 * length bs + 1 < k" by linarith
  then show ?thesis
  proof cases
    case log
    have part: "apply_writes (take k ?L) m y = m y" if "y \<notin> lb ` {..<n}" for y
      by (rule apply_writes_other) (use that area(2) in \<open>force simp: log_writes_def dest!: in_set_takeD\<close>)
    have "take k (commit_writes enc head lb V bs h) = take k ?L" using log by (simp add: commit_writes_def len)
    moreover have "recovered enc dec head lb (apply_writes (take k ?L) m) x = apply_writes (take k ?L) m x"
      by (rule recovered_empty) (use part hd old in auto)
    ultimately show ?thesis using log part hd(4) by simp
  next
    case home
    define j where "j = k - length bs - 1"
    with home have j: "k = length bs + Suc j" "j \<le> length bs" by auto
    then have "apply_writes (take k (commit_writes enc head lb V bs h)) m = apply_writes (take j ?H) ?m1"
      by (simp add: commit_writes_def len)
    then show ?thesis using recovered_committed [OF area assms(4) old(2) x] home by simp
  next
    case over
    let ?D = "(apply_writes ?H ?m1)(head := enc [] (enc bs h))"
    have "apply_writes (take k (commit_writes enc head lb V bs h)) m = ?D" using over by (simp add: commit_writes_def len)
    moreover have "dec (?D head) = []" using dec_enc [OF ok_enc [OF old(2)]] area by simp
    then have "recovered enc dec head lb ?D x = ?D x" by (rule recovered_empty) (rule hd(3))
    ultimately show ?thesis using over hd by (auto simp: home_writes_new log_writes_other)
  qed
qed

text \<open>Recovery itself may crash and be started again.\<close>

lemma recover_again:
  assumes area: "area_ok head lb n" "length (dec (m head)) \<le> n" and home: "set (dec (m head)) \<inter> log_area head lb n = {}"
    and h: "ok (m head)" and x: "x \<notin> log_area head lb n"
  shows "recovered enc dec head lb (apply_writes (take k (recover_writes enc dec head lb m)) m) x = recovered enc dec head lb m x"
proof -
  let ?bs = "dec (m head)" and ?H = "home_writes (\<lambda>i. m (lb i)) (dec (m head))"
  have len: "length ?H = length ?bs" by (simp add: home_writes_def)
  have hd: "head \<notin> set ?bs" "x \<noteq> head" using home x by (auto simp: log_area_def)
  have fst: "recovered enc dec head lb m x = apply_writes ?H m x" using recovered_full [of m head ?bs x lb] hd by simp
  show ?thesis
  proof (cases "k \<le> length ?bs")
    case True
    let ?D = "apply_writes (take k ?H) m"
    have part: "?D y = m y" if "y \<notin> set ?bs" for y
      by (rule apply_writes_other) (use that home_writes_addr [of "\<lambda>i. m (lb i)" ?bs] in \<open>auto dest!: in_set_takeD\<close>)
    have "lb i \<notin> set ?bs" if "i < length ?bs" for i using that home area(2) by (auto simp: log_area_def)
    then have slots: "home_writes (\<lambda>i. ?D (lb i)) ?bs = ?H" using part by (simp add: home_writes_def)
    have "recovered enc dec head lb ?D x = apply_writes ?H ?D x"
      using recovered_full [of ?D head ?bs x lb] part [OF hd(1)] hd unfolding slots by simp
    also have "\<dots> = apply_writes ?H m x"
      using part [of x] apply_writes_same [of x ?H] by (cases "x \<in> set ?bs") (simp_all add: home_writes_addr home_writes_other)
    finally show ?thesis using True fst by (simp add: recover_writes_def len)
  next
    case False
    let ?D = "(apply_writes ?H m)(head := enc [] (m head))"
    have "dec (?D head) = []" using dec_enc [OF h, of "[]"] by simp
    then have "recovered enc dec head lb ?D x = ?D x" by (rule recovered_empty) (rule hd(2))
    then show ?thesis using False fst hd by (simp add: recover_writes_def len)
  qed
qed

end

end
