(* ===== verification/Block_Fields.thy ===== *)
theory Block_Fields
  imports Bio
begin

text \<open>
  Typed views of a block: what is stored in one field is read back from it, and the other fields keep their contents.
\<close>

lemma length_put_bytes [simp]: "off + length bs \<le> length d \<Longrightarrow> length (put_bytes off bs d) = length d"
  by (simp add: put_bytes_def)

lemma get_put_same: "off + length bs \<le> length d \<Longrightarrow> n = length bs \<Longrightarrow> get_bytes off n (put_bytes off bs d) = bs"
  by (simp add: get_bytes_def put_bytes_def)

lemma get_put_other:
  assumes "off' + n \<le> off \<or> off + length bs \<le> off'" "off + length bs \<le> length d"
  shows "get_bytes off' n (put_bytes off bs d) = get_bytes off' n d"
proof (rule nth_equalityI)
  show len: "length (get_bytes off' n (put_bytes off bs d)) = length (get_bytes off' n d)"
    using assms(2) by (simp add: get_bytes_def)
  fix i assume "i < length (get_bytes off' n (put_bytes off bs d))"
  then have "i < n" "off' + i < length d" using assms(2) by (auto simp: get_bytes_def)
  then show "get_bytes off' n (put_bytes off bs d) ! i = get_bytes off' n d ! i"
    using assms by (auto simp: get_bytes_def put_bytes_def nth_append)
qed

lemma get_u32_put [simp]: "off + 4 \<le> length d \<Longrightarrow> get_u32 off (put_u32 off v d) = v"
  by (simp add: get_u32_def put_u32_def get_put_same from_le_to_le)

lemma get_u32_other: "off' + 4 \<le> off \<or> off + 4 \<le> off' \<Longrightarrow> off + 4 \<le> length d \<Longrightarrow> get_u32 off' (put_u32 off v d) = get_u32 off' d"
  by (simp add: get_u32_def put_u32_def get_put_other)

lemma length_put_u32 [simp]: "off + 4 \<le> length d \<Longrightarrow> length (put_u32 off v d) = length d"
  by (simp add: put_u32_def)

lemma get_u16_put [simp]: "off + 2 \<le> length d \<Longrightarrow> get_u16 off (put_u16 off v d) = v"
  by (simp add: get_u16_def put_u16_def get_put_same from_le_to_le)

lemma get_u16_other: "off' + 2 \<le> off \<or> off + 2 \<le> off' \<Longrightarrow> off + 2 \<le> length d \<Longrightarrow> get_u16 off' (put_u16 off v d) = get_u16 off' d"
  by (simp add: get_u16_def put_u16_def get_put_other)

lemma length_put_u16 [simp]: "off + 2 \<le> length d \<Longrightarrow> length (put_u16 off v d) = length d"
  by (simp add: put_u16_def)

section \<open>An array of words\<close>

definition put_array :: "nat \<Rightarrow> u32 list \<Rightarrow> u8 list \<Rightarrow> u8 list" where
  "put_array off bs d = fold (\<lambda>i d. put_u32 (off + 4 * i) (bs ! i) d) [0..<length bs] d"

definition get_array :: "nat \<Rightarrow> nat \<Rightarrow> u8 list \<Rightarrow> u32 list" where
  "get_array off n d = map (\<lambda>i. get_u32 (off + 4 * i) d) [0..<n]"

lemma put_array_snoc: "put_array off (bs @ [v]) d = put_u32 (off + 4 * length bs) v (put_array off bs d)"
proof -
  have "fold (\<lambda>i d. put_u32 (off + 4 * i) ((bs @ [v]) ! i) d) [0..<length bs] d = fold (\<lambda>i d. put_u32 (off + 4 * i) (bs ! i) d) [0..<length bs] d"
    by (rule fold_cong) (auto simp: nth_append)
  then show ?thesis by (simp add: put_array_def)
qed

lemma length_put_array [simp]: "off + 4 * length bs \<le> length d \<Longrightarrow> length (put_array off bs d) = length d"
  by (induction bs rule: rev_induct) (simp_all add: put_array_snoc, simp add: put_array_def)

lemma get_put_array: "off + 4 * length bs \<le> length d \<Longrightarrow> get_array off (length bs) (put_array off bs d) = bs"
proof (induction bs rule: rev_induct)
  case (snoc v bs)
  have "get_array off (length bs) (put_u32 (off + 4 * length bs) v (put_array off bs d)) = get_array off (length bs) (put_array off bs d)"
    using snoc.prems by (auto simp: get_array_def intro!: get_u32_other)
  with snoc show ?case by (simp add: put_array_snoc) (simp add: get_array_def)
qed (simp add: get_array_def)

lemma get_u32_put_array: "off' + 4 \<le> off \<Longrightarrow> off + 4 * length bs \<le> length d \<Longrightarrow> get_u32 off' (put_array off bs d) = get_u32 off' d"
  by (induction bs rule: rev_induct) (simp_all add: put_array_snoc get_u32_other, simp add: put_array_def)

end
