(* ===== verification/Log_Facts.thy ===== *)
theory Log_Facts
  imports Bio_Laws Redo Block_Fields Log
begin

text \<open>
  \<^verbatim>\<open>kernel/log.c\<close> on top of the block store: the writes that \<open>commit\<close> and \<open>recover_from_log\<close> make are those of the redo log
  protocol.
\<close>

section \<open>The header block\<close>

definition enc_head :: "u32 list \<Rightarrow> u8 list \<Rightarrow> u8 list" where
  "enc_head bs d = put_array 4 bs (put_u32 0 (of_nat (length bs)) d)"

definition dec_head :: "u8 list \<Rightarrow> u32 list" where
  "dec_head d = get_array 4 (nat (sint (get_u32 0 d))) d"

lemma length_enc_head: "length d = BSIZE \<Longrightarrow> length bs \<le> LOGSIZE \<Longrightarrow> length (enc_head bs d) = BSIZE"
  by (simp add: enc_head_def BSIZE_def LOGSIZE_def MAXOPBLOCKS_def)

interpretation rl: redo_log enc_head dec_head "\<lambda>d. length d = BSIZE" LOGSIZE
proof (unfold_locales, goal_cases)
  case (1 d bs)
  then show ?case
    by (simp add: dec_head_def enc_head_def get_u32_put_array get_put_array sint_small BSIZE_def LOGSIZE_def MAXOPBLOCKS_def)
next
  case (2 d bs)
  then show ?case by (rule length_enc_head)
qed

section \<open>Writes through the store\<close>

definition put_all :: "(u32 \<times> u8 list) list \<Rightarrow> bstore \<Rightarrow> bstore" where
  "put_all ws S = S\<lparr>bs_view := apply_writes ws (bs_view S), bs_media := apply_writes ws (bs_media S), bs_trace := bs_trace S @ ws\<rparr>"

lemma put_all_simps [simp]:
  "put_all [] S = S" "put_all vs (put_all us S) = put_all (us @ vs) S" "flush x (edit x d S) = put_all [(x, d)] S"
  "bs_view (put_all ws S) = apply_writes ws (bs_view S)" "bs_media (put_all ws S) = apply_writes ws (bs_media S)"
  "bs_pins (put_all ws S) = bs_pins S" "bs_held (put_all ws S) = bs_held S" "bs_trace (put_all ws S) = bs_trace S @ ws"
  by (simp_all add: put_all_def store_ops)

lemma put_all_more: "put_all ws (unpin x S) = unpin x (put_all ws S)"
  by (simp add: put_all_def store_ops)

lemma pinned_put_all [simp]: "pinned (put_all ws S) = pinned S"
  by (simp add: pinned_def)

lemma readable_put_all [simp]: "readable c x (put_all ws S) = readable c x S" "readable c x (pin y (put_all ws S)) = readable c x (pin y S)"
  by (simp_all add: readable_def pinned_def pin_def)

section \<open>The geometry of the log\<close>

definition lhead :: "'z klog_scheme \<Rightarrow> u32" where
  "lhead s = of_int (log_start s)"

definition lslot :: "'z klog_scheme \<Rightarrow> nat \<Rightarrow> u32" where
  "lslot s i = of_int (log_start s + int i + 1)"

text \<open>The log region has \<open>log_size\<close> blocks, the head included.\<close>

definition lcap :: "'z klog_scheme \<Rightarrow> nat" where
  "lcap s = nat (log_size s - 1)"

definition log_place :: "'z klog_scheme \<Rightarrow> bool" where
  "log_place s \<longleftrightarrow> 0 \<le> log_start s \<and> log_start s + log_size s \<le> 2 ^ 31 \<and> 1 \<le> log_size s \<and> log_size s \<le> int LOGSIZE"

lemma unat_of_int32: "0 \<le> z \<Longrightarrow> z < 2 ^ 32 \<Longrightarrow> unat (of_int z :: u32) = nat z"
  by (simp add: unsigned_of_int take_bit_int_eq_self)

lemma unat_log:
  assumes "log_place s"
  shows "unat (lhead s) = nat (log_start s)" "i < lcap s \<Longrightarrow> unat (lslot s i) = nat (log_start s) + i + 1"
  using assms by (simp_all only: log_place_def lhead_def lslot_def lcap_def) (subst unat_of_int32; auto simp: LOGSIZE_def MAXOPBLOCKS_def)+

lemma log_area_ok: "log_place s \<Longrightarrow> area_ok (lhead s) (lslot s) (lcap s)"
proof -
  assume p: "log_place s"
  note u = unat_log [OF p]
  have "i = j" if "lslot s i = lslot s j" "i < lcap s" "j < lcap s" for i j
    using arg_cong [OF that(1), of unat] u(2) [OF that(2)] u(2) [OF that(3)] by linarith
  moreover have "lhead s \<noteq> lslot s i" if "i < lcap s" for i
    using u(1) u(2) [OF that] by (metis Suc_eq_plus1 add_Suc_right less_add_Suc1 less_irrefl)
  ultimately show ?thesis unfolding area_ok_def inj_on_def by blast
qed

lemma log_blocks_ok: "log_place s \<Longrightarrow> x \<in> log_area (lhead s) (lslot s) (lcap s) \<Longrightarrow> block_ok x"
  using unat_log [of s] by (auto simp: log_area_def block_ok_def log_place_def lcap_def)

lemma klog_frame:
  fixes s :: "'z klog_scheme"
  assumes "io_frame s t"
  shows "log_start t = log_start s" "log_dev t = log_dev s" "lh_n t = lh_n s" "lh_block t = lh_block s" "log_size t = log_size s"
    "log_outstanding t = log_outstanding s" "log_committing t = log_committing s"
  using assms by (cases s; cases t; simp add: io_frame_def)+

section \<open>Transactions\<close>

definition pins_of :: "u32 list \<Rightarrow> u32 \<Rightarrow> nat" where
  "pins_of ps b = (if b \<in> set ps then 1 else 0)"

text \<open>The store reached from \<open>S\<close> by the writes \<open>ws\<close>, with one pin on each block of \<open>ps\<close>.\<close>

definition reached :: "(u32 \<times> u8 list) list \<Rightarrow> u32 list \<Rightarrow> bstore \<Rightarrow> bstore" where
  "reached ws ps S = (put_all ws S)\<lparr>bs_pins := pins_of ps\<rparr>"

lemma reached_simps [simp]:
  "bs_view (reached ws ps S) = apply_writes ws (bs_view S)" "bs_media (reached ws ps S) = apply_writes ws (bs_media S)"
  "bs_pins (reached ws ps S) = pins_of ps" "bs_held (reached ws ps S) = bs_held S" "bs_trace (reached ws ps S) = bs_trace S @ ws"
  "put_all vs (reached ws ps S) = reached (ws @ vs) ps S" "pinned (reached ws ps S) = set ps"
  by (auto simp: reached_def put_all_def pinned_def pins_of_def)

lemma unpin_reached: "distinct ps \<Longrightarrow> i < length ps \<Longrightarrow> unpin (ps ! i) (reached ws (drop i ps) S) = reached ws (drop (Suc i) ps) S"
proof -
  assume d: "distinct ps" "i < length ps"
  then have e: "drop i ps = ps ! i # drop (Suc i) ps" by (simp add: Cons_nth_drop_Suc)
  moreover have "ps ! i \<notin> set (drop (Suc i) ps)" using d e distinct_drop [of ps i] by simp
  ultimately show ?thesis by (auto simp: reached_def unpin_def pins_of_def fun_eq_iff intro!: arg_cong [of _ _ "\<lambda>z. put_all ws S\<lparr>bs_pins := z\<rparr>"])
qed

text \<open>A buffer is at hand for every block the log reads besides the pinned ones.\<close>

definition room :: "u32 list \<Rightarrow> bool" where
  "room ps \<longleftrightarrow> length ps < NBUF"

lemma reached_readable:
  assumes "bs_held S = (\<lambda>_. False)" "block_ok x" "room ps" "block_ok y" "x \<noteq> y" "y \<in> set ps \<or> ps = []"
  shows "readable NBUF x (reached ws ps S)" "readable NBUF y (pin x (reached ws ps S))"
proof -
  have "card (insert x (set ps)) \<le> Suc (length ps)" by (metis card_length card_insert_le_m1 le_SucI length_Cons list.simps(15))
  moreover have "pinned (pin x (reached ws ps S)) = insert x (set ps)" by (auto simp: pinned_def pin_def pins_of_def)
  moreover have "card {x, y} \<le> NBUF" by (simp add: card_insert_if NBUF_def MAXOPBLOCKS_def)
  ultimately show "readable NBUF x (reached ws ps S)" "readable NBUF y (pin x (reached ws ps S))"
    using assms by (auto simp: readable_def room_def pins_of_def pin_def insert_absorb insert_commute)
qed

text \<open>What \<open>commit\<close> finds: the blocks of the transaction are the first \<open>lh_n\<close> entries of the header, each pinned once, and no
  buffer is locked.\<close>

definition txn :: "u32 \<Rightarrow> u32 list \<Rightarrow> 'z klog_scheme \<Rightarrow> bool" where
  "txn dev bs s \<longleftrightarrow> log_dev s = dev \<and> log_place s \<and> length (lh_block s) = LOGSIZE
     \<and> lh_n s = int (length bs) \<and> length bs \<le> lcap s \<and> bs = take (length bs) (lh_block s) \<and> distinct bs
     \<and> set bs \<inter> log_area (lhead s) (lslot s) (lcap s) = {} \<and> (\<forall>b \<in> set bs. block_ok b)"

lemma txn_frame: "io_frame s t \<Longrightarrow> txn dev bs t = txn dev bs s"
  by (simp add: txn_def log_place_def klog_frame lhead_def lslot_def [abs_def] lcap_def)

lemma txn_keep:
  assumes "io_frame s t" "txn dev bs s"
  shows "txn dev bs t" "lhead t = lhead s" "lslot t = lslot s"
  using assms txn_frame [OF assms(1)] klog_frame [OF assms(1)] by (simp_all add: lhead_def lslot_def [abs_def])

lemma lslot_apart:
  assumes "txn dev bs s" "i < length bs" "y \<in> set bs"
  shows "lslot s i \<noteq> y" "block_ok (lslot s i)" "lslot s i \<notin> set bs"
proof -
  have "length bs \<le> lcap s" using assms(1) by (simp add: txn_def)
  then have "lslot s i \<in> log_area (lhead s) (lslot s) (lcap s)" using assms(2) by (auto simp: log_area_def)
  then show "lslot s i \<noteq> y" "block_ok (lslot s i)" "lslot s i \<notin> set bs"
    using assms(1,3) log_blocks_ok [of s] by (auto simp: txn_def)
qed

lemma txn_nth: "txn dev bs s \<Longrightarrow> i < length bs \<Longrightarrow> log_block_at i s = Ok (bs ! i) s"
  unfolding txn_def log_block_at_def by (metis (no_types, lifting) length_take min_less_iff_conj nth_take)

lemma write_log_step:
  fixes s :: "'z klog_scheme"
  assumes T: "txn dev bs s" and held: "bs_held S = (\<lambda>_. False)" and room: "room bs" and i: "i < length bs"
    and inv: "bcache_inv dev p s" and S: "store dev s = reached ws bs S" and y: "bs ! i \<notin> fst ` set ws"
  shows "\<exists>t. bindr (bread (log_dev s) (lslot s i) s) (\<lambda>to s.
       bindr (log_block_at i s) (\<lambda>bno s. bindr (bread (log_dev s) bno s) (\<lambda>from s.
       bindr (bwrite to (upd_data to (\<lambda>_. b_data (bufs s from)) s)) (\<lambda>_ s.
       bindr (brelse from s) (\<lambda>_ s. brelse to s))))) = Ok () t
    \<and> bcache_inv dev p t \<and> io_frame s t \<and> store dev t = reached (ws @ [(lslot s i, bs_view S (bs ! i))]) bs S"
proof -
  have dev: "log_dev s = dev" "block_ok (bs ! i)" using T i by (auto simp: txn_def)
  note x = lslot_apart [OF T i nth_mem [OF i]]
  have rd: "readable NBUF (lslot s i) (store dev s)" "readable NBUF (bs ! i) (pin (lslot s i) (store dev s))"
    unfolding S using reached_readable [OF held x(2) room dev(2) x(1)] i by simp_all
  have pos: "0 < bs_pins (store dev s) (bs ! i)" using i by (simp add: S pins_of_def)
  obtain a s1 b s2 s3 s4 s5 where r: "bread dev (lslot s i) s = Ok a s1" "io_frame s s1" "bread dev (bs ! i) s1 = Ok b s2"
    "bwrite a (upd_data a (\<lambda>_. b_data (bufs s2 b)) s2) = Ok () s3" "brelse b s3 = Ok () s4" "brelse a s4 = Ok () s5"
    "bcache_inv dev p s5" "io_frame s s5" "store dev s5 = flush (lslot s i) (edit (lslot s i) (bs_view (store dev s) (bs ! i)) (store dev s))"
    using bc.copy_out [OF inv x(1) rd pos] by (elim exE conjE) (rule that)
  have "log_block_at i s1 = Ok (bs ! i) s1" using txn_nth txn_frame [OF r(2)] T i by blast
  moreover have "log_dev s1 = dev" using klog_frame(2) [OF r(2)] dev by simp
  moreover have "store dev s5 = reached (ws @ [(lslot s i, bs_view S (bs ! i))]) bs S"
    by (simp add: r(9) S apply_writes_other [OF y])
  ultimately show ?thesis using r by (intro exI [of _ s5]) (simp add: dev)
qed

lemma write_log_Ok:
  fixes s :: "'z klog_scheme"
  assumes T: "txn dev bs s" and held: "bs_held S = (\<lambda>_. False)" and room: "room bs"
    and inv: "bcache_inv dev p s" and S: "store dev s = reached [] bs S"
  shows "\<exists>t. write_log s = Ok () t \<and> bcache_inv dev p t \<and> io_frame s t
    \<and> store dev t = reached (log_writes (lslot s) (bs_view S) bs) bs S"
proof -
  let ?W = "log_writes (lslot s) (bs_view S) bs"
  let ?I = "\<lambda>i t. bcache_inv dev p t \<and> io_frame s t \<and> store dev t = reached (take i ?W) bs S"
  have n: "nat (lh_n s) = length bs" using T by (simp add: txn_def)
  have "\<exists>t. write_log s = Ok () t \<and> ?I (length bs) t"
    unfolding write_log_def n lslot_def [symmetric]
  proof (rule each_res_upto [where I = ?I])
    show "?I 0 s" using inv S by simp
    fix i t assume i: "i < length bs" and I: "?I i t"
    have T': "txn dev bs t" "lslot t = lslot s" using T I txn_keep [of s t dev bs] by auto
    have "bs ! i \<notin> fst ` set (take i ?W)"
      using lslot_apart(1) [OF T _ nth_mem [OF i]] by (fastforce simp: log_writes_def dest!: in_set_takeD)
    note st = write_log_step [OF T'(1) held room i _ _ this]
    have "?I (Suc i) u" if "bcache_inv dev p u" "io_frame t u" "store dev u = reached (take i ?W @ [(lslot t i, bs_view S (bs ! i))]) bs S" for u
      using that I i io_frame_trans [of s t u] T'(2) by (simp add: take_Suc_conv_app_nth log_writes_def)
    then show "\<exists>s'. bindr (bread (log_dev t) (lslot t i) t) (\<lambda>to s.
       bindr (log_block_at i s) (\<lambda>bno s. bindr (bread (log_dev s) bno s) (\<lambda>from s.
       bindr (bwrite to (upd_data to (\<lambda>_. b_data (bufs s from)) s)) (\<lambda>_ s.
       bindr (brelse from s) (\<lambda>_ s. brelse to s))))) = Ok () s' \<and> ?I (Suc i) s'"
      using st I by blast
  qed
  then show ?thesis by (simp add: log_writes_def)
qed

section \<open>Installing\<close>

lemma install_step:
  fixes s :: "'z klog_scheme"
  assumes T: "txn dev bs s" and held: "bs_held S = (\<lambda>_. False)" and room: "room ps" and i: "i < length bs"
    and inv: "bcache_inv dev p s" and S: "store dev s = reached ws ps S" and x': "lslot s i \<notin> fst ` set ws"
    and ps: "ps = (if recovering then [] else drop i bs)"
  shows "\<exists>t. bindr (bread (log_dev s) (lslot s i) s) (\<lambda>lbuf s.
       bindr (log_block_at i s) (\<lambda>bno s. bindr (bread (log_dev s) bno s) (\<lambda>dbuf s.
       bindr (bwrite dbuf (upd_data dbuf (\<lambda>_. b_data (bufs s lbuf)) s)) (\<lambda>_ s.
       bindr (if \<not> recovering then bunpin dbuf s else Ok () s) (\<lambda>_ s.
       bindr (brelse lbuf s) (\<lambda>_ s. brelse dbuf s)))))) = Ok () t
    \<and> bcache_inv dev p t \<and> io_frame s t
    \<and> store dev t = reached (ws @ [(bs ! i, bs_view S (lslot s i))]) (if recovering then [] else drop (Suc i) bs) S"
proof -
  have dev: "log_dev s = dev" "block_ok (bs ! i)" "distinct bs" using T i by (auto simp: txn_def)
  note x = lslot_apart [OF T i nth_mem [OF i]]
  have e: "drop i bs = bs ! i # drop (Suc i) bs" using i by (simp add: Cons_nth_drop_Suc)
  have sub: "set ps \<subseteq> set bs" using ps by (auto dest: in_set_dropD)
  have rd: "readable NBUF (lslot s i) (store dev s)" "readable NBUF (bs ! i) (pin (lslot s i) (store dev s))"
    unfolding S using reached_readable [OF held x(2) room dev(2) x(1)] ps e by (cases recovering; simp)+
  have pos: "\<not> recovering \<longrightarrow> 0 < bs_pins (store dev s) (bs ! i)" by (simp add: S pins_of_def ps e)
  have "bs_pins (store dev s) (lslot s i) = 0" using x(3) sub by (auto simp: S pins_of_def)
  then have cl: "bs_view (store dev s) (lslot s i) = bs_media (store dev s) (lslot s i)" by (rule bc.clean [OF inv])
  obtain a s1 b s2 s3 s4 s5 s6 where r: "bread dev (lslot s i) s = Ok a s1" "io_frame s s1" "bread dev (bs ! i) s1 = Ok b s2"
    "bwrite b (upd_data b (\<lambda>_. b_data (bufs s2 a)) s2) = Ok () s3" "(if \<not> recovering then bunpin b s3 else Ok () s3) = Ok () s4"
    "brelse a s4 = Ok () s5" "brelse b s5 = Ok () s6" "bcache_inv dev p s6" "io_frame s s6"
    "store dev s6 = (if \<not> recovering then unpin (bs ! i) else (\<lambda>S. S)) (flush (bs ! i) (edit (bs ! i) (bs_view (store dev s) (lslot s i)) (store dev s)))"
    using bc.copy_home [OF inv x(1) rd pos cl] by (elim exE conjE) (rule that)
  have "log_block_at i s1 = Ok (bs ! i) s1" using txn_nth txn_frame [OF r(2)] T i by blast
  moreover have "log_dev s1 = dev" using klog_frame(2) [OF r(2)] dev by simp
  moreover have "store dev s6 = reached (ws @ [(bs ! i, bs_view S (lslot s i))]) (if recovering then [] else drop (Suc i) bs) S"
    by (simp add: r(10) S apply_writes_other [OF x'] ps unpin_reached [OF dev(3) i])
  ultimately show ?thesis using r by (intro exI [of _ s6]) (simp add: dev)
qed

lemma install_trans_Ok:
  fixes s :: "'z klog_scheme"
  assumes T: "txn dev bs s" and held: "bs_held S = (\<lambda>_. False)" and room: "room (if recovering then [] else bs)"
    and inv: "bcache_inv dev p s" and S: "store dev s = reached [] (if recovering then [] else bs) S"
  shows "\<exists>t. install_trans recovering s = Ok () t \<and> bcache_inv dev p t \<and> io_frame s t
    \<and> store dev t = reached (home_writes (\<lambda>i. bs_view S (lslot s i)) bs) [] S"
proof -
  let ?W = "home_writes (\<lambda>i. bs_view S (lslot s i)) bs"
  let ?I = "\<lambda>i t. bcache_inv dev p t \<and> io_frame s t \<and> store dev t = reached (take i ?W) (if recovering then [] else drop i bs) S"
  have n: "nat (lh_n s) = length bs" using T by (simp add: txn_def)
  have "\<exists>t. install_trans recovering s = Ok () t \<and> ?I (length bs) t"
    unfolding install_trans_def n lslot_def [symmetric]
  proof (rule each_res_upto [where I = ?I])
    show "?I 0 s" using inv S by simp
    fix i t assume i: "i < length bs" and I: "?I i t"
    have T': "txn dev bs t" "lslot t = lslot s" using T I txn_keep [of s t dev bs] by auto
    have "lslot t i \<notin> fst ` set (take i ?W)"
      using lslot_apart(3) [OF T i] i by (force simp: T'(2) home_writes_def dest!: in_set_takeD)
    moreover have "room (if recovering then [] else drop i bs)" using room by (auto simp: room_def split: if_splits)
    ultimately obtain u where u: "bindr (bread (log_dev t) (lslot t i) t) (\<lambda>lbuf s.
       bindr (log_block_at i s) (\<lambda>bno s. bindr (bread (log_dev s) bno s) (\<lambda>dbuf s.
       bindr (bwrite dbuf (upd_data dbuf (\<lambda>_. b_data (bufs s lbuf)) s)) (\<lambda>_ s.
       bindr (if \<not> recovering then bunpin dbuf s else Ok () s) (\<lambda>_ s.
       bindr (brelse lbuf s) (\<lambda>_ s. brelse dbuf s)))))) = Ok () u" "bcache_inv dev p u" "io_frame t u"
       "store dev u = reached (take i ?W @ [(bs ! i, bs_view S (lslot t i))]) (if recovering then [] else drop (Suc i) bs) S"
      using install_step [OF T'(1) held _ i] I by blast
    moreover have "?I (Suc i) u"
      using u(2-) I i io_frame_trans [of s t u] T'(2) by (simp add: take_Suc_conv_app_nth home_writes_def)
    ultimately show "\<exists>s'. bindr (bread (log_dev t) (lslot t i) t) (\<lambda>lbuf s.
       bindr (log_block_at i s) (\<lambda>bno s. bindr (bread (log_dev s) bno s) (\<lambda>dbuf s.
       bindr (bwrite dbuf (upd_data dbuf (\<lambda>_. b_data (bufs s lbuf)) s)) (\<lambda>_ s.
       bindr (if \<not> recovering then bunpin dbuf s else Ok () s) (\<lambda>_ s.
       bindr (brelse lbuf s) (\<lambda>_ s. brelse dbuf s)))))) = Ok () s' \<and> ?I (Suc i) s'" by blast
  qed
  then show ?thesis by (cases recovering) (simp_all add: home_writes_def)
qed

section \<open>The header on disk\<close>

lemma reached_readable1:
  assumes "bs_held S = (\<lambda>_. False)" "block_ok x" "room ps"
  shows "readable NBUF x (reached ws ps S)"
proof -
  have "card (insert x (set ps)) \<le> Suc (length ps)" by (metis card_length card_insert_le_m1 le_SucI length_Cons list.simps(15))
  then show ?thesis using assms by (auto simp: readable_def room_def pins_of_def)
qed

lemma lhead_facts:
  assumes "txn dev bs s"
  shows "block_ok (lhead s)" "lhead s \<notin> set bs" "length bs \<le> lcap s" "length bs \<le> LOGSIZE" "lhead s \<notin> lslot s ` {..<lcap s}"
proof -
  have "lhead s \<in> log_area (lhead s) (lslot s) (lcap s)" by (simp add: log_area_def)
  then show "block_ok (lhead s)" "lhead s \<notin> set bs"
    using assms log_blocks_ok [of s] by (auto simp: txn_def)
  show "length bs \<le> lcap s" "length bs \<le> LOGSIZE" using assms by (auto simp: txn_def log_place_def lcap_def)
  show "lhead s \<notin> lslot s ` {..<lcap s}" using assms log_area_ok [of s] by (simp add: txn_def area_ok_def)
qed

text \<open>Filling the header in the buffer \<open>b\<close> that holds the head block.\<close>

lemma fill_head:
  fixes s :: "'z klog_scheme"
  assumes T: "txn dev bs s" and inv: "bcache_inv dev p s" and b: "bslot dev s (lhead s) = Some b" and held: "bs_held (store dev s) (lhead s)"
  shows "\<exists>t. each_res (\<lambda>i s. bindr (log_block_at i s) (\<lambda>bno s. Ok () (upd_data b (put_u32 (4 + 4 * i) bno) s)))
      [0..<length bs] s = Ok () t
    \<and> bcache_inv dev p t \<and> io_frame s t \<and> bslot dev t (lhead s) = Some b
    \<and> store dev t = edit (lhead s) (put_array 4 bs (bs_view (store dev s) (lhead s))) (store dev s)"
proof -
  let ?h = "lhead s" and ?d = "bs_view (store dev s) (lhead s)"
  let ?I = "\<lambda>i t. bcache_inv dev p t \<and> io_frame s t \<and> bslot dev t ?h = Some b \<and> store dev t = edit ?h (put_array 4 (take i bs) ?d) (store dev s)"
  have len: "length ?d = BSIZE" using bc.slot_data [OF inv b] by auto
  have fit: "4 + 4 * length bs \<le> BSIZE" using lhead_facts(4) [OF T] by (simp add: BSIZE_def LOGSIZE_def MAXOPBLOCKS_def)
  have "\<exists>t. each_res (\<lambda>i s. bindr (log_block_at i s) (\<lambda>bno s. Ok () (upd_data b (put_u32 (4 + 4 * i) bno) s))) [0..<length bs] s = Ok () t \<and> ?I (length bs) t"
  proof (rule each_res_upto [where I = ?I])
    show "?I 0 s" using inv b by (simp add: put_array_def edit_def)
    fix i t assume i: "i < length bs" and I: "?I i t"
    have "log_block_at i t = Ok (bs ! i) t" using txn_nth txn_frame [of s t] I T i by blast
    moreover have view: "bs_view (store dev t) ?h = put_array 4 (take i bs) ?d" using I by (simp add: edit_def)
    have "length (put_u32 (4 + 4 * i) (bs ! i) (bs_view (store dev t) ?h)) = BSIZE" using len fit i by (simp add: view)
    then have u: "bcache_inv dev p (upd_data b (put_u32 (4 + 4 * i) (bs ! i)) t)" "io_frame t (upd_data b (put_u32 (4 + 4 * i) (bs ! i)) t)"
      "bslot dev (upd_data b (put_u32 (4 + 4 * i) (bs ! i)) t) = bslot dev t"
      "store dev (upd_data b (put_u32 (4 + 4 * i) (bs ! i)) t) = edit ?h (put_u32 (4 + 4 * i) (bs ! i) (put_array 4 (take i bs) ?d)) (store dev t)"
      using bc.upd_law [of dev p t ?h b "put_u32 (4 + 4 * i) (bs ! i)"] I held by (auto simp: view) (auto simp: edit_def)
    moreover have "put_u32 (4 + 4 * i) (bs ! i) (put_array 4 (take i bs) ?d) = put_array 4 (take (Suc i) bs) ?d"
      using i by (simp add: take_Suc_conv_app_nth put_array_snoc)
    ultimately show "\<exists>s'. bindr (log_block_at i t) (\<lambda>bno s. Ok () (upd_data b (put_u32 (4 + 4 * i) bno) s)) = Ok () s' \<and> ?I (Suc i) s'"
      using I io_frame_trans [of s t] by (auto simp: edit_def)
  qed
  then show ?thesis by simp
qed

lemma write_head_Ok:
  fixes s :: "'z klog_scheme"
  assumes T: "txn dev bs s" and held: "bs_held S = (\<lambda>_. False)" and room: "room ps" and ps: "lhead s \<notin> set ps"
    and inv: "bcache_inv dev p s" and S: "store dev s = reached [] ps S"
  shows "\<exists>t. write_head s = Ok () t \<and> bcache_inv dev p t \<and> io_frame s t
    \<and> store dev t = reached [(lhead s, enc_head bs (bs_view S (lhead s)))] ps S"
proof -
  let ?h = "lhead s"
  have dev: "log_dev s = dev" and n: "lh_n s = int (length bs)" using T by (simp_all add: txn_def)
  have "readable NBUF ?h (store dev s)" unfolding S by (rule reached_readable1 [OF held lhead_facts(1) [OF T] room])
  then obtain b s1 where s1: "bread dev ?h s = Ok b s1" "bcache_inv dev p s1" "io_frame s s1" "bslot dev s1 ?h = Some b"
    "store dev s1 = hold ?h True (pin ?h (store dev s))" using bc.bread_law [OF inv] by blast
  have h1: "bs_held (store dev s1) ?h" by (simp add: s1(5) hold_def)
  have len: "length (bs_view (store dev s1) ?h) = BSIZE" using bc.slot_data [OF s1(2,4)] by auto
  define s2 where "s2 = upd_data b (put_u32 0 (of_int (lh_n s1))) s1"
  have n1: "lh_n s1 = int (length bs)" using klog_frame(3) [OF s1(3)] n by simp
  have s2: "bcache_inv dev p s2" "io_frame s1 s2" "bslot dev s2 ?h = Some b"
    "store dev s2 = edit ?h (put_u32 0 (of_nat (length bs)) (bs_view S ?h)) (store dev s1)"
    using bc.upd_law [OF s1(2,4) h1, of "put_u32 0 (of_int (lh_n s1))"] len s1(4,5) n1
    by (simp_all add: s2_def BSIZE_def S pin_def hold_def)
  have f2: "io_frame s s2" by (rule io_frame_trans [OF s1(3) s2(2)])
  have T2: "txn dev bs s2" and h2: "lhead s2 = ?h" "nat (lh_n s2) = length bs"
    using T txn_frame [OF f2] klog_frame [OF f2] n by (simp_all add: lhead_def)
  have held2: "bs_held (store dev s2) (lhead s2)" using h1 by (simp add: s2(4) h2 edit_def)
  obtain s3 where s3: "each_res (\<lambda>i s. bindr (log_block_at i s) (\<lambda>bno s. Ok () (upd_data b (put_u32 (4 + 4 * i) bno) s))) [0..<length bs] s2 = Ok () s3"
    "bcache_inv dev p s3" "io_frame s2 s3" "bslot dev s3 ?h = Some b"
    "store dev s3 = edit ?h (put_array 4 bs (bs_view (store dev s2) ?h)) (store dev s2)"
    using fill_head [OF T2 s2(1) _ held2, of b] s2(3) unfolding h2 by blast
  have S3: "store dev s3 = edit ?h (enc_head bs (bs_view S ?h)) (hold ?h True (pin ?h (reached [] ps S)))"
    by (simp add: s3(5) s2(4) s1(5) S enc_head_def edit_def)
  then have "bs_held (store dev s3) ?h" by (simp add: edit_def hold_def)
  then obtain s4 where s4: "bwrite b s3 = Ok () s4" "bcache_inv dev p s4" "io_frame s3 s4" "bslot dev s4 ?h = Some b" "store dev s4 = flush ?h (store dev s3)"
    using bc.bwrite_law [OF s3(2,4)] s3(4) by auto
  have "spare ?h (store dev s4)" "bs_held (store dev s4) ?h" using ps by (simp_all add: s4(5) S3 store_ops spare_def pins_of_def)
  then obtain s5 where s5: "brelse b s4 = Ok () s5" "bcache_inv dev p s5" "io_frame s4 s5" "store dev s5 = hold ?h False (unpin ?h (store dev s4))"
    using bc.brelse_law [OF s4(2,4)] by blast
  have "io_frame s s5" using f2 s3(3) s4(3) s5(3) io_frame_trans by blast
  moreover have "store dev s5 = reached [(?h, enc_head bs (bs_view S ?h))] ps S"
    using held by (simp add: s5(4) s4(5) S3 store_ops reached_def put_all_def fun_upd_idem)
  moreover have "write_head s = Ok () s5"
    using s1(1) s3(1) s4(1) s5(1) h2 by (simp add: write_head_def dev Let_def lhead_def [symmetric] flip: s2_def)
  ultimately show ?thesis using s5(2) by blast
qed

section \<open>Commit\<close>

lemma log_fields [simp]:
  "bcache_inv dev p (s\<lparr>lh_n := n\<rparr>) = bcache_inv dev p s" "store dev (s\<lparr>lh_n := n\<rparr>) = store dev s"
  "bcache_inv dev p (s\<lparr>lh_block := x\<rparr>) = bcache_inv dev p s" "store dev (s\<lparr>lh_block := x\<rparr>) = store dev s"
  "bcache_inv dev p (s\<lparr>log_outstanding := n\<rparr>) = bcache_inv dev p s" "store dev (s\<lparr>log_outstanding := n\<rparr>) = store dev s"
  "bcache_inv dev p (s\<lparr>log_committing := c\<rparr>) = bcache_inv dev p s" "store dev (s\<lparr>log_committing := c\<rparr>) = store dev s"
  "bslot dev (s\<lparr>lh_n := n\<rparr>) = bslot dev s" "bslot dev (s\<lparr>lh_block := x\<rparr>) = bslot dev s"
  by (simp_all add: bcache_inv_def at_ease_def settled_def unheld_def lock_defs queue_idle_def buf_ok_def store_def bslot_def [abs_def] cong: option.case_cong)

lemma io_frame_log:
  fixes s :: "'z klog_scheme"
  assumes "io_frame s t"
  shows "io_frame (s\<lparr>lh_n := n\<rparr>) (t\<lparr>lh_n := n\<rparr>)" "io_frame (s\<lparr>lh_block := x\<rparr>) (t\<lparr>lh_block := x\<rparr>)"
  using assms by (cases s; cases t; simp add: io_frame_def)+

lemma reached_after: "reached vs ps (put_all ws S) = reached (ws @ vs) ps S"
  by (simp add: reached_def)

lemma commit_Ok:
  fixes s :: "'z klog_scheme"
  assumes T: "txn dev bs s" and ne: "bs \<noteq> []" and held: "bs_held S = (\<lambda>_. False)" and room: "room bs"
    and inv: "bcache_inv dev p s" and S: "store dev s = reached [] bs S"
  shows "\<exists>t. commit s = Ok () t \<and> bcache_inv dev p t \<and> io_frame (s\<lparr>lh_n := 0\<rparr>) t
    \<and> store dev t = reached (commit_writes enc_head (lhead s) (lslot s) (bs_view S) bs (bs_view S (lhead s))) [] S"
proof -
  let ?h = "lhead s" and ?lb = "lslot s" and ?V = "bs_view S"
  let ?L = "log_writes ?lb ?V bs" and ?H = "home_writes (\<lambda>i. ?V (bs ! i)) bs"
  let ?S1 = "put_all ?L S" and ?e = "enc_head bs (?V ?h)"
  let ?S2 = "put_all (?L @ [(?h, ?e)]) S" and ?S3 = "put_all (?L @ [(?h, ?e)] @ ?H) S"
  note hf = lhead_facts [OF T]
  have hs: "?h \<notin> ?lb ` {..<length bs}" using hf(3,5) by auto
  obtain t1 where t1: "write_log s = Ok () t1" "bcache_inv dev p t1" "io_frame s t1" "store dev t1 = reached [] bs ?S1"
    using write_log_Ok [OF T held room inv S] by (auto simp: reached_after)
  note T1 = txn_keep [OF t1(3) T]
  have "bs_view ?S1 ?h = ?V ?h" using hs by (simp add: log_writes_other)
  then obtain t2 where t2: "write_head t1 = Ok () t2" "bcache_inv dev p t2" "io_frame t1 t2" "store dev t2 = reached [] bs ?S2"
    using write_head_Ok [OF T1(1) _ room _ t1(2,4)] held hf(2) T1(2) by (auto simp: reached_after)
  note T2 = txn_keep [OF t2(3) T1(1), unfolded T1(2,3)]
  have "bs_view ?S2 (?lb i) = ?V (bs ! i)" if "i < length bs" for i
  proof -
    have "?lb i \<noteq> ?h" using that hs by force
    then show ?thesis using log_writes_slot [of ?lb "lcap s" bs i ?V] log_area_ok [of s] T hf(3) that by (simp add: area_ok_def txn_def)
  qed
  then have "home_writes (\<lambda>i. bs_view ?S2 (?lb i)) bs = ?H" by (simp add: home_writes_def)
  then obtain t3 where t3: "install_trans False t2 = Ok () t3" "bcache_inv dev p t3" "io_frame t2 t3" "store dev t3 = reached [] [] ?S3"
    using install_trans_Ok [OF T2(1) _ _ t2(2), of ?S2 False] room t2(4) held T2(3) by (auto simp: reached_after)
  define t4 where "t4 = t3\<lparr>lh_n := 0\<rparr>"
  note T3 = txn_keep [OF t3(3) T2(1), unfolded T2(2,3)]
  then have T4: "txn dev [] t4" "lhead t4 = ?h" by (auto simp: t4_def txn_def log_place_def lhead_def lslot_def [abs_def] lcap_def)
  have "bs_view ?S3 ?h = ?e" using hf(2) by (simp add: home_writes_other)
  then obtain t5 where t5: "write_head t4 = Ok () t5" "bcache_inv dev p t5" "io_frame t4 t5"
      "store dev t5 = reached (?L @ [(?h, ?e)] @ ?H @ [(?h, enc_head [] ?e)]) [] S"
    using write_head_Ok [OF T4(1), of ?S3 "[]" p] t3(2,4) held T4(2) by (auto simp: t4_def reached_after room_def NBUF_def MAXOPBLOCKS_def)
  have "io_frame s t3" using t1(3) t2(3) t3(3) io_frame_trans by blast
  then have "io_frame (s\<lparr>lh_n := 0\<rparr>) t4" unfolding t4_def by (rule io_frame_log(1))
  then have "io_frame (s\<lparr>lh_n := 0\<rparr>) t5" using t5(3) io_frame_trans by blast
  moreover have "commit s = Ok () t5" using T ne t1(1) t2(1) t3(1) t5(1) by (simp add: commit_def txn_def flip: t4_def)
  ultimately show ?thesis using t5(2,4) by (intro exI [of _ t5]) (simp add: commit_writes_def)
qed

section \<open>Recovery\<close>

text \<open>A header that lists at most \<open>lcap\<close> different blocks outside the log.\<close>

definition head_ok :: "'z klog_scheme \<Rightarrow> u8 list \<Rightarrow> bool" where
  "head_ok s d \<longleftrightarrow> 0 \<le> sint (get_u32 0 d) \<and> nat (sint (get_u32 0 d)) \<le> lcap s \<and> distinct (dec_head d)
     \<and> set (dec_head d) \<inter> log_area (lhead s) (lslot s) (lcap s) = {} \<and> (\<forall>b \<in> set (dec_head d). block_ok b)"

lemma load_head:
  fixes s :: "'z klog_scheme"
  assumes "length (lh_block s) = LOGSIZE" "n \<le> LOGSIZE"
  shows "(each_res (\<lambda>i s. if i < length (lh_block s) then Ok () (s\<lparr>lh_block := (lh_block s)[i := get_u32 (4 + 4 * i) d]\<rparr>) else Hang) [0..<n] s :: (unit, 'z klog_scheme) kres) =
    Ok () (s\<lparr>lh_block := get_array 4 n d @ drop n (lh_block s)\<rparr>)"
proof -
  let ?I = "\<lambda>i t. t = s\<lparr>lh_block := get_array 4 i d @ drop i (lh_block s)\<rparr>"
  have "\<exists>t. (each_res (\<lambda>i s. if i < length (lh_block s) then Ok () (s\<lparr>lh_block := (lh_block s)[i := get_u32 (4 + 4 * i) d]\<rparr>) else Hang) [0..<n] s :: (unit, 'z klog_scheme) kres) = Ok () t \<and> ?I n t"
  proof (rule each_res_upto [where I = ?I])
    show "?I 0 s" by (simp add: get_array_def)
    fix i t assume i: "i < n" and I: "?I i t"
    have "(get_array 4 i d @ drop i (lh_block s))[i := v] = get_array 4 i d @ v # drop (Suc i) (lh_block s)" for v
      using i assms by (simp add: get_array_def list_update_append Cons_nth_drop_Suc [symmetric])
    then show "\<exists>s'. (if i < length (lh_block t) then Ok () (t\<lparr>lh_block := (lh_block t)[i := get_u32 (4 + 4 * i) d]\<rparr>) else Hang) = Ok () s' \<and> ?I (Suc i) s'"
      using i assms by (simp add: I) (simp add: get_array_def)
  qed
  then show ?thesis by auto
qed

lemma read_head_Ok:
  fixes s :: "'z klog_scheme"
  assumes inv: "bcache_inv dev p s" and dev: "log_dev s = dev" and place: "log_place s" and len: "length (lh_block s) = LOGSIZE"
    and held: "bs_held S = (\<lambda>_. False)" and S: "store dev s = reached [] [] S" and ok: "head_ok s (bs_view S (lhead s))"
  defines "d \<equiv> bs_view S (lhead s)"
  shows "\<exists>t. read_head s = Ok () t \<and> bcache_inv dev p t \<and> store dev t = store dev s \<and> txn dev (dec_head d) t \<and> lhead t = lhead s \<and> lslot t = lslot s
    \<and> io_frame (s\<lparr>lh_n := int (length (dec_head d)), lh_block := dec_head d @ drop (length (dec_head d)) (lh_block s)\<rparr>) t"
proof -
  let ?h = "lhead s"
  define bs where "bs = dec_head d"
  have "?h \<in> log_area ?h (lslot s) (lcap s)" by (simp add: log_area_def)
  then have "readable NBUF ?h (store dev s)"
    unfolding S by (intro reached_readable1 [OF held]) (use place log_blocks_ok in \<open>auto simp: room_def NBUF_def MAXOPBLOCKS_def\<close>)
  then obtain b s1 where s1: "bread dev ?h s = Ok b s1" "bcache_inv dev p s1" "io_frame s s1" "bslot dev s1 ?h = Some b"
    "store dev s1 = hold ?h True (pin ?h (store dev s))" using bc.bread_law [OF inv] by blast
  have data: "b_data (bufs s1 b) = d" using bc.slot_data [OF s1(2,4)] by (simp add: s1(5) S hold_def pin_def d_def)
  have n: "sint (get_u32 0 d) = int (length bs)" "length bs \<le> LOGSIZE" "get_array 4 (length bs) d = bs"
    using ok place by (auto simp: head_ok_def d_def bs_def dec_head_def get_array_def lcap_def log_place_def)
  define s2 where "s2 = s1\<lparr>lh_n := int (length bs), lh_block := bs @ drop (length bs) (lh_block s1)\<rparr>"
  have s2: "bcache_inv dev p s2" "bslot dev s2 ?h = Some b" "store dev s2 = store dev s1" using s1(2,4) by (simp_all add: s2_def)
  have "bs_view S ?h = bs_media S ?h" using bc.clean [OF inv, of ?h] by (simp add: S pins_of_def)
  then have "spare ?h (store dev s2)" "bs_held (store dev s2) ?h" by (simp_all add: s2(3) s1(5) S store_ops spare_def pins_of_def)
  then obtain t where t: "brelse b s2 = Ok () t" "bcache_inv dev p t" "io_frame s2 t" "store dev t = hold ?h False (unpin ?h (store dev s2))"
    using bc.brelse_law [OF s2(1,2)] by blast
  note k1 = klog_frame [OF s1(3)]
  have rd: "read_head s = Ok () t"
    using s1(1) t(1) load_head [of "s1\<lparr>lh_n := int (length bs)\<rparr>" "length bs" d] len k1
    by (simp add: read_head_def dev Let_def data n s2_def lhead_def [symmetric] cong: if_cong)
  have st: "store dev t = store dev s" using held by (simp add: t(4) s2(3) s1(5) S store_ops fun_upd_idem)
  have fr: "io_frame (s\<lparr>lh_n := int (length bs), lh_block := bs @ drop (length bs) (lh_block s)\<rparr>) t"
  proof -
    have "io_frame (s\<lparr>lh_n := int (length bs), lh_block := bs @ drop (length bs) (lh_block s)\<rparr>) s2"
      using io_frame_log(2) [OF io_frame_log(1) [OF s1(3)]] k1 by (simp add: s2_def)
    then show ?thesis using t(3) io_frame_trans by blast
  qed
  have lt: "lhead t = ?h" "lslot t = lslot s" using klog_frame [OF fr] by (simp_all add: lhead_def lslot_def [abs_def])
  have "txn dev bs t" using ok dev place len n(2) klog_frame [OF fr] lt by (auto simp: txn_def head_ok_def d_def bs_def log_place_def lcap_def dec_head_def get_array_def)
  then show ?thesis using rd t(2) st lt fr unfolding bs_def by blast
qed

lemma txn_room: "txn dev bs s \<Longrightarrow> room bs"
  by (auto simp: txn_def room_def lcap_def log_place_def LOGSIZE_def NBUF_def MAXOPBLOCKS_def)

text \<open>A machine that has just booted: the log's place is known, no buffer is pinned or locked.\<close>

definition booted :: "u32 \<Rightarrow> nat \<Rightarrow> 'z klog_scheme \<Rightarrow> bool" where
  "booted dev p s \<longleftrightarrow> bcache_inv dev p s \<and> log_dev s = dev \<and> log_place s \<and> length (lh_block s) = LOGSIZE
     \<and> bs_held (store dev s) = (\<lambda>_. False) \<and> bs_pins (store dev s) = (\<lambda>_. 0)"

lemma booted_store:
  assumes "booted dev p s"
  shows "store dev s = reached [] [] (store dev s)" "bs_view (store dev s) = bs_media (store dev s)" "bs_media (store dev s) = blocks (disk s)"
proof -
  show "store dev s = reached [] [] (store dev s)" using assms by (simp add: reached_def booted_def pins_of_def [abs_def])
  show "bs_view (store dev s) = bs_media (store dev s)" using assms bc.clean [of dev p s] by (auto simp: booted_def)
  show "bs_media (store dev s) = blocks (disk s)" by (simp add: store_def)
qed

lemma recover_Ok:
  fixes s :: "'z klog_scheme"
  assumes B: "booted dev p s" and ok: "head_ok s (blocks (disk s) (lhead s))"
  shows "\<exists>t. recover_from_log s = Ok () t \<and> bcache_inv dev p t \<and> lh_n t = 0
    \<and> store dev t = reached (recover_writes enc_head dec_head (lhead s) (lslot s) (blocks (disk s))) [] (store dev s)"
proof -
  let ?h = "lhead s" and ?S = "store dev s" and ?m = "blocks (disk s)"
  let ?bs = "dec_head (?m ?h)"
  note st = booted_store [OF B]
  have held: "bs_held ?S = (\<lambda>_. False)" using B by (simp add: booted_def)
  have view: "bs_view ?S = ?m" using st by simp
  obtain t1 where t1: "read_head s = Ok () t1" "bcache_inv dev p t1" "store dev t1 = ?S" "txn dev ?bs t1" "lhead t1 = ?h" "lslot t1 = lslot s"
    using read_head_Ok [OF _ _ _ _ held st(1)] B ok unfolding view booted_def by blast
  let ?H = "home_writes (\<lambda>i. ?m (lslot s i)) ?bs"
  obtain t2 where t2: "install_trans True t1 = Ok () t2" "bcache_inv dev p t2" "io_frame t1 t2" "store dev t2 = reached [] [] (put_all ?H ?S)"
    using install_trans_Ok [OF t1(4) held _ t1(2), of True] st(1) t1(3,6) view by (auto simp: room_def NBUF_def MAXOPBLOCKS_def reached_after)
  define t3 where "t3 = t2\<lparr>lh_n := 0\<rparr>"
  note T2 = txn_keep [OF t2(3) t1(4)]
  then have T3: "txn dev [] t3" "lhead t3 = ?h" using t1(5) by (auto simp: t3_def txn_def log_place_def lhead_def lslot_def [abs_def] lcap_def)
  have "?h \<notin> set ?bs" using lhead_facts(2) [OF t1(4)] t1(5) by simp
  then have "bs_view (put_all ?H ?S) ?h = ?m ?h" by (simp add: home_writes_other view)
  then obtain t4 where t4: "write_head t3 = Ok () t4" "bcache_inv dev p t4" "io_frame t3 t4" "store dev t4 = reached (?H @ [(?h, enc_head [] (?m ?h))]) [] ?S"
    using write_head_Ok [OF T3(1), of "put_all ?H ?S" "[]" p] t2(2,4) held T3(2) by (auto simp: t3_def reached_after room_def NBUF_def MAXOPBLOCKS_def)
  have "lh_n t4 = 0" using klog_frame(3) [OF t4(3)] by (simp add: t3_def)
  moreover have "recover_from_log s = Ok () t4" using t1(1) t2(1) t4(1) by (simp add: recover_from_log_def t3_def)
  ultimately show ?thesis using t4(2,4) by (intro exI [of _ t4]) (simp add: recover_writes_def)
qed

end
