(* ===== verification/Log_Ops.thy ===== *)
theory Log_Ops
  imports Log_Facts
begin

text \<open>
  Transactions of \<^verbatim>\<open>kernel/log.c\<close> as system calls use them: \<open>begin_op\<close>, updates of blocks through \<open>bread\<close>, \<open>log_write\<close> and
  \<open>brelse\<close>, and \<open>end_op\<close>.
\<close>

section \<open>Operations under the log's lock\<close>

lemma log_outstanding_lock [simp]:
  "log_outstanding (take_lock l s) = log_outstanding s"
  "take_lock l (s\<lparr>log_outstanding := x\<rparr>) = (take_lock l s)\<lparr>log_outstanding := x\<rparr>"
  "unheld l (s\<lparr>log_outstanding := x\<rparr>) = unheld l s" "settled (s\<lparr>log_outstanding := x\<rparr>) = settled s"
  "release l (s\<lparr>log_outstanding := x\<rparr>) = map_state (\<lambda>s. s\<lparr>log_outstanding := x\<rparr>) (release l s)"
  by (simp_all add: take_lock_def unheld_def settled_def lock_op_defs)

lemma log_committing_lock [simp]:
  "log_committing (take_lock l s) = log_committing s"
  "take_lock l (s\<lparr>log_committing := x\<rparr>) = (take_lock l s)\<lparr>log_committing := x\<rparr>"
  "unheld l (s\<lparr>log_committing := x\<rparr>) = unheld l s" "settled (s\<lparr>log_committing := x\<rparr>) = settled s"
  "release l (s\<lparr>log_committing := x\<rparr>) = map_state (\<lambda>s. s\<lparr>log_committing := x\<rparr>) (release l s)"
  by (simp_all add: take_lock_def unheld_def settled_def lock_op_defs)

lemma lh_lock [simp]:
  "lh_n (take_lock l s) = lh_n s" "lh_block (take_lock l s) = lh_block s" "log_size (take_lock l s) = log_size s"
  "take_lock l (s\<lparr>lh_n := n\<rparr>) = (take_lock l s)\<lparr>lh_n := n\<rparr>" "take_lock l (s\<lparr>lh_block := x\<rparr>) = (take_lock l s)\<lparr>lh_block := x\<rparr>"
  "unheld l (s\<lparr>lh_n := n\<rparr>) = unheld l s" "settled (s\<lparr>lh_n := n\<rparr>) = settled s"
  "unheld l (s\<lparr>lh_block := x\<rparr>) = unheld l s" "settled (s\<lparr>lh_block := x\<rparr>) = settled s"
  "release l (s\<lparr>lh_n := n\<rparr>) = map_state (\<lambda>s. s\<lparr>lh_n := n\<rparr>) (release l s)"
  "release l (s\<lparr>lh_block := x\<rparr>) = map_state (\<lambda>s. s\<lparr>lh_block := x\<rparr>) (release l s)"
  by (simp_all add: take_lock_def unheld_def settled_def lock_op_defs)

lemma begin_op_Ok:
  assumes "at_ease p s" "\<not> log_committing s" "lh_n s + (log_outstanding s + 1) * int MAXOPBLOCKS \<le> int LOGSIZE"
  shows "begin_op s = Ok () (s\<lparr>log_outstanding := log_outstanding s + 1\<rparr>)"
  using assms by (simp add: begin_op_def begin_op_turn_def at_ease_def)

lemma bpin_eq: "settled s \<Longrightarrow> unheld L_bcache s \<Longrightarrow> bpin b s = Ok () (upd_buf b (\<lambda>c. c\<lparr>b_refcnt := b_refcnt c + 1\<rparr>) s)"
  by (simp add: bpin_def release_upd_buf)

lemma log_slot_eq:
  assumes "txn dev bs s"
  shows "n \<in> set bs \<Longrightarrow> log_slot n s < length bs \<and> lh_block s ! log_slot n s = n" "n \<notin> set bs \<Longrightarrow> log_slot n s = length bs"
proof -
  have len: "nat (lh_n s) = length bs" and nth: "\<And>i. i < length bs \<Longrightarrow> lh_block s ! i = bs ! i"
    using assms unfolding txn_def by (simp, metis nth_take)
  show "log_slot n s < length bs \<and> lh_block s ! log_slot n s = n" if "n \<in> set bs"
  proof (cases "find (\<lambda>i. lh_block s ! i = n) [0..<length bs]")
    case None
    then show ?thesis using that nth by (auto simp: find_None_iff in_set_conv_nth)
  next
    case (Some i)
    then show ?thesis using find_SomeD [OF Some] by (simp add: log_slot_def len)
  qed
  show "log_slot n s = length bs" if "n \<notin> set bs"
  proof -
    have "find (\<lambda>i. lh_block s ! i = n) [0..<length bs] = None" using that nth by (auto simp: find_None_iff)
    then show ?thesis by (simp add: log_slot_def len)
  qed
qed

lemma log_write_panics:
  assumes "at_ease p s" "log_size s - 1 \<le> lh_n s"
  shows "log_write b s = Panic ''too big a transaction''"
  using assms by (simp add: log_write_def at_ease_def)

lemma log_write_eq:
  assumes ease: "at_ease p s" and T: "txn dev bs s" and n: "b_blockno (bufs s b) = n" and room: "length bs < lcap s" and out: "1 \<le> log_outstanding s"
  shows "log_write b s = Ok () (if n \<in> set bs then s
    else (upd_buf b (\<lambda>c. c\<lparr>b_refcnt := b_refcnt c + 1\<rparr>) s)\<lparr>lh_block := (lh_block s)[length bs := n], lh_n := int (length bs) + 1\<rparr>)"
proof -
  have st: "settled s" "\<And>l. unheld l s" using ease by (simp_all add: at_ease_def)
  have len: "lh_n s = int (length bs)" "lh_n s < log_size s - 1" "lh_n s < int LOGSIZE" "length (lh_block s) = LOGSIZE"
    using T room by (auto simp: txn_def lcap_def log_place_def)
  have slot: "log_slot n (take_lock L_log s) = log_slot n s" by (simp add: log_slot_def cong: option.case_cong)
  show ?thesis
  proof (cases "n \<in> set bs")
    case True
    then have "log_slot n s \<noteq> length bs" "(lh_block s)[log_slot n s := n] = lh_block s"
      using log_slot_eq(1) [OF T] by (fastforce, metis list_update_id)
    then show ?thesis using st len out n True by (simp add: log_write_def slot Let_def)
  next
    case False
    then show ?thesis
      using st len out n log_slot_eq(2) [OF T False] by (simp add: log_write_def slot Let_def bpin_eq upd_buf_def)
  qed
qed

section \<open>Updating a block\<close>

text \<open>How the file system changes a block inside a transaction.\<close>

definition modify :: "u32 \<Rightarrow> u32 \<Rightarrow> (u8 list \<Rightarrow> u8 list) \<Rightarrow> 'z klog_scheme \<Rightarrow> (unit, 'z klog_scheme) kres" where
  "modify dev n f s = bindr (bread dev n s) (\<lambda>b s. bindr (log_write b (upd_data b f s)) (\<lambda>_ s. brelse b s))"

definition enlist :: "u32 \<Rightarrow> u32 list \<Rightarrow> u32 list" where
  "enlist n bs = (if n \<in> set bs then bs else bs @ [n])"

lemma txn_enlist:
  assumes T: "txn dev bs s" and n: "n \<notin> set bs" "length bs < lcap s" "n \<notin> log_area (lhead s) (lslot s) (lcap s)" "block_ok n"
  shows "txn dev (bs @ [n]) (s\<lparr>lh_block := (lh_block s)[length bs := n], lh_n := int (length bs) + 1\<rparr>)"
proof -
  have "length bs < LOGSIZE" using T n(2) by (auto simp: txn_def log_place_def lcap_def)
  moreover have "bs = take (length bs) (lh_block s)" "length (lh_block s) = LOGSIZE" using T by (simp_all add: txn_def)
  ultimately have "take (Suc (length bs)) ((lh_block s)[length bs := n]) = bs @ [n]"
    by (simp add: take_Suc_conv_app_nth take_update_cancel)
  then show ?thesis using T n by (auto simp: txn_def log_place_def lcap_def lhead_def lslot_def [abs_def])
qed

text \<open>The same transaction with the same bookkeeping.\<close>

definition same_log :: "'z klog_scheme \<Rightarrow> 'z klog_scheme \<Rightarrow> bool" where
  "same_log s t \<longleftrightarrow> log_start t = log_start s \<and> log_size t = log_size s \<and> log_dev t = log_dev s
     \<and> log_outstanding t = log_outstanding s \<and> log_committing t = log_committing s"

lemma same_log_frame: "io_frame s t \<Longrightarrow> same_log s t"
  by (simp add: same_log_def klog_frame)

lemma same_log_trans: "same_log s t \<Longrightarrow> same_log t u \<Longrightarrow> same_log s u"
  by (simp add: same_log_def)

lemma same_log_geometry: "same_log s t \<Longrightarrow> lhead t = lhead s" "same_log s t \<Longrightarrow> lslot t = lslot s" "same_log s t \<Longrightarrow> lcap t = lcap s"
  by (simp_all add: same_log_def lhead_def lslot_def [abs_def] lcap_def)

lemma log_write_law:
  assumes inv: "bcache_inv dev p s" and T: "txn dev bs s" and b: "bslot dev s n = Some b"
    and room: "length bs < lcap s" and out: "1 \<le> log_outstanding s" and n: "n \<notin> log_area (lhead s) (lslot s) (lcap s)"
    and few: "bs_pins (store dev s) n + 1 < 2 ^ 32"
  shows "\<exists>t. log_write b s = Ok () t \<and> bcache_inv dev p t \<and> bslot dev t = bslot dev s \<and> same_log s t \<and> txn dev (enlist n bs) t
    \<and> store dev t = (if n \<in> set bs then store dev s else pin n (store dev s))"
proof -
  note I = bcache_invD [OF inv] and B = slot_facts [OF inv b]
  note w = log_write_eq [OF I(1) T B(3) room out]
  show ?thesis
  proof (cases "n \<in> set bs")
    case True
    then show ?thesis using w inv T by (simp add: enlist_def same_log_def)
  next
    case False
    let ?u = "upd_buf b (\<lambda>c. c\<lparr>b_refcnt := b_refcnt c + 1\<rparr>) s"
    have "settled s" "unheld L_bcache s" using I(1) by (simp_all add: at_ease_def)
    then have u: "bcache_inv dev p ?u" "io_frame s ?u" "bslot dev ?u = bslot dev s" "store dev ?u = pin n (store dev s)"
      using bc.bpin_law [OF inv b few] by (simp_all add: bpin_eq)
    have "lh_block ?u = lh_block s" by (simp add: upd_buf_def)
    moreover have "txn dev (bs @ [n]) (?u\<lparr>lh_block := (lh_block ?u)[length bs := n], lh_n := int (length bs) + 1\<rparr>)"
      by (rule txn_enlist) (use txn_frame [OF u(2)] T room n False B(5) same_log_geometry [OF same_log_frame [OF u(2)]] in simp_all)
    moreover have "same_log s (?u\<lparr>lh_block := x, lh_n := m\<rparr>)" for x m using same_log_frame [OF u(2)] by (simp add: same_log_def)
    ultimately show ?thesis using w u False by (simp add: enlist_def)
  qed
qed

lemma modify_Ok:
  fixes s :: "'z klog_scheme"
  assumes inv: "bcache_inv dev p s" and T: "txn dev bs s" and S: "store dev s = reached [] bs S" and held: "bs_held S = (\<lambda>_. False)"
    and room: "length bs < lcap s" and out: "1 \<le> log_outstanding s" and n: "n \<notin> log_area (lhead s) (lslot s) (lcap s)" "block_ok n"
    and f: "\<And>d. length d = BSIZE \<Longrightarrow> length (f d) = BSIZE"
  shows "\<exists>t. modify dev n f s = Ok () t \<and> bcache_inv dev p t \<and> same_log s t \<and> txn dev (enlist n bs) t
    \<and> store dev t = reached [] (enlist n bs) (edit n (f (bs_view S n)) S)"
proof -
  have "readable NBUF n (store dev s)" unfolding S by (rule reached_readable1 [OF held n(2) txn_room [OF T]])
  then obtain b s1 where s1: "bread dev n s = Ok b s1" "bcache_inv dev p s1" "io_frame s s1" "bslot dev s1 n = Some b"
    "store dev s1 = hold n True (pin n (store dev s))" using bc.bread_law [OF inv] by blast
  have len: "length (bs_view (store dev s1) n) = BSIZE" using bc.slot_data [OF s1(2,4)] by auto
  define s2 where "s2 = upd_data b f s1"
  have s2: "bcache_inv dev p s2" "io_frame s1 s2" "bslot dev s2 n = Some b" "store dev s2 = edit n (f (bs_view S n)) (store dev s1)"
    using bc.upd_law [OF s1(2,4), of f] f [OF len] s1(4,5) by (simp_all add: s2_def S pin_def hold_def)
  have f2: "io_frame s s2" by (rule io_frame_trans [OF s1(3) s2(2)])
  note sl2 = same_log_frame [OF f2] and T2 = txn_keep(1) [OF f2 T]
  have pins2: "bs_pins (store dev s2) n = (if n \<in> set bs then 2 else 1)" by (simp add: s2(4) s1(5) S edit_def hold_def pin_def pins_of_def)
  have pre: "length bs < lcap s2" "1 \<le> log_outstanding s2" "n \<notin> log_area (lhead s2) (lslot s2) (lcap s2)" "bs_pins (store dev s2) n + 1 < 2 ^ 32"
    using room out n(1) same_log_geometry [OF sl2] sl2 pins2 by (auto simp: same_log_def)
  obtain s3 where s3: "log_write b s2 = Ok () s3" "bcache_inv dev p s3" "bslot dev s3 = bslot dev s2" "same_log s2 s3" "txn dev (enlist n bs) s3"
    "store dev s3 = (if n \<in> set bs then store dev s2 else pin n (store dev s2))"
    using log_write_law [OF s2(1) T2 s2(3) pre] by blast
  have "bslot dev s3 n = Some b" "spare n (store dev s3)" "bs_held (store dev s3) n"
    using s2(3) pins2 by (auto simp: s3(3,6) spare_def pin_def) (simp_all add: s2(4) s1(5) edit_def hold_def)
  then obtain t where t: "brelse b s3 = Ok () t" "bcache_inv dev p t" "io_frame s3 t" "store dev t = hold n False (unpin n (store dev s3))"
    using bc.brelse_law [OF s3(2)] by blast
  have "store dev t = reached [] (enlist n bs) (edit n (f (bs_view S n)) S)"
    using held by (auto simp: t(4) s3(6) s2(4) s1(5) S store_ops enlist_def reached_def put_all_def pins_of_def fun_eq_iff)
  moreover have "same_log s t" using sl2 s3(4) same_log_frame [OF t(3)] same_log_trans by blast
  moreover have "modify dev n f s = Ok () t" using s1(1) s3(1) t(1) by (simp add: modify_def s2_def)
  ultimately show ?thesis using t(2) txn_keep(1) [OF t(3) s3(5)] by blast
qed

section \<open>The end of the last operation\<close>

lemma end_op_last:
  fixes s :: "'z klog_scheme"
  assumes "at_ease p s" "log_outstanding s = 1" "\<not> log_committing s"
    and c: "commit (s\<lparr>log_outstanding := 0, log_committing := True\<rparr>) = Ok () t" "at_ease p t"
  shows "end_op s = Ok () (woken Ch_log (t\<lparr>log_committing := False\<rparr>))"
proof -
  have st: "settled s" "\<And>l. unheld l s" "settled t" "\<And>l. unheld l t" using assms(1,5) by (simp_all add: at_ease_def)
  let ?u = "t\<lparr>log_committing := False\<rparr>"
  have "settled ?u" "proc_locks_free ?u" "unheld L_log ?u" using st by (simp_all add: proc_locks_free_def)
  moreover have "(take_lock L_log t)\<lparr>log_committing := False\<rparr> = take_lock L_log ?u" by simp
  ultimately have "bindr (wakeup (Some Ch_log) ((take_lock L_log t)\<lparr>log_committing := False\<rparr>)) (\<lambda>_ s. release L_log s)
      = Ok () (woken Ch_log ?u)"
    using wakeup_locked [of ?u L_log Ch_log] by (simp del: log_committing_lock)
  then show ?thesis using assms(2,3) st c(1) by (simp add: end_op_def Let_def)
qed

end
