(* ===== verification/Log_Crash.thy ===== *)
theory Log_Crash
  imports Log_Ops
begin

text \<open>
  Crash safety of the log.  A transaction is \<open>begin_op\<close>, a number of block updates, \<open>end_op\<close>.  The disk completes block writes
  one after the other, so a crash leaves it with a prefix of the writes of the transaction; \<open>recover_from_log\<close> then runs
  on a freshly booted kernel.
\<close>

section \<open>Transactions\<close>

definition transaction :: "u32 \<Rightarrow> (u32 \<times> (u8 list \<Rightarrow> u8 list)) list \<Rightarrow> 'z klog_scheme \<Rightarrow> (unit, 'z klog_scheme) kres" where
  "transaction dev us s =
     bindr (begin_op s) (\<lambda>_ s. bindr (each_res (\<lambda>(n, f) s. modify dev n f s) us s) (\<lambda>_ s. end_op s))"

text \<open>What the updates do to the blocks, and the blocks they touch in the order of the log.\<close>

definition updated :: "(u32 \<times> (u8 list \<Rightarrow> u8 list)) list \<Rightarrow> (u32 \<Rightarrow> u8 list) \<Rightarrow> u32 \<Rightarrow> u8 list" where
  "updated us V = fold (\<lambda>(n, f) V. V(n := f (V n))) us V"

definition touched :: "(u32 \<times> (u8 list \<Rightarrow> u8 list)) list \<Rightarrow> u32 list" where
  "touched us = fold enlist (map fst us) []"

lemma updated_snoc: "updated (us @ [(n, f)]) V = (updated us V)(n := f (updated us V n))"
  by (simp add: updated_def)

lemma touched_snoc: "touched (us @ [(n, f)]) = enlist n (touched us)"
  by (simp add: touched_def)

lemma touched_simps: "set (touched us) = fst ` set us \<and> distinct (touched us)"
proof (induction us rule: rev_induct)
  case (snoc u us)
  then show ?case by (cases u) (auto simp: touched_snoc enlist_def)
qed (simp add: touched_def)

lemma length_touched: "length (touched us) = card (fst ` set us)"
  using touched_simps [of us] distinct_card by metis

lemma updated_other: "n \<notin> fst ` set us \<Longrightarrow> updated us V n = V n"
proof (induction us rule: rev_induct)
  case (snoc u us)
  then show ?case by (cases u) (auto simp: updated_snoc)
qed (simp add: updated_def)

text \<open>No operation is under way and the log is empty, in memory and on disk.\<close>

definition log_idle :: "u32 \<Rightarrow> nat \<Rightarrow> 'z klog_scheme \<Rightarrow> bool" where
  "log_idle dev p s \<longleftrightarrow> booted dev p s \<and> lh_n s = 0 \<and> log_outstanding s = 0 \<and> \<not> log_committing s \<and> get_u32 0 (blocks (disk s) (lhead s)) = 0"

definition update_ok :: "'z klog_scheme \<Rightarrow> u32 \<times> (u8 list \<Rightarrow> u8 list) \<Rightarrow> bool" where
  "update_ok s u \<longleftrightarrow> fst u \<notin> log_area (lhead s) (lslot s) (lcap s) \<and> block_ok (fst u) \<and> (\<forall>d. length d = BSIZE \<longrightarrow> length (snd u d) = BSIZE)"

lemma run_updates:
  fixes s :: "'z klog_scheme"
  assumes inv: "bcache_inv dev p s" and T: "txn dev [] s" and S: "store dev s = reached [] [] S" and held: "bs_held S = (\<lambda>_. False)"
    and out: "1 \<le> log_outstanding s" and us: "\<forall>u \<in> set us. update_ok s u"
    and room: "\<And>vs u ws. us = vs @ u # ws \<Longrightarrow> card (fst ` set vs) < lcap s"
  shows "\<exists>t. each_res (\<lambda>(n, f) s. modify dev n f s) us s = Ok () t \<and> bcache_inv dev p t \<and> same_log s t \<and> txn dev (touched us) t
    \<and> store dev t = reached [] (touched us) (S\<lparr>bs_view := updated us (bs_view S)\<rparr>)"
proof -
  let ?I = "\<lambda>vs t. bcache_inv dev p t \<and> same_log s t \<and> txn dev (touched vs) t
    \<and> store dev t = reached [] (touched vs) (S\<lparr>bs_view := updated vs (bs_view S)\<rparr>)"
  show ?thesis
  proof (rule each_res_inv [where I = ?I])
    show "?I [] s" using inv T S by (simp add: same_log_def touched_def updated_def)
    fix vs u ws t assume e: "us = vs @ u # ws" and I: "?I vs t"
    obtain n f where u: "u = (n, f)" by (cases u)
    have sl: "same_log s t" using I by blast
    have g: "lhead t = lhead s" "lslot t = lslot s" "lcap t = lcap s" "1 \<le> log_outstanding t"
      using same_log_geometry [OF sl] sl out by (simp_all add: same_log_def)
    have "update_ok s (n, f)" using us by (auto simp: e u)
    then have n: "n \<notin> log_area (lhead t) (lslot t) (lcap t)" "block_ok n" "\<And>d. length d = BSIZE \<Longrightarrow> length (f d) = BSIZE"
      by (auto simp: update_ok_def g)
    have l: "length (touched vs) < lcap t" using room [OF e] by (simp add: length_touched g)
    have h: "bs_held (S\<lparr>bs_view := updated vs (bs_view S)\<rparr>) = (\<lambda>_. False)" using held by simp
    have J: "bcache_inv dev p t" "txn dev (touched vs) t" "store dev t = reached [] (touched vs) (S\<lparr>bs_view := updated vs (bs_view S)\<rparr>)"
      using I by blast+
    obtain t' where "modify dev n f t = Ok () t'" "bcache_inv dev p t'" "same_log t t'" "txn dev (enlist n (touched vs)) t'"
      "store dev t' = reached [] (enlist n (touched vs)) (edit n (f (bs_view (S\<lparr>bs_view := updated vs (bs_view S)\<rparr>) n)) (S\<lparr>bs_view := updated vs (bs_view S)\<rparr>))"
      using modify_Ok [where f = f, OF J h l g(4) n(1,2)] n(3) by blast
    then show "\<exists>t'. (case u of (n, f) \<Rightarrow> modify dev n f) t = Ok () t' \<and> ?I (vs @ [u]) t'"
      using same_log_trans [OF sl] by (auto simp: u touched_snoc updated_snoc edit_def)
  qed
qed

lemma io_frame_committing:
  fixes s :: "'z klog_scheme"
  assumes "io_frame s t"
  shows "io_frame (s\<lparr>log_committing := c\<rparr>) (t\<lparr>log_committing := c\<rparr>)"
  using assms by (cases s; cases t; simp add: io_frame_def)

lemma woken_store: "store dev (woken ch s) = store dev s" "bcache_inv dev p s \<Longrightarrow> bcache_inv dev p (woken ch s)"
  by (simp_all add: store_def bslot_def bcache_inv_def buf_ok_def woken_ease cong: option.case_cong)

lemma log_idle_txn: "log_idle dev p s \<Longrightarrow> txn dev [] s"
  by (simp add: log_idle_def booted_def txn_def)

lemma idleI:
  assumes "bcache_inv dev p t" "store dev t = reached ws [] S" "bs_held S = (\<lambda>_. False)" "log_place t" "length (lh_block t) = LOGSIZE"
    "log_dev t = dev" "lh_n t = 0" "log_outstanding t = 0" "\<not> log_committing t" "get_u32 0 (apply_writes ws (bs_media S) (lhead t)) = 0"
  shows "log_idle dev p t"
proof -
  have "blocks (disk t) = bs_media (store dev t)" by (simp add: store_def)
  then show ?thesis using assms by (simp add: log_idle_def booted_def pins_of_def [abs_def])
qed

definition txn_writes :: "(u32 \<times> (u8 list \<Rightarrow> u8 list)) list \<Rightarrow> 'z klog_scheme \<Rightarrow> (u32 \<times> u8 list) list" where
  "txn_writes us s = (if us = [] then []
     else commit_writes enc_head (lhead s) (lslot s) (updated us (blocks (disk s))) (touched us) (blocks (disk s) (lhead s)))"

lemma commit_any:
  fixes s :: "'z klog_scheme"
  assumes T: "txn dev bs s" and held: "bs_held S = (\<lambda>_. False)" and inv: "bcache_inv dev p s" and S: "store dev s = reached [] bs S"
  shows "\<exists>t. commit s = Ok () t \<and> bcache_inv dev p t \<and> io_frame (s\<lparr>lh_n := 0\<rparr>) t
    \<and> store dev t = reached (if bs = [] then [] else commit_writes enc_head (lhead s) (lslot s) (bs_view S) bs (bs_view S (lhead s))) [] S"
proof (cases "bs = []")
  case True
  then have "lh_n s = 0" using T by (simp add: txn_def)
  moreover from this have e: "s\<lparr>lh_n := 0\<rparr> = s" by simp
  have "io_frame (s\<lparr>lh_n := 0\<rparr>) s" by (subst e) simp
  ultimately show ?thesis using True inv S by (simp add: commit_def)
next
  case False
  then show ?thesis using commit_Ok [OF T False held txn_room [OF T] inv S] by simp
qed

lemma touched_empty: "touched us = [] \<longleftrightarrow> us = []"
  using touched_simps [of us] by auto

lemma enc_head_count: "length d = BSIZE \<Longrightarrow> length bs \<le> LOGSIZE \<Longrightarrow> get_u32 0 (enc_head bs d) = of_nat (length bs)"
  by (simp add: enc_head_def get_u32_put_array BSIZE_def LOGSIZE_def MAXOPBLOCKS_def)

text \<open>After the whole sequence of writes the head is empty again.\<close>

lemma commit_writes_head: "apply_writes (commit_writes enc head lb V bs h) m head = enc [] (enc bs h)"
  by (simp add: commit_writes_def)

lemma card_prefix: "card (f ` set us) < (n :: nat) \<Longrightarrow> us = vs @ u # ws \<Longrightarrow> card (f ` set vs) < n"
  using card_mono [of "f ` set us" "f ` set vs"] by fastforce

lemma txn_start:
  fixes s :: "'z klog_scheme"
  assumes idle: "log_idle dev p s" and us: "\<forall>u \<in> set us. update_ok s u" and room: "card (fst ` set us) < lcap s"
  shows "\<exists>t. bindr (begin_op s) (\<lambda>_ s. each_res (\<lambda>(n, f) s. modify dev n f s) us s) = Ok () t \<and> bcache_inv dev p t
    \<and> log_start t = log_start s \<and> log_size t = log_size s \<and> log_outstanding t = 1 \<and> \<not> log_committing t \<and> txn dev (touched us) t
    \<and> store dev t = reached [] (touched us) ((store dev s)\<lparr>bs_view := updated us (blocks (disk s))\<rparr>)"
proof -
  have B: "booted dev p s" and lh: "lh_n s = 0" "log_outstanding s = 0" "\<not> log_committing s"
    using idle by (simp_all add: log_idle_def)
  note st = booted_store [OF B]
  have held: "bs_held (store dev s) = (\<lambda>_. False)" and inv: "bcache_inv dev p s" using B by (simp_all add: booted_def)
  define s1 where "s1 = s\<lparr>log_outstanding := 1\<rparr>"
  have beg: "begin_op s = Ok () s1"
    using begin_op_Ok [OF bcache_invD(1) [OF inv]] lh by (simp add: s1_def LOGSIZE_def MAXOPBLOCKS_def)
  have s1: "bcache_inv dev p s1" "txn dev [] s1" "store dev s1 = reached [] [] (store dev s)" "1 \<le> log_outstanding s1"
    and g: "lhead s1 = lhead s" "lslot s1 = lslot s" "lcap s1 = lcap s"
    using inv log_idle_txn [OF idle] st(1) by (auto simp: s1_def txn_def log_place_def lhead_def lslot_def [abs_def] lcap_def)
  have us1: "\<forall>u \<in> set us. update_ok s1 u" using us by (simp add: update_ok_def g)
  obtain t where t: "each_res (\<lambda>(n, f) s. modify dev n f s) us s1 = Ok () t" "bcache_inv dev p t" "same_log s1 t" "txn dev (touched us) t"
    "store dev t = reached [] (touched us) ((store dev s)\<lparr>bs_view := updated us (bs_view (store dev s))\<rparr>)"
    using run_updates [OF s1(1-3) held s1(4) us1] card_prefix [OF room] unfolding g by blast
  then show ?thesis using beg lh st(2,3) by (intro exI [of _ t]) (simp add: same_log_def s1_def)
qed

lemma txn_finish:
  fixes s t :: "'z klog_scheme"
  assumes inv: "bcache_inv dev p s" and T: "txn dev bs s" and S: "store dev s = reached [] bs S" and held: "bs_held S = (\<lambda>_. False)"
    and l: "log_outstanding s = 1" "\<not> log_committing s" and h: "length (bs_view S (lhead s)) = BSIZE" and old: "get_u32 0 (bs_media S (lhead s)) = 0"
  shows "\<exists>t. end_op s = Ok () t \<and> log_idle dev p t \<and> log_start t = log_start s \<and> log_size t = log_size s
    \<and> store dev t = reached (if bs = [] then [] else commit_writes enc_head (lhead s) (lslot s) (bs_view S) bs (bs_view S (lhead s))) [] S"
proof -
  let ?W = "if bs = [] then [] else commit_writes enc_head (lhead s) (lslot s) (bs_view S) bs (bs_view S (lhead s))"
  define s1 where "s1 = s\<lparr>log_outstanding := 0, log_committing := True\<rparr>"
  have s1: "bcache_inv dev p s1" "txn dev bs s1" "store dev s1 = reached [] bs S" "lhead s1 = lhead s" "lslot s1 = lslot s"
    using inv T S by (auto simp: s1_def txn_def log_place_def lhead_def lslot_def [abs_def] lcap_def)
  obtain u where u: "commit s1 = Ok () u" "bcache_inv dev p u" "io_frame (s1\<lparr>lh_n := 0\<rparr>) u" "store dev u = reached ?W [] S"
    using commit_any [OF s1(2) held s1(1,3)] unfolding s1(4,5) by blast
  define t where "t = woken Ch_log (u\<lparr>log_committing := False\<rparr>)"
  have e: "end_op s = Ok () t"
    using end_op_last [OF bcache_invD(1) [OF inv] l] u(1) bcache_invD(1) [OF u(2)] by (simp add: s1_def t_def)
  have t: "bcache_inv dev p t" "store dev t = reached ?W [] S" using u(2,4) by (simp_all add: t_def woken_store)
  have "io_frame (s1\<lparr>lh_n := 0, log_committing := False\<rparr>) t"
    unfolding t_def by (rule io_frame_trans [OF io_frame_committing [OF u(3)] woken_io(6)])
  note k = klog_frame [OF this]
  have "log_idle dev p t"
  proof (rule idleI [OF t held])
    show "lh_n t = 0" "log_outstanding t = 0" "\<not> log_committing t" "log_dev t = dev" "log_place t" "length (lh_block t) = LOGSIZE"
      using k T by (simp_all add: s1_def log_place_def txn_def)
    have "lhead t = lhead s" using k by (simp add: lhead_def s1_def)
    then show "get_u32 0 (apply_writes ?W (bs_media S) (lhead t)) = 0"
      using old lhead_facts(4) [OF T] h by (simp add: commit_writes_head enc_head_count length_enc_head)
  qed
  then show ?thesis using e t(2) k by (simp add: s1_def)
qed

lemma transaction_Ok:
  fixes s :: "'z klog_scheme"
  assumes idle: "log_idle dev p s" and us: "\<forall>u \<in> set us. update_ok s u" and room: "card (fst ` set us) < lcap s"
  shows "\<exists>t. transaction dev us s = Ok () t \<and> log_idle dev p t \<and> log_start t = log_start s \<and> log_size t = log_size s
    \<and> store dev t = reached (txn_writes us s) [] ((store dev s)\<lparr>bs_view := updated us (blocks (disk s))\<rparr>)"
proof -
  let ?S = "(store dev s)\<lparr>bs_view := updated us (blocks (disk s))\<rparr>"
  obtain u where u: "bindr (begin_op s) (\<lambda>_ s. each_res (\<lambda>(n, f) s. modify dev n f s) us s) = Ok () u" "bcache_inv dev p u"
    "log_start u = log_start s" "log_size u = log_size s" "log_outstanding u = 1" "\<not> log_committing u" "txn dev (touched us) u"
    "store dev u = reached [] (touched us) ?S" using txn_start [OF assms] by blast
  have g: "lhead u = lhead s" "lslot u = lslot s" using u(3) by (simp_all add: lhead_def lslot_def [abs_def])
  have "lhead s \<notin> fst ` set us" using us by (auto simp: update_ok_def log_area_def)
  then have V: "bs_view ?S (lhead u) = blocks (disk s) (lhead s)" by (simp add: updated_other g)
  have B: "booted dev p s" "get_u32 0 (blocks (disk s) (lhead s)) = 0" using idle by (simp_all add: log_idle_def)
  then have held: "bs_held ?S = (\<lambda>_. False)" by (simp add: booted_def)
  obtain t where t: "end_op u = Ok () t" "log_idle dev p t" "log_start t = log_start u" "log_size t = log_size u"
      "store dev t = reached (txn_writes us s) [] ?S"
    using txn_finish [OF u(2,7,8) held u(5,6)] V B(2) booted_store(3) [OF B(1)] by (auto simp: g txn_writes_def touched_empty)
  moreover have "transaction dev us s = bindr (bindr (begin_op s) (\<lambda>_ s. each_res (\<lambda>(n, f) s. modify dev n f s) us s)) (\<lambda>_ s. end_op s)"
    by (cases "begin_op s") (simp_all add: transaction_def)
  ultimately show ?thesis using u(1,3,4) by (intro exI [of _ t]) simp
qed

section \<open>Crashes\<close>

text \<open>A kernel booted after a crash that let the first \<open>k\<close> of the writes \<open>W\<close> reach the disk of \<open>s\<close>.\<close>

definition crashed :: "u32 \<Rightarrow> nat \<Rightarrow> 'z klog_scheme \<Rightarrow> (u32 \<times> u8 list) list \<Rightarrow> nat \<Rightarrow> 'y klog_scheme \<Rightarrow> bool" where
  "crashed dev p s W k r \<longleftrightarrow> booted dev p r \<and> log_start r = log_start s \<and> log_size r = log_size s
     \<and> blocks (disk r) = apply_writes (take k W) (blocks (disk s))"

abbreviation data_block :: "'z klog_scheme \<Rightarrow> u32 \<Rightarrow> bool" where
  "data_block s x \<equiv> x \<notin> log_area (lhead s) (lslot s) (lcap s)"

lemma crashed_geometry:
  assumes "crashed dev p s W k r"
  shows "booted dev p r" "lhead r = lhead s" "lslot r = lslot s" "lcap r = lcap s" "blocks (disk r) = apply_writes (take k W) (blocks (disk s))"
  using assms by (simp_all add: crashed_def lhead_def lslot_def [abs_def] lcap_def)

text \<open>The head of the log is only ever written as a whole.\<close>

lemma head_after:
  assumes "head \<notin> lb ` {..<length bs}" "head \<notin> set bs"
  shows "apply_writes (take k (commit_writes enc head lb V bs h)) m head \<in> {m head, enc bs h, enc [] (enc bs h)}"
proof -
  let ?L = "log_writes lb V bs" and ?H = "home_writes (\<lambda>i. V (bs ! i)) bs"
  have L: "apply_writes (take j ?L) m' head = m' head" for j m'
    by (rule apply_writes_other) (use assms(1) in \<open>auto simp: log_writes_def dest!: in_set_takeD\<close>)
  have H: "apply_writes (take j ?H) m' head = m' head" for j m'
    by (rule apply_writes_other) (use assms(2) home_writes_addr [of "\<lambda>i. V (bs ! i)" bs] in \<open>auto dest!: in_set_takeD\<close>)
  have len: "length ?L = length bs" "length ?H = length bs" by (simp_all add: log_writes_def home_writes_def)
  consider "k \<le> length bs" | j where "k = length bs + Suc j" "j \<le> length bs" | "2 * length bs + 1 < k"
    by (metis add_Suc_right less_iff_Suc_add linorder_not_less mult_2 add_le_cancel_left Suc_eq_plus1 not_less_eq_eq add.assoc)
  then show ?thesis
    by cases (simp_all add: commit_writes_def len L H)
qed

lemma head_ok_empty: "get_u32 0 d = 0 \<Longrightarrow> head_ok s d"
  by (simp add: head_ok_def dec_head_def get_array_def)

lemma head_ok_enc:
  assumes "length d = BSIZE" "length bs \<le> lcap s" "lcap s \<le> LOGSIZE" "distinct bs"
    "set bs \<inter> log_area (lhead s) (lslot s) (lcap s) = {}" "\<forall>b \<in> set bs. block_ok b"
  shows "head_ok s (enc_head bs d)"
proof -
  have "length bs < 2 ^ 31" using assms(2,3) by (simp add: LOGSIZE_def MAXOPBLOCKS_def)
  then show ?thesis using assms rl.dec_enc [OF assms(1), of bs] by (simp add: head_ok_def enc_head_count sint_small)
qed

lemma store_disk: "bs_media (store dev s) = blocks (disk s)" "bs_trace (store dev s) = block_trace (disk_trace s)"
  by (simp_all add: store_def)

lemma reached_disk:
  assumes "store dev t = reached W ps S"
  shows "blocks (disk t) = apply_writes W (bs_media S)" "block_trace (disk_trace t) = bs_trace S @ W"
  by (simp_all add: assms flip: store_disk [of dev])

lemma recover_media:
  assumes "booted dev p r" "head_ok r (blocks (disk r) (lhead r))"
  shows "\<exists>t. recover_from_log r = Ok () t \<and> bcache_inv dev p t \<and> lh_n t = 0 \<and>
    blocks (disk t) = recovered enc_head dec_head (lhead r) (lslot r) (blocks (disk r))
    \<and> block_trace (disk_trace t) = block_trace (disk_trace r) @ recover_writes enc_head dec_head (lhead r) (lslot r) (blocks (disk r))"
proof -
  obtain t where t: "recover_from_log r = Ok () t" "bcache_inv dev p t" "lh_n t = 0"
    "store dev t = reached (recover_writes enc_head dec_head (lhead r) (lslot r) (blocks (disk r))) [] (store dev r)"
    using recover_Ok [OF assms] by blast
  then show ?thesis using reached_disk [OF t(4)] by (simp add: recovered_def store_disk)
qed

end
