(* ===== verification/Log_Properties.thy ===== *)
theory Log_Properties
  imports Bio_Properties Log_Crash
begin

text \<open>
  The properties of \<^verbatim>\<open>kernel/log.c\<close>.
\<close>

section \<open>The log of the examples\<close>

definition demo_log :: ksys where
  "demo_log = demo_boot (\<lambda>_. 0)"

text \<open>A disk whose log holds one committed block, number 50, that has not been installed.\<close>

definition demo_committed :: ksys where
  "demo_committed = demo_boot (\<lambda>a. if a = 2048 then 1 else if a = 2052 then 50 else if 3072 \<le> a \<and> a < 4096 then 7 else 0)"

lemma demo_booted: "booted 1 0 (demo_boot D)"
  using demo_boot_inv(1-3) demo_boot_fields by (simp add: booted_def log_place_def LOGSIZE_def MAXOPBLOCKS_def)

lemma demo_log_idle: "log_idle 1 0 demo_log"
proof -
  have "rd (\<lambda>_. 0) a n = replicate n 0" for a n by (simp add: rd_def map_replicate_const)
  then have "get_u32 0 (blocks (\<lambda>_. 0) n) = 0" for n
    by (simp add: get_u32_def get_bytes_def blocks_def BSIZE_def numeral_eq_Suc)
  then show ?thesis using demo_booted demo_boot_fields by (simp add: log_idle_def demo_log_def)
qed

lemma demo_lcap: "lcap (demo_boot D) = 29"
  by (simp add: lcap_def demo_boot_fields)

lemma demo_area:
  assumes "32 \<le> unat n"
  shows "n \<notin> log_area (lhead (demo_boot D)) (lslot (demo_boot D)) (lcap (demo_boot D))"
proof -
  have "unat (of_int (3 + int i) :: u32) = 3 + i" if "i < 29" for i using that by (subst unat_of_int32) auto
  then have "n \<noteq> of_int (3 + int i)" if "i < 29" for i using assms that by fastforce
  moreover have "n \<noteq> 2" using assms by auto
  ultimately show ?thesis by (auto simp: log_area_def lhead_def lslot_def lcap_def demo_boot_fields)
qed

lemma demo_update: "32 \<le> unat n \<Longrightarrow> block_ok n \<Longrightarrow> update_ok (demo_boot D) (n, \<lambda>_. replicate BSIZE c)"
  using demo_area by (simp add: update_ok_def)

lemma get_u32_blocks:
  assumes "off + 4 \<le> BSIZE"
  shows "get_u32 off (blocks D n) = from_le (rd D (baddr n + of_nat off) 4)"
proof -
  have "get_bytes off 4 (blocks D n) = rd D (baddr n + of_nat off) 4"
    by (rule nth_equalityI) (use assms in \<open>simp_all add: get_bytes_def blocks_def rd_def add.assoc\<close>)
  then show ?thesis by (simp add: get_u32_def)
qed

lemma demo_committed_head:
  "head_ok demo_committed (blocks (disk demo_committed) (lhead demo_committed))"
proof -
  let ?d = "blocks (disk demo_committed) (lhead demo_committed)"
  have e: "lhead demo_committed = 2" by (simp add: demo_committed_def lhead_def demo_boot_fields)
  have "rd (disk demo_committed) 2048 4 = [1, 0, 0, 0]" "rd (disk demo_committed) 2052 4 = [50, 0, 0, 0]"
    by (simp_all add: demo_committed_def demo_boot_fields rd_def upt_rec)
  then have u: "get_u32 0 ?d = 1" "get_u32 4 ?d = 50"
    by (simp_all add: get_u32_blocks e baddr_def BSIZE_def)
  then have "dec_head ?d = [50]" by (simp add: dec_head_def get_array_def)
  moreover have "50 \<notin> log_area (lhead demo_committed) (lslot demo_committed) (lcap demo_committed)"
    by (simp add: demo_committed_def demo_area)
  ultimately show ?thesis using u by (simp add: head_ok_def block_ok_def demo_committed_def demo_lcap)
qed

section \<open>Crashes in a transaction\<close>

lemma txn_touched:
  assumes "log_idle dev p s" "\<forall>u \<in> set us. update_ok s u" "card (fst ` set us) < lcap s"
  shows "area_ok (lhead s) (lslot s) (lcap s)" "length (touched us) \<le> lcap s" "lcap s \<le> LOGSIZE"
    "set (touched us) \<inter> log_area (lhead s) (lslot s) (lcap s) = {}" "\<forall>b \<in> set (touched us). block_ok b"
  using assms log_area_ok [of s] touched_simps [of us] length_touched [of us]
  by (auto simp: log_idle_def booted_def log_place_def lcap_def update_ok_def)

lemma txn_writes_home:
  assumes "log_idle dev p s" "\<forall>u \<in> set us. update_ok s u" "card (fst ` set us) < lcap s" "data_block s x"
  shows "apply_writes (txn_writes us s) (blocks (disk s)) x = updated us (blocks (disk s)) x"
proof -
  note T = txn_touched [OF assms(1-3)]
  have "x \<noteq> lhead s" "x \<notin> lslot s ` {..<length (touched us)}" using assms(4) T(2) by (auto simp: log_area_def)
  then show ?thesis using updated_other [of x us] touched_simps [of us]
    by (auto simp: txn_writes_def commit_writes_def home_writes_new log_writes_other)
qed

lemma txn_crash:
  fixes s :: "'z klog_scheme" and r :: "'y klog_scheme"
  assumes idle: "log_idle dev p s" and us: "\<forall>u \<in> set us. update_ok s u" "card (fst ` set us) < lcap s"
  shows "\<forall>k (r :: 'y klog_scheme). crashed dev p s (txn_writes us s) k r \<longrightarrow>
    (\<exists>r'. recover_from_log r = Ok () r' \<and> (\<forall>x. data_block s x \<longrightarrow>
      blocks (disk r') x = (if k \<le> card (fst ` set us) then blocks (disk s) x else updated us (blocks (disk s)) x)))"
proof (intro allI impI)
  fix k and r :: "'y klog_scheme" assume c: "crashed dev p s (txn_writes us s) k r"
  note g = crashed_geometry [OF c] and T = txn_touched [OF idle us]
  let ?m = "blocks (disk s)" and ?h = "lhead s"
  have old: "get_u32 0 (?m ?h) = 0" using idle by (simp add: log_idle_def)
  have hd: "?h \<notin> lslot s ` {..<length (touched us)}" "?h \<notin> set (touched us)"
    using T(1,2,4) by (auto simp: area_ok_def log_area_def)
  have mem: "us = [] \<or> blocks (disk r) ?h \<in> {?m ?h, enc_head (touched us) (?m ?h), enc_head [] (enc_head (touched us) (?m ?h))}"
    using head_after [OF hd, of k enc_head "updated us ?m" "?m ?h" ?m] by (simp add: g(5) txn_writes_def)
  have enc: "head_ok s (enc_head (touched us) (?m ?h))" using head_ok_enc [OF _ T(2,3) _ T(4,5)] touched_simps [of us] by simp
  have "get_u32 0 (enc_head [] (enc_head (touched us) (?m ?h))) = 0" using T(2,3) by (simp add: enc_head_count length_enc_head)
  then have "head_ok s (blocks (disk r) ?h)" using mem enc old head_ok_empty by (auto simp: g(5) txn_writes_def)
  then have "head_ok r (blocks (disk r) ?h)" by (simp add: head_ok_def g)
  then obtain r' where r': "recover_from_log r = Ok () r'" "blocks (disk r') = recovered enc_head dec_head ?h (lslot s) (blocks (disk r))"
    using recover_media [OF g(1)] unfolding g by blast
  have "blocks (disk r') x = (if k \<le> card (fst ` set us) then ?m x else updated us ?m x)" if "data_block s x" for x
  proof (cases "us = []")
    case True
    then show ?thesis using rl.recovered_empty [of ?m ?h x] old that
      by (simp add: r'(2) g(5) txn_writes_def updated_def dec_head_def get_array_def log_area_def)
  next
    case False
    have e: "dec_head (?m ?h) = []" using old by (simp add: dec_head_def get_array_def)
    have "length (?m ?h) = BSIZE" by simp
    note at = rl.commit_atomic [where m = ?m and V = "updated us ?m" and k = k, OF T(1-4) e this that]
    show ?thesis using False at updated_other [of x us ?m] touched_simps [of us]
      by (auto simp: r'(2) g(5) txn_writes_def length_touched)
  qed
  then show "\<exists>r'. recover_from_log r = Ok () r' \<and> (\<forall>x. data_block s x \<longrightarrow>
      blocks (disk r') x = (if k \<le> card (fst ` set us) then ?m x else updated us ?m x))" using r'(1) by blast
qed

lemma recover_head:
  assumes ok: "head_ok s (m (lhead s))" and len: "length (m (lhead s)) = BSIZE"
  shows "head_ok s (apply_writes (take k (recover_writes enc_head dec_head (lhead s) (lslot s) m)) m (lhead s))"
proof -
  let ?H = "home_writes (\<lambda>i. m (lslot s i)) (dec_head (m (lhead s)))"
  have "lhead s \<notin> set (dec_head (m (lhead s)))" using ok by (auto simp: head_ok_def log_area_def)
  then have H: "apply_writes (take k ?H) m (lhead s) = m (lhead s)"
    by (intro apply_writes_other) (use home_writes_addr [of "\<lambda>i. m (lslot s i)" "dec_head (m (lhead s))"] in \<open>auto dest!: in_set_takeD\<close>)
  have "get_u32 0 (enc_head [] (m (lhead s))) = 0" using len by (simp add: enc_head_count)
  then show ?thesis using ok H head_ok_empty by (cases "k \<le> length ?H") (simp_all add: recover_writes_def)
qed

text \<open>An update when the log is full.\<close>

lemma modify_panics:
  fixes s :: "'z klog_scheme"
  assumes inv: "bcache_inv dev p s" and T: "txn dev bs s" and S: "store dev s = reached [] bs S" and held: "bs_held S = (\<lambda>_. False)"
    and n: "block_ok n" and full: "log_size s - 1 \<le> lh_n s"
  shows "modify dev n f s = Panic ''too big a transaction''"
proof -
  have "Block_Layer.readable NBUF n (store dev s)" unfolding S by (rule reached_readable1 [OF held n txn_room [OF T]])
  then obtain b s1 where s1: "bread dev n s = Ok b s1" "bcache_inv dev p s1" "io_frame s s1" using bc.bread_law [OF inv] by blast
  have "at_ease p (upd_data b f s1)" using bcache_invD(1) [OF s1(2)] by (simp add: upd_data_def)
  moreover have "log_size (upd_data b f s1) - 1 \<le> lh_n (upd_data b f s1)" using full klog_frame [OF s1(3)] by (simp add: upd_data_def upd_buf_def)
  ultimately show ?thesis using s1(1) by (simp add: modify_def log_write_panics)
qed

section \<open>Properties\<close>

text \<open>C1: A transaction is atomic and durable.  Started on an idle log, with updates of fewer blocks than the log has slots, all of
  them outside the log, \<open>begin_op\<close>, the updates and \<open>end_op\<close> return with every update on the disk and the log idle
  again.  If the machine crashes after any number \<open>k\<close> of the block writes that the disk completes meanwhile,
  \<open>recover_from_log\<close> on the kernel booted then leaves either all data blocks as they were before the transaction or
  all of them updated, and the latter as soon as the header of the log has been written.\<close>

theorem transaction_crash_safe:
  fixes s :: "'z klog_scheme"
  assumes "log_idle dev p s" "\<forall>u \<in> set us. update_ok s u" "card (fst ` set us) < lcap s"
  shows "\<exists>t W. transaction dev us s = Ok () t \<and> log_idle dev p t \<and> block_trace (disk_trace t) = block_trace (disk_trace s) @ W
    \<and> (\<forall>x. data_block s x \<longrightarrow> blocks (disk t) x = updated us (blocks (disk s)) x)
    \<and> (\<forall>k (r :: 'y klog_scheme). crashed dev p s W k r \<longrightarrow>
         (\<exists>r'. recover_from_log r = Ok () r' \<and> (\<forall>x. data_block s x \<longrightarrow>
            blocks (disk r') x = (if k \<le> card (fst ` set us) then blocks (disk s) x else updated us (blocks (disk s)) x))))"
proof -
  obtain t where t: "transaction dev us s = Ok () t" "log_idle dev p t"
    "store dev t = reached (txn_writes us s) [] ((store dev s)\<lparr>bs_view := updated us (blocks (disk s))\<rparr>)"
    using transaction_Ok [OF assms] by blast
  have "blocks (disk t) x = updated us (blocks (disk s)) x" if "data_block s x" for x
    using txn_writes_home [OF assms that] by (simp add: reached_disk [OF t(3)] store_disk)
  moreover have "block_trace (disk_trace t) = block_trace (disk_trace s) @ txn_writes us s"
    by (simp add: reached_disk [OF t(3)] store_disk)
  ultimately show ?thesis using t(1,2) txn_crash [OF assms] by blast
qed

text \<open>A transaction that fills blocks 50 and 60, on a kernel fresh from \<open>binit\<close>.\<close>

theorem transaction_crash_safe_witness:
  "\<exists>t W. transaction 1 [(50, \<lambda>_. replicate BSIZE 7), (60, \<lambda>_. replicate BSIZE 8)] demo_log = Ok () t
    \<and> block_trace (disk_trace t) = block_trace (disk_trace demo_log) @ W
    \<and> blocks (disk t) 50 = replicate BSIZE 7 \<and> blocks (disk t) 60 = replicate BSIZE 8
    \<and> (\<forall>k (r :: klog). crashed 1 0 demo_log W k r \<longrightarrow> (\<exists>r'. recover_from_log r = Ok () r'
         \<and> blocks (disk r') 50 = (if k \<le> 2 then blocks (disk demo_log) 50 else replicate BSIZE 7)
         \<and> blocks (disk r') 60 = (if k \<le> 2 then blocks (disk demo_log) 60 else replicate BSIZE 8)))"
proof -
  let ?us = "[(50 :: u32, \<lambda>_. replicate BSIZE (7 :: u8)), (60, \<lambda>_. replicate BSIZE 8)]"
  have ok: "\<forall>u \<in> set ?us. update_ok demo_log u" "card (fst ` set ?us) < lcap demo_log" and c: "card (fst ` set ?us) = 2"
    by (simp_all add: demo_log_def demo_update block_ok_def demo_lcap)
  have u: "updated ?us V 50 = replicate BSIZE 7" "updated ?us V 60 = replicate BSIZE 8" and b: "data_block demo_log 50" "data_block demo_log 60" for V
    by (simp_all add: updated_def demo_log_def demo_area)
  obtain t W where t: "transaction 1 ?us demo_log = Ok () t" "block_trace (disk_trace t) = block_trace (disk_trace demo_log) @ W"
    "\<forall>x. data_block demo_log x \<longrightarrow> blocks (disk t) x = updated ?us (blocks (disk demo_log)) x"
    and r: "\<forall>k (r :: klog). crashed 1 0 demo_log W k r \<longrightarrow> (\<exists>r'. recover_from_log r = Ok () r' \<and> (\<forall>x. data_block demo_log x \<longrightarrow>
      blocks (disk r') x = (if k \<le> 2 then blocks (disk demo_log) x else updated ?us (blocks (disk demo_log)) x)))"
    using transaction_crash_safe [OF demo_log_idle ok, where 'y = unit] unfolding c by (elim exE conjE) (rule that)
  have "blocks (disk t) 50 = replicate BSIZE 7" "blocks (disk t) 60 = replicate BSIZE 8" using t(3) b u by simp_all
  moreover have "\<exists>r'. recover_from_log r = Ok () r' \<and> blocks (disk r') 50 = (if k \<le> 2 then blocks (disk demo_log) 50 else replicate BSIZE 7)
      \<and> blocks (disk r') 60 = (if k \<le> 2 then blocks (disk demo_log) 60 else replicate BSIZE 8)"
    if c: "crashed 1 0 demo_log W k r" for k and r :: klog
  proof -
    obtain r' where "recover_from_log r = Ok () r'" "\<forall>x. data_block demo_log x \<longrightarrow>
      blocks (disk r') x = (if k \<le> 2 then blocks (disk demo_log) x else updated ?us (blocks (disk demo_log)) x)"
      using r [rule_format, OF c] by (elim exE conjE) (rule that)
    then show ?thesis using b u by (intro exI [of _ r']) simp
  qed
  ultimately show ?thesis using t(1,2) by (intro exI [of _ t] exI [of _ W]) simp
qed

text \<open>C14: Recovery is idempotent.  On a booted kernel whose disk has a well-formed log header, \<open>recover_from_log\<close> returns; and if the
  machine crashes after any number \<open>k\<close> of the block writes it makes, recovery on the kernel booted then again returns, with the same
  data blocks as the recovery that was not interrupted.\<close>

theorem recovery_restartable:
  fixes s :: "'z klog_scheme"
  assumes "booted dev p s" "head_ok s (blocks (disk s) (lhead s))"
  shows "\<exists>t W. recover_from_log s = Ok () t \<and> block_trace (disk_trace t) = block_trace (disk_trace s) @ W
    \<and> (\<forall>k (r :: 'y klog_scheme). crashed dev p s W k r \<longrightarrow>
         (\<exists>r'. recover_from_log r = Ok () r' \<and> (\<forall>x. data_block s x \<longrightarrow> blocks (disk r') x = blocks (disk t) x)))"
proof -
  let ?W = "recover_writes enc_head dec_head (lhead s) (lslot s) (blocks (disk s))"
  obtain t where t: "recover_from_log s = Ok () t" "blocks (disk t) = recovered enc_head dec_head (lhead s) (lslot s) (blocks (disk s))"
    "block_trace (disk_trace t) = block_trace (disk_trace s) @ ?W" using recover_media [OF assms] by blast
  have area: "area_ok (lhead s) (lslot s) (lcap s)" using assms(1) by (simp add: booted_def log_area_ok)
  have hd: "length (dec_head (blocks (disk s) (lhead s))) \<le> lcap s"
    "set (dec_head (blocks (disk s) (lhead s))) \<inter> log_area (lhead s) (lslot s) (lcap s) = {}"
    using assms(2) by (simp_all add: head_ok_def dec_head_def get_array_def)
  have "\<exists>r'. recover_from_log r = Ok () r' \<and> (\<forall>x. data_block s x \<longrightarrow> blocks (disk r') x = blocks (disk t) x)"
    if c: "crashed dev p s ?W k r" for k and r :: "'y klog_scheme"
  proof -
    note g = crashed_geometry [OF c]
    have "head_ok r (blocks (disk r) (lhead r))" using recover_head [where m = "blocks (disk s)" and s = s and k = k] assms(2) by (simp add: head_ok_def g)
    then obtain r' where r': "recover_from_log r = Ok () r'" "blocks (disk r') = recovered enc_head dec_head (lhead s) (lslot s) (blocks (disk r))"
      using recover_media [OF g(1)] unfolding g by blast
    then show ?thesis
      using rl.recover_again [where m = "blocks (disk s)", OF area hd] by (intro exI [of _ r']) (simp add: t(2) g(5))
  qed
  then show ?thesis using t(1,3) by (intro exI [of _ t] exI [of _ ?W]) simp
qed

theorem recovery_restartable_witness:
  "\<exists>t W. recover_from_log demo_committed = Ok () t \<and> block_trace (disk_trace t) = block_trace (disk_trace demo_committed) @ W
    \<and> (\<forall>k (r :: klog). crashed 1 0 demo_committed W k r \<longrightarrow> (\<exists>r'. recover_from_log r = Ok () r' \<and> blocks (disk r') 50 = blocks (disk t) 50))"
proof -
  have "booted 1 0 demo_committed" "data_block demo_committed 50" by (simp_all add: demo_committed_def demo_booted demo_area)
  then show ?thesis using recovery_restartable [OF _ demo_committed_head, of 1 0, where 'y = unit] by blast
qed

text \<open>C29: The log's admission control and its capacity check disagree.  \<open>begin_op\<close> admits operations as long as each can write
  \<open>MAXOPBLOCKS\<close> blocks within \<open>LOGSIZE\<close>, hence three at once on the idle log of the standard file system; but \<open>log_write\<close> accepts one
  block fewer, so three admitted operations that together write 30 distinct blocks, 10 each, panic on the last of them.\<close>

theorem log_overcommit:
  fixes s :: "'z klog_scheme"
  assumes "log_idle dev p s" "log_size s = int LOGSIZE" "length us = 3 * MAXOPBLOCKS" "distinct (map fst us)" "\<forall>u \<in> set us. update_ok s u"
  shows "bindr (each_res (\<lambda>_ s. begin_op s) [0..<3] s) (\<lambda>_ s. each_res (\<lambda>(n, f) s. modify dev n f s) us s) = Panic ''too big a transaction''"
proof -
  define s1 where "s1 = s\<lparr>log_outstanding := 3\<rparr>"
  have B: "booted dev p s" "bcache_inv dev p s" and held: "bs_held (store dev s) = (\<lambda>_. False)"
    using assms(1) by (simp_all add: log_idle_def booted_def)
  note ease = bcache_invD(1) [OF B(2)]
  have "begin_op (s\<lparr>log_outstanding := int k\<rparr>) = Ok () (s\<lparr>log_outstanding := int k + 1\<rparr>)" if "k < 3" for k
    using begin_op_Ok [of p "s\<lparr>log_outstanding := int k\<rparr>"] ease assms(1) that
    by (simp add: log_idle_def at_ease_def settled_def unheld_def lock_defs LOGSIZE_def MAXOPBLOCKS_def)
  note begs = this [of 0] this [of 1] this [of 2]
  have "s\<lparr>log_outstanding := 0\<rparr> = s" using assms(1) by (cases s) (simp add: log_idle_def)
  then have beg: "each_res (\<lambda>_ s. begin_op s) [0..<3] s = Ok () s1"
    using begs by (simp add: s1_def numeral_3_eq_3)
  have s1: "bcache_inv dev p s1" "txn dev [] s1" "store dev s1 = reached [] [] (store dev s)" "1 \<le> log_outstanding s1"
    and g: "lhead s1 = lhead s" "lslot s1 = lslot s" "lcap s1 = lcap s" "lcap s = 29"
    using B(2) log_idle_txn [OF assms(1)] booted_store(1) [OF B(1)] assms(2)
    by (auto simp: s1_def txn_def log_place_def lhead_def lslot_def [abs_def] lcap_def LOGSIZE_def MAXOPBLOCKS_def)
  obtain vs n f where us: "us = vs @ [(n, f)]" using assms(3) by (cases us rule: rev_cases) (auto simp: MAXOPBLOCKS_def)
  then have l: "length vs = 29" "distinct (map fst vs)" using assms(3,4) by (simp_all add: MAXOPBLOCKS_def)
  have ok: "\<forall>u \<in> set vs. update_ok s1 u" "block_ok n"
    using assms(5) by (auto simp: update_ok_def g us)
  have room: "card (fst ` set xs) < lcap s1" if "vs = xs @ u # ys" for xs u ys
    using l(1) that card_length [of "map fst xs"] by (simp add: g)
  obtain t where t: "each_res (\<lambda>(n, f) s. modify dev n f s) vs s1 = Ok () t" "bcache_inv dev p t" "same_log s1 t" "txn dev (touched vs) t"
    "store dev t = reached [] (touched vs) ((store dev s)\<lparr>bs_view := updated vs (bs_view (store dev s))\<rparr>)"
    using run_updates [OF s1(1-3) held s1(4) ok(1)] room by blast
  have "length (touched vs) = 29" using l distinct_card [of "map fst vs"] by (simp add: length_touched)
  then have "log_size t - 1 \<le> lh_n t" using t(3,4) assms(2) by (simp add: txn_def same_log_def s1_def LOGSIZE_def MAXOPBLOCKS_def)
  then have "modify dev n f t = Panic ''too big a transaction''" using modify_panics [OF t(2,4,5) _ ok(2)] held by simp
  then show ?thesis using beg t(1) by (simp add: us each_res_append)
qed

theorem log_overcommit_witness:
  "bindr (each_res (\<lambda>_ s. begin_op s) [0..<3] demo_log)
     (\<lambda>_ s. each_res (\<lambda>(n, f) s. modify 1 n f s) (map (\<lambda>i. (of_nat (50 + i), \<lambda>_. replicate BSIZE 7)) [0..<30]) s) =
   Panic ''too big a transaction''"
proof (rule log_overcommit [OF demo_log_idle])
  have u: "unat (of_nat (50 + i) :: u32) = 50 + i" if "i < 30" for i using that by (simp add: unat_of_nat del: of_nat_add)
  then have "inj_on (\<lambda>i. of_nat (50 + i) :: u32) {0..<30}" by (intro inj_onI) (metis add_left_cancel atLeastLessThan_iff)
  then show "distinct (map fst (map (\<lambda>i. (of_nat (50 + i) :: u32, \<lambda>_ :: u8 list. replicate BSIZE (7 :: u8))) [0..<30]))"
    by (simp add: distinct_map comp_def)
  show "\<forall>u \<in> set (map (\<lambda>i. (of_nat (50 + i), \<lambda>_. replicate BSIZE 7)) [0..<30]). update_ok demo_log u"
    using u by (auto simp: demo_log_def block_ok_def intro!: demo_update simp del: of_nat_add)
qed (simp_all add: demo_log_def demo_boot_fields LOGSIZE_def MAXOPBLOCKS_def)

end
