(* ===== verification/Umalloc.thy ===== *)
theory Umalloc
  imports Prelude
begin

text \<open>
  \<^verbatim>\<open>user/umalloc.c\<close>: the allocator of Kernighan and Ritchie that user programs link.  Memory is seen as the headers in it: \<open>heads\<close>
  gives the \<open>union header\<close> stored at an address.  \<open>base_addr\<close> is the address of the static \<open>base\<close>, and \<open>kern\<close> the kernel's side of
  the process, on which the system call \<open>sbrk\<close> acts; \<open>sbrk\<close> is an argument of the functions that call it.
\<close>

section \<open>Headers\<close>

record header =
  h_ptr :: u64
  h_size :: u32

record 'k uheap =
  heads :: "u64 \<Rightarrow> header"
  base_addr :: u64
  freep :: u64
  kern :: 'k

abbreviation hptr :: "'k uheap \<Rightarrow> u64 \<Rightarrow> u64" where "hptr s p \<equiv> h_ptr (heads s p)"
abbreviation hsize :: "'k uheap \<Rightarrow> u64 \<Rightarrow> u32" where "hsize s p \<equiv> h_size (heads s p)"

definition set_ptr :: "u64 \<Rightarrow> u64 \<Rightarrow> 'k uheap \<Rightarrow> 'k uheap" where
  "set_ptr p v s = s\<lparr>heads := (heads s)(p := (heads s p)\<lparr>h_ptr := v\<rparr>)\<rparr>"

definition set_size :: "u64 \<Rightarrow> u32 \<Rightarrow> 'k uheap \<Rightarrow> 'k uheap" where
  "set_size p v s = s\<lparr>heads := (heads s)(p := (heads s p)\<lparr>h_size := v\<rparr>)\<rparr>"

text \<open>Pointer arithmetic on \<open>Header*\<close>.\<close>

definition hplus :: "u64 \<Rightarrow> u32 \<Rightarrow> u64" where
  "hplus p n = p + 16 * ucast n"

section \<open>The functions\<close>

partial_function (option) free_find :: "'k uheap \<Rightarrow> u64 \<Rightarrow> u64 \<Rightarrow> u64 option" where
  "free_find s bp p =
     (if p < bp \<and> bp < hptr s p then Some p
      else if hptr s p \<le> p \<and> (p < bp \<or> bp < hptr s p) then Some p
      else free_find s bp (hptr s p))"

definition free_next :: "u64 \<Rightarrow> u64 \<Rightarrow> 'k uheap \<Rightarrow> 'k uheap" where
  "free_next bp p s =
     (let q = hptr s p
      in if hplus bp (hsize s bp) = q
         then set_ptr bp (hptr s q) (set_size bp (hsize s bp + hsize s q) s)
         else set_ptr bp q s)"

definition free_prev :: "u64 \<Rightarrow> u64 \<Rightarrow> 'k uheap \<Rightarrow> 'k uheap" where
  "free_prev bp p s =
     (if hplus p (hsize s p) = bp
      then set_ptr p (hptr s bp) (set_size p (hsize s p + hsize s bp) s)
      else set_ptr p bp s)"

definition free :: "u64 \<Rightarrow> 'k uheap \<Rightarrow> 'k uheap option" where
  "free ap s =
     (let bp = ap - 16
      in case free_find s bp (freep s) of
           None \<Rightarrow> None
         | Some p \<Rightarrow> Some ((free_prev bp p (free_next bp p s))\<lparr>freep := p\<rparr>))"

text \<open>\<open>nu * sizeof(Header)\<close> is computed in 64 bits and passed to \<open>sbrk\<close> as an \<open>int\<close>.\<close>

definition morecore :: "(u32 \<Rightarrow> 'k \<Rightarrow> u64 \<times> 'k) \<Rightarrow> u32 \<Rightarrow> 'k uheap \<Rightarrow> (u64 \<times> 'k uheap) option" where
  "morecore sbrk nu s =
     (let nu = (if nu < 4096 then 4096 else nu);
          (p, k) = sbrk (ucast (ucast nu * 16 :: u64)) (kern s);
          s = s\<lparr>kern := k\<rparr>
      in if p = - 1 then Some (0, s)
         else case free (hplus p 1) (set_size p nu s) of None \<Rightarrow> None | Some s \<Rightarrow> Some (freep s, s))"

definition malloc_take :: "u32 \<Rightarrow> u64 \<Rightarrow> u64 \<Rightarrow> 'k uheap \<Rightarrow> u64 \<times> 'k uheap" where
  "malloc_take nunits prevp p s =
     (let (p, s) =
        (if hsize s p = nunits then (p, set_ptr prevp (hptr s p) s)
         else let s = set_size p (hsize s p - nunits) s;
                  p = hplus p (hsize s p)
              in (p, set_size p nunits s))
      in (hplus p 1, s\<lparr>freep := prevp\<rparr>))"

partial_function (option) malloc_loop ::
    "(u32 \<Rightarrow> 'k \<Rightarrow> u64 \<times> 'k) \<Rightarrow> u32 \<Rightarrow> u64 \<Rightarrow> u64 \<Rightarrow> 'k uheap \<Rightarrow> (u64 \<times> 'k uheap) option" where
  "malloc_loop sbrk nunits prevp p s =
     (if nunits \<le> hsize s p then Some (malloc_take nunits prevp p s)
      else if p = freep s
      then (case morecore sbrk nunits s of
              None \<Rightarrow> None
            | Some (p, s) \<Rightarrow> if p = 0 then Some (0, s) else malloc_loop sbrk nunits p (hptr s p) s)
      else malloc_loop sbrk nunits p (hptr s p) s)"

text \<open>\<open>sizeof\<close> makes the arithmetic 64-bit; the result is stored in a \<open>uint\<close>.\<close>

definition nunits :: "u32 \<Rightarrow> u32" where
  "nunits nbytes = ucast ((ucast nbytes + 16 - 1) div 16 + 1 :: u64)"

definition malloc_start :: "'k uheap \<Rightarrow> 'k uheap" where
  "malloc_start s = (if freep s = 0 then set_size (base_addr s) 0 (set_ptr (base_addr s) (base_addr s) (s\<lparr>freep := base_addr s\<rparr>)) else s)"

definition malloc :: "(u32 \<Rightarrow> 'k \<Rightarrow> u64 \<times> 'k) \<Rightarrow> u32 \<Rightarrow> 'k uheap \<Rightarrow> (u64 \<times> 'k uheap) option" where
  "malloc sbrk nbytes s =
     (let s = malloc_start s; prevp = freep s
      in malloc_loop sbrk (nunits nbytes) prevp (hptr s prevp) s)"

section \<open>Rings\<close>

text \<open>The cyclic successor of an address in a set.\<close>

definition next_in :: "'a :: linorder set \<Rightarrow> 'a \<Rightarrow> 'a" where
  "next_in F a = (if \<exists>b \<in> F. a < b then Min {b \<in> F. a < b} else Min F)"

fun chain :: "('a \<Rightarrow> 'a) \<Rightarrow> 'a \<Rightarrow> 'a list \<Rightarrow> bool" where
  "chain f p [] \<longleftrightarrow> True"
| "chain f p (x # xs) \<longleftrightarrow> f p = x \<and> chain f x xs"

lemma chain_append: "chain f p (xs @ ys) \<longleftrightarrow> chain f p xs \<and> chain f (last (p # xs)) ys"
  by (induction xs arbitrary: p) auto

lemma chain_cong: "chain f p xs \<Longrightarrow> (\<And>a. a \<in> set (p # xs) \<Longrightarrow> f a = g a) \<Longrightarrow> chain g p xs"
  by (induction xs arbitrary: p) auto

lemma next_in_eq:
  assumes "finite F" "b \<in> F" "a < b" "\<And>c. c \<in> F \<Longrightarrow> a < c \<Longrightarrow> b \<le> c"
  shows "next_in F a = b"
  using assms unfolding next_in_def by (auto intro!: Min_eqI)

lemma next_in_wrap:
  assumes "finite F" "b \<in> F" "\<And>c. c \<in> F \<Longrightarrow> c \<le> a" "\<And>c. c \<in> F \<Longrightarrow> b \<le> c"
  shows "next_in F a = b"
proof -
  have "Min F = b" using assms by (intro Min_eqI) auto
  then show ?thesis using assms(3) unfolding next_in_def by (meson leD)
qed

lemma next_in_cases:
  assumes "finite F" "F \<noteq> {}"
  obtains "next_in F a \<in> F" "a < next_in F a" "\<And>c. c \<in> F \<Longrightarrow> a < c \<Longrightarrow> next_in F a \<le> c"
  | "next_in F a \<in> F" "\<And>c. c \<in> F \<Longrightarrow> c \<le> a" "\<And>c. c \<in> F \<Longrightarrow> next_in F a \<le> c"
proof (cases "\<exists>b \<in> F. a < b")
  case True
  let ?G = "{b \<in> F. a < b}"
  have "finite ?G" "?G \<noteq> {}" using assms True by auto
  then have "Min ?G \<in> ?G" "\<And>c. c \<in> ?G \<Longrightarrow> Min ?G \<le> c" by (metis Min_in, metis Min_le)
  then show ?thesis using True by (intro that(1)) (auto simp: next_in_def)
next
  case False
  then show ?thesis using assms by (intro that(2)) (auto simp: next_in_def leI)
qed

lemma chain_sorted:
  assumes "sorted_wrt (<) (us @ p # xs)" "F = set (us @ p # xs)"
  shows "chain (next_in F) p xs"
  using assms
proof (induction xs arbitrary: us p)
  case (Cons x xs)
  have "next_in F p = x" using Cons.prems by (intro next_in_eq) (auto simp: sorted_wrt_append less_imp_le)
  moreover have "chain (next_in F) x xs" using Cons.prems Cons.IH [of "us @ [p]" x] by simp
  ultimately show ?case by simp
qed simp

text \<open>Every element of the ring is reached from any other.\<close>

lemma ring_list:
  fixes F :: "'a :: linorder set"
  assumes "finite F" "q \<in> F"
  obtains xs where "set xs = F" "chain (next_in F) q xs" "xs \<noteq> []" "last xs = q" "distinct xs"
proof -
  let ?ys = "sorted_list_of_set F"
  have ys: "sorted_wrt (<) ?ys" "set ?ys = F" using assms(1) by (simp_all add: strict_sorted_list_of_set)
  obtain us vs where e: "?ys = us @ q # vs" using assms ys(2) by (metis in_set_conv_decomp)
  let ?xs = "vs @ us @ [q]"
  have vs: "chain (next_in F) q vs" using chain_sorted [of us q vs F] ys e by simp
  obtain m ms where m: "us @ [q] = m # ms" by (cases us) auto
  have s: "sorted_wrt (<) (m # ms @ vs)" "F = set (m # ms @ vs)" using ys e m by (metis append.assoc append_Cons append_Nil)+
  have le: "c \<le> last (q # vs)" if "c \<in> F" for c
    using ys that e by (cases vs rule: rev_cases) (auto simp: sorted_wrt_append less_imp_le)
  have "next_in F (last (q # vs)) = m"
    using s le assms(1) by (intro next_in_wrap) (auto simp: less_imp_le)
  moreover have "chain (next_in F) m ms" using chain_sorted [of "[]" m "ms @ vs" F] s chain_append [of _ m ms vs] by simp
  ultimately have "chain (next_in F) q (vs @ m # ms)" using vs by (simp add: chain_append)
  moreover have "set (vs @ m # ms) = F" "last (vs @ m # ms) = q" using s(2) last_snoc [of us q] m by (auto simp del: last_snoc)
  moreover have "distinct (vs @ m # ms)" using s(1) unfolding strict_sorted_iff by auto
  ultimately show ?thesis using that [of "vs @ m # ms"] by simp
qed

lemma next_in_insert:
  assumes F: "finite F" "p \<in> F" "p < b" "b \<notin> F" "\<And>c. c \<in> F \<Longrightarrow> c < b \<Longrightarrow> c \<le> p" and a: "a \<in> F"
  shows "next_in (insert b F) a = (if a = p then b else next_in F a)" "next_in (insert b F) b = next_in F p"
proof -
  show "next_in (insert b F) a = (if a = p then b else next_in F a)"
  proof (cases "a = p")
    case True
    then show ?thesis using F by (auto intro!: next_in_eq) (meson leD leI)
  next
    case False
    show ?thesis
    proof (rule next_in_cases [OF F(1), of a])
      show "F \<noteq> {}" using F(2) by blast
      assume n: "next_in F a \<in> F" "a < next_in F a" "\<And>c. c \<in> F \<Longrightarrow> a < c \<Longrightarrow> next_in F a \<le> c"
      have "next_in F a \<le> b" if "a < b"
      proof -
        have "a < p" using F(5) [OF a that] False by simp
        then show ?thesis using n(3) [OF F(2)] F(3) by simp
      qed
      then have "next_in (insert b F) a = next_in F a" using n F(1) by (intro next_in_eq) auto
      then show ?thesis using False by simp
    next
      assume n: "next_in F a \<in> F" "\<And>c. c \<in> F \<Longrightarrow> c \<le> a" "\<And>c. c \<in> F \<Longrightarrow> next_in F a \<le> c"
      have "b \<le> a" using n(2) [OF F(2)] F(5) [OF a] False by (meson leI order.antisym)
      moreover have "next_in F a \<le> b" using n(3) [OF F(2)] F(3) by simp
      ultimately have "next_in (insert b F) a = next_in F a" using n F(1) by (intro next_in_wrap) auto
      then show ?thesis using False by simp
    qed
  qed
  show "next_in (insert b F) b = next_in F p"
  proof (rule next_in_cases [OF F(1), of p])
    show "F \<noteq> {}" using F(2) by blast
    assume n: "next_in F p \<in> F" "p < next_in F p" "\<And>c. c \<in> F \<Longrightarrow> p < c \<Longrightarrow> next_in F p \<le> c"
    have "b < next_in F p" using n(1,2) F(4,5) by (metis leD leI order_le_less)
    then show ?thesis using n F(1,3) by (intro next_in_eq) auto
  next
    assume n: "next_in F p \<in> F" "\<And>c. c \<in> F \<Longrightarrow> c \<le> p" "\<And>c. c \<in> F \<Longrightarrow> next_in F p \<le> c"
    then show ?thesis using F(1,2,3) by (intro next_in_wrap) (auto dest: order.strict_trans1 less_imp_le)
  qed
qed

lemma next_in_remove:
  assumes F: "finite F" "b \<in> F" "m \<in> F" "m < b" and p: "p \<in> F" "next_in F p = b" and a: "a \<in> F" "a \<noteq> b"
  shows "next_in (F - {b}) a = (if a = p then next_in F b else next_in F a)"
proof -
  let ?G = "F - {b}"
  have pb: "p < b" "\<And>c. c \<in> F \<Longrightarrow> p < c \<Longrightarrow> b \<le> c"
    using next_in_cases [OF F(1), of p] p F(3,4) by (metis empty_iff leD, metis empty_iff leD)
  have e: "F = insert b ?G" using F(2) by blast
  have "next_in (insert b ?G) a = (if a = p then b else next_in ?G a)" "next_in (insert b ?G) b = next_in ?G p"
    by (rule next_in_insert [of ?G p]; use F p pb a in \<open>auto intro: leI dest: leD\<close>)+
  then show ?thesis using e by auto
qed

lemma succ_above:
  assumes "finite F" "p \<in> F" "p < b" "\<And>c. c \<in> F \<Longrightarrow> c < b \<Longrightarrow> c \<le> p" "b \<notin> F"
  shows "next_in F p \<in> F" "c \<in> F \<Longrightarrow> b < c \<Longrightarrow> b < next_in F p \<and> next_in F p \<le> c"
proof -
  have ne: "F \<noteq> {}" using assms(2) by blast
  show "next_in F p \<in> F" by (rule next_in_cases [OF assms(1) ne, of p])
  show "b < next_in F p \<and> next_in F p \<le> c" if c: "c \<in> F" "b < c"
  proof (rule next_in_cases [OF assms(1) ne, of p])
    assume n: "next_in F p \<in> F" "p < next_in F p" "\<And>c. c \<in> F \<Longrightarrow> p < c \<Longrightarrow> next_in F p \<le> c"
    have "next_in F p \<noteq> b" "\<not> next_in F p < b" using n(1,2) assms(4) [OF n(1)] assms(5) by auto
    moreover have "p < c" using assms(3) c(2) by order
    then have "next_in F p \<le> c" by (rule n(3) [OF c(1)])
    ultimately show ?thesis by auto
  next
    assume "\<And>c. c \<in> F \<Longrightarrow> c \<le> p"
    then have "c \<le> p" using c(1) by blast
    then show ?thesis using assms(3) c(2) by order
  qed
qed

section \<open>The free list\<close>

text \<open>The bytes of a free block, header included.\<close>

definition hend :: "'k uheap \<Rightarrow> u64 \<Rightarrow> nat" where
  "hend s a = unat a + 16 * unat (hsize s a)"

definition extent :: "'k uheap \<Rightarrow> u64 \<Rightarrow> nat set" where
  "extent s a = {unat a..<hend s a}"

text \<open>The blocks \<open>F\<close> form a ring in the order of their addresses, starting with \<open>base\<close>, and do not overlap.\<close>

definition ring :: "u64 set \<Rightarrow> 'k uheap \<Rightarrow> bool" where
  "ring F s \<longleftrightarrow> finite F \<and> base_addr s \<in> F \<and> hsize s (base_addr s) = 0
     \<and> (\<forall>a \<in> F. base_addr s \<le> a \<and> (a \<noteq> base_addr s \<longrightarrow> hsize s a \<noteq> 0) \<and> hptr s a = next_in F a \<and> hend s a \<le> 2 ^ 36)
     \<and> (\<forall>a \<in> F. \<forall>b \<in> F. a < b \<longrightarrow> hend s a \<le> unat b)"

text \<open>Neighbours that ought to be joined.\<close>

definition adjacent :: "u64 set \<Rightarrow> 'k uheap \<Rightarrow> (u64 \<times> u64) set" where
  "adjacent F s = {(a, b). a \<in> F \<and> b \<in> F \<and> a < b \<and> hend s a = unat b}"

definition free_bytes :: "u64 set \<Rightarrow> 'k uheap \<Rightarrow> nat set" where
  "free_bytes F s = (\<Union>a \<in> F. extent s a)"

lemma set_simps [simp]:
  "hptr (set_ptr p v s) a = (if a = p then v else hptr s a)" "hsize (set_ptr p v s) a = hsize s a"
  "hsize (set_size p n s) a = (if a = p then n else hsize s a)" "hptr (set_size p n s) a = hptr s a"
  "base_addr (set_ptr p v s) = base_addr s" "base_addr (set_size p n s) = base_addr s"
  "freep (set_ptr p v s) = freep s" "freep (set_size p n s) = freep s" "kern (set_ptr p v s) = kern s" "kern (set_size p n s) = kern s"
  by (simp_all add: set_ptr_def set_size_def)

lemma uheap_eqI:
  assumes "\<And>a. hptr s a = hptr t a" "\<And>a. hsize s a = hsize t a" "base_addr s = base_addr t" "freep s = freep t" "kern s = kern t"
  shows "s = (t :: 'k uheap)"
proof -
  have "heads s = heads t" using assms(1,2) by (intro ext) (simp add: header.equality)
  then show ?thesis using assms(3-5) by simp
qed

lemma hend_simps [simp]:
  "hend (set_ptr p v s) a = hend s a" "hend (set_size p n s) a = (if a = p then unat p + 16 * unat n else hend s a)"
  by (simp_all add: hend_def)

lemma hplus_hend: "hend s a \<le> 2 ^ 36 \<Longrightarrow> unat (hplus a (hsize s a)) = hend s a"
  by (simp add: hplus_def hend_def unat_word_ariths unat_ucast_up)

lemma hplus_eq: "hend s a \<le> 2 ^ 36 \<Longrightarrow> hplus a (hsize s a) = b \<longleftrightarrow> hend s a = unat b"
  using hplus_hend [of s a] by (metis unsigned_word_eqI)

lemma ringD:
  assumes "ring F s"
  shows "finite F" "base_addr s \<in> F" "hsize s (base_addr s) = 0" "\<And>a. a \<in> F \<Longrightarrow> base_addr s \<le> a"
    "\<And>a. a \<in> F \<Longrightarrow> a \<noteq> base_addr s \<Longrightarrow> hsize s a \<noteq> 0" "\<And>a. a \<in> F \<Longrightarrow> hptr s a = next_in F a" "\<And>a. a \<in> F \<Longrightarrow> hend s a \<le> 2 ^ 36"
    "\<And>a b. a \<in> F \<Longrightarrow> b \<in> F \<Longrightarrow> a < b \<Longrightarrow> hend s a \<le> unat b"
  using assms unfolding ring_def by blast+

text \<open>Linking a block in behind its predecessor.\<close>

definition link_in :: "u64 \<Rightarrow> u64 \<Rightarrow> 'k uheap \<Rightarrow> 'k uheap" where
  "link_in bp p s = set_ptr p bp (set_ptr bp (hptr s p) s)"

lemma link_in_ring:
  assumes R: "ring F s" and p: "p \<in> F" "p < bp" "\<And>c. c \<in> F \<Longrightarrow> c < bp \<Longrightarrow> c \<le> p" and bp: "bp \<notin> F" "hsize s bp \<noteq> 0" "hend s bp \<le> 2 ^ 36"
    and apart: "\<And>a. a \<in> F \<Longrightarrow> a < bp \<Longrightarrow> hend s a \<le> unat bp" "\<And>a. a \<in> F \<Longrightarrow> bp < a \<Longrightarrow> hend s bp \<le> unat a"
  shows "ring (insert bp F) (link_in bp p s)" "free_bytes (insert bp F) (link_in bp p s) = free_bytes F s \<union> extent s bp"
proof -
  note D = ringD [OF R]
  have n: "next_in (insert bp F) a = (if a = p then bp else next_in F a)" if "a \<in> F" for a
    using next_in_insert(1) [OF D(1) p(1,2) bp(1) p(3) that] by blast
  have nb: "next_in (insert bp F) bp = next_in F p" using next_in_insert(2) [OF D(1) p(1,2) bp(1) p(3) p(1)] by blast
  have "base_addr s \<le> bp" using D(4) [OF p(1)] p(2) by simp
  then show "ring (insert bp F) (link_in bp p s)"
    unfolding ring_def link_in_def using D p(1,2) bp n nb apart by auto
  show "free_bytes (insert bp F) (link_in bp p s) = free_bytes F s \<union> extent s bp"
    by (auto simp: free_bytes_def extent_def link_in_def)
qed

text \<open>Joining a block with the one behind it.\<close>

definition join :: "u64 \<Rightarrow> u64 \<Rightarrow> 'k uheap \<Rightarrow> 'k uheap" where
  "join a b s = set_ptr a (hptr s b) (set_size a (hsize s a + hsize s b) s)"

lemma join_ring:
  fixes s :: "'k uheap"
  assumes R: "ring F s" and ab: "a \<in> F" "b \<in> F" "a < b" "hend s a = unat b"
  shows "ring (F - {b}) (join a b s)" "free_bytes (F - {b}) (join a b s) = free_bytes F s" "hend (join a b s) a = hend s b"
    "\<And>x. x \<noteq> a \<Longrightarrow> hend (join a b s) x = hend s x" "adjacent (F - {b}) (join a b s) \<subseteq> {(x, y). x \<noteq> a \<and> (x, y) \<in> adjacent F s} \<union> {(x, y). x = a \<and> (b, y) \<in> adjacent F s}"
proof -
  note D = ringD [OF R]
  have base: "base_addr s < b" "a \<noteq> base_addr s" "b \<noteq> base_addr s"
  proof -
    show "base_addr s < b" using D(4) [OF ab(1)] ab(3) by simp
    then show "a \<noteq> base_addr s" "b \<noteq> base_addr s" using ab(4) D(3) by (auto simp: hend_def word_less_nat_alt)
  qed
  have "base_addr s < a" using base(2) D(4) [OF ab(1)] by simp
  then have "unat (hsize s a) + unat (hsize s b) < 2 ^ 32" using D(7) [OF ab(2)] ab(3,4) base by (simp add: hend_def word_less_nat_alt)
  then have sz: "unat (hsize s a + hsize s b) = unat (hsize s a) + unat (hsize s b)" by (simp add: unat_word_ariths)
  show e: "hend (join a b s) a = hend s b" using sz ab(4) by (simp add: join_def hend_def)
  show o: "hend (join a b s) x = hend s x" if "x \<noteq> a" for x using that by (simp add: join_def)
  have nx: "next_in F a = b"
  proof (rule next_in_eq [OF D(1) ab(2,3)])
    fix c assume c: "c \<in> F" "a < c"
    then show "b \<le> c" using D(8) [OF ab(1) c] ab(4) by (simp add: word_le_nat_alt)
  qed
  have n: "next_in (F - {b}) x = (if x = a then next_in F b else next_in F x)" if "x \<in> F" "x \<noteq> b" for x
    using next_in_remove [OF D(1) ab(2) D(2) base(1) ab(1) nx that] .
  have nz: "hsize s a + hsize s b \<noteq> 0" using sz D(5) [OF ab(1) base(2)] by (metis add_is_0 unat_eq_zero)
  have above: "b < y \<and> hend s b \<le> unat y" if "a < y" "y \<in> F" "y \<noteq> b" for y
  proof -
    have "b < y" using D(8) [OF ab(1) that(2,1)] ab(4) that(3) by (metis le_neq_implies_less word_less_nat_alt unsigned_word_eqI)
    then show ?thesis using D(8) [OF ab(2) that(2)] by blast
  qed
  then show "ring (F - {b}) (join a b s)"
    unfolding ring_def using D base n nz e o ab by (auto simp: join_def)
  have "extent (join a b s) a = extent s a \<union> extent s b" using e ab(4) by (auto simp: extent_def hend_def)
  moreover have "extent (join a b s) x = extent s x" if "x \<noteq> a" for x using o that by (simp add: extent_def)
  moreover have "F - {b} = insert a (F - {a, b})" "F = insert a (insert b (F - {a, b}))" using ab by auto
  then have "free_bytes (F - {b}) t = extent t a \<union> (\<Union>x \<in> F - {a, b}. extent t x)"
    "free_bytes F t = extent t a \<union> extent t b \<union> (\<Union>x \<in> F - {a, b}. extent t x)" for t :: "'k uheap"
    unfolding free_bytes_def by (metis UN_insert, metis UN_insert Un_assoc)
  ultimately show "free_bytes (F - {b}) (join a b s) = free_bytes F s" by simp
  show "adjacent (F - {b}) (join a b s) \<subseteq> {(x, y). x \<noteq> a \<and> (x, y) \<in> adjacent F s} \<union> {(x, y). x = a \<and> (b, y) \<in> adjacent F s}"
  proof (rule subrelI)
    fix x y assume "(x, y) \<in> adjacent (F - {b}) (join a b s)"
    then have xy: "x \<in> F" "y \<in> F" "y \<noteq> b" "x < y" "hend (join a b s) x = unat y" by (simp_all add: adjacent_def)
    show "(x, y) \<in> {(x, y). x \<noteq> a \<and> (x, y) \<in> adjacent F s} \<union> {(x, y). x = a \<and> (b, y) \<in> adjacent F s}"
      using xy above [OF _ xy(2,3)] e o [of x] ab(2) by (cases "x = a") (simp_all add: adjacent_def)
  qed
qed

section \<open>free\<close>

definition heap_ok :: "u64 set \<Rightarrow> 'k uheap \<Rightarrow> bool" where
  "heap_ok F s \<longleftrightarrow> ring F s \<and> adjacent F s = {} \<and> freep s \<in> F \<and> base_addr s \<noteq> 0"

text \<open>A block outside the free list that may be freed.\<close>

definition freeable :: "u64 set \<Rightarrow> u64 \<Rightarrow> 'k uheap \<Rightarrow> bool" where
  "freeable F bp s \<longleftrightarrow> base_addr s < bp \<and> hsize s bp \<noteq> 0 \<and> hend s bp \<le> 2 ^ 36 \<and> bp \<notin> F \<and> extent s bp \<inter> free_bytes F s = {}"

lemma freeable_apart:
  assumes R: "ring F s" and fr: "freeable F bp s" and a: "a \<in> F"
  shows "a < bp \<Longrightarrow> hend s a \<le> unat bp" "bp < a \<Longrightarrow> hend s bp \<le> unat a"
proof -
  have dis: "extent s bp \<inter> extent s a = {}" using fr a by (auto simp: freeable_def free_bytes_def)
  have bp: "unat bp < hend s bp" using fr by (simp add: freeable_def hend_def unat_gt_0)
  show "hend s a \<le> unat bp" if "a < bp"
  proof (rule ccontr)
    assume "\<not> hend s a \<le> unat bp"
    then have "unat bp \<in> extent s a \<inter> extent s bp" using that bp by (simp add: extent_def word_less_nat_alt)
    then show False using dis by blast
  qed
  show "hend s bp \<le> unat a" if "bp < a"
  proof (rule ccontr)
    assume "\<not> hend s bp \<le> unat a"
    moreover have "a \<noteq> base_addr s" using fr that by (auto simp: freeable_def)
    then have "unat a < hend s a" using ringD(5) [OF R a] by (simp add: hend_def unat_gt_0)
    ultimately have "unat a \<in> extent s bp \<inter> extent s a" using that by (simp add: extent_def word_less_nat_alt)
    then show False using dis by blast
  qed
qed

lemma free_find_chain:
  assumes "chain (hptr s) p xs" "q \<in> set (p # xs)"
    and "\<And>a. a \<in> set (p # xs) \<Longrightarrow> (a < bp \<and> bp < hptr s a \<or> hptr s a \<le> a \<and> (a < bp \<or> bp < hptr s a)) \<longleftrightarrow> a = q"
  shows "free_find s bp p = Some q"
  using assms
proof (induction xs arbitrary: p)
  case Nil
  then show ?case by (subst free_find.simps) auto
next
  case (Cons x xs)
  show ?case
  proof (cases "p = q")
    case True
    then show ?thesis using Cons.prems(3) [of p] by (subst free_find.simps) auto
  next
    case False
    then have "free_find s bp x = Some q" using Cons.prems by (intro Cons.IH) auto
    then show ?thesis using Cons.prems(1) Cons.prems(3) [of p] False by (subst free_find.simps) auto
  qed
qed

lemma free_find_Some:
  assumes H: "ring F s" "freep s \<in> F" and bp: "base_addr s < bp" "bp \<notin> F"
  obtains p where "free_find s bp (freep s) = Some p" "p \<in> F" "p < bp" "\<And>c. c \<in> F \<Longrightarrow> c < bp \<Longrightarrow> c \<le> p"
proof -
  note D = ringD [OF H(1)]
  let ?p = "Max {a \<in> F. a < bp}"
  have "finite {a \<in> F. a < bp}" "base_addr s \<in> {a \<in> F. a < bp}" using D(1,2) bp(1) by simp_all
  then have p: "?p \<in> F" "?p < bp" "\<And>c. c \<in> F \<Longrightarrow> c < bp \<Longrightarrow> c \<le> ?p"
    using Max_in [of "{a \<in> F. a < bp}"] Max_ge [of "{a \<in> F. a < bp}"] by blast+
  obtain xs where xs: "set xs = F" "chain (next_in F) (freep s) xs" using ring_list [OF D(1) H(2)] by blast
  have c: "chain (hptr s) (freep s) xs" using xs H(2) D(6) by (intro chain_cong [OF xs(2)]) auto
  have st: "(a < bp \<and> bp < hptr s a \<or> hptr s a \<le> a \<and> (a < bp \<or> bp < hptr s a)) \<longleftrightarrow> a = ?p" if a: "a \<in> F" for a
  proof (rule next_in_cases [OF D(1), of a])
    show "F \<noteq> {}" using a by blast
    assume n: "next_in F a \<in> F" "a < next_in F a" "\<And>c. c \<in> F \<Longrightarrow> a < c \<Longrightarrow> next_in F a \<le> c"
    have "a < bp \<and> bp < next_in F a \<longleftrightarrow> a = ?p"
    proof
      assume c: "a < bp \<and> bp < next_in F a"
      have "\<not> a < ?p"
      proof
        assume "a < ?p"
        then have "next_in F a \<le> ?p" by (rule n(3) [OF p(1)])
        then show False using conjunct2 [OF c] p(2) by order
      qed
      moreover have "a \<le> ?p" using p(3) [OF a] c by blast
      ultimately show "a = ?p" by simp
    next
      assume e: "a = ?p"
      then have "\<not> next_in F a < bp" using p(3) [OF n(1)] n(2) by auto
      then show "a < bp \<and> bp < next_in F a" using e p(2) n(1) bp(2) by (metis not_less_iff_gr_or_eq)
    qed
    then show ?thesis using n(2) D(6) [OF a] by auto
  next
    assume n: "next_in F a \<in> F" "\<And>c. c \<in> F \<Longrightarrow> c \<le> a" "\<And>c. c \<in> F \<Longrightarrow> next_in F a \<le> c"
    have "hptr s a = base_addr s" using n(3) [OF D(2)] D(4) [OF n(1)] D(6) [OF a] by simp
    moreover have "a < bp \<longleftrightarrow> a = ?p" using n(2) [OF p(1)] p(3) [OF a] p(2) by auto
    ultimately show ?thesis using bp(1) D(4) [OF a] by auto
  qed
  have "free_find s bp (freep s) = Some ?p"
    by (rule free_find_chain [OF c]) (use p(1) xs(1) st H(2) in auto)
  then show ?thesis using p that by blast
qed

lemma ring_freep [simp]: "ring F (s\<lparr>freep := p\<rparr>) = ring F s" "free_bytes F (s\<lparr>freep := p\<rparr>) = free_bytes F s"
  "adjacent F (s\<lparr>freep := p\<rparr>) = adjacent F s" "extent (s\<lparr>freep := p\<rparr>) a = extent s a" "hend (s\<lparr>freep := p\<rparr>) a = hend s a"
  by (simp_all add: ring_def free_bytes_def adjacent_def extent_def hend_def)

text \<open>Freeing a block links it in and joins it with its neighbours where they touch.\<close>

lemma free_join:
  assumes R: "ring F s" "adjacent F s = {}" and fr: "freeable F bp s" and p: "p \<in> F" "p < bp" "\<And>c. c \<in> F \<Longrightarrow> c < bp \<Longrightarrow> c \<le> p"
  defines "t \<equiv> free_prev bp p (free_next bp p s)"
  shows "\<exists>G \<subseteq> insert bp F. ring G t \<and> adjacent G t = {} \<and> p \<in> G \<and> free_bytes G t = free_bytes F s \<union> extent s bp"
proof -
  note D = ringD [OF R(1)] and ap = freeable_apart [OF R(1) fr]
  have f: "base_addr s < bp" "hsize s bp \<noteq> 0" "hend s bp \<le> 2 ^ 36" "bp \<notin> F" using fr by (simp_all add: freeable_def)
  let ?q = "hptr s p" and ?s1 = "link_in bp p s"
  have R1: "ring (insert bp F) ?s1" "free_bytes (insert bp F) ?s1 = free_bytes F s \<union> extent s bp"
    using link_in_ring [OF R(1) p f(4,2,3)] ap by blast+
  have q: "?q \<in> F" "\<And>c. c \<in> F \<Longrightarrow> bp < c \<Longrightarrow> bp < ?q \<and> ?q \<le> c"
    using succ_above [OF D(1) p f(4)] D(6) [OF p(1)] by simp_all
  have J: "bp < ?q" if "hend s bp = unat ?q" using that f(2) by (simp add: hend_def word_less_nat_alt unat_gt_0 flip: that)
  have A1: "adjacent (insert bp F) ?s1 \<subseteq> {(p, bp), (bp, ?q)}"
  proof (rule subrelI)
    fix x y assume "(x, y) \<in> adjacent (insert bp F) ?s1"
    then have xy: "x \<in> insert bp F" "y \<in> insert bp F" "x < y" "hend s x = unat y" by (simp_all add: adjacent_def link_in_def)
    have n: "\<not> (x \<in> F \<and> y \<in> F)" using R(2) xy(3,4) by (auto simp: adjacent_def)
    consider "x \<in> F" "y = bp" | "x = bp" "y \<in> F" using n xy by auto
    then show "(x, y) \<in> {(p, bp), (bp, ?q)}"
    proof cases
      case 1
      then have "x \<le> p" "\<not> x < p" using p(3) xy(3,4) D(8) [of x p] p(1,2) by (auto simp: word_less_nat_alt)
      then show ?thesis using 1 by simp
    next
      case 2
      then have "bp < ?q" "?q \<le> y" using q(2) [of y] xy(3) by simp_all
      moreover from this have "unat y \<le> unat ?q" using ap(2) [OF q(1)] xy(4) 2 by simp
      ultimately have "?q = y" by (simp add: word_le_nat_alt) (metis order.antisym unsigned_word_eqI)
      then show ?thesis using 2 by simp
    qed
  qed
  have h1: "hend ?s1 x = hend s x" for x by (simp add: link_in_def)
  define s2 where "s2 = (if hend s bp = unat ?q then join bp ?q ?s1 else ?s1)"
  define G where "G = (if hend s bp = unat ?q then insert bp F - {?q} else insert bp F)"
  have R2: "ring G s2" "free_bytes G s2 = free_bytes F s \<union> extent s bp" "adjacent G s2 \<subseteq> {(p, bp)}" "p \<in> G" "bp \<in> G" "hend s2 p = hend s p"
  proof -
    note j = join_ring [OF R1(1), of bp ?q]
    have ne: "bp \<noteq> ?q" "p \<noteq> bp" using q(1) f(4) p(2) by auto
    show "ring G s2" "free_bytes G s2 = free_bytes F s \<union> extent s bp"
      using j(1,2) J q(1) R1 h1 by (auto simp: s2_def G_def)
    show "p \<in> G" "bp \<in> G" "hend s2 p = hend s p" using p(1,2) J ne h1 j(4) q(1) by (auto simp: s2_def G_def)
    show "adjacent G s2 \<subseteq> {(p, bp)}"
    proof (cases "hend s bp = unat ?q")
      case True
      then show ?thesis using j(5) J q(1) h1 A1 p(2) ne by (fastforce simp: s2_def G_def)
    next
      case False
      then have "(bp, ?q) \<notin> adjacent (insert bp F) ?s1" by (simp add: adjacent_def h1)
      then show ?thesis using A1 False by (auto simp: s2_def G_def)
    qed
  qed
  have s2: "s2 = set_ptr p bp (free_next bp p s)"
  proof -
    have ne: "bp \<noteq> ?q" "p \<noteq> bp" "hend s bp = unat ?q \<Longrightarrow> p \<noteq> ?q" using q(1) f(4) p(2) J by auto
    show ?thesis by (rule uheap_eqI) (use ne hplus_eq [OF f(3), of ?q] in \<open>auto simp: s2_def free_next_def join_def link_in_def Let_def\<close>)
  qed
  have sz: "hsize (free_next bp p s) p = hsize s p" using less_imp_neq [OF p(2)] by (simp add: free_next_def Let_def)
  show ?thesis
  proof (cases "hend s p = unat bp")
    case True
    then have "t = join p bp s2" unfolding t_def s2 using hplus_eq [OF D(7) [OF p(1)]] less_imp_neq [OF p(2)] sz
      by (intro uheap_eqI) (simp_all add: free_prev_def join_def)
    then show ?thesis using join_ring [OF R2(1,4,5) p(2)] R2 True p(2) by (intro exI [of _ "G - {bp}"]) (auto simp: G_def)
  next
    case False
    then have "t = s2" unfolding t_def s2 using hplus_eq [OF D(7) [OF p(1)]] sz by (simp add: free_prev_def)
    moreover have "(p, bp) \<notin> adjacent G s2" using False R2(6) by (simp add: adjacent_def)
    ultimately show ?thesis using R2 by (intro exI [of _ G]) (auto simp: G_def)
  qed
qed

text \<open>What \<open>free\<close> leaves alone.\<close>

lemma free_frame:
  assumes "p \<in> F" "q \<notin> insert bp F"
  shows "heads (free_prev bp p (free_next bp p s)) q = heads s q"
  using assms by (auto simp: free_prev_def free_next_def Let_def set_ptr_def set_size_def)

lemma free_Some:
  assumes H: "heap_ok F s" and fr: "freeable F bp s"
  shows "\<exists>G s'. free (bp + 16) s = Some s' \<and> G \<subseteq> insert bp F \<and> heap_ok G s' \<and> free_bytes G s' = free_bytes F s \<union> extent s bp
    \<and> (\<forall>q. q \<notin> insert bp F \<longrightarrow> heads s' q = heads s q) \<and> kern s' = kern s \<and> base_addr s' = base_addr s"
proof -
  have h: "ring F s" "adjacent F s = {}" "freep s \<in> F" "base_addr s \<noteq> 0" using H by (simp_all add: heap_ok_def)
  obtain p where p: "free_find s bp (freep s) = Some p" "p \<in> F" "p < bp" "\<And>c. c \<in> F \<Longrightarrow> c < bp \<Longrightarrow> c \<le> p"
    using free_find_Some [OF h(1,3)] fr by (auto simp: freeable_def)
  let ?t = "free_prev bp p (free_next bp p s)"
  obtain G where G: "G \<subseteq> insert bp F" "ring G ?t" "adjacent G ?t = {}" "p \<in> G" "free_bytes G ?t = free_bytes F s \<union> extent s bp"
    using free_join [OF h(1,2) fr p(2-4)] by blast
  have b: "base_addr ?t = base_addr s" "kern ?t = kern s" by (simp_all add: free_prev_def free_next_def Let_def)
  then have "heap_ok G (?t\<lparr>freep := p\<rparr>)" using G h(4) by (simp add: heap_ok_def)
  moreover have "free (bp + 16) s = Some (?t\<lparr>freep := p\<rparr>)" using p(1) by (simp add: free_def)
  moreover have "\<forall>q. q \<notin> insert bp F \<longrightarrow> heads ?t q = heads s q" using free_frame [OF p(2)] by blast
  ultimately show ?thesis using G b by (intro exI [of _ G] exI [of _ "?t\<lparr>freep := p\<rparr>"]) simp
qed

section \<open>malloc\<close>

text \<open>What a successful allocation of \<open>n\<close> units hands out, and what it leaves.\<close>

definition served :: "u64 set \<Rightarrow> 'k uheap \<Rightarrow> u32 \<Rightarrow> u64 \<Rightarrow> u64 set \<Rightarrow> 'k uheap \<Rightarrow> bool" where
  "served F s n bp G t \<longleftrightarrow> G \<subseteq> F \<and> heap_ok G t \<and> freeable G bp t \<and> hsize t bp = n \<and> extent t bp \<subseteq> free_bytes F s
     \<and> free_bytes G t = free_bytes F s - extent t bp \<and> (\<forall>q. q \<notin> insert bp F \<longrightarrow> heads t q = heads s q)
     \<and> kern t = kern s \<and> base_addr t = base_addr s"

lemma extents_disjoint:
  assumes R: "ring F s" and ab: "a \<in> F" "b \<in> F" "a \<noteq> b"
  shows "extent s a \<inter> extent s b = {}"
proof (cases "a < b")
  case True
  then show ?thesis using ringD(8) [OF R ab(1,2)] by (auto simp: extent_def)
next
  case False
  then have "b < a" using ab(3) by simp
  then show ?thesis using ringD(8) [OF R ab(2,1)] by (auto simp: extent_def)
qed

lemma free_bytes_remove:
  assumes "ring F s" "p \<in> F"
  shows "free_bytes (F - {p}) s = free_bytes F s - extent s p"
  using assms extents_disjoint [OF assms(1) assms(2)] unfolding free_bytes_def by (auto 4 3)

lemma take_exact:
  assumes H: "heap_ok F s" and p: "prev \<in> F" "p \<in> F" "hptr s prev = p" and n: "n \<noteq> 0" "hsize s p = n"
  shows "served F s n p (F - {p}) ((set_ptr prev (hptr s p) s)\<lparr>freep := prev\<rparr>)"
proof -
  have R: "ring F s" "adjacent F s = {}" "base_addr s \<noteq> 0" using H by (simp_all add: heap_ok_def)
  note D = ringD [OF R(1)]
  let ?t = "set_ptr prev (hptr s p) s"
  have b: "p \<noteq> base_addr s" using n D(3) by auto
  then have bp: "base_addr s < p" using D(4) [OF p(2)] by simp
  have nx: "next_in F prev = p" using D(6) [OF p(1)] p(3) by simp
  have ne: "prev \<noteq> p"
    using nx next_in_cases [OF D(1), of prev] D(2) bp p(1) by (metis empty_iff leD less_irrefl)
  have nn: "next_in (F - {p}) x = (if x = prev then next_in F p else next_in F x)" if "x \<in> F" "x \<noteq> p" for x
    by (rule next_in_remove [OF D(1) p(2) D(2) bp p(1) nx that])
  have "ring (F - {p}) ?t" unfolding ring_def using D b nn p(2) by auto
  moreover have "adjacent (F - {p}) ?t = {}" using R(2) by (auto simp: adjacent_def)
  moreover have fb: "free_bytes (F - {p}) ?t = free_bytes F s - extent s p"
    using free_bytes_remove [OF R(1) p(2)] by (simp add: free_bytes_def extent_def)
  moreover have e: "extent ?t p = extent s p" by (simp add: extent_def)
  moreover have "freeable (F - {p}) p ?t" unfolding freeable_def fb e using bp n D(7) [OF p(2)] by auto
  moreover have "extent s p \<subseteq> free_bytes F s" using p(2) by (auto simp: free_bytes_def)
  ultimately show ?thesis
    using R(3) ne n p(1) by (auto simp: served_def heap_ok_def freeable_def set_ptr_def)
qed

lemma take_split:
  assumes H: "heap_ok F s" and p: "prev \<in> F" "p \<in> F" and n: "n \<noteq> 0" "n < hsize s p"
  defines "m \<equiv> hsize s p - n"
  defines "q \<equiv> hplus p m"
  shows "served F s n q F ((set_size q n (set_size p m s))\<lparr>freep := prev\<rparr>)"
proof -
  have R: "ring F s" "adjacent F s = {}" "base_addr s \<noteq> 0" using H by (simp_all add: heap_ok_def)
  note D = ringD [OF R(1)]
  let ?t = "set_size q n (set_size p m s)"
  have m: "unat m = unat (hsize s p) - unat n" "0 < unat n" "unat n < unat (hsize s p)"
    using n unfolding m_def by (simp_all add: unat_sub less_imp_le word_less_nat_alt unat_gt_0)
  have uq: "unat q = unat p + 16 * unat m"
    using hplus_hend [of "set_size p m s" p] D(7) [OF p(2)] m by (simp add: q_def hend_def)
  then have q: "unat p < unat q" "unat q + 16 * unat n = hend s p" using m by (simp_all add: hend_def)
  have qF: "q \<notin> F" using D(8) [OF p(2), of q] q m(2) by (auto simp: word_less_nat_alt)
  have b: "p \<noteq> base_addr s" using m D(3) by auto
  have bq: "base_addr s < q" using D(4) [OF p(2)] q(1) by (simp add: word_less_nat_alt word_le_nat_alt)
  have pq: "p \<noteq> q" using q(1) by auto
  have h: "hend ?t a = (if a = p then unat q else hend s a)" if "a \<in> F" for a
  proof -
    have "a \<noteq> q" using that qF by blast
    then show ?thesis by (simp add: uq)
  qed
  have hq: "hend ?t q = hend s p" using q(2) by simp
  have ex: "extent ?t a = (if a = p then extent s p - extent ?t q else extent s a)" if "a \<in> F" for a
    using h [OF that] hq q by (auto simp: extent_def hend_def)
  have sub: "extent ?t q \<subseteq> extent s p" using hq q(1) by (auto simp: extent_def)
  have le: "hend ?t a \<le> hend s a" if "a \<in> F" for a using h [OF that] q(2) by auto
  have "ring F ?t"
    unfolding ring_def using D b qF m pq bq le le_trans [OF le D(7)] le_trans [OF le D(8)] by (auto simp: unat_gt_0)
  moreover have "adjacent F ?t = {}"
    using R(2) h qF by (auto simp: adjacent_def) (metis unsigned_word_eqI)
  moreover have fb: "free_bytes F ?t = free_bytes F s - extent ?t q"
  proof -
    have "extent s a \<inter> extent ?t q = {}" if "a \<in> F" "a \<noteq> p" for a using extents_disjoint [OF R(1) that(1) p(2) that(2)] sub by blast
    then show ?thesis using ex p(2) unfolding free_bytes_def by (auto split: if_splits)
  qed
  moreover have "freeable F q ?t" unfolding freeable_def fb using bq n(1) hq D(7) [OF p(2)] qF by auto
  moreover have "extent ?t q \<subseteq> free_bytes F s" using sub p(2) by (auto simp: free_bytes_def)
  ultimately show ?thesis using R(3) p by (auto simp: served_def heap_ok_def freeable_def set_size_def)
qed

lemma malloc_take_served:
  assumes H: "heap_ok F s" and p: "prev \<in> F" "p \<in> F" "hptr s prev = p" and n: "n \<noteq> 0" "n \<le> hsize s p"
  shows "\<exists>G bp t. malloc_take n prev p s = (bp + 16, t) \<and> served F s n bp G t"
proof (cases "hsize s p = n")
  case True
  then show ?thesis using take_exact [OF H p n(1)] by (auto simp: malloc_take_def hplus_def)
next
  case False
  then have "n < hsize s p" using n(2) by order
  then show ?thesis using take_split [OF H p(1,2) n(1)] False by (auto simp: malloc_take_def hplus_def Let_def)
qed

text \<open>One trip round the ring.\<close>

lemma malloc_search:
  assumes "chain (hptr s) prev (p # xs)" "freep s \<notin> set (butlast (p # xs))" "last (p # xs) = freep s" "insert prev (set (p # xs)) \<subseteq> F"
  shows "(\<exists>prev' \<in> F. \<exists>p' \<in> F. hptr s prev' = p' \<and> n \<le> hsize s p' \<and> malloc_loop sbrk n prev p s = Some (malloc_take n prev' p' s))
    \<or> (\<forall>x \<in> set (p # xs). hsize s x < n) \<and> malloc_loop sbrk n prev p s =
       (case morecore sbrk n s of None \<Rightarrow> None
        | Some (p, s) \<Rightarrow> if p = 0 then Some (0, s) else malloc_loop sbrk n p (hptr s p) s)"
  using assms
proof (induction xs arbitrary: prev p)
  case Nil
  then have e: "hptr s prev = p" "p = freep s" "prev \<in> F" "p \<in> F" by auto
  show ?case
  proof (cases "n \<le> hsize s p")
    case True
    then have "malloc_loop sbrk n prev p s = Some (malloc_take n prev p s)" by (subst malloc_loop.simps) simp
    then show ?thesis using True e by (intro disjI1 bexI [of _ prev] bexI [of _ p]) simp_all
  next
    case False
    then show ?thesis by (subst (2) malloc_loop.simps) (use e in auto)
  qed
next
  case (Cons x xs)
  show ?case
  proof (cases "n \<le> hsize s p")
    case True
    then have "malloc_loop sbrk n prev p s = Some (malloc_take n prev p s)" by (subst malloc_loop.simps) simp
    then show ?thesis using True Cons.prems by auto
  next
    case False
    have "p \<noteq> freep s" "hptr s p = x" using Cons.prems by auto
    then have "malloc_loop sbrk n prev p s = malloc_loop sbrk n p x s" using False by (subst malloc_loop.simps) simp
    moreover have "chain (hptr s) p (x # xs)" "freep s \<notin> set (butlast (x # xs))" "last (x # xs) = freep s" "insert p (set (x # xs)) \<subseteq> F"
      using Cons.prems by auto
    ultimately show ?thesis using Cons.IH [of p x] False by auto
  qed
qed

section \<open>The heap of a process\<close>

text \<open>Free blocks \<open>F\<close> and allocated blocks \<open>A\<close> share the memory below the break \<open>b\<close> without overlap.\<close>

definition arena :: "u64 set \<Rightarrow> u64 set \<Rightarrow> nat \<Rightarrow> 'k uheap \<Rightarrow> bool" where
  "arena F A b s \<longleftrightarrow> heap_ok F s \<and> unat (base_addr s) < b \<and> free_bytes F s \<subseteq> {..<b} \<and> (\<forall>a \<in> A. freeable F a s \<and> hend s a \<le> b)
     \<and> (\<forall>a \<in> A. \<forall>c \<in> A. a \<noteq> c \<longrightarrow> extent s a \<inter> extent s c = {})"

lemma arenaD:
  assumes "arena F A b s"
  shows "heap_ok F s" "unat (base_addr s) < b" "free_bytes F s \<subseteq> {..<b}" "\<And>a. a \<in> A \<Longrightarrow> freeable F a s" "\<And>a. a \<in> A \<Longrightarrow> hend s a \<le> b"
    "\<And>a c. a \<in> A \<Longrightarrow> c \<in> A \<Longrightarrow> a \<noteq> c \<Longrightarrow> extent s a \<inter> extent s c = {}"
  using assms unfolding arena_def by blast+

lemma head_extent: "heads s a = heads t a \<Longrightarrow> hend s a = hend t a \<and> extent s a = extent t a"
  by (simp add: hend_def extent_def)

lemma freeable_in: "freeable F a s \<Longrightarrow> unat a \<in> extent s a"
  by (simp add: freeable_def extent_def hend_def unat_gt_0)

lemma freeable_keep:
  assumes "freeable F a s" "heads t a = heads s a" "base_addr t = base_addr s" "a \<notin> G" "extent s a \<inter> free_bytes G t = {}"
  shows "freeable G a t"
  using assms head_extent [OF assms(2)] by (simp add: freeable_def)

lemma arena_free:
  assumes Ar: "arena F A b s" and bp: "bp \<in> A"
  shows "\<exists>G s'. free (bp + 16) s = Some s' \<and> arena G (A - {bp}) b s' \<and> free_bytes G s' = free_bytes F s \<union> extent s bp
    \<and> (\<forall>a \<in> A - {bp}. heads s' a = heads s a) \<and> kern s' = kern s \<and> base_addr s' = base_addr s"
proof -
  note D = arenaD [OF Ar]
  obtain G s' where G: "free (bp + 16) s = Some s'" "G \<subseteq> insert bp F" "heap_ok G s'" "free_bytes G s' = free_bytes F s \<union> extent s bp"
    "\<forall>q. q \<notin> insert bp F \<longrightarrow> heads s' q = heads s q" "kern s' = kern s" "base_addr s' = base_addr s"
    using free_Some [OF D(1) D(4) [OF bp]] by blast
  have h: "heads s' a = heads s a" if "a \<in> A - {bp}" for a using G(5) D(4) that by (auto simp: freeable_def)
  have "freeable G a s' \<and> hend s' a \<le> b" if a: "a \<in> A - {bp}" for a
  proof -
    have f: "freeable F a s" "extent s a \<inter> extent s bp = {}" using D(4,6) a bp by auto
    then have "a \<notin> G" "extent s a \<inter> free_bytes G s' = {}" using G(2,4) a by (auto simp: freeable_def)
    then show ?thesis using freeable_keep [OF f(1) h [OF a] G(7)] D(5) [of a] head_extent [OF h [OF a]] a by simp
  qed
  moreover have "extent s bp \<subseteq> {..<b}" using D(5) [OF bp] by (auto simp: extent_def)
  moreover have "extent s' a = extent s a" if "a \<in> A - {bp}" for a using head_extent [OF h [OF that]] by blast
  ultimately have "arena G (A - {bp}) b s'" unfolding arena_def using G D by auto
  then show ?thesis using G h by blast
qed

lemma arena_served:
  assumes Ar: "arena F A b s" and S: "served F s n bp G t"
  shows "arena G (insert bp A) b t" "bp \<notin> A" "\<forall>a \<in> A. heads t a = heads s a"
proof -
  note D = arenaD [OF Ar]
  have T: "G \<subseteq> F" "heap_ok G t" "freeable G bp t" "extent t bp \<subseteq> free_bytes F s" "free_bytes G t = free_bytes F s - extent t bp"
    "\<And>q. q \<notin> insert bp F \<Longrightarrow> heads t q = heads s q" "base_addr t = base_addr s" using S by (auto simp: served_def)
  have out: "extent s a \<inter> free_bytes F s = {}" "a \<notin> F" if "a \<in> A" for a using D(4) [OF that] by (simp_all add: freeable_def)
  show nA: "bp \<notin> A" using out freeable_in [OF D(4)] freeable_in [OF T(3)] T(4) by blast
  then have h: "heads t a = heads s a" if "a \<in> A" for a using T(6) [of a] out(2) [OF that] that by (cases "a = bp") auto
  then show "\<forall>a \<in> A. heads t a = heads s a" by blast
  have e: "extent t a = extent s a" "hend t a = hend s a" if "a \<in> A" for a using head_extent [OF h [OF that]] by blast+
  have "freeable G a t" if "a \<in> A" for a
    using freeable_keep [OF D(4) h T(7), of a G] that out T(1,5) by blast
  moreover have "hend t bp \<le> b"
  proof -
    have "hend t bp - 1 \<in> extent t bp" using freeable_in [OF T(3)] by (auto simp: extent_def)
    then show ?thesis using T(4) D(3) freeable_in [OF T(3)] by (fastforce simp: extent_def)
  qed
  moreover have "extent t a \<inter> extent t bp = {}" if "a \<in> A" for a using out(1) [OF that] e(1) [OF that] T(4) by blast
  ultimately show "arena G (insert bp A) b t" unfolding arena_def using T(2,3,5,7) D e by (auto simp: Int_commute)
qed

text \<open>Contiguous free bytes lie in one block, because neighbours are joined.\<close>

lemma one_block:
  assumes H: "heap_ok F s" and c: "{x..<y} \<subseteq> free_bytes F s" "x < y"
  shows "\<exists>a \<in> F. {x..<y} \<subseteq> extent s a"
proof -
  have R: "ring F s" "adjacent F s = {}" using H by (simp_all add: heap_ok_def)
  have "x \<in> free_bytes F s" using c by auto
  then obtain a where a: "a \<in> F" "x \<in> extent s a" by (auto simp: free_bytes_def)
  have "y \<le> hend s a"
  proof (rule ccontr)
    assume "\<not> y \<le> hend s a"
    then have "hend s a \<in> free_bytes F s" using a(2) c(1) by (auto simp: extent_def)
    then obtain e where e: "e \<in> F" "hend s a \<in> extent s e" by (auto simp: free_bytes_def)
    have "a \<noteq> e" using e(2) by (auto simp: extent_def)
    moreover have "\<not> e < a" using ringD(8) [OF R(1) e(1) a(1)] e(2) a(2) by (auto simp: extent_def)
    ultimately have "a < e" by simp
    moreover from this have "hend s a = unat e" using ringD(8) [OF R(1) a(1) e(1)] e(2) by (auto simp: extent_def)
    ultimately show False using R(2) a(1) e(1) by (auto simp: adjacent_def)
  qed
  then show ?thesis using a by (auto simp: extent_def intro!: bexI [of _ a])
qed

text \<open>Headers outside the free list do not matter.\<close>

lemma heap_ok_cong:
  assumes "heap_ok F s" "\<And>a. a \<in> F \<Longrightarrow> heads t a = heads s a" "base_addr t = base_addr s" "freep t = freep s"
  shows "heap_ok F t" "free_bytes F t = free_bytes F s"
proof -
  have e: "extent t a = extent s a" "hend t a = hend s a" if "a \<in> F" for a using head_extent [OF assms(2) [OF that]] by blast+
  show "free_bytes F t = free_bytes F s" using e by (simp add: free_bytes_def)
  have "ring F t" using assms e unfolding heap_ok_def ring_def by auto
  moreover have "adjacent F t = adjacent F s" using e by (auto simp: adjacent_def)
  ultimately show "heap_ok F t" using assms by (simp add: heap_ok_def)
qed

lemma arena_below:
  assumes "arena F A b s" "a \<in> F \<union> A"
  shows "unat a < b"
proof (cases "a = base_addr s")
  case True
  then show ?thesis using arenaD(2) [OF assms(1)] by simp
next
  case False
  note D = arenaD [OF assms(1)]
  show ?thesis
  proof (cases "a \<in> A")
    case True
    then show ?thesis using freeable_in [OF D(4)] D(5) [of a] by (fastforce simp: extent_def)
  next
    case False
    then have "a \<in> F" using assms(2) by blast
    moreover from this have "hsize s a \<noteq> 0" using D(1) ringD(5) \<open>a \<noteq> base_addr s\<close> by (auto simp: heap_ok_def)
    ultimately have "unat a \<in> free_bytes F s" by (auto simp: free_bytes_def extent_def hend_def unat_gt_0 intro!: bexI [of _ a])
    then show ?thesis using D(3) by blast
  qed
qed

lemma arena_kern: "arena F A b (s\<lparr>kern := k\<rparr>) = arena F A b s" "free_bytes F (s\<lparr>kern := k\<rparr>) = free_bytes F s"
  by (simp_all add: arena_def heap_ok_def freeable_def ring_def adjacent_def free_bytes_def extent_def hend_def)

text \<open>Fresh memory above the break is one more allocated block.\<close>

lemma arena_grow:
  fixes k :: 'k and s :: "'k uheap"
  assumes Ar: "arena F A b s" and p: "unat p = b" "n \<noteq> 0" "b + 16 * unat n \<le> 2 ^ 36"
  defines "t \<equiv> set_size p n (s\<lparr>kern := k\<rparr>)"
  shows "arena F (insert p A) (b + 16 * unat n) t" "p \<notin> F \<union> A" "free_bytes F t = free_bytes F s" "extent t p = {b..<b + 16 * unat n}"
proof -
  note D = arenaD [OF Ar]
  show np: "p \<notin> F \<union> A" using arena_below [OF Ar, of p] p(1) by blast
  have h: "heads t a = heads s a" if "a \<noteq> p" for a using that by (simp add: t_def set_size_def)
  have hp: "hend t p = b + 16 * unat n" "hsize t p = n" using p(1) by (simp_all add: t_def hend_def)
  have base: "base_addr t = base_addr s" "freep t = freep s" by (simp_all add: t_def)
  show ex: "extent t p = {b..<b + 16 * unat n}" using hp p(1) by (simp add: extent_def)
  have ok: "heap_ok F t" and fb: "free_bytes F t = free_bytes F s"
    using heap_ok_cong [OF D(1), of t] h np base by (metis UnI1)+
  then show "free_bytes F t = free_bytes F s" by blast
  have "freeable F p t" unfolding freeable_def hp ex fb base
    using p D(2,3) np by (auto simp: word_less_nat_alt)
  moreover have "freeable F a t" if "a \<in> A" for a
  proof (rule freeable_keep [OF D(4) [OF that] h base(1)])
    show "a \<noteq> p" "a \<notin> F" "extent s a \<inter> free_bytes F t = {}" using that np D(4) [OF that] by (auto simp: freeable_def fb)
  qed
  moreover have e: "extent t a = extent s a" "hend t a = hend s a" if "a \<in> A" for a using head_extent [OF h, of a] that np by (cases "a = p"; auto)+
  moreover have "extent s a \<subseteq> {..<b}" if "a \<in> A" for a using D(5) [OF that] by (auto simp: extent_def)
  then have "extent t a \<inter> extent t p = {}" if "a \<in> A" for a using e(1) [OF that] that ex by fastforce
  ultimately show "arena F (insert p A) (b + 16 * unat n) t"
    unfolding arena_def using ok fb hp D(2,3,5,6) base by (auto simp: Int_commute trans_le_add1)
qed

text \<open>Before the first allocation \<open>freep\<close> is null and the heap is empty.\<close>

definition heap_inv :: "u64 set \<Rightarrow> u64 set \<Rightarrow> nat \<Rightarrow> 'k uheap \<Rightarrow> bool" where
  "heap_inv F A b s \<longleftrightarrow> arena F A b s \<or> freep s = 0 \<and> F = {} \<and> A = {} \<and> base_addr s \<noteq> 0 \<and> unat (base_addr s) < b \<and> b \<le> 2 ^ 36"

lemma unat_nunits: "unat (nunits n) = (unat n + 15) div 16 + 1"
proof -
  have b: "unat n < 2 ^ 32" using unat_bound [of n] by simp
  have "unat (ucast n + 16 - 1 :: u64) = unat n + 15" using b by (simp add: unat_word_ariths unat_ucast_up)
  then have "unat ((ucast n + 16 - 1) div 16 + 1 :: u64) = (unat n + 15) div 16 + 1" using b by (simp add: unat_word_ariths unat_div)
  moreover have "(unat n + 15) div 16 + 1 < 2 ^ 32" using b by simp
  ultimately show ?thesis by (simp add: nunits_def unsigned_ucast_eq take_bit_nat_eq_self)
qed

lemma malloc_start_arena:
  assumes "heap_inv F A b s"
  shows "\<exists>F' s'. malloc_start s = s' \<and> arena F' A b s' \<and> free_bytes F' s' = free_bytes F s \<and> kern s' = kern s \<and> (\<forall>a \<in> A. heads s' a = heads s a)"
proof (cases "freep s = 0")
  case True
  have "\<not> arena F A b s"
  proof
    assume "arena F A b s"
    then have "ring F s" "freep s \<in> F" "base_addr s \<noteq> 0" by (simp_all add: arena_def heap_ok_def)
    then show False using ringD(4) [of F s 0] True by simp
  qed
  then have e: "F = {}" "A = {}" "base_addr s \<noteq> 0" "unat (base_addr s) < b" "b \<le> 2 ^ 36" using assms by (auto simp: heap_inv_def)
  let ?t = "malloc_start s" and ?F = "{base_addr s}"
  have "next_in ?F (base_addr s) = base_addr s" by (simp add: next_in_def)
  then have "ring ?F ?t" using True e(4,5) by (simp add: malloc_start_def ring_def)
  moreover have "adjacent ?F ?t = {}" by (auto simp: adjacent_def)
  moreover have "free_bytes ?F ?t = {}" using True by (simp add: free_bytes_def extent_def malloc_start_def)
  ultimately show ?thesis using e True by (intro exI [of _ ?F] exI [of _ ?t]) (simp add: arena_def heap_ok_def malloc_start_def free_bytes_def)
next
  case False
  then show ?thesis using assms by (auto simp: heap_inv_def malloc_start_def)
qed

text \<open>What the allocator relies on of \<open>sbrk\<close>: it either fails without an effect or moves the break up by what is asked for and
  returns the old break.\<close>

locale sbrk_call =
  fixes sbrk :: "u32 \<Rightarrow> 'k \<Rightarrow> u64 \<times> 'k" and kinv :: "'k \<Rightarrow> bool" and brk :: "'k \<Rightarrow> nat"
  assumes sbrk_law: "kinv k \<Longrightarrow> 0 < sint n \<Longrightarrow> brk k + unat n \<le> 2 ^ 36 \<Longrightarrow>
    \<exists>p k'. sbrk n k = (p, k') \<and> kinv k' \<and> (p = - 1 \<and> brk k' = brk k \<or> unat p = brk k \<and> brk k' = brk k + unat n)"
begin

lemma morecore_Some:
  assumes Ar: "arena F A (brk (kern s)) s" and K: "kinv (kern s)" and n: "n \<noteq> 0" "16 * unat n < 2 ^ 31" "brk (kern s) + max 65536 (16 * unat n) \<le> 2 ^ 36"
  shows "(\<exists>k. morecore sbrk n s = Some (0, s\<lparr>kern := k\<rparr>) \<and> kinv k \<and> brk k = brk (kern s))
    \<or> (\<exists>G t. morecore sbrk n s = Some (freep t, t) \<and> freep t \<noteq> 0 \<and> arena G A (brk (kern t)) t \<and> kinv (kern t)
         \<and> brk (kern t) = brk (kern s) + max 65536 (16 * unat n) \<and> free_bytes G t = free_bytes F s \<union> {brk (kern s)..<brk (kern t)}
         \<and> (\<forall>a \<in> A. heads t a = heads s a) \<and> base_addr t = base_addr s)"
proof -
  note D = arenaD [OF Ar]
  let ?b = "brk (kern s)"
  define nu where "nu = (if n < 4096 then 4096 else n)"
  have nu: "16 * unat nu = max 65536 (16 * unat n)" by (auto simp: nu_def word_less_nat_alt)
  define m :: u32 where "m = ucast (ucast nu * 16 :: u64)"
  have small: "16 * unat nu < 2 ^ 31" "0 < unat nu" using n(2) nu by auto
  then have um: "unat m = 16 * unat nu"
    by (simp add: m_def unsigned_ucast_eq unat_word_ariths take_bit_nat_eq_self)
  then have "sint m = int (16 * unat nu)" using sint_small [OF small(1)] by (metis um of_nat_unat ucast_id)
  then have m: "0 < sint m" using small(2) by linarith
  obtain p k where k: "sbrk m (kern s) = (p, k)" "kinv k" "p = - 1 \<and> brk k = ?b \<or> unat p = ?b \<and> brk k = ?b + unat m"
    using sbrk_law [OF K m] n(3) um nu by auto
  show ?thesis
  proof (cases "p = - 1")
    case True
    moreover have "?b \<noteq> unat (- 1 :: u64)" using n(3) by (simp add: unsigned_minus_1_eq_mask mask_eq_exp_minus_1)
    ultimately show ?thesis using k by (intro disjI1) (auto simp: morecore_def Let_def m_def nu_def)
  next
    case False
    then have p: "unat p = ?b" "brk k = ?b + 16 * unat nu" using k(3) um by auto
    define s1 where "s1 = set_size p nu (s\<lparr>kern := k\<rparr>)"
    have "nu \<noteq> 0" "?b + 16 * unat nu \<le> 2 ^ 36" using small(2) n(3) nu by auto
    note g = arena_grow [OF Ar p(1) this]
    have A1: "arena F (insert p A) (brk k) s1" "p \<notin> A" "free_bytes F s1 = free_bytes F s" "extent s1 p = {?b..<brk k}"
      using g unfolding s1_def p(2) by blast+
    obtain G t where t: "free (p + 16) s1 = Some t" "arena G (insert p A - {p}) (brk k) t" "free_bytes G t = free_bytes F s1 \<union> extent s1 p"
      "\<forall>a \<in> insert p A - {p}. heads t a = heads s1 a" "kern t = kern s1" "base_addr t = base_addr s1"
      using arena_free [OF A1(1), of p] by blast
    have A2: "insert p A - {p} = A" using A1(2) by blast
    have s1: "kern s1 = k" "base_addr s1 = base_addr s" "\<forall>a \<in> A. heads s1 a = heads s a" using A1(2) by (auto simp: s1_def set_size_def)
    have "morecore sbrk n s = Some (freep t, t)" using False k(1) t(1)
      by (simp add: morecore_def Let_def nu_def [symmetric] m_def [symmetric] s1_def hplus_def)
    moreover have "freep t \<noteq> 0" using arenaD(1) [OF t(2)] by (auto simp: heap_ok_def ring_def)
    ultimately show ?thesis using t A1 A2 s1 k(2) p(2) nu by (intro disjI2 exI [of _ G] exI [of _ t]) auto
  qed
qed

lemma trip:
  assumes "heap_ok F s" and n: "n \<noteq> 0"
  shows "(\<exists>G bp t. malloc_loop sbrk n (freep s) (hptr s (freep s)) s = Some (bp + 16, t) \<and> served F s n bp G t)
    \<or> (\<forall>x \<in> F. hsize s x < n) \<and> malloc_loop sbrk n (freep s) (hptr s (freep s)) s =
       (case morecore sbrk n s of None \<Rightarrow> None
        | Some (p, s) \<Rightarrow> if p = 0 then Some (0, s) else malloc_loop sbrk n p (hptr s p) s)"
proof -
  have R: "ring F s" "freep s \<in> F" using assms(1) by (simp_all add: heap_ok_def)
  obtain xs where xs: "set xs = F" "chain (next_in F) (freep s) xs" "xs \<noteq> []" "last xs = freep s" "distinct xs"
    using ring_list [OF ringD(1) [OF R(1)] R(2)] by blast
  obtain p ys where e: "xs = p # ys" using xs(3) by (cases xs) auto
  have c: "chain (hptr s) (freep s) (p # ys)" using ringD(6) [OF R(1)] xs(1) R(2) unfolding e [symmetric] by (intro chain_cong [OF xs(2)]) auto
  have "freep s \<notin> set (butlast (p # ys))" using xs(4,5) unfolding e by (metis append_butlast_last_id distinct_append disjoint_iff list.set_intros(1) list.simps(3))
  note search = malloc_search [OF c this, of F n sbrk]
  have "hptr s (freep s) = p" "last (p # ys) = freep s" "insert (freep s) (set (p # ys)) \<subseteq> F" "set (p # ys) = F" using c xs(1,4) R(2) by (simp_all add: e)
  note c = this
  from search [OF c(2,3)] show ?thesis
  proof (elim disjE bexE conjE)
    fix q r assume q: "q \<in> F" "r \<in> F" "hptr s q = r" "n \<le> hsize s r" "malloc_loop sbrk n (freep s) p s = Some (malloc_take n q r s)"
    then show ?thesis using malloc_take_served [OF assms(1) q(1-3) n q(4)] c(1) by auto
  qed (use c in \<open>auto intro!: disjI2\<close>)
qed

lemma malloc_loop_Some:
  assumes Ar: "arena F A (brk (kern s)) s" and K: "kinv (kern s)" and n: "n \<noteq> 0" "16 * unat n < 2 ^ 31" "brk (kern s) + max 65536 (16 * unat n) \<le> 2 ^ 36"
  shows "(\<exists>k. malloc_loop sbrk n (freep s) (hptr s (freep s)) s = Some (0, s\<lparr>kern := k\<rparr>) \<and> kinv k \<and> brk k = brk (kern s))
    \<or> (\<exists>G bp t. malloc_loop sbrk n (freep s) (hptr s (freep s)) s = Some (bp + 16, t) \<and> bp \<notin> A \<and> arena G (insert bp A) (brk (kern t)) t
         \<and> hsize t bp = n \<and> kinv (kern t) \<and> (\<forall>a \<in> A. heads t a = heads s a) \<and> base_addr t = base_addr s
         \<and> free_bytes G t \<union> extent t bp = free_bytes F s \<union> {brk (kern s)..<brk (kern t)})"
proof -
  note D = arenaD [OF Ar]
  consider (take) G bp t where "malloc_loop sbrk n (freep s) (hptr s (freep s)) s = Some (bp + 16, t)" "served F s n bp G t"
    | (more) "malloc_loop sbrk n (freep s) (hptr s (freep s)) s = (case morecore sbrk n s of None \<Rightarrow> None
        | Some (p, s) \<Rightarrow> if p = 0 then Some (0, s) else malloc_loop sbrk n p (hptr s p) s)"
    using trip [OF D(1) n(1)] by blast
  then show ?thesis
  proof cases
    case take
    then show ?thesis using arena_served [OF Ar take(2)] K by (intro disjI2 exI [of _ G] exI [of _ bp] exI [of _ t]) (auto simp: served_def)
  next
    case more
    from morecore_Some [OF Ar K n] show ?thesis
    proof (elim disjE exE conjE)
      fix k assume "morecore sbrk n s = Some (0, s\<lparr>kern := k\<rparr>)" "kinv k" "brk k = brk (kern s)"
      then show ?thesis using more by (intro disjI1 exI [of _ k]) simp
    next
      fix G t assume t: "morecore sbrk n s = Some (freep t, t)" "freep t \<noteq> 0" "arena G A (brk (kern t)) t" "kinv (kern t)"
        "brk (kern t) = brk (kern s) + max 65536 (16 * unat n)" "free_bytes G t = free_bytes F s \<union> {brk (kern s)..<brk (kern t)}"
        "\<forall>a \<in> A. heads t a = heads s a" "base_addr t = base_addr s"
      have e: "malloc_loop sbrk n (freep s) (hptr s (freep s)) s = malloc_loop sbrk n (freep t) (hptr t (freep t)) t" using more t(1,2) by simp
      obtain a where a: "a \<in> G" "{brk (kern s)..<brk (kern t)} \<subseteq> extent t a"
        using one_block [OF arenaD(1) [OF t(3)], of "brk (kern s)" "brk (kern t)"] t(5,6) by (auto simp: less_max_iff_disj)
      have "unat a \<le> brk (kern s)" "brk (kern t) \<le> hend t a" using a(2) t(5) by (auto simp: extent_def)
      then have "unat n \<le> unat (hsize t a)" using t(5) by (simp add: hend_def)
      then have "\<not> (\<forall>x \<in> G. hsize t x < n)" using a(1) by (meson leD word_le_nat_alt)
      then obtain G' bp u where u: "malloc_loop sbrk n (freep t) (hptr t (freep t)) t = Some (bp + 16, u)" "served G t n bp G' u"
        using trip [OF arenaD(1) [OF t(3)] n(1)] by blast
      then show ?thesis using arena_served [OF t(3) u(2)] t e
        by (intro disjI2 exI [of _ G'] exI [of _ bp] exI [of _ u]) (auto simp: served_def)
    qed
  qed
qed

lemma malloc_Some:
  assumes H: "heap_inv F A (brk (kern s)) s"
    and K: "kinv (kern s)" and n: "brk (kern s) + max 65536 (unat nbytes + 32) \<le> 2 ^ 36" "unat nbytes < 2 ^ 31 - 32"
  shows "\<exists>G t. heap_inv G A (brk (kern t)) t \<and> kinv (kern t) \<and> brk (kern t) = brk (kern s) \<and> malloc sbrk nbytes s = Some (0, t)
           \<and> free_bytes G t = free_bytes F s \<and> (\<forall>a \<in> A. heads t a = heads s a)
    \<or> (\<exists>bp. heap_inv G (insert bp A) (brk (kern t)) t \<and> kinv (kern t) \<and> bp \<notin> A \<and> malloc sbrk nbytes s = Some (bp + 16, t)
           \<and> unat nbytes + 16 \<le> 16 * unat (hsize t bp)
           \<and> free_bytes G t \<union> extent t bp = free_bytes F s \<union> {brk (kern s)..<brk (kern t)} \<and> (\<forall>a \<in> A. heads t a = heads s a))"
proof -
  define m where "m = nunits nbytes"
  note u = unat_nunits [of nbytes, folded m_def]
  have m: "m \<noteq> 0" "16 * unat m < 2 ^ 31" "brk (kern s) + max 65536 (16 * unat m) \<le> 2 ^ 36" using u n by (auto simp: unat_eq_0)
  obtain F' s' where s': "malloc_start s = s'" "arena F' A (brk (kern s)) s'" "free_bytes F' s' = free_bytes F s" "kern s' = kern s"
      "\<forall>a \<in> A. heads s' a = heads s a" using malloc_start_arena [OF H] by blast
  have e: "malloc sbrk nbytes s = malloc_loop sbrk m (freep s') (hptr s' (freep s')) s'"
    by (simp add: malloc_def s'(1) m_def Let_def)
  have "arena F' A (brk (kern s')) s'" "kinv (kern s')" "brk (kern s') + max 65536 (16 * unat m) \<le> 2 ^ 36" using s'(2,4) K m(3) by simp_all
  note L = malloc_loop_Some [OF this(1,2) m(1,2) this(3)]
  show ?thesis using L
  proof (elim disjE exE conjE)
    fix k assume k: "malloc_loop sbrk m (freep s') (hptr s' (freep s')) s' = Some (0, s'\<lparr>kern := k\<rparr>)" "kinv k" "brk k = brk (kern s')"
    have "arena F' A (brk k) (s'\<lparr>kern := k\<rparr>)" "free_bytes F' (s'\<lparr>kern := k\<rparr>) = free_bytes F' s'"
      using s'(2,4) k(3) by (simp_all add: arena_kern)
    then show ?thesis using k s' by (intro exI [of _ F'] exI [of _ "s'\<lparr>kern := k\<rparr>"] disjI1) (simp add: heap_inv_def e)
  next
    fix G bp t assume t: "malloc_loop sbrk m (freep s') (hptr s' (freep s')) s' = Some (bp + 16, t)" "bp \<notin> A" "arena G (insert bp A) (brk (kern t)) t"
      "hsize t bp = m" "kinv (kern t)" "\<forall>a \<in> A. heads t a = heads s' a" "free_bytes G t \<union> extent t bp = free_bytes F' s' \<union> {brk (kern s')..<brk (kern t)}"
    then show ?thesis using s' u by (intro exI [of _ G] exI [of _ t] disjI2 exI [of _ bp]) (auto simp: heap_inv_def e)
  qed
qed

end

end
