(* ===== verification/Umalloc_Properties.thy ===== *)
theory Umalloc_Properties
  imports Umalloc Demo_Kernel
begin

text \<open>
  The allocator of the user library on top of the kernel: \<open>sbrk\<close> is \<open>growproc\<close> on the calling process.
\<close>

section \<open>growproc\<close>

text \<open>The state in which a process can grow: its address space is intact and nothing is mapped between its end and
  \<open>2\<^sup>3\<^sup>7\<close>, far below the trapframe page.\<close>

definition can_grow :: "'z kproc_scheme \<Rightarrow> bool" where
  "can_grow s \<longleftrightarrow> settled s \<and> (\<exists>p ps. cur s = Some p \<and> aspace s ps (p_pagetable (procs s p))
     \<and> (\<forall>vb < 2 ^ 37. PGROUNDUP (p_sz (procs s p)) \<le> vb \<longrightarrow> pt_lookup (mem s) 2 (p_pagetable (procs s p)) vb = None))"

definition proc_brk :: "'z kproc_scheme \<Rightarrow> nat" where
  "proc_brk s = unat (p_sz (procs s (the (cur s))))"

lemma growproc_Ok:
  assumes R: "can_grow s" and n: "0 < sint n" "proc_brk s + unat n \<le> 2 ^ 36"
  shows "\<exists>r t. growproc n s = Ok r t \<and> can_grow t \<and> (r = - 1 \<and> proc_brk t = proc_brk s \<or> r = 0 \<and> proc_brk t = proc_brk s + unat n)"
proof -
  obtain p ps where p: "settled s" "cur s = Some p" "aspace s ps (p_pagetable (procs s p))"
    "\<And>vb. vb < 2 ^ 37 \<Longrightarrow> PGROUNDUP (p_sz (procs s p)) \<le> vb \<Longrightarrow> pt_lookup (mem s) 2 (p_pagetable (procs s p)) vb = None"
    using R by (auto simp: can_grow_def)
  let ?sz = "p_sz (procs s p)" and ?pt = "p_pagetable (procs s p)"
  let ?new = "?sz + scast n"
  have b: "unat ?sz + unat n \<le> 2 ^ 36" using n(2) p(2) by (simp add: proc_brk_def)
  have sc: "(scast n :: u64) = ucast n" using scast_small [OF sint_nonneg(2), of n] n(1) by simp
  have un: "unat ?new = unat ?sz + unat n" unfolding sc using b by (simp add: unat_word_ariths unat_ucast_up)
  have le: "?sz \<le> ?new" "?new \<le> MAXVA" using un b by (simp_all add: word_le_nat_alt MAXVA_def)
  have up: "unat (PGROUNDUP ?new) < 2 ^ 36 + 4096" using PGROUNDUP_mono(4) [OF le] un b by simp
  have none: "pt_lookup (mem s) 2 ?pt vb = None" if "PGROUNDUP ?sz \<le> vb" "vb < PGROUNDUP ?new" for vb
    using p(4) [OF _ that(1)] that(2) up by (simp add: word_less_nat_alt)
  have nz: "?new \<noteq> 0"
  proof
    assume "?new = 0"
    then have "unat n = 0" using un by simp
    then show False using sint_nonneg(1) [of n] n(1) by simp
  qed
  have perm: "drop_bit 10 PTE_W = 0" by (simp add: c_defs)
  obtain r s' qs where r: "uvmalloc ?pt ?sz ?new PTE_W s = Ok r s'" "kstep s s'" "r = ?new \<or> r = 0" "aspace s' qs ?pt"
    "\<And>vb. vb < MAXVA \<Longrightarrow> PGROUNDUP ?new \<le> vb \<Longrightarrow> pt_lookup (mem s') 2 ?pt vb = pt_lookup (mem s) 2 ?pt vb"
    "r = 0 \<Longrightarrow> \<forall>vb < MAXVA. pt_lookup (mem s') 2 ?pt vb = pt_lookup (mem s) 2 ?pt vb"
  proof -
    note U = uvmalloc_Ok [OF p(3) le perm none]
    obtain r s' qs where u: "uvmalloc ?pt ?sz ?new PTE_W s = Ok r s'" "kstep s s'" "r = ?new \<or> r = 0"
      "grown (pages (mem s) 2 ?pt \<union> set ps) (mem s) ?pt (PGROUNDUP ?sz) (\<lambda>_. PTE_R OR PTE_U OR PTE_W) (\<lambda>_. replicate 4096 0) s' qs
         (if r = 0 then 0 else (unat (PGROUNDUP ?new) - unat (PGROUNDUP ?sz)) div 4096)"
      using U(1) nz by auto
    have "\<not> off_in (PGROUNDUP ?sz) vb < 4096 * ((unat (PGROUNDUP ?new) - unat (PGROUNDUP ?sz)) div 4096)" if "PGROUNDUP ?new \<le> vb" for vb
      using U(3) [of vb] leD [OF that] by simp
    then show ?thesis using that [OF u(1-3)] grownD(1,5) [OF u(4)] by (auto split: if_splits)
  qed
  obtain m f where s': "s' = s\<lparr>mem := m, freelist := f\<rparr>" using settled_kstep [OF p(1) r(2)] by blast
  show ?thesis
  proof (cases "r = 0")
    case True
    have "vb < MAXVA" if "vb < 2 ^ 37" for vb :: u64 using that by (simp add: MAXVA_def word_less_nat_alt)
    then have "can_grow s'" unfolding can_grow_def using p r(4,6) True by (intro conjI exI [of _ p] exI [of _ qs]) (auto simp: s' settled_def lock_defs)
    then show ?thesis using r(1) p(1,2) n(1) True by (intro exI [of _ "- 1"] exI [of _ s']) (simp add: growproc_def proc_brk_def s')
  next
    case False
    define t where "t = upd_proc p (\<lambda>q. q\<lparr>p_sz := ?new\<rparr>) s'"
    have "aspace t qs ?pt" by (rule aspace_frame [OF _ _ _ _ _ r(4)]) (simp_all add: t_def upd_proc_def cpu_ok_def unheld_def lock_defs)
    moreover have "pt_lookup (mem t) 2 ?pt vb = None" if "vb < 2 ^ 37" "PGROUNDUP ?new \<le> vb" for vb
    proof -
      have "vb < MAXVA" using that(1) by (simp add: MAXVA_def word_less_nat_alt)
      moreover have "PGROUNDUP ?sz \<le> vb" using PGROUNDUP_mono(1) [OF le] that(2) by simp
      ultimately show ?thesis using r(5) [OF _ that(2)] p(4) [OF that(1)] by (simp add: t_def upd_proc_def)
    qed
    ultimately have "can_grow t" unfolding can_grow_def using p by (intro conjI exI [of _ p] exI [of _ qs]) (auto simp: t_def upd_proc_def s' settled_def lock_defs)
    then show ?thesis using r(1,3) False p(1,2) n(1) un
      by (intro exI [of _ 0] exI [of _ t]) (simp add: growproc_def proc_brk_def t_def s' upd_proc_def)
  qed
qed

section \<open>sbrk\<close>

text \<open>The system call as a program sees it: \<open>sys_sbrk\<close> returns the old size or -1.\<close>

definition sbrk_of_kernel :: "u32 \<Rightarrow> 'z kproc_scheme \<Rightarrow> u64 \<times> 'z kproc_scheme" where
  "sbrk_of_kernel n s =
     (case growproc n s of
        Ok r t \<Rightarrow> (if r < 0 then - 1 else p_sz (procs s (the (cur s))), t)
      | _ \<Rightarrow> (- 1, s))"

interpretation ks: sbrk_call sbrk_of_kernel can_grow proc_brk
proof
  fix k :: "'z kproc_scheme" and n :: u32
  assume "can_grow k" "0 < sint n" "proc_brk k + unat n \<le> 2 ^ 36"
  then obtain r t where "growproc n k = Ok r t" "can_grow t" "r = - 1 \<and> proc_brk t = proc_brk k \<or> r = 0 \<and> proc_brk t = proc_brk k + unat n"
    using growproc_Ok by blast
  then show "\<exists>p k'. sbrk_of_kernel n k = (p, k') \<and> can_grow k' \<and> (p = - 1 \<and> proc_brk k' = proc_brk k \<or> unat p = proc_brk k \<and> proc_brk k' = proc_brk k + unat n)"
    by (auto simp: sbrk_of_kernel_def proc_brk_def)
qed

section \<open>Properties\<close>

text \<open>C6: \<open>malloc\<close> hands out memory nobody else has.  On a heap whose free list is in order, with the kernel's \<open>sbrk\<close> below it, a
  request of less than 2 GB returns.  Either it returns null, with the break, the free memory and all allocated blocks as before; or it
  returns the memory behind a header that says at least as much as asked for, in a block that overlaps no allocated block and no free
  one: free memory together with the new block is what was free before and what \<open>sbrk\<close> added.  The headers of the other allocated
  blocks are untouched, and the heap is in order again.\<close>

theorem malloc_correct:
  fixes s :: "'z kproc_scheme uheap"
  assumes "heap_inv F A (proc_brk (kern s)) s" "can_grow (kern s)"
    "proc_brk (kern s) + max 65536 (unat nbytes + 32) \<le> 2 ^ 36" "unat nbytes < 2 ^ 31 - 32"
  shows "\<exists>G t. heap_inv G A (proc_brk (kern t)) t \<and> can_grow (kern t) \<and> proc_brk (kern t) = proc_brk (kern s)
           \<and> malloc sbrk_of_kernel nbytes s = Some (0, t) \<and> free_bytes G t = free_bytes F s \<and> (\<forall>a \<in> A. heads t a = heads s a)
    \<or> (\<exists>bp. heap_inv G (insert bp A) (proc_brk (kern t)) t \<and> can_grow (kern t) \<and> bp \<notin> A \<and> malloc sbrk_of_kernel nbytes s = Some (bp + 16, t)
           \<and> unat nbytes + 16 \<le> 16 * unat (hsize t bp)
           \<and> free_bytes G t \<union> extent t bp = free_bytes F s \<union> {proc_brk (kern s)..<proc_brk (kern t)} \<and> (\<forall>a \<in> A. heads t a = heads s a))"
  by (rule ks.malloc_Some [OF assms])

definition demo_heap :: "ksys uheap" where
  "demo_heap = \<lparr>heads = (\<lambda>_. \<lparr>h_ptr = 0x100, h_size = 0\<rparr>)(0x200 := \<lparr>h_ptr = 0, h_size = 4\<rparr>), base_addr = 0x100, freep = 0, kern = demo_kernel\<rparr>"

lemma demo_can_grow: "can_grow demo_kernel" "proc_brk demo_kernel = 4096"
proof -
  obtain ps where ps: "aspace demo_user ps demo_root" "maps_page demo_mem (mem demo_user) demo_root 0 (PA2PTE 0x80050000 OR demo_perm OR PTE_V)"
    using demo_user_aspace by blast
  have "aspace demo_kernel ps demo_root"
    by (rule aspace_frame [OF _ _ _ _ _ ps(1)]) (simp_all add: demo_kernel_def cpu_ok_def lock_defs unheld_def)
  moreover have "pt_lookup (mem demo_user) 2 demo_root vb = None" if "vb < 2 ^ 37" "0x1000 \<le> vb" for vb
  proof -
    have "aligned 12 (0 :: u64)" "vb < MAXVA" using that(1) by (simp_all add: aligned_def MAXVA_def word_less_nat_alt)
    moreover have "slot 12 vb \<noteq> slot 12 0" using off_in_aligned [OF calculation(1), of vb] that(2) by (simp add: off_in_def word_le_nat_alt)
    ultimately show ?thesis using ps(2) demo_table(4) by (simp add: maps_page_def)
  qed
  moreover have "p_sz (procs demo_kernel 0) = 0x1000" "PGROUNDUP 0x1000 = 0x1000"
    by (simp_all add: demo_kernel_def PGSIZE_def PGROUNDUP_aligned aligned_def)
  ultimately show "can_grow demo_kernel" "proc_brk demo_kernel = 4096" by (auto simp: can_grow_def proc_brk_def)
qed

theorem malloc_correct_witness:
  "\<exists>G t. (can_grow (kern t) \<and> malloc sbrk_of_kernel 100 demo_heap = Some (0, t))
    \<or> (\<exists>bp. heap_inv G {bp} (proc_brk (kern t)) t \<and> malloc sbrk_of_kernel 100 demo_heap = Some (bp + 16, t) \<and> 116 \<le> 16 * unat (hsize t bp))"
proof -
  have "heap_inv {} {} (proc_brk (kern demo_heap)) demo_heap" by (simp add: heap_inv_def demo_heap_def demo_can_grow)
  from malloc_correct [OF this, of 100] show ?thesis using demo_can_grow by (simp add: demo_heap_def) blast
qed

text \<open>C32: \<open>free\<close> gives a block back.  On a heap in order, freeing an allocated block returns, the free memory is what it was together
  with the block, joined with its neighbours, and the other allocated blocks and their headers are untouched.\<close>

theorem free_correct:
  assumes "heap_inv F A b s" "bp \<in> A"
  shows "\<exists>G t. free (bp + 16) s = Some t \<and> heap_inv G (A - {bp}) b t \<and> adjacent G t = {} \<and> free_bytes G t = free_bytes F s \<union> extent s bp
    \<and> (\<forall>a \<in> A - {bp}. heads t a = heads s a)"
proof -
  have "arena F A b s" using assms by (auto simp: heap_inv_def)
  then obtain G t where "free (bp + 16) s = Some t" "arena G (A - {bp}) b t" "free_bytes G t = free_bytes F s \<union> extent s bp"
    "\<forall>a \<in> A - {bp}. heads t a = heads s a" using arena_free [OF _ assms(2)] by blast
  then show ?thesis by (intro exI [of _ G] exI [of _ t]) (auto simp: heap_inv_def arena_def heap_ok_def)
qed

theorem free_correct_witness:
  "\<exists>G t. free 0x210 (demo_heap\<lparr>freep := 0x100\<rparr>) = Some t \<and> heap_inv G {} 4096 t \<and> free_bytes G t = {0x200..<0x240}"
proof -
  let ?s = "demo_heap\<lparr>freep := 0x100\<rparr>"
  have s: "base_addr ?s = 0x100" "freep ?s = 0x100" "hend ?s 0x100 = 0x100" "hend ?s 0x200 = 0x240" "hptr ?s 0x100 = 0x100" "hsize ?s 0x100 = 0" "hsize ?s 0x200 = 4"
    by (simp_all add: demo_heap_def hend_def)
  then have e: "extent ?s 0x100 = {}" "extent ?s 0x200 = {0x200..<0x240}" by (simp_all add: extent_def)
  then have f: "free_bytes {0x100} ?s = {}" by (simp add: free_bytes_def)
  have "ring {0x100} ?s" using s by (simp add: ring_def next_in_def)
  moreover have "adjacent {0x100} ?s = {}" by (auto simp: adjacent_def)
  ultimately have "arena {0x100} {0x200} 4096 ?s" using s f by (simp add: arena_def heap_ok_def freeable_def)
  then have "heap_inv {0x100} {0x200} 4096 ?s" by (simp add: heap_inv_def)
  from free_correct [OF this, of "0x200"] show ?thesis using f e by simp blast
qed

text \<open>C33: The largest requests overflow.  For 4294967295 bytes \<open>malloc\<close> needs 268435457 units, whose size in bytes is
  passed to \<open>sbrk\<close> as an \<open>int\<close>, which is 16.  If the kernel grants these 16 bytes at \<open>p\<close>, \<open>malloc\<close> returns a non-null pointer just
  behind them, to a block whose header claims all the units.\<close>

theorem malloc_huge:
  assumes "freep s = 0" "base_addr s \<noteq> 0" "sbrk 16 (kern s) = (p, k)" "base_addr s < p" "unat p < 2 ^ 63"
  shows "\<exists>t. malloc sbrk 0xFFFFFFFF s = Some (p + 16, t) \<and> kern t = k \<and> hsize t p = 0x10000001"
proof -
  define s1 where "s1 = malloc_start s"
  let ?b = "base_addr s"
  have ne: "p \<noteq> - 1" "?b \<noteq> p" "p \<noteq> 0" using assms(4,5) by (auto simp: unsigned_minus_1_eq_mask mask_eq_exp_minus_1)
  have s1: "freep s1 = ?b" "hptr s1 ?b = ?b" "hsize s1 ?b = 0" "kern s1 = kern s" "base_addr s1 = ?b" using assms(1) by (simp_all add: s1_def malloc_start_def)
  have n: "nunits 0xFFFFFFFF = 0x10000001" by (simp add: nunits_def)
  define s2 where "s2 = set_size p 0x10000001 (s1\<lparr>kern := k\<rparr>)"
  have s2: "hptr s2 ?b = ?b" "hsize s2 ?b = 0" "hsize s2 p = 0x10000001" "freep s2 = ?b" "kern s2 = k" using s1 ne by (simp_all add: s2_def)
  have "unat (hplus p 0x10000001) = unat p + 16 * 0x10000001" using assms(5) by (simp add: hplus_def unat_word_ariths)
  then have far: "hplus p 0x10000001 \<noteq> ?b" using assms(4) by (auto simp: word_less_nat_alt)
  define s3 where "s3 = (set_ptr ?b p (set_ptr p ?b s2))\<lparr>freep := ?b\<rparr>"
  have "free_find s2 p ?b = Some ?b" by (subst free_find.simps) (use s2 assms(4) in auto)
  then have "free (p + 16) s2 = Some s3"
    using s2 ne far by (simp add: free_def free_next_def free_prev_def s3_def hplus_def [of _ 0])
  moreover have e: "(4294967312 :: u32) = 16" by simp
  have "sbrk 4294967312 (kern s) = (p, k)" unfolding e by (rule assms(3))
  ultimately have "morecore sbrk 0x10000001 s1 = Some (?b, s3)"
    using ne s1 by (simp add: morecore_def s2_def hplus_def s3_def)
  moreover have "hptr s3 ?b = p" "hsize s3 p = 0x10000001" "kern s3 = k" using s2 ne by (simp_all add: s3_def)
  moreover from this have "malloc_loop sbrk 0x10000001 ?b p s3 = Some (malloc_take 0x10000001 ?b p s3)" by (subst malloc_loop.simps) simp
  ultimately have "malloc_loop sbrk 0x10000001 ?b ?b s1 = Some (malloc_take 0x10000001 ?b p s3)"
    by (subst malloc_loop.simps) (use s1 assms(2) in simp)
  then show ?thesis using \<open>hsize s3 p = 0x10000001\<close> \<open>kern s3 = k\<close> s1 n by (auto simp: malloc_def malloc_take_def hplus_def Let_def simp flip: s1_def)
qed

theorem malloc_huge_witness:
  "\<exists>t. malloc (\<lambda>n b. (of_nat b, b + unat n)) 0xFFFFFFFF \<lparr>heads = \<lambda>_. \<lparr>h_ptr = 0, h_size = 0\<rparr>, base_addr = 0x100, freep = 0, kern = (4096 :: nat)\<rparr> = Some (0x1010, t)
    \<and> kern t = 4112 \<and> hsize t 0x1000 = 0x10000001"
  using malloc_huge [of "\<lparr>heads = \<lambda>_. \<lparr>h_ptr = 0, h_size = 0\<rparr>, base_addr = 0x100, freep = 0, kern = (4096 :: nat)\<rparr>"
      "\<lambda>n b. (of_nat b, b + unat n)" "0x1000" 4112] by simp

end
