(* ===== verification/Usys.thy ===== *)
theory Usys
  imports Kstring Riscv
begin

text \<open>
  User programs as trees of system calls.  A program returns a value, exits, or makes a system call and goes on with its
  result; what the kernel does with the call is not part of the program.  A loop that only the kernel can end carries a bound
  on its turns, and \<open>Stuck\<close> is the program that has used it up.
\<close>

section \<open>System calls\<close>

record ustat =
  st_dev :: u32
  st_ino :: u32
  st_type :: u16
  st_nlink :: u16
  st_size :: u64

text \<open>The result in \<open>a0\<close>, and what the kernel stores in the memory of the process.\<close>

record sysret =
  r_val :: int
  r_data :: "u8 list"
  r_fds :: "int \<times> int"
  r_stat :: ustat

datatype sysreq =
    Fork
  | Wait
  | Pipe
  | Write int "u8 list"
  | Read int nat
  | Close int
  | Kill int
  | Exec "u8 list" "u8 list list"
  | Open "u8 list" u32
  | Mknod "u8 list" int int
  | Unlink "u8 list"
  | Fstat int
  | Link "u8 list" "u8 list"
  | Mkdir "u8 list"
  | Chdir "u8 list"
  | Dup int
  | Sleep int

datatype 'a prog = Ret 'a | Exit int | Stuck | Sys sysreq "sysret \<Rightarrow> 'a prog"

primrec bindp :: "'a prog \<Rightarrow> ('a \<Rightarrow> 'b prog) \<Rightarrow> 'b prog" where
  "bindp (Ret x) f = f x"
| "bindp (Exit n) f = Exit n"
| "bindp Stuck f = Stuck"
| "bindp (Sys r k) f = Sys r (\<lambda>x. bindp (k x) f)"

definition thenp :: "'a prog \<Rightarrow> 'b prog \<Rightarrow> 'b prog" where
  "thenp p q = bindp p (\<lambda>_. q)"

fun eachp :: "('a \<Rightarrow> unit prog) \<Rightarrow> 'a list \<Rightarrow> unit prog" where
  "eachp f [] = Ret ()"
| "eachp f (x # xs) = thenp (f x) (eachp f xs)"

text \<open>The stubs that \<^verbatim>\<open>user/usys.pl\<close> generates.\<close>

definition call :: "sysreq \<Rightarrow> int prog" where
  "call r = Sys r (\<lambda>x. Ret (r_val x))"

definition read_call :: "int \<Rightarrow> nat \<Rightarrow> (int \<times> u8 list) prog" where
  "read_call fd n = Sys (Read fd n) (\<lambda>x. Ret (r_val x, r_data x))"

definition pipe_call :: "(int \<times> int \<times> int) prog" where
  "pipe_call = Sys Pipe (\<lambda>x. Ret (r_val x, r_fds x))"

definition fstat_call :: "int \<Rightarrow> (int \<times> ustat) prog" where
  "fstat_call fd = Sys (Fstat fd) (\<lambda>x. Ret (r_val x, r_stat x))"

lemma bindp_assoc: "bindp (bindp p f) g = bindp p (\<lambda>x. bindp (f x) g)"
  by (induction p) auto

lemma bindp_Ret: "bindp p Ret = p"
  by (induction p) auto

section \<open>Running a program\<close>

datatype 'a outcome = Returned 'a | Exited int | Ran_out

text \<open>A process that never forks, with the kernel as a function of its state.\<close>

primrec runp :: "'a prog \<Rightarrow> (sysreq \<Rightarrow> 's \<Rightarrow> sysret \<times> 's) \<Rightarrow> 's \<Rightarrow> 'a outcome \<times> 's" where
  "runp (Ret x) h s = (Returned x, s)"
| "runp (Exit n) h s = (Exited n, s)"
| "runp Stuck h s = (Ran_out, s)"
| "runp (Sys r k) h s = (let (x, s') = h r s in runp (k x) h s')"

lemma runp_bindp:
  "runp (bindp p f) h s = (case runp p h s of (Returned x, s') \<Rightarrow> runp (f x) h s' | (Exited n, s') \<Rightarrow> (Exited n, s') | (Ran_out, s') \<Rightarrow> (Ran_out, s'))"
  by (induction p arbitrary: s) (auto split: prod.splits)

lemma runp_thenp:
  "runp (thenp p q) h s = (case runp p h s of (Returned x, s') \<Rightarrow> runp q h s' | (Exited n, s') \<Rightarrow> (Exited n, s') | (Ran_out, s') \<Rightarrow> (Ran_out, s'))"
  by (simp add: thenp_def runp_bindp)

lemma runp_Returned: "runp p h s = (Returned x, s') \<Longrightarrow> runp (bindp p f) h s = runp (f x) h s'"
  by (simp add: runp_bindp)

end
