(* ===== verification/Ulib.thy ===== *)
theory Ulib
  imports Usys
begin

text \<open>
  \<^verbatim>\<open>user/ulib.c\<close>: the library of the user programs.  A C string is the list of its bytes up to and including the NUL; a function
  that runs off the end of its argument is undefined in C and \<open>None\<close> here.
\<close>

section \<open>Strings\<close>

fun strcpy :: "u8 list \<Rightarrow> u8 list \<Rightarrow> u8 list option" where
  "strcpy (x # s) (c # t) = (if c \<noteq> 0 then map_option ((#) c) (strcpy s t) else Some (0 # s))"
| "strcpy s t = None"

fun strcmp :: "u8 list \<Rightarrow> u8 list \<Rightarrow> int option" where
  "strcmp (a # p) (b # q) = (if a \<noteq> 0 \<and> a = b then strcmp p q else Some (uint a - uint b))"
| "strcmp p q = None"

fun strlen_loop :: "u8 list \<Rightarrow> u32 \<Rightarrow> u32 option" where
  "strlen_loop [] n = None"
| "strlen_loop (c # s) n = (if c \<noteq> 0 then strlen_loop s (n + 1) else Some n)"

definition strlen :: "u8 list \<Rightarrow> u32 option" where
  "strlen s = strlen_loop s 0"

fun strchr :: "u8 list \<Rightarrow> u8 \<Rightarrow> nat option" where
  "strchr [] c = None"
| "strchr (x # xs) c = (if x = 0 then None else if x = c then Some 0 else map_option Suc (strchr xs c))"

text \<open>The arithmetic of \<open>atoi\<close> is that of \<open>int\<close>, which wraps around on RISC-V.\<close>

fun atoi_loop :: "u8 list \<Rightarrow> u32 \<Rightarrow> u32" where
  "atoi_loop [] n = n"
| "atoi_loop (c # s) n = (if 0x30 \<le> c \<and> c \<le> 0x39 then atoi_loop s (n * 10 + ucast c - 0x30) else n)"

definition atoi :: "u8 list \<Rightarrow> int" where
  "atoi s = sint (atoi_loop s 0)"

section \<open>Memory\<close>

definition memset :: "u64 \<Rightarrow> u32 \<Rightarrow> u32 \<Rightarrow> memory \<Rightarrow> memory" where
  "memset dst c n m = memset_loop dst c n 0 m"

text \<open>Unlike the kernel's, this one goes backwards whenever the source is not above the destination.\<close>

definition memmove :: "u64 \<Rightarrow> u64 \<Rightarrow> u32 \<Rightarrow> memory \<Rightarrow> memory" where
  "memmove vdst vsrc n m =
     (if vsrc > vdst then copy_fwd (nat (sint n)) vdst vsrc m
      else copy_bwd (nat (sint n)) (vdst + scast n) (vsrc + scast n) m)"

fun memcmp :: "u8 list \<Rightarrow> u8 list \<Rightarrow> nat \<Rightarrow> int option" where
  "memcmp s1 s2 0 = Some 0"
| "memcmp (a # s1) (b # s2) (Suc n) = (if a \<noteq> b then Some (uint a - uint b) else memcmp s1 s2 n)"
| "memcmp s1 s2 (Suc n) = None"

definition memcpy :: "u64 \<Rightarrow> u64 \<Rightarrow> u32 \<Rightarrow> memory \<Rightarrow> memory" where
  "memcpy dst src n m = memmove dst src n m"

section \<open>Input and files\<close>

text \<open>The loop of \<open>gets\<close> with room for \<open>k\<close> more bytes and the bytes read so far.\<close>

fun gets_loop :: "nat \<Rightarrow> u8 list \<Rightarrow> u8 list prog" where
  "gets_loop 0 buf = Ret buf"
| "gets_loop (Suc k) buf =
     bindp (read_call 0 1) (\<lambda>(cc, cs).
     if cc < 1 then Ret buf
     else let c = hd cs
          in if c = 0x0A \<or> c = 0x0D then Ret (buf @ [c]) else gets_loop k (buf @ [c]))"

definition gets :: "nat \<Rightarrow> u8 list prog" where
  "gets n = gets_loop (n - 1) []"

definition stat :: "u8 list \<Rightarrow> (int \<times> ustat option) prog" where
  "stat n =
     bindp (call (Open n O_RDONLY)) (\<lambda>fd.
     if fd < 0 then Ret (- 1, None)
     else bindp (fstat_call fd) (\<lambda>(r, st). thenp (call (Close fd)) (Ret (r, if r < 0 then None else Some st))))"

text \<open>\<open>_main\<close>: a program that returns exits with 0.\<close>

definition start_main :: "unit prog \<Rightarrow> unit prog" where
  "start_main main = thenp main (Exit 0)"

end
