(* ===== verification/Uprintf.thy ===== *)
theory Uprintf
  imports Ulib Kprintf_Facts
begin

text \<open>
  \<^verbatim>\<open>user/printf.c\<close>: formatted output of the user programs, one \<open>write\<close> of one byte per character.
\<close>

definition digits :: "u8 list" where
  "digits = bytes_of ''0123456789ABCDEF''"

definition putc :: "int \<Rightarrow> u8 \<Rightarrow> unit prog" where
  "putc fd c = thenp (call (Write fd [c])) (Ret ())"

definition puts :: "int \<Rightarrow> u8 list \<Rightarrow> unit prog" where
  "puts fd cs = eachp (putc fd) cs"

text \<open>The digits are collected in a buffer of 16 bytes as in the kernel.\<close>

definition printint :: "int \<Rightarrow> u32 \<Rightarrow> u32 \<Rightarrow> bool \<Rightarrow> unit prog" where
  "printint fd xx base sign =
     (case int_chars digits xx base sign of None \<Rightarrow> Stuck | Some cs \<Rightarrow> puts fd cs)"

fun ptr_loop :: "nat \<Rightarrow> u64 \<Rightarrow> u8 list" where
  "ptr_loop 0 x = []"
| "ptr_loop (Suc n) x = digits ! unat (drop_bit 60 x) # ptr_loop n (push_bit 4 x)"

definition printptr :: "int \<Rightarrow> u64 \<Rightarrow> unit prog" where
  "printptr fd x = thenp (putc fd 0x30) (thenp (putc fd 0x78) (puts fd (ptr_loop 16 x)))"

text \<open>One conversion; without an argument of its type it is undefined in C.\<close>

fun convert :: "int \<Rightarrow> u8 \<Rightarrow> vararg list \<Rightarrow> (vararg list) prog" where
  "convert fd c ap =
     (if c = of_char CHR ''d'' then (case ap of V_int x # ap \<Rightarrow> thenp (printint fd x 10 True) (Ret ap) | _ \<Rightarrow> Stuck)
      else if c = of_char CHR ''l'' then (case ap of V_ptr x # ap \<Rightarrow> thenp (printint fd (ucast x) 10 False) (Ret ap) | _ \<Rightarrow> Stuck)
      else if c = of_char CHR ''x'' then (case ap of V_int x # ap \<Rightarrow> thenp (printint fd x 16 False) (Ret ap) | _ \<Rightarrow> Stuck)
      else if c = of_char CHR ''p'' then (case ap of V_ptr x # ap \<Rightarrow> thenp (printptr fd x) (Ret ap) | _ \<Rightarrow> Stuck)
      else if c = of_char CHR ''s'' then
        (case ap of V_str s # ap \<Rightarrow> thenp (puts fd (case s of None \<Rightarrow> bytes_of ''(null)'' | Some cs \<Rightarrow> takeWhile (\<lambda>c. c \<noteq> 0) cs)) (Ret ap) | _ \<Rightarrow> Stuck)
      else if c = of_char CHR ''c'' then (case ap of V_int x # ap \<Rightarrow> thenp (putc fd (ucast x)) (Ret ap) | _ \<Rightarrow> Stuck)
      else if c = of_char CHR ''%'' then thenp (putc fd c) (Ret ap)
      else thenp (putc fd (of_char CHR ''%'')) (thenp (putc fd c) (Ret ap)))"

text \<open>The loop over the format; \<open>pct\<close> is \<open>state == '%'\<close>.\<close>

fun vprintf_loop :: "int \<Rightarrow> bool \<Rightarrow> u8 list \<Rightarrow> vararg list \<Rightarrow> unit prog" where
  "vprintf_loop fd pct [] ap = Ret ()"
| "vprintf_loop fd pct (c # fmt) ap =
     (if c = 0 then Ret ()
      else if \<not> pct then
        (if c = of_char CHR ''%'' then vprintf_loop fd True fmt ap
         else thenp (putc fd c) (vprintf_loop fd False fmt ap))
      else bindp (convert fd c ap) (vprintf_loop fd False fmt))"

definition vprintf :: "int \<Rightarrow> u8 list \<Rightarrow> vararg list \<Rightarrow> unit prog" where
  "vprintf fd fmt ap = vprintf_loop fd False fmt ap"

definition fprintf :: "int \<Rightarrow> string \<Rightarrow> vararg list \<Rightarrow> unit prog" where
  "fprintf fd fmt ap = vprintf fd (bytes_of fmt) ap"

definition printf :: "string \<Rightarrow> vararg list \<Rightarrow> unit prog" where
  "printf fmt ap = vprintf 1 (bytes_of fmt) ap"

abbreviation NL :: char where "NL \<equiv> CHR 0x0A"

end
