(* ===== verification/Grep.thy ===== *)
theory Grep
  imports Ulib
begin

text \<open>
  \<^verbatim>\<open>user/grep.c\<close>: the regular-expression matcher and the line loop.  C strings are lists of bytes without the
  terminating NUL, so \<open>re[0] == '\0'\<close> is the empty list.  The \<^verbatim>\<open>read\<close> system call is a parameter: \<open>sysread f n\<close> returns the
  bytes it stored (none at end of file or on an error) and the file's next state.
\<close>

section \<open>The matcher\<close>

abbreviation Dot :: u8 where "Dot \<equiv> 46"
abbreviation Star :: u8 where "Star \<equiv> 42"
abbreviation Dollar :: u8 where "Dollar \<equiv> 36"
abbreviation Caret :: u8 where "Caret \<equiv> 94"
abbreviation Newline :: u8 where "Newline \<equiv> 10"

fun matchhere :: "u8 list \<Rightarrow> u8 list \<Rightarrow> bool" and matchstar :: "u8 \<Rightarrow> u8 list \<Rightarrow> u8 list \<Rightarrow> bool" where
  "matchhere re text =
     (case re of [] \<Rightarrow> True
      | c # re1 \<Rightarrow>
         if re1 \<noteq> [] \<and> hd re1 = Star then matchstar c (tl re1) text
         else if c = Dollar \<and> re1 = [] then text = []
         else if text \<noteq> [] \<and> (c = Dot \<or> c = hd text) then matchhere re1 (tl text)
         else False)"
| "matchstar c re text =
     (if matchhere re text then True
      else if text \<noteq> [] \<and> (hd text = c \<or> c = Dot) then matchstar c re (tl text)
      else False)"

fun match_from :: "u8 list \<Rightarrow> u8 list \<Rightarrow> bool" where
  "match_from re text = (if matchhere re text then True else case text of [] \<Rightarrow> False | _ # t \<Rightarrow> match_from re t)"

definition match :: "u8 list \<Rightarrow> u8 list \<Rightarrow> bool" where
  "match re text = (if re \<noteq> [] \<and> hd re = Caret then matchhere (tl re) text else match_from re text)"

section \<open>The line loop\<close>

lemma strchr_less: "strchr xs c = Some i \<Longrightarrow> i < length xs"
  by (induction xs c arbitrary: i rule: strchr.induct) (auto split: if_splits)

text \<open>The inner loop over the lines of the buffer from \<open>p\<close> on: what it writes and the tail that is left.\<close>

function grep_lines :: "u8 list \<Rightarrow> u8 list \<Rightarrow> u8 list \<times> u8 list" where
  "grep_lines pat p =
     (case strchr p Newline of
        None \<Rightarrow> ([], p)
      | Some q \<Rightarrow>
          let line = take q p; (out, rest) = grep_lines pat (drop (Suc q) p)
          in ((if match pat line then line @ [Newline] else []) @ out, rest))"
  by pat_completeness auto
termination
  by (relation "measure (\<lambda>(pat, p). length p)") (auto dest: strchr_less)

declare grep_lines.simps [simp del]

definition BUF :: nat where "BUF = 1024"

text \<open>The outer loop, with the \<open>m\<close> bytes that are in the buffer and what has been written so far.\<close>

partial_function (option) grep_loop ::
    "('f \<Rightarrow> nat \<Rightarrow> u8 list \<times> 'f) \<Rightarrow> u8 list \<Rightarrow> u8 list \<Rightarrow> 'f \<Rightarrow> u8 list \<Rightarrow> (u8 list \<times> 'f) option" where
  "grep_loop sysread pat buf f out =
     (let (bs, f') = sysread f (BUF - length buf - 1)
      in if bs = [] then Some (out, f')
         else let (w, rest) = grep_lines pat (buf @ bs) in grep_loop sysread pat rest f' (out @ w))"

definition grep :: "('f \<Rightarrow> nat \<Rightarrow> u8 list \<times> 'f) \<Rightarrow> u8 list \<Rightarrow> 'f \<Rightarrow> (u8 list \<times> 'f) option" where
  "grep sysread pat f = grep_loop sysread pat [] f []"

section \<open>What a pattern means\<close>

inductive here :: "u8 list \<Rightarrow> u8 list \<Rightarrow> bool" where
  here_nil: "here [] t"
| here_star: "here re t \<Longrightarrow> \<forall>x \<in> set u. c = Dot \<or> x = c \<Longrightarrow> here (c # Star # re) (u @ t)"
| here_end: "here [Dollar] []"
| here_char: "here re t \<Longrightarrow> re = [] \<or> hd re \<noteq> Star \<Longrightarrow> c \<noteq> Dollar \<or> re \<noteq> [] \<Longrightarrow> c = Dot \<or> c = x \<Longrightarrow> here (c # re) (x # t)"

inductive_simps here_Nil [simp]: "here [] t"
inductive_simps here_Cons: "here (c # re) t"

definition matches :: "u8 list \<Rightarrow> u8 list \<Rightarrow> bool" where
  "matches re t \<longleftrightarrow> (if re \<noteq> [] \<and> hd re = Caret then here (tl re) t else \<exists>u v. t = u @ v \<and> here re v)"

declare matchhere.simps [simp del] matchstar.simps [simp del]

lemma here_Star: "here (c # Star # re) t \<longleftrightarrow> (\<exists>u v. t = u @ v \<and> here re v \<and> (\<forall>x \<in> set u. c = Dot \<or> x = c))"
  by (subst here_Cons) auto

lemma here_Star_step:
  "here (c # Star # re) t \<longleftrightarrow> here re t \<or> (t \<noteq> [] \<and> (hd t = c \<or> c = Dot) \<and> here (c # Star # re) (tl t))"
proof
  assume "here (c # Star # re) t"
  then obtain u v where "t = u @ v" "here re v" "\<forall>x \<in> set u. c = Dot \<or> x = c" unfolding here_Star by blast
  then show "here re t \<or> (t \<noteq> [] \<and> (hd t = c \<or> c = Dot) \<and> here (c # Star # re) (tl t))"
    by (cases u) (auto simp: here_Star)
next
  assume "here re t \<or> (t \<noteq> [] \<and> (hd t = c \<or> c = Dot) \<and> here (c # Star # re) (tl t))"
  then consider "here re t" | x u v where "t = x # u @ v" "here re v" "\<forall>x \<in> set u. c = Dot \<or> x = c" "x = c \<or> c = Dot"
    unfolding here_Star by (metis hd_Cons_tl)
  then show "here (c # Star # re) t"
  proof cases
    case 1
    then show ?thesis unfolding here_Star by (metis append_Nil empty_iff list.set(1))
  next
    case 2
    then show ?thesis unfolding here_Star by (metis Cons_eq_appendI set_ConsD)
  qed
qed

lemma match_iff:
  "matchhere re t \<longleftrightarrow> here re t"
  "matchstar c re t \<longleftrightarrow> here (c # Star # re) t"
proof (induction re t and c re t rule: matchhere_matchstar.induct)
  case (1 re t)
  show ?case
  proof (cases re)
    case (Cons c re1)
    show ?thesis
    proof (cases "re1 \<noteq> [] \<and> hd re1 = Star")
      case True
      then have "re1 = Star # tl re1" by (cases re1) auto
      with True "1.IH"(1) [OF Cons True] Cons show ?thesis by (simp add: matchhere.simps [of "c # re1"])
    next
      case False
      then show ?thesis unfolding Cons using "1.IH"(2) [OF Cons False]
        by (subst matchhere.simps, subst here_Cons) (cases t; auto)
    qed
  qed (simp add: matchhere.simps)
next
  case (2 c re t)
  then show ?case by (subst matchstar.simps, subst here_Star_step) auto
qed

lemma match_from_iff: "match_from re t \<longleftrightarrow> (\<exists>u v. t = u @ v \<and> here re v)"
proof (induction t)
  case (Cons x t)
  have "(\<exists>u v. x # t = u @ v \<and> here re v) \<longleftrightarrow> here re (x # t) \<or> (\<exists>u v. t = u @ v \<and> here re v)"
    by (auto simp: Cons_eq_append_conv)
  then show ?case using Cons.IH by (subst match_from.simps) (simp add: match_iff)
qed (simp add: match_iff)

declare match_from.simps [simp del]

text \<open>C20: grep's matcher implements its pattern language.  \<open>match\<close> accepts a line exactly if the pattern, read
  as a regular expression with \<^verbatim>\<open>^ . * $\<close>, matches somewhere in it (at its start if it begins with \<^verbatim>\<open>^\<close>): a
  character matches itself, \<^verbatim>\<open>.\<close> any character, \<^verbatim>\<open>x*\<close> any number of characters that \<open>x\<close> matches, and a final \<^verbatim>\<open>$\<close> the
  end of the line.\<close>

theorem match_correct: "match re t \<longleftrightarrow> matches re t"
  by (simp add: match_def matches_def match_iff match_from_iff)

section \<open>What grep writes\<close>

text \<open>The complete lines of a text, without their newlines, and the unfinished line at its end.\<close>

fun full_lines :: "u8 list \<Rightarrow> u8 list list \<times> u8 list" where
  "full_lines [] = ([], [])"
| "full_lines (x # xs) =
     (let (ls, r) = full_lines xs
      in if x = Newline then ([] # ls, r) else case ls of [] \<Rightarrow> ([], x # r) | l # ls \<Rightarrow> ((x # l) # ls, r))"

lemma full_lines_line:
  "Newline \<notin> set l \<Longrightarrow> full_lines (l @ Newline # r) = (l # fst (full_lines r), snd (full_lines r))"
  by (induction l) (auto simp: split_def Let_def)

lemma full_lines_no: "Newline \<notin> set l \<Longrightarrow> full_lines l = ([], l)"
  by (induction l) auto

lemma full_lines_tail: "Newline \<notin> set (snd (full_lines p))"
  by (induction p rule: full_lines.induct) (auto simp: split_def Let_def split: list.splits)

lemma full_lines_tail_subset: "set (snd (full_lines p)) \<subseteq> set p"
  by (induction p rule: full_lines.induct) (auto simp: split_def Let_def split: list.splits)

lemma full_lines_prefix:
  "Newline \<notin> set b \<Longrightarrow> full_lines (b @ c) =
     (case fst (full_lines c) of [] \<Rightarrow> ([], b @ snd (full_lines c)) | l # ls \<Rightarrow> ((b @ l) # ls, snd (full_lines c)))"
proof (induction b)
  case Nil
  show ?case by (cases "full_lines c") (auto split: list.splits)
qed (auto split: list.splits)

lemma strchr_no: "0 \<notin> set p \<Longrightarrow> strchr p c = None \<longleftrightarrow> c \<notin> set p"
  by (induction p c rule: strchr.induct) auto

lemma strchr_Some: "strchr p c = Some q \<Longrightarrow> p = take q p @ c # drop (Suc q) p \<and> c \<notin> set (take q p)"
  by (induction p c arbitrary: q rule: strchr.induct) (auto split: if_splits)

definition select :: "u8 list \<Rightarrow> u8 list list \<Rightarrow> u8 list" where
  "select pat ls = concat (map (\<lambda>l. l @ [Newline]) (filter (match pat) ls))"

lemma grep_lines_eq: "0 \<notin> set p \<Longrightarrow> grep_lines pat p = (select pat (fst (full_lines p)), snd (full_lines p))"
proof (induction pat p rule: grep_lines.induct)
  case (1 pat p)
  show ?case
  proof (cases "strchr p Newline")
    case None
    moreover from this have "Newline \<notin> set p" using "1.prems" by (simp add: strchr_no)
    ultimately show ?thesis by (simp add: grep_lines.simps [of pat p] full_lines_no select_def)
  next
    case (Some q)
    let ?l = "take q p" and ?r = "drop (Suc q) p"
    have p: "p = ?l @ Newline # ?r" "Newline \<notin> set ?l" using strchr_Some [OF Some] by blast+
    have "0 \<notin> set ?r" using "1.prems" by (meson in_set_dropD)
    then have "grep_lines pat ?r = (select pat (fst (full_lines ?r)), snd (full_lines ?r))" using "1.IH" [OF Some refl] by simp
    moreover have "full_lines p = (?l # fst (full_lines ?r), snd (full_lines ?r))" using full_lines_line [OF p(2), of ?r] p(1) by simp
    ultimately show ?thesis using Some by (simp add: grep_lines.simps [of pat p] select_def)
  qed
qed

lemma full_lines_append:
  "full_lines (p @ q) = (fst (full_lines p) @ fst (full_lines (snd (full_lines p) @ q)), snd (full_lines (snd (full_lines p) @ q)))"
proof (induction p rule: full_lines.induct)
  case (2 x xs)
  obtain ls r where "full_lines xs = (ls, r)" by fastforce
  then show ?case using 2 by (cases ls) (auto simp: split_def Let_def)
qed simp

text \<open>A file that is read sequentially.\<close>

definition reads_stream :: "('f \<Rightarrow> u8 list) \<Rightarrow> ('f \<Rightarrow> nat \<Rightarrow> u8 list \<times> 'f) \<Rightarrow> bool" where
  "reads_stream content sysread \<longleftrightarrow> (\<forall>f n. content f = fst (sysread f n) @ content (snd (sysread f n))
     \<and> length (fst (sysread f n)) \<le> n \<and> (fst (sysread f n) = [] \<longrightarrow> n = 0 \<or> content f = []))"

lemma grep_loop_eq:
  assumes rd: "reads_stream content sysread" and "0 \<notin> set (content f)" "0 \<notin> set buf" "Newline \<notin> set buf"
    and "\<forall>l \<in> insert (snd (full_lines (buf @ content f))) (set (fst (full_lines (buf @ content f)))). length l < BUF - 1"
  shows "\<exists>f'. grep_loop sysread pat buf f out = Some (out @ select pat (fst (full_lines (buf @ content f))), f') \<and> content f' = []"
  using assms(2-)
proof (induction "length (content f)" arbitrary: buf f out rule: less_induct)
  case less
  let ?r = "sysread f (BUF - length buf - 1)"
  let ?fl = "\<lambda>p. full_lines p"
  have r: "content f = fst ?r @ content (snd ?r)" "fst ?r = [] \<longrightarrow> BUF - length buf - 1 = 0 \<or> content f = []"
    using rd unfolding reads_stream_def by blast+
  have "length buf < BUF - 1"
    using less.prems(4) full_lines_prefix [OF less.prems(3), of "content f"] by (auto split: list.splits)
  show ?case
  proof (cases "fst ?r = []")
    case True
    then have "content f = []" "content (snd ?r) = []" using r \<open>length buf < BUF - 1\<close> by auto
    then show ?thesis using True less.prems(3)
      by (subst grep_loop.simps) (auto simp: split_def full_lines_no select_def)
  next
    case False
    let ?p = "buf @ fst ?r"
    have z: "0 \<notin> set ?p" "0 \<notin> set (content (snd ?r))" using less.prems(1,2) r(1) by auto
    have app: "full_lines (buf @ content f) = (fst (?fl ?p) @ fst (?fl (snd (?fl ?p) @ content (snd ?r))), snd (?fl (snd (?fl ?p) @ content (snd ?r))))"
      using full_lines_append [of ?p "content (snd ?r)"] r(1) by simp
    have "length (content (snd ?r)) < length (content f)" using False arg_cong [OF r(1), of length] by simp
    then have "\<exists>f'. grep_loop sysread pat (snd (?fl ?p)) (snd ?r) (out @ select pat (fst (?fl ?p))) =
        Some ((out @ select pat (fst (?fl ?p))) @ select pat (fst (?fl (snd (?fl ?p) @ content (snd ?r)))), f') \<and> content f' = []"
      by (rule less.hyps) (use z full_lines_tail_subset [of ?p] full_lines_tail less.prems(4) app in auto)
    then show ?thesis using False app z
      by (subst grep_loop.simps) (simp add: split_def Let_def grep_lines_eq select_def)
  qed
qed

text \<open>C8: \<open>grep\<close> writes exactly the lines of its input that match, whole and in order, however the reads cut the
  input into pieces, and it terminates, provided the text has no NUL and no line fills its buffer of 1024 bytes.\<close>

theorem grep_correct:
  assumes "reads_stream content sysread" "0 \<notin> set (content f)"
    and "\<And>l. l \<in> set (fst (full_lines (content f))) \<or> l = snd (full_lines (content f)) \<Longrightarrow> length l < 1023"
  shows "\<exists>f'. grep sysread pat f = Some (concat (map (\<lambda>l. l @ [Newline]) (filter (matches pat) (fst (full_lines (content f))))), f')
    \<and> content f' = []"
proof -
  have "match pat = matches pat" by (rule ext) (simp add: match_def matches_def match_iff match_from_iff)
  then show ?thesis using grep_loop_eq [OF assms(1,2), of "[]" pat "[]"] assms(3) by (auto simp: grep_def BUF_def select_def)
qed

theorem grep_correct_witness:
  "\<exists>f'. grep (\<lambda>f n. (take (min n 2) f, drop (min n 2) f)) [97] [97, 98, 10, 98, 10, 99, 97, 10] = Some ([97, 98, 10, 99, 97, 10], f')"
proof -
  have "reads_stream (\<lambda>f. f) (\<lambda>f n. (take (min n 2) f, drop (min n 2) f))" by (auto simp: reads_stream_def)
  moreover have "full_lines [97, 98, 10, 98, 10, 99, 97, 10] = ([[97, 98], [98], [99, 97]], [])" by simp
  moreover have "here [97] (97 # t)" "\<not> here [97] [98]" "\<not> here [97] []" for t
    by (auto simp: here_Cons)
  then have "matches [97] [97, 98]" "matches [97] [99, 97]" "\<not> matches [97] [98]"
    by (auto simp: matches_def Cons_eq_append_conv)
  moreover have "length l < 1023" if "l = [97, 98] \<or> l = [98] \<or> l = [99, 97] \<or> l = []" for l :: "u8 list" using that by auto
  ultimately show ?thesis
    using grep_correct [of "\<lambda>f. f" "\<lambda>f n. (take (min n 2) f, drop (min n 2) f)" "[97, 98, 10, 98, 10, 99, 97, 10]" "[97]"] by auto
qed

end
