(* ===== verification/Uprogs.thy ===== *)
theory Uprogs
  imports Uprintf Grep
begin

text \<open>
  The small user programs.  \<open>argv\<close> is the list of arguments, the program's name first.  Where a program reads until the end of its
  input, \<open>k\<close> bounds the number of reads.
\<close>

section \<open>echo\<close>

text \<open>The loop over \<open>argv[1..]\<close>.\<close>

fun echo_loop :: "u8 list list \<Rightarrow> unit prog" where
  "echo_loop [] = Ret ()"
| "echo_loop (a # as) =
     thenp (call (Write 1 a))
     (thenp (call (Write 1 (if as \<noteq> [] then [0x20] else [0x0A]))) (echo_loop as))"

definition echo_main :: "u8 list list \<Rightarrow> unit prog" where
  "echo_main argv = thenp (echo_loop (tl argv)) (Exit 0)"

section \<open>cat\<close>

fun cat :: "nat \<Rightarrow> int \<Rightarrow> unit prog" where
  "cat 0 fd = Stuck"
| "cat (Suc k) fd =
     bindp (read_call fd 512) (\<lambda>(n, buf).
     if n > 0 then
       bindp (call (Write 1 buf)) (\<lambda>w.
       if w \<noteq> n then thenp (fprintf 2 (''cat: write error'' @ [NL]) []) (Exit 1) else cat k fd)
     else if n < 0 then thenp (fprintf 2 (''cat: read error'' @ [NL]) []) (Exit 1)
     else Ret ())"

definition cat_main :: "nat \<Rightarrow> u8 list list \<Rightarrow> unit prog" where
  "cat_main k argv =
     (if length argv \<le> 1 then thenp (cat k 0) (Exit 0)
      else thenp (eachp (\<lambda>a. bindp (call (Open a O_RDONLY)) (\<lambda>fd.
             if fd < 0 then thenp (fprintf 2 (''cat: cannot open %s'' @ [NL]) [V_str (Some a)]) (Exit 1)
             else thenp (cat k fd) (thenp (call (Close fd)) (Ret ())))) (tl argv))
           (Exit 0))"

section \<open>wc\<close>

record counts =
  wc_l :: u32
  wc_w :: u32
  wc_c :: u32
  wc_inword :: bool

definition wc_space :: "u8 list" where
  "wc_space = [0x20, 0x0D, 0x09, 0x0A, 0x0B]"

text \<open>One turn of the inner loop; \<open>strchr\<close> also finds nothing for a NUL byte in the input.\<close>

definition wc_char :: "u8 \<Rightarrow> counts \<Rightarrow> counts" where
  "wc_char b s =
     (let s = s\<lparr>wc_c := wc_c s + 1\<rparr>;
          s = (if b = 0x0A then s\<lparr>wc_l := wc_l s + 1\<rparr> else s)
      in if strchr wc_space b \<noteq> None then s\<lparr>wc_inword := False\<rparr>
         else if \<not> wc_inword s then s\<lparr>wc_w := wc_w s + 1, wc_inword := True\<rparr> else s)"

fun wc_loop :: "nat \<Rightarrow> int \<Rightarrow> counts \<Rightarrow> (int \<times> counts) prog" where
  "wc_loop 0 fd s = Stuck"
| "wc_loop (Suc k) fd s =
     bindp (read_call fd 512) (\<lambda>(n, buf). if n > 0 then wc_loop k fd (fold wc_char buf s) else Ret (n, s))"

definition wc :: "nat \<Rightarrow> int \<Rightarrow> u8 list \<Rightarrow> unit prog" where
  "wc k fd name =
     bindp (wc_loop k fd \<lparr>wc_l = 0, wc_w = 0, wc_c = 0, wc_inword = False\<rparr>) (\<lambda>(n, s).
     if n < 0 then thenp (printf (''wc: read error'' @ [NL]) []) (Exit 1)
     else printf (''%d %d %d %s'' @ [NL]) [V_int (wc_l s), V_int (wc_w s), V_int (wc_c s), V_str (Some name)])"

definition wc_main :: "nat \<Rightarrow> u8 list list \<Rightarrow> unit prog" where
  "wc_main k argv =
     (if length argv \<le> 1 then thenp (wc k 0 []) (Exit 0)
      else thenp (eachp (\<lambda>a. bindp (call (Open a O_RDONLY)) (\<lambda>fd.
             if fd < 0 then thenp (printf (''wc: cannot open %s'' @ [NL]) [V_str (Some a)]) (Exit 1)
             else thenp (wc k fd a) (thenp (call (Close fd)) (Ret ())))) (tl argv))
           (Exit 0))"

section \<open>grep\<close>

text \<open>The program around the matcher: the lines of the buffer are written one by one, the rest is kept.\<close>

function grep_emit :: "u8 list \<Rightarrow> u8 list \<Rightarrow> u8 list prog" where
  "grep_emit pat p =
     (case strchr p Newline of
        None \<Rightarrow> Ret p
      | Some q \<Rightarrow> thenp (if match pat (take q p) then call (Write 1 (take (Suc q) p)) else Ret 0) (grep_emit pat (drop (Suc q) p)))"
  by pat_completeness auto
termination
  by (relation "measure (\<lambda>(pat, p). length p)") (auto dest: strchr_less)

fun grep_reads :: "nat \<Rightarrow> u8 list \<Rightarrow> u8 list \<Rightarrow> int \<Rightarrow> unit prog" where
  "grep_reads 0 pat buf fd = Stuck"
| "grep_reads (Suc k) pat buf fd =
     bindp (read_call fd (BUF - length buf - 1)) (\<lambda>(n, bs).
     if n > 0 then bindp (grep_emit pat (buf @ bs)) (\<lambda>rest. grep_reads k pat rest fd) else Ret ())"

definition grep_main :: "nat \<Rightarrow> u8 list list \<Rightarrow> unit prog" where
  "grep_main k argv =
     (if length argv \<le> 1 then thenp (fprintf 2 (''usage: grep pattern [file ...]'' @ [NL]) []) (Exit 1)
      else if length argv \<le> 2 then thenp (grep_reads k (argv ! 1) [] 0) (Exit 0)
      else thenp (eachp (\<lambda>a. bindp (call (Open a O_RDONLY)) (\<lambda>fd.
             if fd < 0 then thenp (printf (''grep: cannot open %s'' @ [NL]) [V_str (Some a)]) (Exit 1)
             else thenp (grep_reads k (argv ! 1) [] fd) (thenp (call (Close fd)) (Ret ())))) (drop 2 argv))
           (Exit 0))"

section \<open>ls\<close>

text \<open>The last component of a path, padded with blanks to \<open>DIRSIZ\<close> bytes.\<close>

definition last_component :: "u8 list \<Rightarrow> u8 list" where
  "last_component path = rev (takeWhile (\<lambda>c. c \<noteq> 0x2F) (rev path))"

definition fmtname :: "u8 list \<Rightarrow> u8 list" where
  "fmtname path =
     (let p = last_component path
      in if 14 \<le> length p then p else p @ replicate (14 - length p) 0x20)"

fun ls_entries :: "nat \<Rightarrow> int \<Rightarrow> u8 list \<Rightarrow> unit prog" where
  "ls_entries 0 fd path = Stuck"
| "ls_entries (Suc k) fd path =
     bindp (read_call fd 16) (\<lambda>(n, de).
     if n \<noteq> 16 then Ret ()
     else if (from_le (take 2 de) :: u16) = 0 then ls_entries k fd path
     else let buf = path @ [0x2F] @ takeWhile (\<lambda>c. c \<noteq> 0) (drop 2 de)
          in bindp (stat buf) (\<lambda>(r, st).
             case st of
               None \<Rightarrow> thenp (printf (''ls: cannot stat %s'' @ [NL]) [V_str (Some buf)]) (ls_entries k fd path)
             | Some st \<Rightarrow>
                 thenp (printf (''%s %d %d %d'' @ [NL])
                   [V_str (Some (fmtname buf)), V_int (scast (st_type st)), V_int (st_ino st), V_int (ucast (st_size st))])
                 (ls_entries k fd path)))"

definition ls :: "nat \<Rightarrow> u8 list \<Rightarrow> unit prog" where
  "ls k path =
     bindp (call (Open path O_RDONLY)) (\<lambda>fd.
     if fd < 0 then fprintf 2 (''ls: cannot open %s'' @ [NL]) [V_str (Some path)]
     else bindp (fstat_call fd) (\<lambda>(r, st).
       if r < 0 then
         thenp (fprintf 2 (''ls: cannot stat %s'' @ [NL]) [V_str (Some path)]) (thenp (call (Close fd)) (Ret ()))
       else thenp
         (if st_type st = 3 \<or> st_type st = 2 then
            printf (''%s %d %d %l'' @ [NL])
              [V_str (Some (fmtname path)), V_int (scast (st_type st)), V_int (st_ino st), V_ptr (st_size st)]
          else if st_type st = 1 then
            (if length path + 1 + 14 + 1 > 512 then printf (''ls: path too long'' @ [NL]) []
             else ls_entries k fd path)
          else Ret ())
         (thenp (call (Close fd)) (Ret ()))))"

definition ls_main :: "nat \<Rightarrow> u8 list list \<Rightarrow> unit prog" where
  "ls_main k argv =
     (if length argv < 2 then thenp (ls k [0x2E]) (Exit 0) else thenp (eachp (ls k) (tl argv)) (Exit 0))"

section \<open>mkdir, rm, ln, kill\<close>

fun mkdir_loop :: "u8 list list \<Rightarrow> unit prog" where
  "mkdir_loop [] = Ret ()"
| "mkdir_loop (a # as) =
     bindp (call (Mkdir a)) (\<lambda>r.
     if r < 0 then fprintf 2 (''mkdir: %s failed to create'' @ [NL]) [V_str (Some a)] else mkdir_loop as)"

definition mkdir_main :: "u8 list list \<Rightarrow> unit prog" where
  "mkdir_main argv =
     (if length argv < 2 then thenp (fprintf 2 (''Usage: mkdir files...'' @ [NL]) []) (Exit 1)
      else thenp (mkdir_loop (tl argv)) (Exit 0))"

fun rm_loop :: "u8 list list \<Rightarrow> unit prog" where
  "rm_loop [] = Ret ()"
| "rm_loop (a # as) =
     bindp (call (Unlink a)) (\<lambda>r.
     if r < 0 then fprintf 2 (''rm: %s failed to delete'' @ [NL]) [V_str (Some a)] else rm_loop as)"

definition rm_main :: "u8 list list \<Rightarrow> unit prog" where
  "rm_main argv =
     (if length argv < 2 then thenp (fprintf 2 (''Usage: rm files...'' @ [NL]) []) (Exit 1)
      else thenp (rm_loop (tl argv)) (Exit 0))"

definition ln_main :: "u8 list list \<Rightarrow> unit prog" where
  "ln_main argv =
     (if length argv \<noteq> 3 then thenp (fprintf 2 (''Usage: ln old new'' @ [NL]) []) (Exit 1)
      else bindp (call (Link (argv ! 1) (argv ! 2))) (\<lambda>r.
        thenp (if r < 0 then fprintf 2 (''link %s %s: failed'' @ [NL]) [V_str (Some (argv ! 1)), V_str (Some (argv ! 2))] else Ret ())
          (Exit 0)))"

definition kill_main :: "u8 list list \<Rightarrow> unit prog" where
  "kill_main argv =
     (if length argv < 2 then thenp (fprintf 2 (''usage: kill pid...'' @ [NL]) []) (Exit 1)
      else thenp (eachp (\<lambda>a. thenp (call (Kill (atoi a))) (Ret ())) (tl argv)) (Exit 0))"

section \<open>Programs that fork\<close>

definition zombie_main :: "unit prog" where
  "zombie_main = bindp (call Fork) (\<lambda>p. thenp (if p > 0 then call (Sleep 5) else Ret 0) (Exit 0))"

text \<open>\<open>init\<close> waits until its shell has exited and then starts another.\<close>

fun init_wait :: "nat \<Rightarrow> int \<Rightarrow> unit prog" where
  "init_wait 0 pid = Stuck"
| "init_wait (Suc k) pid =
     bindp (call Wait) (\<lambda>wpid.
     if wpid = pid then Ret ()
     else if wpid < 0 then thenp (printf (''init: wait returned an error'' @ [NL]) []) (Exit 1)
     else init_wait k pid)"

fun init_loop :: "nat \<Rightarrow> nat \<Rightarrow> unit prog" where
  "init_loop k 0 = Stuck"
| "init_loop k (Suc n) =
     thenp (printf (''init: starting sh'' @ [NL]) [])
     (bindp (call Fork) (\<lambda>pid.
      if pid < 0 then thenp (printf (''init: fork failed'' @ [NL]) []) (Exit 1)
      else if pid = 0 then
        thenp (call (Exec (bytes_of ''sh'') [bytes_of ''sh'']))
        (thenp (printf (''init: exec sh failed'' @ [NL]) []) (Exit 1))
      else thenp (init_wait k pid) (init_loop k n)))"

definition init_main :: "nat \<Rightarrow> nat \<Rightarrow> unit prog" where
  "init_main k n =
     thenp (bindp (call (Open (bytes_of ''console'') O_RDWR)) (\<lambda>fd.
              if fd < 0 then thenp (call (Mknod (bytes_of ''console'') 1 0)) (call (Open (bytes_of ''console'') O_RDWR)) else Ret 0))
     (thenp (call (Dup 0)) (thenp (call (Dup 0)) (init_loop k n)))"

fun stressfs_fork :: "nat \<Rightarrow> nat \<Rightarrow> nat prog" where
  "stressfs_fork 0 i = Ret i"
| "stressfs_fork (Suc k) i = bindp (call Fork) (\<lambda>p. if p > 0 then Ret i else stressfs_fork k (Suc i))"

definition stressfs_main :: "unit prog" where
  "stressfs_main =
     thenp (printf (''stressfs starting'' @ [NL]) [])
     (bindp (stressfs_fork 4 0) (\<lambda>i.
      let path = bytes_of ''stressfs'' @ [0x30 + of_nat i]; data = replicate 512 0x61
      in thenp (printf (''write %d'' @ [NL]) [V_int (of_nat i)])
         (bindp (call (Open path (O_CREATE OR O_RDWR))) (\<lambda>fd.
          thenp (eachp (\<lambda>_. thenp (call (Write fd data)) (Ret ())) [0..<20])
          (thenp (call (Close fd))
          (thenp (printf (''read'' @ [NL]) [])
          (bindp (call (Open path O_RDONLY)) (\<lambda>fd.
           thenp (eachp (\<lambda>_. thenp (read_call fd 512) (Ret ())) [0..<20])
           (thenp (call (Close fd)) (thenp (call Wait) (Exit 0)))))))))))"

definition forktest_print :: "string \<Rightarrow> unit prog" where
  "forktest_print s = thenp (call (Write 1 (bytes_of s))) (Ret ())"

text \<open>The first loop returns the number of children.\<close>

fun forktest_fork :: "nat \<Rightarrow> nat \<Rightarrow> nat prog" where
  "forktest_fork 0 n = Ret n"
| "forktest_fork (Suc k) n =
     bindp (call Fork) (\<lambda>pid. if pid < 0 then Ret n else if pid = 0 then Exit 0 else forktest_fork k (Suc n))"

definition forktest :: "unit prog" where
  "forktest =
     thenp (forktest_print (''fork test'' @ [NL]))
     (bindp (forktest_fork 1000 0) (\<lambda>n.
      if n = 1000 then thenp (forktest_print (''fork claimed to work N times!'' @ [NL])) (Exit 1)
      else thenp (eachp (\<lambda>_. bindp (call Wait) (\<lambda>r.
                    if r < 0 then thenp (forktest_print (''wait stopped early'' @ [NL])) (Exit 1) else Ret ())) [0..<n])
           (bindp (call Wait) (\<lambda>r.
            if r \<noteq> - 1 then thenp (forktest_print (''wait got too many'' @ [NL])) (Exit 1)
            else forktest_print (''fork test OK'' @ [NL])))))"

definition forktest_main :: "unit prog" where
  "forktest_main = thenp forktest (Exit 0)"

end
