(* ===== verification/Uprogs_Properties.thy ===== *)
theory Uprogs_Properties
  imports Uprogs
begin

text \<open>
  Properties of the small user programs, run on a kernel whose files behave like streams of bytes.
\<close>

section \<open>Streams\<close>

text \<open>Descriptor \<open>fd\<close> reads the bytes \<open>inp\<close>, in pieces of any size, with an empty read only at the end; a write to descriptor 1 appends
  all its bytes to \<open>out\<close>.\<close>

definition streams :: "(sysreq \<Rightarrow> 's \<Rightarrow> sysret \<times> 's) \<Rightarrow> ('s \<Rightarrow> u8 list) \<Rightarrow> ('s \<Rightarrow> u8 list) \<Rightarrow> int \<Rightarrow> bool" where
  "streams h inp out fd \<longleftrightarrow>
     (\<forall>s n. 0 < n \<longrightarrow> (\<exists>m r s'. h (Read fd n) s = (r, s') \<and> m \<le> n \<and> m \<le> length (inp s) \<and> (inp s \<noteq> [] \<longrightarrow> 0 < m) \<and> r_val r = int m
        \<and> r_data r = take m (inp s) \<and> inp s' = drop m (inp s) \<and> out s' = out s))
   \<and> (\<forall>s bs. \<exists>r s'. h (Write 1 bs) s = (r, s') \<and> r_val r = int (length bs) \<and> inp s' = inp s \<and> out s' = out s @ bs)"

lemma streams_write:
  assumes "streams h inp out fd"
  shows "\<exists>s'. runp (call (Write 1 bs)) h s = (Returned (int (length bs)), s') \<and> inp s' = inp s \<and> out s' = out s @ bs"
proof -
  obtain r s' where "h (Write 1 bs) s = (r, s')" "r_val r = int (length bs)" "inp s' = inp s" "out s' = out s @ bs"
    using assms unfolding streams_def by metis
  then show ?thesis by (simp add: call_def)
qed

lemma streams_read:
  assumes "streams h inp out fd" "0 < n"
  shows "\<exists>m s'. runp (read_call fd n) h s = (Returned (int m, take m (inp s)), s') \<and> m \<le> length (inp s) \<and> (inp s \<noteq> [] \<longrightarrow> 0 < m)
    \<and> inp s' = drop m (inp s) \<and> out s' = out s"
proof -
  obtain m r s' where "h (Read fd n) s = (r, s')" "m \<le> length (inp s)" "inp s \<noteq> [] \<longrightarrow> 0 < m" "r_val r = int m"
    "r_data r = take m (inp s)" "inp s' = drop m (inp s)" "out s' = out s"
    using assms unfolding streams_def by metis
  then show ?thesis by (intro exI [of _ m] exI [of _ s']) (simp add: read_call_def)
qed

text \<open>Programs that only write.\<close>

definition emits :: "(sysreq \<Rightarrow> 's \<Rightarrow> sysret \<times> 's) \<Rightarrow> ('s \<Rightarrow> u8 list) \<Rightarrow> ('s \<Rightarrow> u8 list) \<Rightarrow> 'a prog \<Rightarrow> 'a \<Rightarrow> u8 list \<Rightarrow> bool" where
  "emits h inp out p x cs \<longleftrightarrow> (\<forall>s. \<exists>s'. runp p h s = (Returned x, s') \<and> inp s' = inp s \<and> out s' = out s @ cs)"

lemma emits_Ret [simp]: "emits h inp out (Ret x) x []"
  by (simp add: emits_def)

lemma emits_bindp:
  assumes "emits h inp out p x cs" "emits h inp out (f x) y ds"
  shows "emits h inp out (bindp p f) y (cs @ ds)"
  unfolding emits_def
proof
  fix s
  obtain s1 where s1: "runp p h s = (Returned x, s1)" "inp s1 = inp s" "out s1 = out s @ cs" using assms(1) unfolding emits_def by blast
  obtain s2 where "runp (f x) h s1 = (Returned y, s2)" "inp s2 = inp s1" "out s2 = out s1 @ ds" using assms(2) unfolding emits_def by blast
  then show "\<exists>s'. runp (bindp p f) h s = (Returned y, s') \<and> inp s' = inp s \<and> out s' = out s @ cs @ ds"
    using s1 runp_Returned [OF s1(1), of f] by simp
qed

lemma emits_thenp: "emits h inp out p x cs \<Longrightarrow> emits h inp out q y ds \<Longrightarrow> emits h inp out (thenp p q) y (cs @ ds)"
  unfolding thenp_def by (rule emits_bindp)

lemma emits_write: "streams h inp out fd \<Longrightarrow> emits h inp out (call (Write 1 bs)) (int (length bs)) bs"
  unfolding emits_def by (intro allI streams_write)

lemma emits_putc: "streams h inp out fd \<Longrightarrow> emits h inp out (putc 1 c) () [c]"
  unfolding putc_def using emits_thenp [OF emits_write [of h inp out fd "[c]"] emits_Ret] by simp

lemma emits_puts: "streams h inp out fd \<Longrightarrow> emits h inp out (puts 1 cs) () cs"
  unfolding puts_def
proof (induction cs)
  case (Cons c cs)
  then show ?case using emits_thenp [OF emits_putc [of h inp out fd c], of "eachp (putc 1) cs" "()" cs] by simp
qed simp

section \<open>Formatted text\<close>

text \<open>What a conversion stands for, and the arguments it leaves.\<close>

definition conversion :: "u8 \<Rightarrow> vararg list \<Rightarrow> (u8 list \<times> vararg list) option" where
  "conversion c ap =
     (if c = of_char CHR ''d'' then (case ap of V_int x # ap \<Rightarrow> Some (signed_text digits 10 x True, ap) | _ \<Rightarrow> None)
      else if c = of_char CHR ''l'' then (case ap of V_ptr x # ap \<Rightarrow> Some (signed_text digits 10 (ucast x) False, ap) | _ \<Rightarrow> None)
      else if c = of_char CHR ''x'' then (case ap of V_int x # ap \<Rightarrow> Some (signed_text digits 16 x False, ap) | _ \<Rightarrow> None)
      else if c = of_char CHR ''p'' then (case ap of V_ptr x # ap \<Rightarrow> Some (bytes_of ''0x'' @ ptr_loop 16 x, ap) | _ \<Rightarrow> None)
      else if c = of_char CHR ''s'' then
        (case ap of V_str s # ap \<Rightarrow> Some (case s of None \<Rightarrow> bytes_of ''(null)'' | Some cs \<Rightarrow> takeWhile (\<lambda>c. c \<noteq> 0) cs, ap) | _ \<Rightarrow> None)
      else if c = of_char CHR ''c'' then (case ap of V_int x # ap \<Rightarrow> Some ([ucast x], ap) | _ \<Rightarrow> None)
      else if c = of_char CHR ''%'' then Some ([c], ap)
      else Some ([of_char CHR ''%'', c], ap))"

fun format_text :: "u8 list \<Rightarrow> vararg list \<Rightarrow> u8 list option" where
  "format_text [] ap = Some []"
| "format_text [c] ap = (if c = 0 \<or> c = of_char CHR ''%'' then Some [] else Some [c])"
| "format_text (c # d # fmt) ap =
     (if c = 0 then Some []
      else if c \<noteq> of_char CHR ''%'' then map_option ((#) c) (format_text (d # fmt) ap)
      else if d = 0 then Some []
      else case conversion d ap of None \<Rightarrow> None | Some (cs, ap) \<Rightarrow> map_option ((@) cs) (format_text fmt ap))"

lemma emits_printint:
  assumes "streams h inp out fd" "base = 10 \<or> base = 16"
  shows "emits h inp out (printint 1 x base sign) () (signed_text digits (unat base) x sign)"
  unfolding printint_def using emits_puts [OF assms(1)] int_chars_eq [OF assms(2), of digits x sign] by simp

lemma emits_convert:
  assumes S: "streams h inp out fd" and c: "conversion c ap = Some (cs, ap')"
  shows "emits h inp out (convert 1 c ap) ap' cs"
proof -
  have one: "emits h inp out (thenp p (Ret ap')) ap' ds" if "emits h inp out p () ds" for p ds
    using emits_thenp [OF that emits_Ret, of ap'] by simp
  have ptr: "emits h inp out (printptr 1 x) () (bytes_of ''0x'' @ ptr_loop 16 x)" for x
    unfolding printptr_def using emits_thenp [OF emits_putc [OF S] emits_thenp [OF emits_putc [OF S] emits_puts [OF S]]] by (simp add: bytes_of_def)
  have two: "emits h inp out (thenp (putc 1 a) (thenp (putc 1 b) (Ret ap'))) ap' [a, b]" for a b
    using emits_thenp [OF emits_putc [OF S] one [OF emits_putc [OF S]], of a b] by simp
  show ?thesis
    using c one [OF emits_printint [OF S, of 10]] one [OF emits_printint [OF S, of 16]] one [OF emits_puts [OF S]] one [OF emits_putc [OF S]]
      one [OF ptr] two
    unfolding conversion_def by (auto split: if_splits list.splits vararg.splits)
qed

lemma emits_vprintf:
  assumes S: "streams h inp out fd" and "format_text fmt ap = Some cs"
  shows "emits h inp out (vprintf_loop 1 False fmt ap) () cs"
  using assms(2)
proof (induction fmt ap arbitrary: cs rule: format_text.induct)
  case (2 c ap)
  then show ?case using emits_thenp [OF emits_putc [OF S] emits_Ret, of c "()"] by (auto split: if_splits)
next
  case (3 c d fmt ap)
  show ?case
  proof (cases "c = 0 \<or> c = of_char CHR ''%'' \<and> d = 0")
    case True
    then show ?thesis using 3(3) by auto
  next
    case False
    show ?thesis
    proof (cases "c = of_char CHR ''%''")
      case True
      then obtain ds ap' es where e: "conversion d ap = Some (ds, ap')" "format_text fmt ap' = Some es" "cs = ds @ es"
        using 3(3) False by (auto split: option.splits)
      have "emits h inp out (vprintf_loop 1 False fmt ap') () es" using 3(2) [OF _ _ _ e(1) refl e(2)] False True by auto
      then show ?thesis using emits_bindp [OF emits_convert [OF S e(1)], of "vprintf_loop 1 False fmt"] False True e(3) by simp
    next
      case n: False
      then obtain es where e: "format_text (d # fmt) ap = Some es" "cs = c # es" using 3(3) False by auto
      then have "emits h inp out (vprintf_loop 1 False (d # fmt) ap) () es" using 3(1) n False by blast
      then show ?thesis using emits_thenp [OF emits_putc [OF S], of _ "()" es c] n False e(2) by simp
    qed
  qed
qed simp

lemma emits_printf: "streams h inp out fd \<Longrightarrow> format_text (bytes_of fmt) ap = Some cs \<Longrightarrow> emits h inp out (printf fmt ap) () cs"
  by (simp add: printf_def vprintf_def emits_vprintf)

section \<open>wc\<close>

definition blank :: "u8 \<Rightarrow> bool" where
  "blank b \<longleftrightarrow> b \<in> set wc_space"

text \<open>The words of a text start where a byte that is not blank follows a blank or the beginning.\<close>

definition word_starts :: "u8 list \<Rightarrow> nat set" where
  "word_starts bs = {i. i < length bs \<and> \<not> blank (bs ! i) \<and> (i = 0 \<or> blank (bs ! (i - 1)))}"

lemma wc_char_eq:
  "wc_char b \<lparr>wc_l = l, wc_w = w, wc_c = c, wc_inword = i\<rparr> =
     \<lparr>wc_l = (if b = 0x0A then l + 1 else l), wc_w = (if \<not> blank b \<and> \<not> i then w + 1 else w), wc_c = c + 1, wc_inword = (\<not> blank b)\<rparr>"
proof -
  have "strchr wc_space b = None \<longleftrightarrow> \<not> blank b" by (auto simp: wc_space_def blank_def)
  then show ?thesis by (auto simp: wc_char_def Let_def)
qed

lemma word_starts_snoc:
  "word_starts (bs @ [b]) = (if \<not> blank b \<and> (bs = [] \<or> blank (last bs)) then insert (length bs) (word_starts bs) else word_starts bs)"
  by (cases "bs = []") (auto simp: word_starts_def nth_append last_conv_nth less_Suc_eq)

lemma wc_counts:
  "fold wc_char bs \<lparr>wc_l = 0, wc_w = 0, wc_c = 0, wc_inword = False\<rparr> =
     \<lparr>wc_l = of_nat (count_list bs 0x0A), wc_w = of_nat (card (word_starts bs)), wc_c = of_nat (length bs),
      wc_inword = (bs \<noteq> [] \<and> \<not> blank (last bs))\<rparr>"
proof (induction bs rule: rev_induct)
  case Nil
  then show ?case by (simp add: word_starts_def)
next
  case (snoc b bs)
  have f: "finite (word_starts bs)" "length bs \<notin> word_starts bs" by (auto simp: word_starts_def)
  then show ?case using snoc by (auto simp: wc_char_eq word_starts_snoc)
qed

lemma wc_loop_counts:
  assumes S: "streams h inp out fd" and k: "length (inp s) < k"
  shows "\<exists>s'. runp (wc_loop k fd c) h s = (Returned (0, fold wc_char (inp s) c), s') \<and> out s' = out s"
  using k
proof (induction k arbitrary: s c)
  case (Suc k)
  obtain m s1 where m: "runp (read_call fd 512) h s = (Returned (int m, take m (inp s)), s1)" "m \<le> length (inp s)" "inp s \<noteq> [] \<longrightarrow> 0 < m"
    "inp s1 = drop m (inp s)" "out s1 = out s" using streams_read [OF S, of 512 s] by (auto simp del: runp.simps)
  show ?case
  proof (cases "m = 0")
    case True
    then have "inp s = []" using m(3) by auto
    then show ?thesis using m(5) True by (simp add: runp_bindp m(1))
  next
    case False
    then have "length (inp s1) < k" using m(2,4) Suc.prems by simp
    then obtain s2 where "runp (wc_loop k fd (fold wc_char (take m (inp s)) c)) h s1 = (Returned (0, fold wc_char (inp s1) (fold wc_char (take m (inp s)) c)), s2)"
      "out s2 = out s1" using Suc.IH by blast
    moreover have "fold wc_char (inp s1) (fold wc_char (take m (inp s)) c) = fold wc_char (inp s) c"
      unfolding m(4) by (metis append_take_drop_id fold_append o_apply)
    ultimately show ?thesis using m(5) False by (simp add: runp_bindp m(1))
  qed
qed simp

definition decimal :: "nat \<Rightarrow> u8 list" where
  "decimal n = map ((!) digits) (rev (nat_digits 10 n))"

lemma signed_text_decimal: "n < 2 ^ 31 \<Longrightarrow> signed_text digits 10 (of_nat n) True = decimal n"
  by (simp add: signed_text_def decimal_def sint_small unat_of_nat)

text \<open>C34: \<open>wc\<close> counts.  On a descriptor that delivers a text of less than 2 GB in pieces of any size, \<open>wc\<close> returns after at most one
  read more than there are bytes, having printed in decimal the number of newlines, of words and of bytes, and the name.\<close>

theorem wc_correct:
  assumes "streams h inp out fd" "length (inp s) < k" "length (inp s) < 2 ^ 31" "0 \<notin> set name"
  shows "\<exists>s'. runp (wc k fd name) h s = (Returned (), s')
    \<and> out s' = out s @ decimal (count_list (inp s) 0x0A) @ [0x20] @ decimal (card (word_starts (inp s))) @ [0x20] @ decimal (length (inp s)) @ [0x20] @ name @ [0x0A]"
proof -
  note S = assms(1)
  let ?l = "count_list (inp s) 0x0A" and ?w = "card (word_starts (inp s))" and ?c = "length (inp s)"
  have "?l \<le> ?c" by (rule count_le_length)
  moreover have "?w \<le> card {..<?c}" by (rule card_mono) (auto simp: word_starts_def)
  ultimately have b: "?l < 2 ^ 31" "?w < 2 ^ 31" using assms(3) by simp_all
  obtain s1 where s1: "runp (wc_loop k fd \<lparr>wc_l = 0, wc_w = 0, wc_c = 0, wc_inword = False\<rparr>) h s =
      (Returned (0, fold wc_char (inp s) \<lparr>wc_l = 0, wc_w = 0, wc_c = 0, wc_inword = False\<rparr>), s1)" "out s1 = out s"
    using wc_loop_counts [OF S assms(2)] by blast
  have "takeWhile (\<lambda>c. c \<noteq> 0) name = name" using assms(4) by (auto simp: takeWhile_eq_all_conv)
  then have f: "format_text (bytes_of (''%d %d %d %s'' @ [NL])) [V_int (of_nat ?l), V_int (of_nat ?w), V_int (of_nat ?c), V_str (Some name)] =
      Some (decimal ?l @ [0x20] @ decimal ?w @ [0x20] @ decimal ?c @ [0x20] @ name @ [0x0A])"
    using signed_text_decimal [OF b(1)] signed_text_decimal [OF b(2)] signed_text_decimal [OF assms(3)]
    by (simp add: bytes_of_def conversion_def)
  obtain s2 where "runp (printf (''%d %d %d %s'' @ [NL]) [V_int (of_nat ?l), V_int (of_nat ?w), V_int (of_nat ?c), V_str (Some name)]) h s1 = (Returned (), s2)"
      "out s2 = out s1 @ decimal ?l @ [0x20] @ decimal ?w @ [0x20] @ decimal ?c @ [0x20] @ name @ [0x0A]"
    using emits_printf [OF S f] unfolding emits_def by blast
  then show ?thesis using s1(2) by (simp add: wc_def runp_bindp s1(1) wc_counts)
qed

text \<open>A kernel with one input and one output.\<close>

definition demo_io :: "sysreq \<Rightarrow> u8 list \<times> u8 list \<Rightarrow> sysret \<times> (u8 list \<times> u8 list)" where
  "demo_io r s =
     (let ret = \<lambda>v d. \<lparr>r_val = v, r_data = d, r_fds = (0, 0), r_stat = \<lparr>st_dev = 0, st_ino = 0, st_type = 0, st_nlink = 0, st_size = 0\<rparr>\<rparr>
      in case r of
           Read fd n \<Rightarrow> (ret (int (min n (length (fst s)))) (take n (fst s)), (drop n (fst s), snd s))
         | Write fd bs \<Rightarrow> (ret (int (length bs)) [], (fst s, snd s @ bs))
         | _ \<Rightarrow> (ret (- 1) [], s))"

lemma demo_streams: "streams demo_io fst snd fd"
proof -
  have "\<exists>m r s'. demo_io (Read fd n) s = (r, s') \<and> m \<le> n \<and> m \<le> length (fst s) \<and> (fst s \<noteq> [] \<longrightarrow> 0 < m) \<and> r_val r = int m
      \<and> r_data r = take m (fst s) \<and> fst s' = drop m (fst s) \<and> snd s' = snd s" if "0 < n" for n s
    using that by (intro exI [of _ "min n (length (fst s))"]) (auto simp: demo_io_def Let_def min_def)
  then show ?thesis unfolding streams_def by (auto simp: demo_io_def Let_def)
qed

theorem wc_correct_witness:
  "\<exists>s'. runp (wc 20 0 (bytes_of ''x'')) demo_io (bytes_of (''ab cd'' @ [NL]), []) = (Returned (), s') \<and> snd s' = bytes_of (''1 2 6 x'' @ [NL])"
proof -
  have w: "word_starts (bytes_of (''ab cd'' @ [NL])) = {0, 3}"
    by (auto simp: word_starts_def blank_def wc_space_def bytes_of_def nth_Cons' less_Suc_eq split: if_splits)
  have "decimal 1 = bytes_of ''1''" "decimal 2 = bytes_of ''2''" "decimal 6 = bytes_of ''6''"
    by (simp_all add: decimal_def nat_digits.simps digits_def bytes_of_def)
  note dec = this
  let ?B = "bytes_of (''ab cd'' @ [NL])"
  have c: "count_list ?B 0x0A = 1" "card (word_starts ?B) = 2" "length ?B = 6" unfolding w by (simp_all add: bytes_of_def)
  have "length ?B < 20" "length ?B < 2 ^ 31" "0 \<notin> set (bytes_of ''x'')" by (simp_all add: bytes_of_def)
  then obtain s' where "runp (wc 20 0 (bytes_of ''x'')) demo_io (?B, []) = (Returned (), s')"
      "snd s' = [] @ bytes_of ''1'' @ [0x20] @ bytes_of ''2'' @ [0x20] @ bytes_of ''6'' @ [0x20] @ bytes_of ''x'' @ [0x0A]"
    using wc_correct [OF demo_streams, of "(?B, [])" 20 "bytes_of ''x''" 0] unfolding fst_conv snd_conv c dec by blast
  then show ?thesis by (intro exI [of _ s']) (simp add: bytes_of_def)
qed

text \<open>C35: \<open>cat\<close> copies.  On a descriptor that delivers a text in pieces of any size, \<open>cat\<close> returns after at most one read more than there
  are bytes, having written exactly the text.\<close>

theorem cat_correct:
  assumes S: "streams h inp out fd" and k: "length (inp s) < k"
  shows "\<exists>s'. runp (cat k fd) h s = (Returned (), s') \<and> out s' = out s @ inp s \<and> inp s' = []"
  using k
proof (induction k arbitrary: s)
  case (Suc k)
  obtain m s1 where m: "runp (read_call fd 512) h s = (Returned (int m, take m (inp s)), s1)" "m \<le> length (inp s)" "inp s \<noteq> [] \<longrightarrow> 0 < m"
    "inp s1 = drop m (inp s)" "out s1 = out s" using streams_read [OF S, of 512 s] by (auto simp del: runp.simps)
  show ?case
  proof (cases "m = 0")
    case True
    then have "inp s = []" using m(3) by auto
    then show ?thesis using m(4,5) True by (simp add: runp_bindp m(1))
  next
    case False
    obtain s2 where s2: "runp (call (Write 1 (take m (inp s)))) h s1 = (Returned (int m), s2)" "inp s2 = inp s1" "out s2 = out s @ take m (inp s)"
      using streams_write [OF S, of "take m (inp s)" s1] m(2,5) by auto
    have "length (inp s2) < k" using m(2,4) s2(2) Suc.prems False by simp
    then obtain s3 where "runp (cat k fd) h s2 = (Returned (), s3)" "out s3 = out s2 @ inp s2" "inp s3 = []" using Suc.IH by blast
    then show ?thesis using s2(2,3) m(4) False by (simp add: runp_bindp m(1) s2(1))
  qed
qed simp

theorem cat_correct_witness:
  "\<exists>s'. runp (cat 4 0) demo_io ([1, 2, 3], [9]) = (Returned (), s') \<and> snd s' = [9, 1, 2, 3]"
  using cat_correct [OF demo_streams, of "([1, 2, 3], [9])" 4 0] by auto

end
