(* ===== verification/Sh.thy ===== *)
theory Sh
  imports Uprintf
begin

text \<open>
  \<^verbatim>\<open>user/sh.c\<close>: the shell.  A command line is the list \<open>t\<close> of its bytes without the terminating NUL, a pointer into it is a
  position, and \<open>at t i\<close> is the byte a pointer reads, the NUL at the end included.  The parser works on the result type of the kernel
  model with the position as its state: \<open>Panic\<close> is the shell's \<open>panic\<close>, \<open>Hang\<close> a recursion deeper than its bound.  Parsed
  commands hold the begin and end of each string, as \<open>argv\<close> and \<open>eargv\<close> do (\<open>range cmd\<close>); \<open>malloc\<close> is taken to succeed.
\<close>

section \<open>Commands\<close>

type_synonym range = "nat \<times> nat"

datatype 's cmd =
    ExecCmd "'s list"
  | RedirCmd "'s cmd" 's u32 int
  | PipeCmd "'s cmd" "'s cmd"
  | ListCmd "'s cmd" "'s cmd"
  | BackCmd "'s cmd"

definition MAXARGS :: nat where "MAXARGS = 10"

section \<open>Tokens\<close>

definition whitespace :: "u8 list" where
  "whitespace = [0x20, 0x09, 0x0D, 0x0A, 0x0B]"

definition symbols :: "u8 list" where
  "symbols = bytes_of ''<|>&;()''"

definition at :: "u8 list \<Rightarrow> nat \<Rightarrow> u8" where
  "at t i = (if i < length t then t ! i else 0)"

function skip_ws :: "u8 list \<Rightarrow> nat \<Rightarrow> nat" where
  "skip_ws t i = (if i < length t \<and> strchr whitespace (t ! i) \<noteq> None then skip_ws t (Suc i) else i)"
  by pat_completeness auto
termination
  by (relation "measure (\<lambda>(t, i). length t - i)") auto

function skip_word :: "u8 list \<Rightarrow> nat \<Rightarrow> nat" where
  "skip_word t i =
     (if i < length t \<and> strchr whitespace (t ! i) = None \<and> strchr symbols (t ! i) = None then skip_word t (Suc i) else i)"
  by pat_completeness auto
termination
  by (relation "measure (\<lambda>(t, i). length t - i)") auto

declare skip_ws.simps [simp del] skip_word.simps [simp del]

text \<open>The token, its range, and the position behind it and the blanks that follow.\<close>

definition gettoken :: "u8 list \<Rightarrow> nat \<Rightarrow> u8 \<times> range \<times> nat" where
  "gettoken t i =
     (let q = skip_ws t i;
          c = at t q;
          (ret, s) =
            (if c = 0 then (c, q)
             else if c \<in> {of_char CHR ''|'', of_char CHR ''('', of_char CHR '')'', of_char CHR '';'', of_char CHR ''&'', of_char CHR ''<''}
             then (c, q + 1)
             else if c = of_char CHR ''>'' then (if at t (q + 1) = of_char CHR ''>'' then (of_char CHR ''+'', q + 2) else (c, q + 1))
             else (of_char CHR ''a'', skip_word t q))
      in (ret, (q, s), skip_ws t s))"

definition peek :: "u8 list \<Rightarrow> string \<Rightarrow> nat \<Rightarrow> bool \<times> nat" where
  "peek t toks i = (let s = skip_ws t i in (at t s \<noteq> 0 \<and> strchr (bytes_of toks) (at t s) \<noteq> None, s))"

text \<open>\<open>gettoken\<close> where the caller only wants to move on.\<close>

definition skip_token :: "u8 list \<Rightarrow> nat \<Rightarrow> nat" where
  "skip_token t i = snd (snd (gettoken t i))"

subsection \<open>Progress\<close>

lemma skip_ws_bounds: "i \<le> skip_ws t i" "i \<le> length t \<Longrightarrow> skip_ws t i \<le> length t"
proof -
  show "i \<le> skip_ws t i"
    by (induction t i rule: skip_ws.induct) (metis Suc_leD le_refl skip_ws.simps)
  show "skip_ws t i \<le> length t" if "i \<le> length t" using that
    by (induction t i rule: skip_ws.induct) (metis Suc_leI skip_ws.simps)
qed

lemma skip_word_bounds: "i \<le> skip_word t i" "i \<le> length t \<Longrightarrow> skip_word t i \<le> length t"
proof -
  show "i \<le> skip_word t i"
    by (induction t i rule: skip_word.induct) (metis Suc_leD le_refl skip_word.simps)
  show "skip_word t i \<le> length t" if "i \<le> length t" using that
    by (induction t i rule: skip_word.induct) (metis Suc_leI skip_word.simps)
qed

lemma skip_ws_stop: "skip_ws t i < length t \<Longrightarrow> strchr whitespace (t ! skip_ws t i) = None"
  by (induction t i rule: skip_ws.induct) (metis skip_ws.simps)

lemma strchr_iff: "0 \<notin> set xs \<Longrightarrow> strchr xs c = None \<longleftrightarrow> c \<notin> set xs"
  by (induction xs) auto

lemma symbols_set: "strchr symbols c = None \<longleftrightarrow> c \<notin> set symbols" "set symbols = of_char ` {CHR ''<'', CHR ''|'', CHR ''>'', CHR ''&'', CHR '';'', CHR ''('', CHR '')''}"
proof -
  have "0 \<notin> set symbols" by (simp add: symbols_def bytes_of_def)
  then show "strchr symbols c = None \<longleftrightarrow> c \<notin> set symbols" by (rule strchr_iff)
qed (simp add: symbols_def bytes_of_def)

lemma at_nonzero: "at t i \<noteq> 0 \<Longrightarrow> i < length t \<and> at t i = t ! i"
  by (simp add: at_def split: if_splits)

text \<open>A token that is not the end of the line is not empty.\<close>

lemma gettoken_bounds:
  assumes "gettoken t i = (tok, (q, e), j)" "i \<le> length t"
  shows "q = skip_ws t i" "i \<le> q" "q \<le> e" "e \<le> j" "j \<le> length t" "e \<le> length t" "at t q \<noteq> 0 \<Longrightarrow> q < e"
proof -
  show q: "q = skip_ws t i" using assms(1) by (auto simp: gettoken_def Let_def split: prod.splits)
  then show "i \<le> q" by (simp add: skip_ws_bounds)
  have ql: "q \<le> length t" using q assms(2) by (simp add: skip_ws_bounds)
  have e: "q \<le> e \<and> e \<le> length t \<and> (at t q \<noteq> 0 \<longrightarrow> q < e)"
  proof (cases "at t q = 0")
    case True
    then show ?thesis using assms(1) ql q by (auto simp: gettoken_def Let_def)
  next
    case False
    then have c: "q < length t" "at t q = t ! q" using at_nonzero by blast+
    have "q < skip_word t q" if "at t q \<notin> set symbols"
    proof -
      have "strchr whitespace (t ! q) = None" using skip_ws_stop [of t i] c q by simp
      then have "skip_word t q = skip_word t (Suc q)" using that c by (subst skip_word.simps) (simp add: symbols_set(1))
      then show ?thesis using skip_word_bounds(1) [of "Suc q" t] by simp
    qed
    moreover have "skip_word t q \<le> length t" using ql by (simp add: skip_word_bounds)
    ultimately show ?thesis using assms(1) c False q at_nonzero [of t "q + 1"]
      by (auto simp: gettoken_def Let_def symbols_set(2) split: if_splits)
  qed
  then show "q \<le> e" "e \<le> length t" "at t q \<noteq> 0 \<Longrightarrow> q < e" by blast+
  have "j = skip_ws t e" using assms(1) by (auto simp: gettoken_def Let_def split: prod.splits)
  then show "e \<le> j" "j \<le> length t" using e by (simp_all add: skip_ws_bounds)
qed

lemma peek_bounds:
  assumes "peek t toks i = (b, j)" "i \<le> length t"
  shows "j = skip_ws t i" "i \<le> j" "j \<le> length t" "b \<Longrightarrow> at t j \<noteq> 0"
  using assms skip_ws_bounds by (auto simp: peek_def Let_def)

lemma skip_ws_idem [simp]: "skip_ws t (skip_ws t i) = skip_ws t i"
proof -
  have "\<not> (skip_ws t i < length t \<and> strchr whitespace (t ! skip_ws t i) \<noteq> None)" using skip_ws_stop [of t i] by auto
  then show ?thesis by (subst skip_ws.simps) auto
qed

lemma skip_token_progress:
  assumes "peek t toks i = (True, j)" "i \<le> length t"
  shows "j < skip_token t j" "skip_token t j \<le> length t" "i \<le> j"
proof -
  note p = peek_bounds [OF assms]
  obtain tok q e k where g: "gettoken t j = (tok, (q, e), k)" by (metis prod_cases3 surj_pair)
  note b = gettoken_bounds [OF g p(3)]
  have "q = j" using b(1) p(1) by simp
  then show "j < skip_token t j" "skip_token t j \<le> length t" "i \<le> j" using b p(2,4) g by (auto simp: skip_token_def)
qed

lemma redirs_progress:
  assumes "peek t toks i = (True, j)" "gettoken t j = (tok, r, k)" "gettoken t k = (tok', r', l)" "\<not> length t < i"
  shows "i < l \<and> l \<le> length t"
proof -
  have i: "i \<le> length t" using assms(4) by simp
  have k: "k = skip_token t j" by (simp add: skip_token_def assms(2))
  note p = skip_token_progress [OF assms(1) i, folded k]
  obtain q e where "r' = (q, e)" by (cases r')
  then show ?thesis using gettoken_bounds [of t k tok' q e l] assms(3) p by auto
qed

lemma back_progress:
  assumes "peek t toks i = (True, j)" "\<not> length t < i"
  shows "i < skip_token t j \<and> skip_token t j \<le> length t"
  using skip_token_progress [OF assms(1)] assms(2) by auto

section \<open>The parser\<close>

type_synonym 's redir = "'s \<times> u32 \<times> int"

definition redircmds :: "'s cmd \<Rightarrow> 's redir list \<Rightarrow> 's cmd" where
  "redircmds cmd rs = foldl (\<lambda>c (r, mode, fd). RedirCmd c r mode fd) cmd rs"

definition redir_of :: "u8 \<Rightarrow> 's \<Rightarrow> 's redir list" where
  "redir_of tok r =
     (if tok = of_char CHR ''<'' then [(r, O_RDONLY, 0)]
      else if tok = of_char CHR ''>'' then [(r, O_WRONLY OR O_CREATE OR O_TRUNC, 1)]
      else if tok = of_char CHR ''+'' then [(r, O_WRONLY OR O_CREATE, 1)]
      else [])"

text \<open>\<open>parseredirs\<close>, with the redirections it wraps around the command as a list, innermost first.  The guard on the position holds
  for every pointer into the line.\<close>

function parseredirs :: "u8 list \<Rightarrow> nat \<Rightarrow> (range redir list, unit, nat) res" where
  "parseredirs t i =
     (if length t < i then Hang
      else let (b, i) = peek t ''<>'' i
      in if b then
           let (tok, _, i) = gettoken t i; (tok', r, i) = gettoken t i
           in if tok' \<noteq> of_char CHR ''a'' then Panic ''missing file for redirection''
              else bindr (parseredirs t i) (\<lambda>rs i. Ok (redir_of tok r @ rs) i)
         else Ok [] i)"
  by pat_completeness auto
termination
proof (relation "measure (\<lambda>(t, i). length t - i)")
  fix t i b j tok r k tok' r' l x y z w xa xb
  assume "\<not> length t < i" "x = peek t ''<>'' i" "(b, j) = x" b "y = gettoken t j" "(tok, z) = y" "(r, k) = z" "w = gettoken t k"
    "(tok', xa) = w" "(r', l) = xa" "\<not> tok' \<noteq> of_char CHR ''a''"
  then show "((t, l), t, i) \<in> measure (\<lambda>(t, i). length t - i)" using redirs_progress [of t "''<>''" i j tok r k tok' r' l] by auto
qed simp

declare parseredirs.simps [simp del]

text \<open>The loop over the arguments, with room for \<open>k\<close> more of them.\<close>

fun parseargs :: "u8 list \<Rightarrow> nat \<Rightarrow> range list \<Rightarrow> range redir list \<Rightarrow> nat \<Rightarrow> (range cmd, unit, nat) res" where
  "parseargs t 0 args rs i = Panic ''too many args''"
| "parseargs t (Suc k) args rs i =
     (let (b, i) = peek t ''|)&;'' i
      in if b then Ok (redircmds (ExecCmd args) rs) i
         else let (tok, r, i) = gettoken t i
         in if tok = 0 then Ok (redircmds (ExecCmd args) rs) i
            else if tok \<noteq> of_char CHR ''a'' then Panic ''syntax''
            else if k = 0 then Panic ''too many args''
            else bindr (parseredirs t i) (\<lambda>rs' i. parseargs t k (args @ [r]) (rs @ rs') i))"

function parseback :: "u8 list \<Rightarrow> range cmd \<Rightarrow> nat \<Rightarrow> range cmd \<times> nat" where
  "parseback t cmd i =
     (if length t < i then (cmd, i)
      else let (b, i) = peek t ''&'' i in if b then parseback t (BackCmd cmd) (skip_token t i) else (cmd, i))"
  by pat_completeness auto
termination
  by (relation "measure (\<lambda>(t, cmd, i). length t - i)") (auto dest!: back_progress [OF sym])

declare parseback.simps [simp del]

text \<open>The recursive descent; \<open>n\<close> bounds its depth.\<close>

fun parseline :: "nat \<Rightarrow> u8 list \<Rightarrow> nat \<Rightarrow> (range cmd, unit, nat) res"
  and parsepipe :: "nat \<Rightarrow> u8 list \<Rightarrow> nat \<Rightarrow> (range cmd, unit, nat) res"
  and parseexec :: "nat \<Rightarrow> u8 list \<Rightarrow> nat \<Rightarrow> (range cmd, unit, nat) res"
  and parseblock :: "nat \<Rightarrow> u8 list \<Rightarrow> nat \<Rightarrow> (range cmd, unit, nat) res" where
  "parseline 0 t i = Hang"
| "parseline (Suc n) t i =
     bindr (parsepipe n t i) (\<lambda>cmd i.
     let (cmd, i) = parseback t cmd i; (b, i) = peek t '';'' i
     in if b then bindr (parseline n t (skip_token t i)) (\<lambda>r i. Ok (ListCmd cmd r) i) else Ok cmd i)"
| "parsepipe 0 t i = Hang"
| "parsepipe (Suc n) t i =
     bindr (parseexec n t i) (\<lambda>cmd i.
     let (b, i) = peek t ''|'' i
     in if b then bindr (parsepipe n t (skip_token t i)) (\<lambda>r i. Ok (PipeCmd cmd r) i) else Ok cmd i)"
| "parseexec 0 t i = Hang"
| "parseexec (Suc n) t i =
     (let (b, i) = peek t ''('' i
      in if b then parseblock n t i
         else bindr (parseredirs t i) (\<lambda>rs i. parseargs t MAXARGS [] rs i))"
| "parseblock 0 t i = Hang"
| "parseblock (Suc n) t i =
     (let (b, i) = peek t ''('' i
      in if \<not> b then Panic ''parseblock''
         else bindr (parseline n t (skip_token t i)) (\<lambda>cmd i.
           let (b, i) = peek t '')'' i
           in if \<not> b then Panic ''syntax - missing )''
              else bindr (parseredirs t (skip_token t i)) (\<lambda>rs i. Ok (redircmds cmd rs) i)))"

text \<open>The line up to its end or the leftovers.\<close>

definition parse_text :: "u8 list \<Rightarrow> (range cmd, unit, nat) res" where
  "parse_text t = bindr (parseline (4 * length t + 4) t 0) (\<lambda>cmd i. Ok cmd (snd (peek t [] i)))"

section \<open>The strings of a command\<close>

text \<open>\<open>nulterminate\<close> on the line with its NUL.\<close>

definition end_strings :: "range list \<Rightarrow> u8 list \<Rightarrow> u8 list" where
  "end_strings rs buf = fold (\<lambda>(q, e) buf. buf[e := 0]) rs buf"

primrec nulterminate :: "range cmd \<Rightarrow> u8 list \<Rightarrow> u8 list" where
  "nulterminate (ExecCmd rs) buf = end_strings rs buf"
| "nulterminate (RedirCmd cmd r mode fd) buf = end_strings [r] (nulterminate cmd buf)"
| "nulterminate (PipeCmd l r) buf = nulterminate r (nulterminate l buf)"
| "nulterminate (ListCmd l r) buf = nulterminate r (nulterminate l buf)"
| "nulterminate (BackCmd cmd) buf = nulterminate cmd buf"

definition string_at :: "u8 list \<Rightarrow> range \<Rightarrow> u8 list" where
  "string_at buf r = takeWhile (\<lambda>c. c \<noteq> 0) (drop (fst r) buf)"

section \<open>Running commands\<close>

definition panic :: "string \<Rightarrow> 'a prog" where
  "panic s = thenp (fprintf 2 (''%s'' @ [NL]) [V_str (Some (bytes_of s))]) (Exit 1)"

definition fork1 :: "int prog" where
  "fork1 = bindp (call Fork) (\<lambda>pid. if pid = - 1 then panic ''fork'' else Ret pid)"

primrec runcmd :: "u8 list \<Rightarrow> range cmd \<Rightarrow> unit prog" where
  "runcmd buf (ExecCmd rs) =
     (if rs = [] then Exit 1
      else thenp (call (Exec (string_at buf (hd rs)) (map (string_at buf) rs)))
           (thenp (fprintf 2 (''exec %s failed'' @ [NL]) [V_str (Some (string_at buf (hd rs)))]) (Exit 0)))"
| "runcmd buf (RedirCmd cmd r mode fd) =
     thenp (call (Close fd))
     (bindp (call (Open (string_at buf r) mode)) (\<lambda>f.
      if f < 0 then thenp (fprintf 2 (''open %s failed'' @ [NL]) [V_str (Some (string_at buf r))]) (Exit 1)
      else runcmd buf cmd))"
| "runcmd buf (ListCmd l r) =
     bindp fork1 (\<lambda>pid. if pid = 0 then runcmd buf l else thenp (call Wait) (runcmd buf r))"
| "runcmd buf (PipeCmd l r) =
     bindp pipe_call (\<lambda>(v, p0, p1).
     if v < 0 then panic ''pipe''
     else bindp fork1 (\<lambda>pid.
       if pid = 0 then
         thenp (call (Close 1)) (thenp (call (Dup p1)) (thenp (call (Close p0)) (thenp (call (Close p1)) (runcmd buf l))))
       else bindp fork1 (\<lambda>pid.
         if pid = 0 then
           thenp (call (Close 0)) (thenp (call (Dup p0)) (thenp (call (Close p0)) (thenp (call (Close p1)) (runcmd buf r))))
         else thenp (call (Close p0)) (thenp (call (Close p1)) (thenp (call Wait) (thenp (call Wait) (Exit 0)))))))"
| "runcmd buf (BackCmd cmd) = bindp fork1 (\<lambda>pid. if pid = 0 then runcmd buf cmd else Exit 0)"

text \<open>\<open>parsecmd\<close> returns the command and the line with its strings terminated.\<close>

definition parsecmd :: "u8 list \<Rightarrow> (range cmd \<times> u8 list) prog" where
  "parsecmd t =
     (case parse_text t of
        Ok cmd i \<Rightarrow>
          if i \<noteq> length t
          then thenp (fprintf 2 (''leftovers: %s'' @ [NL]) [V_str (Some (drop i t))]) (panic ''syntax'')
          else Ret (cmd, nulterminate cmd (t @ [0]))
      | Panic msg \<Rightarrow> panic msg
      | _ \<Rightarrow> Stuck)"

definition getcmd :: "nat \<Rightarrow> u8 list option prog" where
  "getcmd nbuf =
     thenp (call (Write 2 (bytes_of ''$ '')))
     (bindp (gets nbuf) (\<lambda>buf.
      let t = takeWhile (\<lambda>c. c \<noteq> 0) buf in Ret (if t = [] then None else Some t)))"

primrec open_console :: "nat \<Rightarrow> unit prog" where
  "open_console 0 = Stuck"
| "open_console (Suc k) =
     bindp (call (Open (bytes_of ''console'') O_RDWR)) (\<lambda>fd.
     if 0 \<le> fd then (if 3 \<le> fd then thenp (call (Close fd)) (Ret ()) else open_console k) else Ret ())"

primrec command_loop :: "nat \<Rightarrow> unit prog" where
  "command_loop 0 = Stuck"
| "command_loop (Suc k) =
     bindp (getcmd 100) (\<lambda>line.
     case line of
       None \<Rightarrow> Exit 0
     | Some t \<Rightarrow>
         if take 3 t = bytes_of ''cd '' then
           let dir = drop 3 (butlast t)
           in bindp (call (Chdir dir)) (\<lambda>r.
              thenp (if r < 0 then fprintf 2 (''cannot cd %s'' @ [NL]) [V_str (Some dir)] else Ret ()) (command_loop k))
         else bindp fork1 (\<lambda>pid.
              if pid = 0 then bindp (parsecmd t) (\<lambda>(cmd, buf). runcmd buf cmd)
              else thenp (call Wait) (command_loop k)))"

text \<open>The kernel hands out the lowest free descriptor, so the console is opened at most four times.\<close>

definition sh_main :: "nat \<Rightarrow> unit prog" where
  "sh_main k = thenp (open_console 4) (command_loop k)"

end
