(* ===== verification/Sh_Facts.thy ===== *)
theory Sh_Facts
  imports Sh
begin

text \<open>
  Facts about the parser of the shell: it ends, its pointers stay inside the line, and what it takes for a string is a maximal run
  of word characters.
\<close>

section \<open>Tokens\<close>

definition wordc :: "u8 \<Rightarrow> bool" where
  "wordc c \<longleftrightarrow> strchr whitespace c = None \<and> strchr symbols c = None"

definition token :: "u8 list \<Rightarrow> range \<Rightarrow> bool" where
  "token t r \<longleftrightarrow> fst r < snd r \<and> snd r \<le> length t \<and> (\<forall>i. fst r \<le> i \<and> i < snd r \<longrightarrow> wordc (t ! i)) \<and> (snd r = length t \<or> \<not> wordc (t ! snd r))"

lemma skip_word_chars: "q \<le> i \<Longrightarrow> i < skip_word t q \<Longrightarrow> wordc (t ! i)"
proof (induction t q rule: skip_word.induct)
  case (1 t q)
  show ?case
  proof (cases "q < length t \<and> strchr whitespace (t ! q) = None \<and> strchr symbols (t ! q) = None")
    case True
    then have "skip_word t q = skip_word t (Suc q)" by (subst skip_word.simps) simp
    then show ?thesis using 1 True by (cases "i = q") (auto simp: wordc_def)
  next
    case False
    then have "skip_word t q = q" by (subst skip_word.simps) auto
    then show ?thesis using 1(2,3) by simp
  qed
qed

lemma skip_word_stop: "skip_word t q < length t \<Longrightarrow> \<not> wordc (t ! skip_word t q)"
proof (induction t q rule: skip_word.induct)
  case (1 t q)
  show ?case
  proof (cases "q < length t \<and> strchr whitespace (t ! q) = None \<and> strchr symbols (t ! q) = None")
    case True
    then have "skip_word t q = skip_word t (Suc q)" by (subst skip_word.simps) simp
    then show ?thesis using 1 True by auto
  next
    case False
    then have e: "skip_word t q = q" by (subst skip_word.simps) auto
    have "q < length t" using 1(2) unfolding e .
    then show ?thesis using False unfolding e by (simp add: wordc_def)
  qed
qed

lemma gettoken_word:
  assumes "gettoken t i = (of_char CHR ''a'', r, j)" "i \<le> length t"
  shows "token t r" "i \<le> j" "j \<le> length t"
proof -
  obtain q e where r: "r = (q, e)" by (cases r)
  note g = assms(1) [unfolded r] and b = gettoken_bounds [OF assms(1) [unfolded r] assms(2)]
  have w: "e = skip_word t q" "at t q \<noteq> 0" using g b(1) by (auto simp: gettoken_def Let_def split: if_splits)
  have "q < e" using b(7) [OF w(2)] .
  then show "token t r" using b(6) skip_word_chars [of q _ t] skip_word_stop [of t q] w(1) by (auto simp: token_def r)
  show "i \<le> j" "j \<le> length t" using b by auto
qed

section \<open>Termination and ranges\<close>

text \<open>A parser that started at \<open>i\<close> panicked, or it stopped at or behind \<open>i\<close> with a result that satisfies \<open>P\<close>.\<close>

definition fine :: "u8 list \<Rightarrow> ('a \<Rightarrow> bool) \<Rightarrow> nat \<Rightarrow> ('a, unit, nat) res \<Rightarrow> bool" where
  "fine t P i r \<longleftrightarrow> (\<exists>msg. r = Panic msg) \<or> (\<exists>x j. r = Ok x j \<and> i \<le> j \<and> j \<le> length t \<and> P x)"

lemma fine_simps [simp]: "fine t P i (Panic msg)" "fine t P i (Ok x j) \<longleftrightarrow> i \<le> j \<and> j \<le> length t \<and> P x"
  by (simp_all add: fine_def)

lemma fine_bindr:
  assumes "fine t P i r" "\<And>x j. i \<le> j \<Longrightarrow> j \<le> length t \<Longrightarrow> P x \<Longrightarrow> fine t Q i (f x j)"
  shows "fine t Q i (bindr r f)"
  using assms by (auto simp: fine_def [of t P])

lemma fine_mono: "fine t P j r \<Longrightarrow> i \<le> j \<Longrightarrow> fine t P i r"
  by (auto simp: fine_def)

abbreviation tokens :: "u8 list \<Rightarrow> range redir list \<Rightarrow> bool" where
  "tokens t rs \<equiv> \<forall>r \<in> set rs. token t (fst r)"

abbreviation good :: "u8 list \<Rightarrow> range cmd \<Rightarrow> bool" where
  "good t cmd \<equiv> \<forall>r \<in> set_cmd cmd. token t r"

lemma redircmds_set: "set_cmd (redircmds cmd rs) = set_cmd cmd \<union> fst ` set rs"
  unfolding redircmds_def by (induction rs arbitrary: cmd) auto

lemma redir_of_tokens: "token t r \<Longrightarrow> tokens t (redir_of tok r)"
  by (simp add: redir_of_def)

lemma parseredirs_fine: "i \<le> length t \<Longrightarrow> fine t (tokens t) i (parseredirs t i)"
proof (induction t i rule: parseredirs.induct)
  case (1 t i)
  obtain b j where p: "peek t ''<>'' i = (b, j)" by (cases "peek t ''<>'' i")
  note pb = peek_bounds [OF p 1(2)]
  obtain tok r k where g: "gettoken t j = (tok, r, k)" by (metis prod_cases3)
  obtain tok' r' l where g': "gettoken t k = (tok', r', l)" by (metis prod_cases3)
  show ?case
  proof (cases "b \<and> tok' = of_char CHR ''a''")
    case True
    then have pr: "i < l" "l \<le> length t" using redirs_progress [OF _ g g'] p 1(2) by auto
    obtain q e where "r = (q, e)" by (cases r)
    then have "k \<le> length t" using gettoken_bounds(5) [of t j tok q e k] g pb(3) by simp
    then have tk: "token t r'" using gettoken_word(1) [of t k r' l] g' True by simp
    have IH: "fine t (tokens t) l (parseredirs t l)" using 1(1) p g g' True 1(2) pr(2) by auto
    have "parseredirs t i = bindr (parseredirs t l) (\<lambda>rs i. Ok (redir_of tok r' @ rs) i)"
      using p g g' True 1(2) by (subst parseredirs.simps) simp
    moreover have "fine t (tokens t) l (bindr (parseredirs t l) (\<lambda>rs i. Ok (redir_of tok r' @ rs) i))"
      by (rule fine_bindr [OF IH]) (use redir_of_tokens [OF tk] in auto)
    ultimately show ?thesis using fine_mono [OF _ less_imp_le [OF pr(1)]] by simp
  next
    case False
    then show ?thesis using p g g' 1(2) pb by (subst parseredirs.simps) auto
  qed
qed

lemma parseargs_fine:
  "i \<le> length t \<Longrightarrow> (\<forall>r \<in> set args. token t r) \<Longrightarrow> tokens t rs \<Longrightarrow> fine t (good t) i (parseargs t k args rs i)"
proof (induction k arbitrary: args rs i)
  case (Suc k)
  obtain b j where p: "peek t ''|)&;'' i = (b, j)" by (cases "peek t ''|)&;'' i")
  note pb = peek_bounds [OF p Suc(2)]
  obtain tok q e l where g: "gettoken t j = (tok, (q, e), l)" by (metis prod_cases3 surj_pair)
  note gb = gettoken_bounds [OF g pb(3)]
  show ?case
  proof (cases "b \<or> tok = 0 \<or> tok \<noteq> of_char CHR ''a'' \<or> k = 0")
    case True
    then show ?thesis using p g pb gb Suc(2-4) by (auto simp: redircmds_set)
  next
    case False
    then have tk: "token t (q, e)" using gettoken_word(1) [of t j "(q, e)" l] g pb(3) by simp
    have "fine t (good t) l (bindr (parseredirs t l) (\<lambda>rs' i. parseargs t k (args @ [(q, e)]) (rs @ rs') i))"
    proof (rule fine_bindr [OF parseredirs_fine])
      fix rs' m
      assume m: "l \<le> m" "m \<le> length t" "tokens t rs'"
      have "fine t (good t) m (parseargs t k (args @ [(q, e)]) (rs @ rs') m)"
        by (rule Suc.IH) (use m Suc(3,4) tk in auto)
      then show "fine t (good t) l (parseargs t k (args @ [(q, e)]) (rs @ rs') m)" using fine_mono m(1) by blast
    qed (use gb in simp)
    then have "fine t (good t) i (bindr (parseredirs t l) (\<lambda>rs' i. parseargs t k (args @ [(q, e)]) (rs @ rs') i))"
      by (rule fine_mono) (use pb gb in simp)
    then show ?thesis using p g False by simp
  qed
qed simp

lemma parseback_bounds:
  "i \<le> length t \<Longrightarrow> parseback t cmd i = (c, j) \<Longrightarrow> i \<le> j \<and> j \<le> length t \<and> set_cmd c = set_cmd cmd"
proof (induction t cmd i rule: parseback.induct)
  case (1 t cmd i)
  obtain b k where p: "peek t ''&'' i = (b, k)" by (cases "peek t ''&'' i")
  show ?case
  proof (cases b)
    case True
    note pr = back_progress [OF p [unfolded eqTrueI [OF True]]]
    have "parseback t cmd i = parseback t (BackCmd cmd) (skip_token t k)"
      using p True 1(2) by (subst parseback.simps) simp
    then have "skip_token t k \<le> j \<and> j \<le> length t \<and> set_cmd c = set_cmd (BackCmd cmd)" using 1 p True pr by auto
    then show ?thesis using pr 1(2) by simp
  next
    case False
    then show ?thesis using p 1(2,3) peek_bounds [OF p 1(2)] by (subst (asm) parseback.simps) auto
  qed
qed

lemma more_fine:
  assumes k: "i \<le> k" "k \<le> length t" "good t cmd" and C: "\<And>l r. set_cmd (C l r) = set_cmd l \<union> set_cmd r"
    and f: "\<And>j. i < j \<Longrightarrow> j \<le> length t \<Longrightarrow> fine t (good t) j (f j)"
  shows "fine t (good t) i (let (b, i) = peek t toks k in if b then bindr (f (skip_token t i)) (\<lambda>r i. Ok (C cmd r) i) else Ok cmd i)"
proof -
  obtain b l where p: "peek t toks k = (b, l)" by (cases "peek t toks k")
  have "fine t (good t) i (bindr (f (skip_token t l)) (\<lambda>r i. Ok (C cmd r) i))" if b
  proof -
    note pr = skip_token_progress [OF p [unfolded eqTrueI [OF that]] k(2)]
    have "fine t (good t) i (f (skip_token t l))" by (rule fine_mono [OF f]) (use pr k in auto)
    then show ?thesis by (rule fine_bindr) (use k C in auto)
  qed
  then show ?thesis using p peek_bounds [OF p k(2)] k by auto
qed

lemma block_fine:
  assumes k: "i \<le> k" "k \<le> length t" "good t cmd"
  shows "fine t (good t) i (let (b, i) = peek t '')'' k
           in if \<not> b then Panic ''syntax - missing )''
              else bindr (parseredirs t (skip_token t i)) (\<lambda>rs i. Ok (redircmds cmd rs) i))"
proof -
  obtain a m where p: "peek t '')'' k = (a, m)" by (cases "peek t '')'' k")
  have "fine t (good t) i (bindr (parseredirs t (skip_token t m)) (\<lambda>rs i. Ok (redircmds cmd rs) i))" if a
  proof -
    note pr = skip_token_progress [OF p [unfolded eqTrueI [OF that]] k(2)]
    have "fine t (tokens t) i (parseredirs t (skip_token t m))"
      by (rule fine_mono [OF parseredirs_fine]) (use pr k in auto)
    then show ?thesis by (rule fine_bindr) (use k in \<open>auto simp: redircmds_set\<close>)
  qed
  then show ?thesis using p by simp
qed

text \<open>The recursion is as deep as four times the rest of the line, and no deeper.\<close>

lemma parser_fine:
  "i \<le> length t \<Longrightarrow> 4 * (length t - i) + 4 \<le> n \<Longrightarrow> fine t (good t) i (parseline n t i)"
  "i \<le> length t \<Longrightarrow> 4 * (length t - i) + 3 \<le> n \<Longrightarrow> fine t (good t) i (parsepipe n t i)"
  "i \<le> length t \<Longrightarrow> 4 * (length t - i) + 2 \<le> n \<Longrightarrow> fine t (good t) i (parseexec n t i)"
  "i \<le> length t \<Longrightarrow> 4 * (length t - i) + 1 \<le> n \<Longrightarrow> fine t (good t) i (parseblock n t i)"
proof (induction n arbitrary: i)
  case 0
  { case 1 then show ?case by simp }
  { case 2 then show ?case by simp }
  { case 3 then show ?case by simp }
  { case 4 then show ?case by simp }
next
  case (Suc n)
  { case 1
    show ?case unfolding parseline.simps
    proof (rule fine_bindr [OF Suc.IH(2)])
      fix cmd j
      assume j: "i \<le> j" "j \<le> length t" "good t cmd"
      obtain c k where b: "parseback t cmd j = (c, k)" by (cases "parseback t cmd j")
      show "fine t (good t) i (let (cmd, i) = parseback t cmd j; (b, i) = peek t '';'' i
          in if b then bindr (parseline n t (skip_token t i)) (\<lambda>r i. Ok (ListCmd cmd r) i) else Ok cmd i)"
        unfolding b Let_def prod.case
        by (rule more_fine [unfolded Let_def]) (use parseback_bounds [OF j(2) b] j 1 in \<open>auto intro!: Suc.IH(1)\<close>)
    qed (use 1 in auto) }
  { case 2
    show ?case unfolding parsepipe.simps
      by (rule fine_bindr [OF Suc.IH(3) more_fine]) (use 2 in \<open>auto intro!: Suc.IH(2)\<close>) }
  { case 3
    obtain b j where p: "peek t ''('' i = (b, j)" by (cases "peek t ''('' i")
    note pb = peek_bounds [OF p 3(1)]
    have "fine t (good t) j (parseblock n t j)" by (rule Suc.IH(4)) (use pb 3 in auto)
    moreover have "fine t (good t) j (bindr (parseredirs t j) (\<lambda>rs i. parseargs t MAXARGS [] rs i))"
      by (rule fine_bindr [OF parseredirs_fine [OF pb(3)]]) (rule fine_mono [OF parseargs_fine], auto)
    ultimately show ?case using p pb(2) fine_mono by (auto simp del: parseargs.simps) }
  { case 4
    obtain b j where p: "peek t ''('' i = (b, j)" by (cases "peek t ''('' i")
    have "fine t (good t) i (parseline n t (skip_token t j))" if b
      using skip_token_progress [OF p [unfolded eqTrueI [OF that]] 4(1)] 4 by (intro fine_mono [OF Suc.IH(1)]) auto
    then show ?case using p by (auto simp: Let_def intro!: fine_bindr block_fine [unfolded Let_def]) }
qed

lemma parse_text_fine: "fine t (good t) 0 (parse_text t)"
  unfolding parse_text_def
  by (rule fine_bindr [OF parser_fine(1)]) (auto simp: peek_def Let_def skip_ws_bounds)

section \<open>The terminated strings\<close>

definition range_text :: "u8 list \<Rightarrow> range \<Rightarrow> u8 list" where
  "range_text t r = take (snd r - fst r) (drop (fst r) t)"

lemma end_strings_nth:
  "i < length buf \<Longrightarrow> end_strings rs buf ! i = (if i \<in> snd ` set rs then 0 else buf ! i)" "length (end_strings rs buf) = length buf"
  unfolding end_strings_def by (induction rs arbitrary: buf) (auto simp: nth_list_update split_beta)

lemma nulterminate_nth:
  "length (nulterminate cmd buf) = length buf \<and>
   (i < length buf \<longrightarrow> nulterminate cmd buf ! i = (if i \<in> snd ` set_cmd cmd then 0 else buf ! i))"
proof (induction cmd arbitrary: buf)
  case (ExecCmd rs)
  then show ?case by (simp add: end_strings_nth)
next
  case (RedirCmd cmd r mode fd)
  then show ?case by (auto simp: end_strings_nth)
qed auto

lemma token_string:
  assumes r: "r \<in> set_cmd cmd" and g: "good t cmd" and z: "0 \<notin> set t"
  shows "string_at (nulterminate cmd (t @ [0])) r = range_text t r"
proof -
  define buf where "buf = nulterminate cmd (t @ [0])"
  obtain q e where qe: "r = (q, e)" by (cases r)
  have tk: "q < e" "e \<le> length t" "\<And>i. q \<le> i \<Longrightarrow> i < e \<Longrightarrow> wordc (t ! i)" using g r by (auto simp: token_def qe)
  have len: "length buf = length t + 1" by (simp add: buf_def nulterminate_nth)
  have e0: "buf ! e = 0" using imageI [OF r, of snd] tk by (simp add: buf_def nulterminate_nth qe)
  have keep: "buf ! i = t ! i" if i: "q \<le> i" "i < e" for i
  proof -
    have "i \<noteq> snd r'" if "r' \<in> set_cmd cmd" for r'
    proof -
      have "token t r'" using g that by blast
      then show ?thesis using tk i by (auto simp: token_def)
    qed
    then have "i \<notin> snd ` set_cmd cmd" by blast
    then show ?thesis using i tk by (simp add: buf_def nulterminate_nth nth_append)
  qed
  have "take (e - q) (drop q buf) = range_text t r"
    by (rule nth_equalityI) (use keep len tk in \<open>auto simp: range_text_def qe\<close>)
  then have "drop q buf = range_text t r @ drop e buf" using tk append_take_drop_id [of "e - q" "drop q buf"] by simp
  moreover have "drop e buf = 0 # drop (Suc e) buf" using e0 len tk Cons_nth_drop_Suc [of e buf] by simp
  moreover have "\<forall>c \<in> set (range_text t r). c \<noteq> 0" using z by (auto simp: range_text_def dest!: in_set_takeD in_set_dropD)
  ultimately show ?thesis unfolding string_at_def buf_def [symmetric] qe fst_conv by (simp add: takeWhile_append2)
qed

end
