(* ===== verification/Sh_Lexer.thy ===== *)
theory Sh_Lexer
  imports Sh_Facts
begin

text \<open>
  What \<open>gettoken\<close> and \<open>peek\<close> recognise: \<open>spells ts s\<close> says that the text \<open>s\<close> is a way to write the tokens \<open>ts\<close>, with any blanks
  around them.
\<close>

datatype tok = Sym u8 | Append | Word "u8 list"

primrec text_of :: "tok \<Rightarrow> u8 list" where
  "text_of (Sym c) = [c]"
| "text_of Append = bytes_of ''>>''"
| "text_of (Word w) = w"

primrec kind :: "tok \<Rightarrow> u8" where
  "kind (Sym c) = c"
| "kind Append = of_char CHR ''+''"
| "kind (Word w) = of_char CHR ''a''"

definition word_ok :: "u8 list \<Rightarrow> bool" where
  "word_ok w \<longleftrightarrow> w \<noteq> [] \<and> (\<forall>c \<in> set w. wordc c \<and> c \<noteq> 0)"

primrec tok_ok :: "tok \<Rightarrow> bool" where
  "tok_ok (Sym c) \<longleftrightarrow> c \<in> set symbols"
| "tok_ok Append \<longleftrightarrow> True"
| "tok_ok (Word w) \<longleftrightarrow> word_ok w"

text \<open>A word ends where a character follows that is not part of it, and two \<open>>\<close> in a row are one token.\<close>

primrec apart :: "tok \<Rightarrow> u8 list \<Rightarrow> bool" where
  "apart (Sym c) s \<longleftrightarrow> c \<noteq> of_char CHR ''>'' \<or> s = [] \<or> hd s \<noteq> of_char CHR ''>''"
| "apart Append s \<longleftrightarrow> True"
| "apart (Word w) s \<longleftrightarrow> s = [] \<or> \<not> wordc (hd s)"

abbreviation blank :: "u8 \<Rightarrow> bool" where
  "blank c \<equiv> c \<in> set whitespace"

primrec spells :: "tok list \<Rightarrow> u8 list \<Rightarrow> bool" where
  "spells [] s \<longleftrightarrow> (\<forall>c \<in> set s. blank c)"
| "spells (x # ts) s \<longleftrightarrow>
     (let u = dropWhile blank s; r = drop (length (text_of x)) u
      in take (length (text_of x)) u = text_of x \<and> tok_ok x \<and> apart x r \<and> spells ts r)"

lemma whitespace_iff: "strchr whitespace c = None \<longleftrightarrow> \<not> blank c"
  by (rule strchr_iff) (simp add: whitespace_def)

lemma dropWhile_all: "(\<forall>c \<in> set (dropWhile P s). P c) \<longleftrightarrow> (\<forall>c \<in> set s. P c)"
  by (induction s) auto

lemma spells_blank: "spells ts (dropWhile blank s) = spells ts s"
proof (cases ts)
  case Nil
  then show ?thesis using dropWhile_all [of blank s] by simp
qed (simp add: Let_def)

lemma drop_skip_ws: "drop (skip_ws t i) t = dropWhile blank (drop i t)"
proof (induction t i rule: skip_ws.induct)
  case (1 t i)
  show ?case
  proof (cases "i < length t")
    case True
    then have "drop i t = t ! i # drop (Suc i) t" by (simp add: Cons_nth_drop_Suc)
    then show ?thesis using 1 True by (subst skip_ws.simps) (simp add: whitespace_iff)
  next
    case False
    then show ?thesis by (subst skip_ws.simps) simp
  qed
qed

lemma drop_skip_word: "skip_word t i = i + length (takeWhile wordc (drop i t))"
proof (induction t i rule: skip_word.induct)
  case (1 t i)
  show ?case
  proof (cases "i < length t")
    case True
    then have "drop i t = t ! i # drop (Suc i) t" by (simp add: Cons_nth_drop_Suc)
    moreover have "wordc (t ! i) \<longleftrightarrow> strchr whitespace (t ! i) = None \<and> strchr symbols (t ! i) = None" by (simp add: wordc_def)
    ultimately show ?thesis using 1 True by (subst skip_word.simps) simp
  next
    case False
    then show ?thesis by (subst skip_word.simps) simp
  qed
qed

section \<open>The next token\<close>

definition next_tok :: "u8 list \<Rightarrow> tok" where
  "next_tok s =
     (if hd s = of_char CHR ''>'' then (if tl s \<noteq> [] \<and> hd (tl s) = of_char CHR ''>'' then Append else Sym (hd s))
      else if hd s \<in> set symbols then Sym (hd s)
      else Word (takeWhile wordc s))"

lemma wordc_iff: "wordc c \<longleftrightarrow> \<not> blank c \<and> c \<notin> set symbols"
  by (simp add: wordc_def whitespace_iff symbols_set)

lemma gt_symbol: "of_char CHR ''>'' \<in> set symbols" "\<not> wordc (of_char CHR ''>'')"
  by (simp_all add: wordc_iff symbols_set(2))

lemma takeWhile_split: "w \<noteq> [] \<Longrightarrow> \<forall>c \<in> set w. P c \<Longrightarrow> r = [] \<or> \<not> P (hd r) \<Longrightarrow> takeWhile P (w @ r) = w"
  by (cases r) (auto simp: takeWhile_append)

lemma next_tok_apart:
  assumes "tok_ok x" "apart x r" "0 \<notin> set r"
  shows "next_tok (text_of x @ r) = x"
proof (cases x)
  case (Sym c)
  then show ?thesis using assms by (auto simp: next_tok_def)
next
  case Append
  then show ?thesis by (simp add: next_tok_def bytes_of_def)
next
  case (Word w)
  then have w: "w \<noteq> []" "\<forall>c \<in> set w. wordc c" "r = [] \<or> \<not> wordc (hd r)" using assms by (auto simp: word_ok_def)
  then have "wordc (hd w)" by simp
  then have "hd (w @ r) \<noteq> of_char CHR ''>''" "hd (w @ r) \<notin> set symbols" using w(1) gt_symbol(2) by (auto simp: wordc_iff)
  then show ?thesis using takeWhile_split [OF w] Word by (simp add: next_tok_def)
qed

lemma next_tok_ok:
  assumes "s \<noteq> []" "\<not> blank (hd s)" "0 \<notin> set s"
  defines "x \<equiv> next_tok s"
  shows "tok_ok x" "take (length (text_of x)) s = text_of x" "apart x (drop (length (text_of x)) s)"
proof -
  obtain c s' where s: "s = c # s'" using assms(1) by (cases s) auto
  have "tok_ok x \<and> take (length (text_of x)) s = text_of x \<and> apart x (drop (length (text_of x)) s)"
  proof (cases "c \<in> set symbols")
    case True
    then show ?thesis using gt_symbol by (cases s') (auto simp: x_def next_tok_def s bytes_of_def)
  next
    case False
    then have c: "c \<noteq> of_char CHR ''>''" "wordc c" using gt_symbol(1) assms(2) by (auto simp: wordc_iff s)
    have x: "x = Word (takeWhile wordc s)" using False c by (simp add: x_def next_tok_def s)
    have "word_ok (takeWhile wordc s)" using c assms(3) by (auto simp: word_ok_def s dest: set_takeWhileD)
    moreover have "take (length (takeWhile wordc s)) s = takeWhile wordc s" by (simp add: takeWhile_eq_take [symmetric])
    moreover have "drop (length (takeWhile wordc s)) s = dropWhile wordc s" by (simp add: dropWhile_eq_drop)
    ultimately show ?thesis using hd_dropWhile [of wordc s] unfolding x by auto
  qed
  then show "tok_ok x" "take (length (text_of x)) s = text_of x" "apart x (drop (length (text_of x)) s)" by blast+
qed

lemma text_of_nonempty: "tok_ok x \<Longrightarrow> text_of x \<noteq> []"
  by (cases x) (auto simp: word_ok_def bytes_of_def)

lemma kind_nonzero: "tok_ok x \<Longrightarrow> kind x \<noteq> 0"
  by (cases x) (auto simp: symbols_set(2))

text \<open>A text spells one list of tokens only.\<close>

lemma spells_Cons:
  assumes "0 \<notin> set s"
  shows "spells (x # ts) s \<longleftrightarrow>
     dropWhile blank s \<noteq> [] \<and> x = next_tok (dropWhile blank s) \<and> spells ts (drop (length (text_of x)) (dropWhile blank s))"
proof -
  define u where "u = dropWhile blank s"
  have z: "0 \<notin> set u" using assms by (auto simp: u_def dest: set_dropWhileD)
  show ?thesis
  proof
    assume "spells (x # ts) s"
    then have h: "take (length (text_of x)) u = text_of x" "tok_ok x" "apart x (drop (length (text_of x)) u)"
      "spells ts (drop (length (text_of x)) u)" by (simp_all add: Let_def u_def)
    have "u = text_of x @ drop (length (text_of x)) u" using append_take_drop_id [of "length (text_of x)" u] h(1) by simp
    then have "x = next_tok u" using next_tok_apart [OF h(2,3)] z by (auto dest: in_set_dropD)
    moreover have "u \<noteq> []" using h(1) text_of_nonempty [OF h(2)] by auto
    ultimately show "dropWhile blank s \<noteq> [] \<and> x = next_tok (dropWhile blank s) \<and> spells ts (drop (length (text_of x)) (dropWhile blank s))"
      using h(4) by (simp add: u_def)
  next
    assume "dropWhile blank s \<noteq> [] \<and> x = next_tok (dropWhile blank s) \<and> spells ts (drop (length (text_of x)) (dropWhile blank s))"
    then have h: "u \<noteq> []" "x = next_tok u" "spells ts (drop (length (text_of x)) u)" unfolding u_def by blast+
    have "\<not> blank (hd u)" using h(1) hd_dropWhile [of blank s] by (simp add: u_def)
    note n = next_tok_ok [OF h(1) this z, folded h(2)]
    show "spells (x # ts) s" using n h(3) by (simp add: Let_def u_def)
  qed
qed

section \<open>\<open>gettoken\<close> and \<open>peek\<close>\<close>

text \<open>\<open>ahead t i ts\<close>: from position \<open>i\<close> on, the line spells \<open>ts\<close>.\<close>

definition ahead :: "u8 list \<Rightarrow> nat \<Rightarrow> tok list \<Rightarrow> bool" where
  "ahead t i ts \<longleftrightarrow> i \<le> length t \<and> spells ts (drop i t)"

lemma ahead_skip_ws: "i \<le> length t \<Longrightarrow> ahead t (skip_ws t i) ts = ahead t i ts"
  by (simp add: ahead_def drop_skip_ws spells_blank skip_ws_bounds)

lemma at_drop: "at t i = (if drop i t = [] then 0 else hd (drop i t))"
  by (simp add: at_def hd_drop_conv_nth)

lemma gettoken_next:
  assumes "i \<le> length t" "0 \<notin> set t" and u: "u = dropWhile blank (drop i t)"
  shows "gettoken t i =
    (let q = skip_ws t i; e = q + length (text_of (next_tok u))
     in if u = [] then (0, (q, q), q) else (kind (next_tok u), (q, e), skip_ws t e))"
proof -
  define q where "q = skip_ws t i"
  have q: "drop q t = u" unfolding q_def u by (rule drop_skip_ws)
  have a0: "at t q = (if u = [] then 0 else hd u)" by (simp add: at_drop q)
  have "drop (q + 1) t = tl u" unfolding q [symmetric] by (simp add: drop_Suc tl_drop)
  then have a1: "at t (q + 1) = (if tl u = [] then 0 else hd (tl u))" by (simp add: at_drop)
  have w: "skip_word t q = q + length (takeWhile wordc u)" by (simp add: drop_skip_word q)
  show ?thesis
  proof (cases u)
    case Nil
    then show ?thesis using a0 by (simp add: gettoken_def Let_def q_def)
  next
    case (Cons c s)
    then have "c \<in> set t" using q by (metis in_set_dropD list.set_intros(1))
    then have "c \<noteq> 0" using assms(2) by auto
    then show ?thesis using a0 a1 w Cons unfolding gettoken_def Let_def q_def [symmetric]
      by (auto simp: next_tok_def symbols_set(2) bytes_of_def)
  qed
qed

text \<open>The two cases of \<open>gettoken\<close>: the line is over, or the next token is \<open>x\<close>.\<close>

lemma gettoken_cases:
  assumes "i \<le> length t" "0 \<notin> set t"
  obtains (over) "gettoken t i = (0, (length t, length t), length t)" "\<And>ts. ahead t i ts \<longleftrightarrow> ts = []"
  | (tok) x r j where "gettoken t i = (kind x, r, j)" "tok_ok x" "range_text t r = text_of x" "i < j" "j \<le> length t"
      "\<And>y ts. ahead t i (y # ts) \<longleftrightarrow> y = x \<and> ahead t j ts" "\<not> ahead t i []"
proof -
  define u where "u = dropWhile blank (drop i t)"
  define q where "q = skip_ws t i"
  have q: "drop q t = u" unfolding q_def u_def by (rule drop_skip_ws)
  have qb: "i \<le> q" "q \<le> length t" using assms(1) by (simp_all add: q_def skip_ws_bounds)
  have z: "0 \<notin> set (drop i t)" "0 \<notin> set u" using assms(2) by (auto simp: q [symmetric] dest: in_set_dropD)
  note g = gettoken_next [OF assms u_def, folded q_def, unfolded Let_def]
  show thesis
  proof (cases "u = []")
    case True
    then have "q = length t" using q qb by simp
    moreover have "ahead t i ts \<longleftrightarrow> ts = []" for ts
      using True assms(1) z(1) dropWhile_all [of blank "drop i t"] by (cases ts) (auto simp: ahead_def spells_Cons u_def [symmetric] simp del: spells.simps(2))
    ultimately show thesis using over g True by simp
  next
    case False
    define x where "x = next_tok u"
    define e where "e = q + length (text_of x)"
    have "\<not> blank (hd u)" using False hd_dropWhile [of blank "drop i t"] by (simp add: u_def)
    note n = next_tok_ok [OF False this z(2), folded x_def]
    have "length (text_of x) \<le> length u" using n(2) by (metis length_take min.cobounded1)
    then have e: "q < e" "e \<le> length t" using q qb text_of_nonempty [OF n(1)] by (auto simp: e_def)
    have d: "drop e t = drop (length (text_of x)) u" by (simp add: e_def q [symmetric] add.commute)
    have a: "ahead t (skip_ws t e) ts \<longleftrightarrow> spells ts (drop (length (text_of x)) u)" for ts
      using ahead_skip_ws [OF e(2)] e(2) d by (simp add: ahead_def)
    have "\<not> ahead t i []" using False dropWhile_all [of blank "drop i t"] \<open>\<not> blank (hd u)\<close> by (auto simp: ahead_def u_def)
    moreover have "ahead t i (y # ts) \<longleftrightarrow> y = x \<and> ahead t (skip_ws t e) ts" for y ts
      using a [of ts] spells_Cons [OF z(1), of y ts] False assms(1) by (auto simp: ahead_def [of t i] u_def [symmetric] x_def simp del: spells.simps(2))
    moreover have "range_text t (q, e) = text_of x" using n(2) q by (simp add: range_text_def e_def)
    moreover have "i < skip_ws t e" using e qb skip_ws_bounds(1) [of e t] by linarith
    ultimately show thesis
      using tok [of x "(q, e)" "skip_ws t e"] g False n(1) e qb skip_ws_bounds [of e t] by (simp add: e_def x_def)
  qed
qed

text \<open>What \<open>peek\<close> looks at.\<close>

definition starts :: "string \<Rightarrow> tok list \<Rightarrow> bool" where
  "starts toks ts \<longleftrightarrow> ts \<noteq> [] \<and> hd (text_of (hd ts)) \<in> set (bytes_of toks)"

lemma peek_ahead:
  assumes "ahead t i ts" "0 \<notin> set t" "0 \<notin> set (bytes_of toks)"
  shows "peek t toks i = (starts toks ts, skip_ws t i)" "ahead t (skip_ws t i) ts"
proof -
  have i: "i \<le> length t" using assms(1) by (simp add: ahead_def)
  define u where "u = dropWhile blank (drop i t)"
  have q: "drop (skip_ws t i) t = u" unfolding u_def by (rule drop_skip_ws)
  have z: "0 \<notin> set (drop i t)" using assms(2) by (auto dest: in_set_dropD)
  have "at t (skip_ws t i) \<noteq> 0 \<and> strchr (bytes_of toks) (at t (skip_ws t i)) \<noteq> None \<longleftrightarrow> starts toks ts"
  proof (cases ts)
    case Nil
    then have "u = []" using assms(1) by (auto simp: ahead_def u_def)
    then show ?thesis using Nil q by (simp add: at_drop starts_def)
  next
    case (Cons x xs)
    then have x: "u \<noteq> []" "take (length (text_of x)) u = text_of x" "tok_ok x"
      using assms(1) spells_Cons [OF z, of x xs] by (auto simp: ahead_def u_def Let_def)
    have "hd (text_of x) = hd u" using x text_of_nonempty [OF x(3)] by (metis hd_take length_greater_0_conv)
    moreover have "hd u \<noteq> 0" using x(1) z set_dropWhileD [of "hd u" blank "drop i t"] by (metis hd_in_set u_def)
    ultimately show ?thesis using x(1) Cons q assms(3) by (simp add: at_drop starts_def strchr_iff)
  qed
  then show "peek t toks i = (starts toks ts, skip_ws t i)" by (simp add: peek_def Let_def)
  show "ahead t (skip_ws t i) ts" using assms(1) i by (simp add: ahead_skip_ws)
qed

text \<open>Every line spells a list of tokens.\<close>

lemma ahead_exists: "i \<le> length t \<Longrightarrow> 0 \<notin> set t \<Longrightarrow> \<exists>ts. ahead t i ts"
proof (induction "length t - i" arbitrary: i rule: less_induct)
  case less
  show ?case using less(2,3)
  proof (cases rule: gettoken_cases)
    case (tok x r j)
    then have "\<exists>ts. ahead t j ts" using less by auto
    then show ?thesis using tok(6) by blast
  qed blast
qed

lemma starts_simps [simp]:
  "\<not> starts toks []"
  "starts toks (Sym c # ts) \<longleftrightarrow> c \<in> set (bytes_of toks)"
  "starts toks (Append # ts) \<longleftrightarrow> of_char CHR ''>'' \<in> set (bytes_of toks)"
  by (simp_all add: starts_def bytes_of_def)

lemma starts_Word: "word_ok w \<Longrightarrow> set (bytes_of toks) \<subseteq> set symbols \<Longrightarrow> \<not> starts toks (Word w # ts)"
  by (auto simp: starts_def word_ok_def wordc_iff)

lemma kind_Word: "tok_ok x \<Longrightarrow> kind x = of_char CHR ''a'' \<longleftrightarrow> (\<exists>w. x = Word w)"
  by (cases x) (auto simp: symbols_set(2))

end
