(* ===== verification/Sh_Grammar.thy ===== *)
theory Sh_Grammar
  imports Sh_Lexer
begin

text \<open>
  The grammar of command lines and what a line means, and that the parser of \<^verbatim>\<open>user/sh.c\<close> is sound and complete for it.
\<close>

section \<open>Syntax\<close>

datatype dir = From | To | Onto

type_synonym redirection = "dir \<times> u8 list"

datatype simple = Simple "redirection list" "(u8 list \<times> redirection list) list" | Block line "redirection list"
and pipeline = Single simple | Bar simple pipeline
and line = Last pipeline nat | Semi pipeline nat line

primrec dir_tok :: "dir \<Rightarrow> tok" where
  "dir_tok From = Sym (of_char CHR ''<'')"
| "dir_tok To = Sym (of_char CHR ''>'')"
| "dir_tok Onto = Append"

definition toks_redirs :: "redirection list \<Rightarrow> tok list" where
  "toks_redirs rs = concat (map (\<lambda>(d, w). [dir_tok d, Word w]) rs)"

definition toks_args :: "(u8 list \<times> redirection list) list \<Rightarrow> tok list" where
  "toks_args ws = concat (map (\<lambda>(w, rs). Word w # toks_redirs rs) ws)"

primrec toks_simple :: "simple \<Rightarrow> tok list" and toks_pipe :: "pipeline \<Rightarrow> tok list" and toks_line :: "line \<Rightarrow> tok list" where
  "toks_simple (Simple rs ws) = toks_redirs rs @ toks_args ws"
| "toks_simple (Block l rs) = Sym (of_char CHR ''('') # toks_line l @ Sym (of_char CHR '')'') # toks_redirs rs"
| "toks_pipe (Single e) = toks_simple e"
| "toks_pipe (Bar e p) = toks_simple e @ Sym (of_char CHR ''|'') # toks_pipe p"
| "toks_line (Last p n) = toks_pipe p @ replicate n (Sym (of_char CHR ''&''))"
| "toks_line (Semi p n l) = toks_pipe p @ replicate n (Sym (of_char CHR ''&'')) @ Sym (of_char CHR '';'') # toks_line l"

text \<open>A command has at most nine words: \<open>argv\<close> has ten places, the last of them for the null pointer.\<close>

primrec few_simple :: "simple \<Rightarrow> bool" and few_pipe :: "pipeline \<Rightarrow> bool" and few_args :: "line \<Rightarrow> bool" where
  "few_simple (Simple rs ws) \<longleftrightarrow> length ws < MAXARGS"
| "few_simple (Block l rs) \<longleftrightarrow> few_args l"
| "few_pipe (Single e) \<longleftrightarrow> few_simple e"
| "few_pipe (Bar e p) \<longleftrightarrow> few_simple e \<and> few_pipe p"
| "few_args (Last p n) \<longleftrightarrow> few_pipe p"
| "few_args (Semi p n l) \<longleftrightarrow> few_pipe p \<and> few_args l"

section \<open>Meaning\<close>

primrec mean_dir :: "dir \<Rightarrow> u32 \<times> int" where
  "mean_dir From = (O_RDONLY, 0)"
| "mean_dir To = (O_WRONLY OR O_CREATE OR O_TRUNC, 1)"
| "mean_dir Onto = (O_WRONLY OR O_CREATE, 1)"

definition mean_redirs :: "redirection list \<Rightarrow> u8 list redir list" where
  "mean_redirs rs = map (\<lambda>(d, w). (w, mean_dir d)) rs"

primrec mean_simple :: "simple \<Rightarrow> u8 list cmd" and mean_pipe :: "pipeline \<Rightarrow> u8 list cmd" and mean_line :: "line \<Rightarrow> u8 list cmd" where
  "mean_simple (Simple rs ws) = redircmds (ExecCmd (map fst ws)) (mean_redirs (rs @ concat (map snd ws)))"
| "mean_simple (Block l rs) = redircmds (mean_line l) (mean_redirs rs)"
| "mean_pipe (Single e) = mean_simple e"
| "mean_pipe (Bar e p) = PipeCmd (mean_simple e) (mean_pipe p)"
| "mean_line (Last p n) = (BackCmd ^^ n) (mean_pipe p)"
| "mean_line (Semi p n l) = ListCmd ((BackCmd ^^ n) (mean_pipe p)) (mean_line l)"

abbreviation redir_text :: "u8 list \<Rightarrow> range redir list \<Rightarrow> u8 list redir list" where
  "redir_text t rs \<equiv> map (apfst (range_text t)) rs"

abbreviation cmd_text :: "u8 list \<Rightarrow> range cmd \<Rightarrow> u8 list cmd" where
  "cmd_text t \<equiv> map_cmd (range_text t)"

lemma redircmds_text: "map_cmd f (redircmds cmd rs) = redircmds (map_cmd f cmd) (map (apfst f) rs)"
  unfolding redircmds_def by (induction rs arbitrary: cmd) auto

lemma back_text: "map_cmd f ((BackCmd ^^ n) cmd) = (BackCmd ^^ n) (map_cmd f cmd)"
  by (induction n) auto

lemma mean_redirs_simps [simp]:
  "mean_redirs [] = []" "mean_redirs ((d, w) # rs) = (w, mean_dir d) # mean_redirs rs" "mean_redirs (rs @ rs') = mean_redirs rs @ mean_redirs rs'"
  by (simp_all add: mean_redirs_def)

lemma toks_redirs_simps [simp]:
  "toks_redirs [] = []" "toks_redirs ((d, w) # rs) = dir_tok d # Word w # toks_redirs rs"
  by (simp_all add: toks_redirs_def)

lemma toks_args_simps [simp]: "toks_args [] = []" "toks_args ((w, rs) # ws) = Word w # toks_redirs rs @ toks_args ws"
  by (simp_all add: toks_args_def)

section \<open>Tokens of the parser\<close>

lemma symbols_nonzero: "set (bytes_of toks) \<subseteq> set symbols \<Longrightarrow> 0 \<notin> set (bytes_of toks)"
  by (auto simp: symbols_set(2))

lemma ahead_ok: "ahead t i ts \<Longrightarrow> x \<in> set ts \<Longrightarrow> tok_ok x"
proof -
  have "spells ts s \<Longrightarrow> x \<in> set ts \<Longrightarrow> tok_ok x" for s by (induction ts arbitrary: s) (auto simp: Let_def)
  then show "ahead t i ts \<Longrightarrow> x \<in> set ts \<Longrightarrow> tok_ok x" by (auto simp: ahead_def)
qed

lemma starts_ahead_Word:
  "ahead t i us \<Longrightarrow> Word w \<in> set us \<Longrightarrow> set (bytes_of toks) \<subseteq> set symbols \<Longrightarrow> \<not> starts toks (Word w # ts)"
  by (rule starts_Word) (use ahead_ok in force)

lemma gettoken_ahead:
  assumes "ahead t i (x # ts)" "0 \<notin> set t"
  obtains r j where "gettoken t i = (kind x, r, j)" "range_text t r = text_of x" "ahead t j ts" "tok_ok x"
proof -
  have "i \<le> length t" using assms(1) by (simp add: ahead_def)
  then show thesis using assms(2)
proof (cases rule: gettoken_cases)
  case over
  then show ?thesis using assms(1) by simp
next
  case (tok y r j)
  then show ?thesis using assms(1) that [of r j] by simp
qed
qed

lemma gettoken_over: "ahead t i [] \<Longrightarrow> 0 \<notin> set t \<Longrightarrow> gettoken t i = (0, (length t, length t), length t)"
  by (rule gettoken_cases [of i t]) (auto simp: ahead_def)

lemma skip_token_ahead: "ahead t i (x # ts) \<Longrightarrow> 0 \<notin> set t \<Longrightarrow> ahead t (skip_token t i) ts"
  by (rule gettoken_ahead [of t i x ts]) (auto simp: skip_token_def)

lemma peek_next:
  assumes "ahead t i ts" "0 \<notin> set t" "set (bytes_of toks) \<subseteq> set symbols"
  obtains j where "peek t toks i = (starts toks ts, j)" "ahead t j ts"
  using peek_ahead [OF assms(1,2) symbols_nonzero [OF assms(3)]] that by blast

lemma tokens_symbols:
  "set (bytes_of ''<>'') \<subseteq> set symbols" "set (bytes_of ''|)&;'') \<subseteq> set symbols" "set (bytes_of '';'') \<subseteq> set symbols"
  "set (bytes_of ''|'') \<subseteq> set symbols" "set (bytes_of ''&'') \<subseteq> set symbols" "set (bytes_of ''('') \<subseteq> set symbols"
  "set (bytes_of '')'') \<subseteq> set symbols"
  by (auto simp: symbols_set(2) bytes_of_def)

lemma redir_of_kind: "redir_of (kind (dir_tok d)) r = [(r, mean_dir d)]"
  by (cases d) (simp_all add: redir_of_def)

lemma starts_dir: "starts ''<>'' (dir_tok d # ts)"
  by (cases d) (simp_all add: bytes_of_def)

definition follow :: "string \<Rightarrow> tok list \<Rightarrow> bool" where
  "follow toks ts \<longleftrightarrow> ts = [] \<or> starts toks ts"

lemma follow_Sym [simp]: "follow toks (Sym c # ts) \<longleftrightarrow> c \<in> set (bytes_of toks)"
  by (simp add: follow_def)

lemma follow_weaken: "follow toks ts \<Longrightarrow> set (bytes_of toks) \<subseteq> set (bytes_of toks') \<Longrightarrow> follow toks' ts"
  by (auto simp: follow_def starts_def)

lemma follow_disjoint: "follow toks ts \<Longrightarrow> set (bytes_of toks) \<inter> set (bytes_of toks') = {} \<Longrightarrow> \<not> starts toks' ts"
  by (auto simp: follow_def starts_def)

lemma follow_back: "follow '')'' ts \<Longrightarrow> follow '')&;'' (replicate n (Sym (of_char CHR ''&'')) @ ts)"
  by (cases n) (auto simp: bytes_of_def intro: follow_weaken)

lemma args_redirs:
  assumes "ahead t i (us @ toks_args ws @ ts)" "follow ''|)&;'' ts"
  shows "\<not> starts ''<>'' (toks_args ws @ ts)"
proof (cases ws)
  case Nil
  have "\<not> starts ''<>'' ts" using assms(2) by (rule follow_disjoint) (simp add: bytes_of_def)
  then show ?thesis by (simp add: Nil)
next
  case (Cons y ys)
  then show ?thesis using starts_ahead_Word [OF assms(1) _ tokens_symbols(1), of "fst y"] by (cases y) simp
qed

section \<open>Completeness\<close>

lemma parseredirs_complete:
  "ahead t i (toks_redirs rs @ ts) \<Longrightarrow> \<not> starts ''<>'' ts \<Longrightarrow> 0 \<notin> set t \<Longrightarrow>
   \<exists>rs' j. parseredirs t i = Ok rs' j \<and> redir_text t rs' = mean_redirs rs \<and> ahead t j ts"
proof (induction rs arbitrary: i)
  case Nil
  have a: "ahead t i ts" using Nil by simp
  obtain j where "peek t ''<>'' i = (starts ''<>'' ts, j)" "ahead t j ts"
    using peek_next [OF a Nil(3) tokens_symbols(1)] .
  then show ?case using Nil a by (subst parseredirs.simps) (auto simp: ahead_def)
next
  case (Cons x rs)
  obtain d w where x: "x = (d, w)" by (cases x)
  have a: "ahead t i (dir_tok d # Word w # toks_redirs rs @ ts)" using Cons(2) by (simp add: x)
  obtain j where p: "peek t ''<>'' i = (True, j)" "ahead t j (dir_tok d # Word w # toks_redirs rs @ ts)"
    using peek_next [OF a Cons(4) tokens_symbols(1)] starts_dir by metis
  obtain r k where g: "gettoken t j = (kind (dir_tok d), r, k)" "ahead t k (Word w # toks_redirs rs @ ts)"
    using gettoken_ahead [OF p(2) Cons(4)] .
  obtain r' l where g': "gettoken t k = (kind (Word w), r', l)" "range_text t r' = w" "ahead t l (toks_redirs rs @ ts)"
    using gettoken_ahead [OF g(2) Cons(4)] by (metis text_of.simps(3))
  obtain rs' m where "parseredirs t l = Ok rs' m" "redir_text t rs' = mean_redirs rs" "ahead t m ts"
    using Cons.IH [OF g'(3) Cons(3,4)] by blast
  then show ?case using p(1) g(1) g'(1,2) a by (subst parseredirs.simps) (simp add: redir_of_kind x ahead_def)
qed

lemma parseargs_complete:
  "ahead t i (toks_args ws @ ts) \<Longrightarrow> ts = [] \<or> starts ''|)&;'' ts \<Longrightarrow> 0 \<notin> set t \<Longrightarrow> length ws < k \<Longrightarrow>
   \<exists>cmd j. parseargs t k args rs i = Ok cmd j \<and> ahead t j ts \<and>
     cmd_text t cmd = redircmds (ExecCmd (map (range_text t) args @ map fst ws)) (redir_text t rs @ mean_redirs (concat (map snd ws)))"
proof (induction ws arbitrary: i k args rs)
  case Nil
  obtain k' where k: "k = Suc k'" using Nil(4) by (cases k) auto
  have a: "ahead t i ts" using Nil by simp
  obtain j where p: "peek t ''|)&;'' i = (starts ''|)&;'' ts, j)" "ahead t j ts"
    using peek_next [OF a Nil(3) tokens_symbols(2)] .
  then show ?case using Nil gettoken_over [of t j] by (auto simp: k redircmds_text ahead_def)
next
  case (Cons x ws)
  obtain w rx where x: "x = (w, rx)" by (cases x)
  obtain k' where k: "k = Suc k'" "0 < k'" "length ws < k'" using Cons(5) by (cases k) auto
  have a: "ahead t i (Word w # toks_redirs rx @ toks_args ws @ ts)" using Cons(2) by (simp add: x)
  obtain j where p: "peek t ''|)&;'' i = (False, j)" "ahead t j (Word w # toks_redirs rx @ toks_args ws @ ts)"
    using peek_next [OF a Cons(4) tokens_symbols(2)] starts_ahead_Word [OF a _ tokens_symbols(2)] by (metis list.set_intros(1))
  obtain r l where g: "gettoken t j = (kind (Word w), r, l)" "range_text t r = w" "ahead t l (toks_redirs rx @ toks_args ws @ ts)"
    using gettoken_ahead [OF p(2) Cons(4)] by (metis text_of.simps(3))
  have "\<not> starts ''<>'' (toks_args ws @ ts)" using args_redirs [of t i "Word w # toks_redirs rx" ws ts] a Cons(3) by (simp add: follow_def)
  then obtain rs' m where r: "parseredirs t l = Ok rs' m" "redir_text t rs' = mean_redirs rx" "ahead t m (toks_args ws @ ts)"
    using parseredirs_complete [OF g(3) _ Cons(4)] by blast
  from Cons.IH [OF r(3) Cons(3,4) k(3), of "args @ [r]" "rs @ rs'"]
  show ?case using p(1) g(1,2) r(1,2) k by (auto simp: x)
qed

lemma parseback_complete:
  "ahead t i (replicate n (Sym (of_char CHR ''&'')) @ ts) \<Longrightarrow> \<not> starts ''&'' ts \<Longrightarrow> 0 \<notin> set t \<Longrightarrow>
   \<exists>j. parseback t cmd i = ((BackCmd ^^ n) cmd, j) \<and> ahead t j ts"
proof (induction n arbitrary: cmd i)
  case 0
  have a: "ahead t i ts" using 0 by simp
  obtain j where "peek t ''&'' i = (starts ''&'' ts, j)" "ahead t j ts" using peek_next [OF a 0(3) tokens_symbols(5)] .
  then show ?case using 0 a by (subst parseback.simps) (auto simp: ahead_def)
next
  case (Suc n)
  have a: "ahead t i (Sym (of_char CHR ''&'') # replicate n (Sym (of_char CHR ''&'')) @ ts)" using Suc(2) by simp
  have "starts ''&'' (Sym (of_char CHR ''&'') # replicate n (Sym (of_char CHR ''&'')) @ ts)" by (simp add: bytes_of_def)
  then obtain j where p: "peek t ''&'' i = (True, j)" "ahead t j (Sym (of_char CHR ''&'') # replicate n (Sym (of_char CHR ''&'')) @ ts)"
    using peek_next [OF a Suc(4) tokens_symbols(5)] by metis
  obtain k where "parseback t (BackCmd cmd) (skip_token t j) = ((BackCmd ^^ n) (BackCmd cmd), k)" "ahead t k ts"
    using Suc.IH [OF skip_token_ahead [OF p(2) Suc(4)] Suc(3,4)] by blast
  then show ?case using p(1) a by (subst parseback.simps) (simp add: ahead_def funpow_swap1)
qed

text \<open>A parser runs out of depth, or it returns a command that means \<open>c\<close> with \<open>ts\<close> ahead.\<close>

definition yields :: "u8 list \<Rightarrow> u8 list cmd \<Rightarrow> tok list \<Rightarrow> (range cmd, unit, nat) res \<Rightarrow> bool" where
  "yields t c ts r \<longleftrightarrow> r = Hang \<or> (\<exists>cmd j. r = Ok cmd j \<and> cmd_text t cmd = c \<and> ahead t j ts)"

lemma yields_simps [simp]: "yields t c ts Hang" "yields t c ts (Ok cmd j) \<longleftrightarrow> cmd_text t cmd = c \<and> ahead t j ts"
  by (simp_all add: yields_def)

lemma yields_bindr:
  assumes "yields t c ts r" "\<And>cmd j. cmd_text t cmd = c \<Longrightarrow> ahead t j ts \<Longrightarrow> yields t c' ts' (f cmd j)"
  shows "yields t c' ts' (bindr r f)"
  using assms by (auto simp: yields_def [of t c ts])

text \<open>The optional rest of a list or a pipeline, behind the symbol \<open>c\<close>.\<close>

lemma more_yields:
  assumes "ahead t k (Sym c # us)" "0 \<notin> set t" "c \<in> set (bytes_of toks)" "set (bytes_of toks) \<subseteq> set symbols" "cmd_text t cmd = m"
    and C: "\<And>l r. cmd_text t (C l r) = C' (cmd_text t l) (cmd_text t r)"
    and f: "\<And>j. ahead t j us \<Longrightarrow> yields t m' ts (f j)"
  shows "yields t (C' m m') ts (let (b, i) = peek t toks k in if b then bindr (f (skip_token t i)) (\<lambda>r i. Ok (C cmd r) i) else Ok cmd i)"
proof -
  have "starts toks (Sym c # us)" using assms(3) by simp
  then obtain j where p: "peek t toks k = (True, j)" "ahead t j (Sym c # us)" using peek_next [OF assms(1,2,4)] by metis
  have "yields t (C' m m') ts (bindr (f (skip_token t j)) (\<lambda>r i. Ok (C cmd r) i))"
    by (rule yields_bindr [OF f [OF skip_token_ahead [OF p(2) assms(2)]]]) (simp add: C assms(5))
  then show ?thesis using p(1) by simp
qed

lemma no_more_yields:
  assumes "ahead t k ts" "0 \<notin> set t" "\<not> starts toks ts" "set (bytes_of toks) \<subseteq> set symbols" "cmd_text t cmd = m"
  shows "yields t m ts (let (b, i) = peek t toks k in if b then bindr (f (skip_token t i)) (\<lambda>r i. Ok (C cmd r) i) else Ok cmd i)"
proof -
  obtain j where "peek t toks k = (starts toks ts, j)" "ahead t j ts" using peek_next [OF assms(1,2,4)] .
  then show ?thesis using assms by simp
qed

lemma block_yields:
  assumes "ahead t k (Sym (of_char CHR '')'') # toks_redirs rs @ ts)" "0 \<notin> set t" "\<not> starts ''<>'' ts" "cmd_text t cmd = m"
  shows "yields t (redircmds m (mean_redirs rs)) ts (let (b, i) = peek t '')'' k
           in if \<not> b then Panic ''syntax - missing )''
              else bindr (parseredirs t (skip_token t i)) (\<lambda>rs i. Ok (redircmds cmd rs) i))"
proof -
  have "starts '')'' (Sym (of_char CHR '')'') # toks_redirs rs @ ts)" by (simp add: bytes_of_def)
  then obtain j where p: "peek t '')'' k = (True, j)" "ahead t j (Sym (of_char CHR '')'') # toks_redirs rs @ ts)"
    using peek_next [OF assms(1,2) tokens_symbols(7)] by metis
  obtain rs' l where "parseredirs t (skip_token t j) = Ok rs' l" "redir_text t rs' = mean_redirs rs" "ahead t l ts"
    using parseredirs_complete [OF skip_token_ahead [OF p(2) assms(2)] assms(3,2)] by blast
  then show ?thesis using p(1) assms(4) by (simp add: redircmds_text)
qed

lemma args_block:
  assumes "ahead t i (toks_simple (Simple rs ws) @ ts)" "follow ''|)&;'' ts"
  shows "\<not> starts ''('' (toks_simple (Simple rs ws) @ ts)"
proof (cases rs)
  case Nil
  then show ?thesis
proof (cases ws)
  case Nil
  have "\<not> starts ''('' ts" using assms(2) by (rule follow_disjoint) (simp add: bytes_of_def)
  then show ?thesis using \<open>rs = []\<close> by (simp add: Nil)
next
  case (Cons y ys)
  then show ?thesis using starts_ahead_Word [OF assms(1) _ tokens_symbols(6), of "fst y"] \<open>rs = []\<close> by (cases y) simp
qed
next
  case (Cons r rs')
  then show ?thesis by (cases r; cases "fst r") (simp_all add: bytes_of_def)
qed

lemma back_yields:
  assumes "yields t m (replicate k (Sym (of_char CHR ''&'')) @ us) r" "0 \<notin> set t" "follow '');'' us"
    and g: "\<And>cmd j. cmd_text t cmd = (BackCmd ^^ k) m \<Longrightarrow> ahead t j us \<Longrightarrow> yields t m' ts (g cmd j)"
  shows "yields t m' ts (bindr r (\<lambda>cmd i. let (cmd, i) = parseback t cmd i in g cmd i))"
proof (rule yields_bindr [OF assms(1)])
  fix cmd j
  assume c: "cmd_text t cmd = m" "ahead t j (replicate k (Sym (of_char CHR ''&'')) @ us)"
  have "\<not> starts ''&'' us" using assms(3) by (rule follow_disjoint) (simp add: bytes_of_def)
  from parseback_complete [OF c(2) this assms(2)]
  obtain l where "parseback t cmd j = ((BackCmd ^^ k) cmd, l)" "ahead t l us" by blast
  then show "yields t m' ts (let (cmd, i) = parseback t cmd j in g cmd i)" using g c(1) by (simp add: back_text)
qed

lemma simple_yields:
  assumes "ahead t i (toks_simple (Simple rs ws) @ ts)" "0 \<notin> set t" "follow ''|)&;'' ts" "length ws < MAXARGS"
  shows "yields t (mean_simple (Simple rs ws)) ts (bindr (parseredirs t i) (\<lambda>rs i. parseargs t MAXARGS [] rs i))"
proof -
  have a: "ahead t i (toks_redirs rs @ toks_args ws @ ts)" using assms(1) by simp
  obtain rs' j where r: "parseredirs t i = Ok rs' j" "redir_text t rs' = mean_redirs rs" "ahead t j (toks_args ws @ ts)"
    using parseredirs_complete [OF a args_redirs [OF a assms(3)] assms(2)] by blast
  show ?thesis using parseargs_complete [OF r(3) assms(3) [unfolded follow_def] assms(2,4), of "[]" rs'] r(1,2)
    by (auto simp del: parseargs.simps)
qed

lemma line_yields:
  assumes z: "0 \<notin> set t"
    and pipe: "\<And>i p us. ahead t i (toks_pipe p @ us) \<Longrightarrow> few_pipe p \<Longrightarrow> follow '')&;'' us \<Longrightarrow> yields t (mean_pipe p) us (parsepipe n t i)"
    and line: "\<And>i l us. ahead t i (toks_line l @ us) \<Longrightarrow> few_args l \<Longrightarrow> follow '')'' us \<Longrightarrow> yields t (mean_line l) us (parseline n t i)"
    and h: "ahead t i (toks_line l @ ts)" "few_args l" "follow '')'' ts"
  shows "yields t (mean_line l) ts (parseline (Suc n) t i)"
proof (cases l)
  case (Last p k)
  then have a: "ahead t i (toks_pipe p @ replicate k (Sym (of_char CHR ''&'')) @ ts)" "few_pipe p" using h by simp_all
  have "\<not> starts '';'' ts" using h(3) by (rule follow_disjoint) (simp add: bytes_of_def)
  moreover have "follow '');'' ts" using h(3) by (rule follow_weaken) (simp add: bytes_of_def)
  ultimately show ?thesis unfolding parseline.simps
    by (intro back_yields [OF pipe [OF a follow_back [OF h(3)]] z] no_more_yields [OF _ z _ tokens_symbols(3)]) (simp_all add: Last)
next
  case (Semi p k l')
  then have a: "ahead t i (toks_pipe p @ replicate k (Sym (of_char CHR ''&'')) @ Sym (of_char CHR '';'') # toks_line l' @ ts)"
    "few_pipe p" using h by simp_all
  have f: "follow '')&;'' (replicate k (Sym (of_char CHR ''&'')) @ Sym (of_char CHR '';'') # toks_line l' @ ts)"
    by (cases k) (simp_all add: bytes_of_def)
  show ?thesis unfolding parseline.simps Semi mean_line.simps
  proof (rule back_yields [OF pipe [OF a f] z])
    fix cmd j
    assume "cmd_text t cmd = (BackCmd ^^ k) (mean_pipe p)" "ahead t j (Sym (of_char CHR '';'') # toks_line l' @ ts)"
    then show "yields t (ListCmd ((BackCmd ^^ k) (mean_pipe p)) (mean_line l')) ts (let (b, i) = peek t '';'' j
       in if b then bindr (parseline n t (skip_token t i)) (\<lambda>r i. Ok (ListCmd cmd r) i) else Ok cmd i)"
      by (intro more_yields [OF _ z _ tokens_symbols(3)] line) (use h in \<open>simp_all add: Semi bytes_of_def\<close>)
  qed (simp add: bytes_of_def)
qed

lemma pipe_yields:
  assumes z: "0 \<notin> set t"
    and simple: "\<And>i e us. ahead t i (toks_simple e @ us) \<Longrightarrow> few_simple e \<Longrightarrow> follow ''|)&;'' us \<Longrightarrow> yields t (mean_simple e) us (parseexec n t i)"
    and pipe: "\<And>i p us. ahead t i (toks_pipe p @ us) \<Longrightarrow> few_pipe p \<Longrightarrow> follow '')&;'' us \<Longrightarrow> yields t (mean_pipe p) us (parsepipe n t i)"
    and h: "ahead t i (toks_pipe p @ ts)" "few_pipe p" "follow '')&;'' ts"
  shows "yields t (mean_pipe p) ts (parsepipe (Suc n) t i)"
proof (cases p)
  case (Single e)
  have "\<not> starts ''|'' ts" using h(3) by (rule follow_disjoint) (simp add: bytes_of_def)
  moreover have "follow ''|)&;'' ts" using h(3) by (rule follow_weaken) (simp add: bytes_of_def)
  ultimately show ?thesis unfolding parsepipe.simps
    by (intro yields_bindr [OF simple] no_more_yields [OF _ z _ tokens_symbols(4)]) (use h in \<open>simp_all add: Single\<close>)
next
  case (Bar e p')
  then have a: "ahead t i (toks_simple e @ Sym (of_char CHR ''|'') # toks_pipe p' @ ts)" "few_simple e" using h by simp_all
  show ?thesis unfolding parsepipe.simps Bar mean_pipe.simps
  proof (rule yields_bindr [OF simple [OF a]])
    fix cmd j
    assume "cmd_text t cmd = mean_simple e" "ahead t j (Sym (of_char CHR ''|'') # toks_pipe p' @ ts)"
    then show "yields t (PipeCmd (mean_simple e) (mean_pipe p')) ts (let (b, i) = peek t ''|'' j
       in if b then bindr (parsepipe n t (skip_token t i)) (\<lambda>r i. Ok (PipeCmd cmd r) i) else Ok cmd i)"
      by (intro more_yields [OF _ z _ tokens_symbols(4)] pipe) (use h in \<open>simp_all add: Bar bytes_of_def\<close>)
  qed (simp add: bytes_of_def)
qed

lemma parser_complete:
  assumes z: "0 \<notin> set t"
  shows "ahead t i (toks_line l @ ts) \<Longrightarrow> few_args l \<Longrightarrow> follow '')'' ts \<Longrightarrow> yields t (mean_line l) ts (parseline n t i)"
    "ahead t i (toks_pipe p @ ts) \<Longrightarrow> few_pipe p \<Longrightarrow> follow '')&;'' ts \<Longrightarrow> yields t (mean_pipe p) ts (parsepipe n t i)"
    "ahead t i (toks_simple e @ ts) \<Longrightarrow> few_simple e \<Longrightarrow> follow ''|)&;'' ts \<Longrightarrow> yields t (mean_simple e) ts (parseexec n t i)"
    "ahead t i (toks_simple (Block b rs) @ ts) \<Longrightarrow> few_args b \<Longrightarrow> follow ''|)&;'' ts \<Longrightarrow>
     yields t (mean_simple (Block b rs)) ts (parseblock n t i)"
proof (induction n arbitrary: i ts l p e b rs)
  case 0
  { case 1 show ?case by simp }
  { case 2 show ?case by simp }
  { case 3 show ?case by simp }
  { case 4 show ?case by simp }
next
  case (Suc n)
  { case 1 then show ?case by (intro line_yields z Suc.IH) }
  { case 2 then show ?case by (intro pipe_yields z Suc.IH) }
  { case 3
    obtain j where p: "peek t ''('' i = (starts ''('' (toks_simple e @ ts), j)" "ahead t j (toks_simple e @ ts)"
      using peek_next [OF 3(1) z tokens_symbols(6)] .
    show ?case
    proof (cases e)
      case (Simple rs ws)
      then show ?thesis using p 3 args_block [of t i rs ws ts] simple_yields [of t j rs ws ts] z
        by (simp del: parseargs.simps toks_simple.simps mean_simple.simps)
    next
      case (Block b rs)
      then show ?thesis using p 3 Suc.IH(4) [of j b rs ts] by (simp add: bytes_of_def)
    qed }
  { case 4
    have a: "ahead t i (Sym (of_char CHR ''('') # toks_line b @ Sym (of_char CHR '')'') # toks_redirs rs @ ts)" using 4 by simp
    obtain j where p: "peek t ''('' i = (True, j)" "ahead t j (Sym (of_char CHR ''('') # toks_line b @ Sym (of_char CHR '')'') # toks_redirs rs @ ts)"
      using peek_next [OF a z tokens_symbols(6)] by (auto simp: bytes_of_def)
    have "\<not> starts ''<>'' ts" using 4(3) by (rule follow_disjoint) (simp add: bytes_of_def)
    then have "yields t (mean_simple (Block b rs)) ts (bindr (parseline n t (skip_token t j)) (\<lambda>cmd i.
           let (b, i) = peek t '')'' i
           in if \<not> b then Panic ''syntax - missing )''
              else bindr (parseredirs t (skip_token t i)) (\<lambda>rs i. Ok (redircmds cmd rs) i)))"
      unfolding mean_simple.simps
      by (intro yields_bindr [OF Suc.IH(1) [OF skip_token_ahead [OF p(2) z] 4(2)]] block_yields z) (simp_all add: bytes_of_def)
    then show ?case using p(1) by simp }
qed

section \<open>Soundness\<close>

text \<open>The text between \<open>i\<close> and \<open>j\<close> spells \<open>us\<close>.\<close>

definition covers :: "u8 list \<Rightarrow> nat \<Rightarrow> tok list \<Rightarrow> nat \<Rightarrow> bool" where
  "covers t i us j \<longleftrightarrow> i \<le> length t \<and> j \<le> length t \<and> (\<forall>ts. ahead t j ts \<longrightarrow> ahead t i (us @ ts))"

lemma covers_trans: "covers t i us j \<Longrightarrow> covers t j vs k \<Longrightarrow> covers t i (us @ vs) k"
  by (simp add: covers_def)

lemma covers_refl: "i \<le> length t \<Longrightarrow> covers t i [] i"
  by (simp add: covers_def)

lemma covers_peek: "peek t toks i = (b, j) \<Longrightarrow> i \<le> length t \<Longrightarrow> covers t i [] j"
  using peek_bounds [of t toks i b j] ahead_skip_ws [of i t] by (auto simp: covers_def)

lemma covers_token:
  assumes "gettoken t i = (tok, r, j)" "i \<le> length t" "0 \<notin> set t" "tok \<noteq> 0"
  obtains x where "tok = kind x" "tok_ok x" "range_text t r = text_of x" "covers t i [x] j"
  using assms(2,3)
proof (cases rule: gettoken_cases)
  case over
  then show ?thesis using assms by simp
next
  case (tok x r' j')
  then have "covers t i [x] j" using assms(1,2) by (simp add: covers_def)
  then show ?thesis using that [of x] tok assms(1) by simp
qed

lemma covers_symbol:
  assumes "peek t toks i = (True, j)" "i \<le> length t" "0 \<notin> set t" "set (bytes_of toks) \<subseteq> set symbols"
  obtains x where "tok_ok x" "hd (text_of x) \<in> set (bytes_of toks)" "fst (gettoken t j) = kind x" "covers t i [x] (skip_token t j)"
proof -
  note c = covers_peek [OF assms(1,2)]
  have j: "j \<le> length t" using c by (simp add: covers_def)
  obtain ts where ts: "ahead t j ts" using ahead_exists [OF j assms(3)] by blast
  then have "ahead t i ts" using c by (simp add: covers_def)
  then have s: "starts toks ts" using peek_ahead(1) [OF _ assms(3) symbols_nonzero [OF assms(4)]] assms(1) by auto
  show thesis using j assms(3)
proof (cases rule: gettoken_cases)
  case over
  then show ?thesis using ts s by simp
next
  case (tok x r k)
  then obtain us where "ts = x # us" using ts s by (cases ts) auto
  moreover have "covers t i ([] @ [x]) k" by (rule covers_trans [OF c]) (use tok j in \<open>simp add: covers_def\<close>)
  ultimately show ?thesis using that [of x] tok s by (simp add: starts_def skip_token_def)
qed
qed

lemma symbol_of: "tok_ok x \<Longrightarrow> hd (text_of x) = c \<Longrightarrow> c \<in> set symbols \<Longrightarrow> c \<noteq> of_char CHR ''>'' \<Longrightarrow> x = Sym c"
  by (cases x) (auto simp: bytes_of_def word_ok_def wordc_iff)

lemma covers_one:
  assumes "peek t [ch] i = (True, j)" "i \<le> length t" "0 \<notin> set t" "ch \<in> set ''|&;()''"
  shows "covers t i [Sym (of_char ch)] (skip_token t j)"
proof -
  have sym: "set (bytes_of [ch]) \<subseteq> set symbols" "of_char ch \<in> set symbols" "of_char ch \<noteq> (of_char CHR ''>'' :: u8)"
    using assms(4) by (auto simp: bytes_of_def symbols_set(2))
  obtain x where "tok_ok x" "hd (text_of x) \<in> set (bytes_of [ch])" "covers t i [x] (skip_token t j)"
    using covers_symbol [OF assms(1-3) sym(1)] .
  then show ?thesis using symbol_of [of x "of_char ch"] sym(2,3) by (simp add: bytes_of_def)
qed

lemma dir_of:
  assumes "tok_ok x" "hd (text_of x) \<in> set (bytes_of ''<>'')"
  obtains d where "x = dir_tok d"
proof (cases x)
  case (Sym c)
  then show ?thesis using assms that [of From] that [of To] by (auto simp: bytes_of_def)
next
  case Append
  then show ?thesis using that [of Onto] by simp
next
  case (Word w)
  then have "wordc (hd w)" "hd w \<in> set symbols" using assms tokens_symbols(1) by (auto simp: word_ok_def)
  then show ?thesis by (simp add: wordc_iff)
qed

lemma covers_word:
  assumes "gettoken t i = (of_char CHR ''a'', r, j)" "i \<le> length t" "0 \<notin> set t"
  shows "covers t i [Word (range_text t r)] j"
proof -
  obtain x where x: "of_char CHR ''a'' = kind x" "tok_ok x" "range_text t r = text_of x" "covers t i [x] j"
    using covers_token [OF assms] by auto
  obtain w where "x = Word w" using kind_Word [OF x(2)] x(1) by auto
  then show ?thesis using x by simp
qed

lemma parseredirs_sound:
  "i \<le> length t \<Longrightarrow> 0 \<notin> set t \<Longrightarrow> parseredirs t i = Ok rs' j \<Longrightarrow> \<exists>rs. redir_text t rs' = mean_redirs rs \<and> covers t i (toks_redirs rs) j"
proof (induction "length t - i" arbitrary: i rs' rule: less_induct)
  case (less i)
  obtain b k where p: "peek t ''<>'' i = (b, k)" by (cases "peek t ''<>'' i")
  show ?case
proof (cases b)
  case False
  then show ?thesis using p less(2,4) covers_peek [OF p less(2)] by (subst (asm) parseredirs.simps) (auto intro: exI [of _ "[]"])
next
  case True
  note pt = p [unfolded eqTrueI [OF True]]
  obtain x where x: "tok_ok x" "hd (text_of x) \<in> set (bytes_of ''<>'')" "fst (gettoken t k) = kind x" "covers t i [x] (skip_token t k)"
    using covers_symbol [OF pt less(2,3) tokens_symbols(1)] .
  obtain d where d: "x = dir_tok d" using dir_of [OF x(1,2)] .
  obtain tok r l where g: "gettoken t k = (tok, r, l)" by (metis prod_cases3)
  obtain tok' r' m where g': "gettoken t l = (tok', r', m)" by (metis prod_cases3)
  have l: "l \<le> length t" "skip_token t k = l" using x(4) g by (simp_all add: covers_def skip_token_def)
  have ok: "tok' = of_char CHR ''a''" using less(2,4) p True g g' by (subst (asm) parseredirs.simps) (auto split: if_splits)
  note w = covers_word [OF g' [unfolded ok] l(1) less(3)]
  have m: "m \<le> length t" using w by (simp add: covers_def)
  obtain rs'' where r: "parseredirs t m = Ok rs'' j" "rs' = redir_of tok r' @ rs''"
    using less(2,4) p True g g' ok by (subst (asm) parseredirs.simps) (auto simp: bindr_Ok_iff)
  have "length t - m < length t - i" using redirs_progress [OF pt g g'] less(2) by auto
  then obtain rs where rs: "redir_text t rs'' = mean_redirs rs" "covers t m (toks_redirs rs) j"
    using less(1) [OF _ m less(3) r(1)] by blast
  have "covers t i ([x] @ [Word (range_text t r')] @ toks_redirs rs) j"
    using covers_trans [OF x(4) [unfolded l(2)] covers_trans [OF w rs(2)]] .
  then show ?thesis using rs(1) r(2) x(3) g by (intro exI [of _ "(d, range_text t r') # rs"]) (simp add: d redir_of_kind)
qed
qed

lemma covers_over:
  assumes "gettoken t i = (0, r, j)" "i \<le> length t" "0 \<notin> set t"
  shows "covers t i [] j"
  using assms(2,3)
proof (cases rule: gettoken_cases)
  case over
  have "ts = []" if "ahead t (length t) ts" for ts
    using that by (cases ts) (auto simp: ahead_def Let_def dest: text_of_nonempty)
  then show ?thesis using over assms(1,2) by (auto simp: covers_def)
next
  case (tok x r' j')
  then show ?thesis using assms(1) kind_nonzero [of x] by simp
qed

lemma parseargs_sound:
  "i \<le> length t \<Longrightarrow> 0 \<notin> set t \<Longrightarrow> parseargs t k args rs i = Ok cmd j \<Longrightarrow>
   \<exists>ws. length ws < k \<and> covers t i (toks_args ws) j \<and>
     cmd_text t cmd = redircmds (ExecCmd (map (range_text t) args @ map fst ws)) (redir_text t rs @ mean_redirs (concat (map snd ws)))"
proof (induction k arbitrary: i args rs)
  case (Suc k)
  obtain b l where p: "peek t ''|)&;'' i = (b, l)" by (cases "peek t ''|)&;'' i")
  note c = covers_peek [OF p Suc(2)]
  have l: "l \<le> length t" using c by (simp add: covers_def)
  obtain tok r m where g: "gettoken t l = (tok, r, m)" by (metis prod_cases3)
  show ?case
proof (cases "b \<or> tok = 0")
  case True
  then have "covers t i ([] @ []) j"
    using p g Suc(4) c covers_trans [OF c covers_over [OF _ l Suc(3)], of r m] by (auto split: if_splits)
  then show ?thesis using True p g Suc(4) by (intro exI [of _ "[]"]) (auto simp: redircmds_text split: if_splits)
next
  case False
  then have h: "tok = of_char CHR ''a''" "k \<noteq> 0" "bindr (parseredirs t m) (\<lambda>rs' i. parseargs t k (args @ [r]) (rs @ rs') i) = Ok cmd j"
    using Suc(4) p g by (auto split: if_splits)
  obtain rs' n where r: "parseredirs t m = Ok rs' n" "parseargs t k (args @ [r]) (rs @ rs') n = Ok cmd j"
    using h(3) by (auto simp: bindr_Ok_iff)
  note w = covers_word [OF g [unfolded h(1)] l Suc(3)]
  have m: "m \<le> length t" using w by (simp add: covers_def)
  obtain rx where rx: "redir_text t rs' = mean_redirs rx" "covers t m (toks_redirs rx) n" using parseredirs_sound [OF m Suc(3) r(1)] by blast
  have n: "n \<le> length t" using rx(2) by (simp add: covers_def)
  obtain ws where ws: "length ws < k" "covers t n (toks_args ws) j"
    "cmd_text t cmd = redircmds (ExecCmd (map (range_text t) (args @ [r]) @ map fst ws)) (redir_text t (rs @ rs') @ mean_redirs (concat (map snd ws)))"
    using Suc.IH [OF n Suc(3) r(2)] by blast
  have "covers t i ([] @ [Word (range_text t r)] @ toks_redirs rx @ toks_args ws) j"
    using covers_trans [OF c covers_trans [OF w covers_trans [OF rx(2) ws(2)]]] .
  then show ?thesis using ws rx(1) by (intro exI [of _ "(range_text t r, rx) # ws"]) simp
qed
qed simp

lemma parseback_sound:
  "i \<le> length t \<Longrightarrow> 0 \<notin> set t \<Longrightarrow> parseback t cmd i = (c, j) \<Longrightarrow>
   \<exists>n. c = (BackCmd ^^ n) cmd \<and> covers t i (replicate n (Sym (of_char CHR ''&''))) j"
proof (induction "length t - i" arbitrary: i cmd rule: less_induct)
  case (less i)
  obtain b k where p: "peek t ''&'' i = (b, k)" by (cases "peek t ''&'' i")
  show ?case
proof (cases b)
  case False
  then show ?thesis using p less(2,4) covers_peek [OF p less(2)] by (subst (asm) parseback.simps) (auto intro!: exI [of _ "0::nat"])
next
  case True
  note pt = p [unfolded eqTrueI [OF True]]
  have c1: "covers t i [Sym (of_char CHR ''&'')] (skip_token t k)" by (rule covers_one [OF pt less(2,3)]) simp
  have b: "parseback t (BackCmd cmd) (skip_token t k) = (c, j)" using less(2,4) p True by (subst (asm) parseback.simps) simp
  have "length t - skip_token t k < length t - i" "skip_token t k \<le> length t" using back_progress [OF pt] less(2) by auto
  then obtain n where n: "c = (BackCmd ^^ n) (BackCmd cmd)" "covers t (skip_token t k) (replicate n (Sym (of_char CHR ''&''))) j"
    using less(1) [OF _ _ less(3) b] by blast
  show ?thesis using covers_trans [OF c1 n(2)] n(1) by (intro exI [of _ "Suc n"]) (simp add: funpow_swap1)
qed
qed

text \<open>The phrases of the grammar, as token lists with their meaning.\<close>

definition simple_of :: "tok list \<Rightarrow> u8 list cmd \<Rightarrow> bool" where
  "simple_of us c \<longleftrightarrow> (\<exists>e. few_simple e \<and> toks_simple e = us \<and> mean_simple e = c)"

definition pipe_of :: "tok list \<Rightarrow> u8 list cmd \<Rightarrow> bool" where
  "pipe_of us c \<longleftrightarrow> (\<exists>p. few_pipe p \<and> toks_pipe p = us \<and> mean_pipe p = c)"

definition line_of :: "tok list \<Rightarrow> u8 list cmd \<Rightarrow> bool" where
  "line_of us c \<longleftrightarrow> (\<exists>l. few_args l \<and> toks_line l = us \<and> mean_line l = c)"

lemma simple_of_Simple:
  "length ws < MAXARGS \<Longrightarrow> simple_of (toks_redirs rs @ toks_args ws) (redircmds (ExecCmd (map fst ws)) (mean_redirs rs @ mean_redirs (concat (map snd ws))))"
  unfolding simple_of_def by (rule exI [of _ "Simple rs ws"]) simp

lemma simple_of_Block: "line_of us c \<Longrightarrow> simple_of (Sym (of_char CHR ''('') # us @ Sym (of_char CHR '')'') # toks_redirs rs) (redircmds c (mean_redirs rs))"
  unfolding simple_of_def line_of_def by (metis few_simple.simps(2) mean_simple.simps(2) toks_simple.simps(2))

lemma pipe_of_Single: "simple_of us c \<Longrightarrow> pipe_of us c"
  unfolding simple_of_def pipe_of_def by (metis few_pipe.simps(1) mean_pipe.simps(1) toks_pipe.simps(1))

lemma pipe_of_Bar: "simple_of us c \<Longrightarrow> pipe_of vs d \<Longrightarrow> pipe_of (us @ Sym (of_char CHR ''|'') # vs) (PipeCmd c d)"
  unfolding simple_of_def pipe_of_def by (metis few_pipe.simps(2) mean_pipe.simps(2) toks_pipe.simps(2))

lemma line_of_Last: "pipe_of us c \<Longrightarrow> line_of (us @ replicate n (Sym (of_char CHR ''&''))) ((BackCmd ^^ n) c)"
  unfolding line_of_def pipe_of_def by (metis few_args.simps(1) mean_line.simps(1) toks_line.simps(1))

lemma line_of_Semi:
  "pipe_of us c \<Longrightarrow> line_of vs d \<Longrightarrow>
   line_of (us @ replicate n (Sym (of_char CHR ''&'')) @ Sym (of_char CHR '';'') # vs) (ListCmd ((BackCmd ^^ n) c) d)"
  unfolding line_of_def pipe_of_def by (metis few_args.simps(2) mean_line.simps(2) toks_line.simps(2))

text \<open>What a parser returns is a phrase, and its text lies between the start and the end.\<close>

definition finds :: "u8 list \<Rightarrow> nat \<Rightarrow> (tok list \<Rightarrow> u8 list cmd \<Rightarrow> bool) \<Rightarrow> (range cmd, unit, nat) res \<Rightarrow> bool" where
  "finds t i M r \<longleftrightarrow> (\<forall>cmd j. r = Ok cmd j \<longrightarrow> (\<exists>us. M us (cmd_text t cmd) \<and> covers t i us j))"

lemma findsD: "finds t i M r \<Longrightarrow> r = Ok cmd j \<Longrightarrow> \<exists>us. M us (cmd_text t cmd) \<and> covers t i us j"
  by (simp add: finds_def)

lemma finds_bindr:
  assumes "finds t i M r" "\<And>cmd j us. M us (cmd_text t cmd) \<Longrightarrow> covers t i us j \<Longrightarrow> finds t i N (f cmd j)"
  shows "finds t i N (bindr r f)"
  using assms unfolding finds_def bindr_Ok_iff by blast

lemma finds_Ok: "M us (cmd_text t cmd) \<Longrightarrow> covers t i us j \<Longrightarrow> finds t i M (Ok cmd j)"
  by (auto simp: finds_def)

lemma finds_Panic [simp]: "finds t i M (Panic msg)" "finds t i M Hang"
  by (auto simp: finds_def)

lemma more_finds:
  assumes k: "covers t i us k" "0 \<notin> set t" "ch \<in> set ''|&;()''"
    and C: "\<And>l r. cmd_text t (C l r) = C' (cmd_text t l) (cmd_text t r)"
    and f: "\<And>j. j \<le> length t \<Longrightarrow> finds t j N (f j)"
    and MN: "\<And>vs d. N vs d \<Longrightarrow> K (us @ Sym (of_char ch) # vs) (C' (cmd_text t cmd) d)" and MK: "K us (cmd_text t cmd)"
  shows "finds t i K (let (b, i) = peek t [ch] k in if b then bindr (f (skip_token t i)) (\<lambda>r i. Ok (C cmd r) i) else Ok cmd i)"
proof -
  obtain b l where p: "peek t [ch] k = (b, l)" by (cases "peek t [ch] k")
  have kl: "k \<le> length t" using k(1) by (simp add: covers_def)
  show ?thesis
proof (cases b)
  case True
  note c = covers_one [OF p [unfolded eqTrueI [OF True]] kl k(2,3)]
  have s: "skip_token t l \<le> length t" using c by (simp add: covers_def)
  have "finds t i K (bindr (f (skip_token t l)) (\<lambda>r i. Ok (C cmd r) i))" unfolding finds_def
  proof (intro allI impI)
    fix cmd' j
    assume "bindr (f (skip_token t l)) (\<lambda>r i. Ok (C cmd r) i) = Ok cmd' j"
    then obtain r where r: "f (skip_token t l) = Ok r j" "cmd' = C cmd r" by (auto simp: bindr_Ok_iff)
    obtain vs where "N vs (cmd_text t r)" "covers t (skip_token t l) vs j" using findsD [OF f [OF s] r(1)] by blast
    then show "\<exists>us. K us (cmd_text t cmd') \<and> covers t i us j"
      using MN covers_trans [OF k(1) covers_trans [OF c]] r(2) by (intro exI [of _ "us @ Sym (of_char ch) # vs"]) (simp add: C)
  qed
  then show ?thesis using p True by simp
next
  case False
  then show ?thesis using p MK covers_trans [OF k(1) covers_peek [OF p kl]] by (auto intro: finds_Ok)
qed
qed

lemma block_finds:
  assumes "covers t i us k" "line_of us' (cmd_text t cmd)" "us = Sym (of_char CHR ''('') # us'" "0 \<notin> set t"
  shows "finds t i simple_of (let (b, i) = peek t '')'' k
           in if \<not> b then Panic ''syntax - missing )''
              else bindr (parseredirs t (skip_token t i)) (\<lambda>rs i. Ok (redircmds cmd rs) i))"
proof -
  obtain b l where p: "peek t '')'' k = (b, l)" by (cases "peek t '')'' k")
  have kl: "k \<le> length t" using assms(1) by (simp add: covers_def)
  have "finds t i simple_of (bindr (parseredirs t (skip_token t l)) (\<lambda>rs i. Ok (redircmds cmd rs) i))" if b unfolding finds_def
proof (intro allI impI)
  fix cmd' j
  assume "bindr (parseredirs t (skip_token t l)) (\<lambda>rs i. Ok (redircmds cmd rs) i) = Ok cmd' j"
  then obtain rs' where r: "parseredirs t (skip_token t l) = Ok rs' j" "cmd' = redircmds cmd rs'" by (auto simp: bindr_Ok_iff)
  have c: "covers t k [Sym (of_char CHR '')'')] (skip_token t l)" by (rule covers_one [OF p [unfolded eqTrueI [OF that]] kl assms(4)]) simp
  then have "skip_token t l \<le> length t" by (simp add: covers_def)
  then obtain rs where "redir_text t rs' = mean_redirs rs" "covers t (skip_token t l) (toks_redirs rs) j"
    using parseredirs_sound [OF _ assms(4) r(1)] by blast
  then show "\<exists>us. simple_of us (cmd_text t cmd') \<and> covers t i us j"
    using simple_of_Block [OF assms(2), of rs] covers_trans [OF assms(1) covers_trans [OF c]] assms(3) r(2)
    by (intro exI [of _ "us @ [Sym (of_char CHR '')'')] @ toks_redirs rs"]) (simp add: redircmds_text)
qed
  then show ?thesis using p by simp
qed

lemma finds_prefix: "covers t i vs s \<Longrightarrow> finds t s M r \<Longrightarrow> finds t i (\<lambda>us c. \<exists>us'. us = vs @ us' \<and> M us' c) r"
  unfolding finds_def by (blast intro: covers_trans)

lemma finds_peek: "covers t i [] s \<Longrightarrow> finds t s M r \<Longrightarrow> finds t i M r"
  using finds_prefix [of t i "[]" s M r] by simp

lemma simple_finds:
  assumes "i \<le> length t" "0 \<notin> set t"
  shows "finds t i simple_of (bindr (parseredirs t i) (\<lambda>rs i. parseargs t MAXARGS [] rs i))"
  unfolding finds_def
proof (intro allI impI)
  fix cmd j
  assume "bindr (parseredirs t i) (\<lambda>rs i. parseargs t MAXARGS [] rs i) = Ok cmd j"
  then obtain rs' k where r: "parseredirs t i = Ok rs' k" "parseargs t MAXARGS [] rs' k = Ok cmd j" by (auto simp: bindr_Ok_iff)
  obtain rs where rs: "redir_text t rs' = mean_redirs rs" "covers t i (toks_redirs rs) k"
    using parseredirs_sound [OF assms r(1)] by blast
  have "k \<le> length t" using rs(2) by (simp add: covers_def)
  from parseargs_sound [OF this assms(2) r(2)]
  obtain ws where "length ws < MAXARGS" "covers t k (toks_args ws) j"
    "cmd_text t cmd = redircmds (ExecCmd (map fst ws)) (redir_text t rs' @ mean_redirs (concat (map snd ws)))" by auto
  then show "\<exists>us. simple_of us (cmd_text t cmd) \<and> covers t i us j"
    using simple_of_Simple [of ws rs] covers_trans [OF rs(2)] rs(1) by (intro exI [of _ "toks_redirs rs @ toks_args ws"]) simp
qed

lemma line_finds:
  assumes z: "0 \<notin> set t" and pipe: "\<And>i. i \<le> length t \<Longrightarrow> finds t i pipe_of (parsepipe n t i)"
    and line: "\<And>i. i \<le> length t \<Longrightarrow> finds t i line_of (parseline n t i)" and h0: "i \<le> length t"
  shows "finds t i line_of (parseline (Suc n) t i)"
  unfolding parseline.simps
proof (rule finds_bindr [OF pipe [OF h0]])
  fix cmd j us
  assume h: "pipe_of us (cmd_text t cmd)" "covers t i us j"
  then have j: "j \<le> length t" by (simp add: covers_def)
  obtain c k where b: "parseback t cmd j = (c, k)" by (cases "parseback t cmd j")
  obtain m where m: "c = (BackCmd ^^ m) cmd" "covers t j (replicate m (Sym (of_char CHR ''&''))) k"
    using parseback_sound [OF j z b] by blast
  show "finds t i line_of (let (cmd, i) = parseback t cmd j; (b, i) = peek t '';'' i
      in if b then bindr (parseline n t (skip_token t i)) (\<lambda>r i. Ok (ListCmd cmd r) i) else Ok cmd i)"
    unfolding b Let_def prod.case
    by (rule more_finds [where N = line_of, OF covers_trans [OF h(2) m(2)] z, unfolded Let_def])
      (use line line_of_Semi [OF h(1)] line_of_Last [OF h(1)] in \<open>auto simp: m(1) back_text\<close>)
qed

lemma parser_sound:
  assumes z: "0 \<notin> set t"
  shows "i \<le> length t \<Longrightarrow> finds t i line_of (parseline n t i)"
    "i \<le> length t \<Longrightarrow> finds t i pipe_of (parsepipe n t i)"
    "i \<le> length t \<Longrightarrow> finds t i simple_of (parseexec n t i)"
    "i \<le> length t \<Longrightarrow> finds t i simple_of (parseblock n t i)"
proof (induction n arbitrary: i)
  case 0
  { case 1 show ?case by simp }
  { case 2 show ?case by simp }
  { case 3 show ?case by simp }
  { case 4 show ?case by simp }
next
  case (Suc n)
  { case 1 then show ?case by (intro line_finds z Suc.IH) }
  { case 2
    show ?case unfolding parsepipe.simps
    proof (rule finds_bindr [OF Suc.IH(3) [OF 2]])
      fix cmd j us
      assume h: "simple_of us (cmd_text t cmd)" "covers t i us j"
      show "finds t i pipe_of (let (b, i) = peek t ''|'' j
          in if b then bindr (parsepipe n t (skip_token t i)) (\<lambda>r i. Ok (PipeCmd cmd r) i) else Ok cmd i)"
        by (rule more_finds [where N = pipe_of, OF h(2) z]) (use Suc.IH(2) pipe_of_Bar [OF h(1)] pipe_of_Single [OF h(1)] in auto)
    qed }
  { case 3
    obtain b j where p: "peek t ''('' i = (b, j)" by (cases "peek t ''('' i")
    note c = covers_peek [OF p 3]
    have j: "j \<le> length t" using c by (simp add: covers_def)
    show ?case using p finds_peek [OF c] Suc.IH(4) [OF j] simple_finds [OF j z] by (simp del: parseargs.simps) }
  { case 4
    obtain b j where p: "peek t ''('' i = (b, j)" by (cases "peek t ''('' i")
    show ?case
    proof (cases b)
      case True
      have c: "covers t i [Sym (of_char CHR ''('')] (skip_token t j)" by (rule covers_one [OF p [unfolded eqTrueI [OF True]] 4 z]) simp
      then have "skip_token t j \<le> length t" by (simp add: covers_def)
      then have "finds t i simple_of (bindr (parseline n t (skip_token t j)) (\<lambda>cmd i.
           let (b, i) = peek t '')'' i
           in if \<not> b then Panic ''syntax - missing )''
              else bindr (parseredirs t (skip_token t i)) (\<lambda>rs i. Ok (redircmds cmd rs) i)))"
        by (intro finds_bindr [OF finds_prefix [OF c Suc.IH(1)]]) (assumption, elim exE conjE, rule block_finds [OF _ _ _ z], simp_all)
      then show ?thesis using p True by simp
    qed (use p in simp) }
qed

end
