(* ===== verification/Sh_Run.thy ===== *)
theory Sh_Run
  imports Sh
begin

text \<open>
  What the programs that \<open>runcmd\<close> starts are connected to.  \<open>launches\<close> follows a program into both processes of every fork, with the
  table of open descriptors of each process; \<open>plan\<close> says which programs a command starts and with which descriptors.
\<close>

section \<open>Descriptors\<close>

text \<open>What a descriptor refers to.  A pipe is named by the forks that lead to the process that made it.\<close>

datatype object = Stream nat | File "u8 list" u32 | Read_end "bool list" | Write_end "bool list"

type_synonym table = "int \<rightharpoonup> object"

definition lowest :: "table \<Rightarrow> int option" where
  "lowest tab = map_option int (find (\<lambda>fd. tab (int fd) = None) [0..<NOFILE])"

definition answer :: "int \<Rightarrow> sysret" where
  "answer v = \<lparr>r_val = v, r_data = [], r_fds = (0, 0), r_stat = \<lparr>st_dev = 0, st_ino = 0, st_type = 0, st_nlink = 0, st_size = 0\<rparr>\<rparr>"

text \<open>A new descriptor for \<open>obj\<close>.\<close>

definition install :: "object \<Rightarrow> table \<Rightarrow> int \<times> table" where
  "install obj tab = (case lowest tab of None \<Rightarrow> (- 1, tab) | Some fd \<Rightarrow> (fd, tab(fd \<mapsto> obj)))"

text \<open>A program that has been started: its arguments and its descriptors.\<close>

type_synonym started = "u8 list list \<times> table"

text \<open>The programs that the processes of a program start, with forks that succeed and files that can be opened as \<open>can\<close> says.
  \<open>here\<close> are the forks that lead to the process, \<open>True\<close> for the child.\<close>

primrec launches :: "(u8 list \<Rightarrow> u32 \<Rightarrow> bool) \<Rightarrow> 'a prog \<Rightarrow> bool list \<Rightarrow> table \<Rightarrow> started list" where
  "launches can (Ret x) here tab = []"
| "launches can (Exit n) here tab = []"
| "launches can Stuck here tab = []"
| "launches can (Sys r k) here tab =
     (case r of
        Fork \<Rightarrow> launches can (k (answer 0)) (here @ [True]) tab @ launches can (k (answer 1)) (here @ [False]) tab
      | Close fd \<Rightarrow> launches can (k (answer 0)) here (tab(fd := None))
      | Open name mode \<Rightarrow>
          if can name mode then let (fd, tab) = install (File name mode) tab in launches can (k (answer fd)) here tab
          else launches can (k (answer (- 1))) here tab
      | Dup fd \<Rightarrow>
          (case tab fd of
             None \<Rightarrow> launches can (k (answer (- 1))) here tab
           | Some obj \<Rightarrow> let (fd', tab) = install obj tab in launches can (k (answer fd')) here tab)
      | Pipe \<Rightarrow>
          let (p0, tab) = install (Read_end here) tab; (p1, tab) = install (Write_end here) tab
          in if p0 < 0 \<or> p1 < 0 then launches can (k (answer (- 1))) here tab
             else launches can (k ((answer 0)\<lparr>r_fds := (p0, p1)\<rparr>)) here tab
      | Exec path argv \<Rightarrow> [(argv, tab)]
      | _ \<Rightarrow> launches can (k (answer 0)) here tab)"

section \<open>The plan of a command\<close>

definition stdio :: "object \<Rightarrow> object \<Rightarrow> object \<Rightarrow> table" where
  "stdio i out err = [0 \<mapsto> i, 1 \<mapsto> out, 2 \<mapsto> err]"

primrec plan :: "(u8 list \<Rightarrow> u32 \<Rightarrow> bool) \<Rightarrow> u8 list cmd \<Rightarrow> bool list \<Rightarrow> object \<Rightarrow> object \<Rightarrow> object \<Rightarrow> started list" where
  "plan can (ExecCmd ws) here i out err = (if ws = [] then [] else [(ws, stdio i out err)])"
| "plan can (RedirCmd cmd f mode fd) here i out err =
     (if \<not> can f mode then []
      else if fd = 0 then plan can cmd here (File f mode) out err
      else plan can cmd here i (File f mode) err)"
| "plan can (PipeCmd l r) here i out err =
     plan can l (here @ [True]) i (Write_end here) err @ plan can r (here @ [False, True]) (Read_end here) out err"
| "plan can (ListCmd l r) here i out err = plan can l (here @ [True]) i out err @ plan can r (here @ [False]) i out err"
| "plan can (BackCmd cmd) here i out err = plan can cmd (here @ [True]) i out err"

text \<open>Redirections concern the descriptors 0 and 1.\<close>

primrec redirs_ok :: "'s cmd \<Rightarrow> bool" where
  "redirs_ok (ExecCmd ws) \<longleftrightarrow> True"
| "redirs_ok (RedirCmd cmd f mode fd) \<longleftrightarrow> (fd = 0 \<or> fd = 1) \<and> redirs_ok cmd"
| "redirs_ok (PipeCmd l r) \<longleftrightarrow> redirs_ok l \<and> redirs_ok r"
| "redirs_ok (ListCmd l r) \<longleftrightarrow> redirs_ok l \<and> redirs_ok r"
| "redirs_ok (BackCmd cmd) \<longleftrightarrow> redirs_ok cmd"

section \<open>Messages start nothing\<close>

primrec only_writes :: "'a prog \<Rightarrow> bool" where
  "only_writes (Ret x) \<longleftrightarrow> True"
| "only_writes (Exit n) \<longleftrightarrow> True"
| "only_writes Stuck \<longleftrightarrow> True"
| "only_writes (Sys r k) \<longleftrightarrow> (\<exists>fd cs. r = Write fd cs) \<and> (\<forall>x. only_writes (k x))"

lemma only_writes_bindp: "only_writes p \<Longrightarrow> (\<And>x. only_writes (f x)) \<Longrightarrow> only_writes (bindp p f)"
  by (induction p) auto

lemma only_writes_thenp: "only_writes p \<Longrightarrow> only_writes q \<Longrightarrow> only_writes (thenp p q)"
  by (simp add: thenp_def only_writes_bindp)

lemma only_writes_puts: "only_writes (puts fd cs)"
  unfolding puts_def by (induction cs) (auto simp: putc_def call_def thenp_def)

lemma only_writes_putc: "only_writes (putc fd c)"
  by (simp add: putc_def call_def thenp_def)

lemma only_writes_convert: "only_writes (convert fd c ap)"
  by (auto simp: printint_def printptr_def only_writes_putc only_writes_puts
      intro!: only_writes_thenp split: list.splits vararg.splits option.splits)

lemma only_writes_fprintf: "only_writes (fprintf fd fmt ap)"
proof -
  have "only_writes (vprintf_loop fd pct fs ap)" for pct fs
    by (induction fd pct fs ap rule: vprintf_loop.induct)
      (auto simp: only_writes_putc intro!: only_writes_thenp only_writes_bindp only_writes_convert simp del: convert.simps)
  then show ?thesis by (simp add: fprintf_def vprintf_def)
qed

lemma only_writes_launches: "only_writes p \<Longrightarrow> launches can p here tab = []"
  by (induction p arbitrary: here tab) auto

lemma launches_message: "launches can (thenp (fprintf fd fmt ap) (Exit n)) here tab = []"
  by (simp add: only_writes_launches only_writes_thenp only_writes_fprintf)

section \<open>\<open>runcmd\<close> follows the plan\<close>

lemma lowest_stdio:
  "lowest ((stdio i out err)(0 := None)) = Some 0" "lowest ((stdio i out err)(1 := None)) = Some 1"
  "lowest (stdio i out err) = Some 3" "lowest ((stdio i out err)(3 \<mapsto> p)) = Some 4"
  "lowest ((stdio i out err)(3 \<mapsto> p, 4 \<mapsto> q, 0 := None)) = Some 0" "lowest ((stdio i out err)(3 \<mapsto> p, 4 \<mapsto> q, 1 := None)) = Some 1"
  by (simp_all add: lowest_def stdio_def NOFILE_def upt_rec)

lemma stdio_simps:
  "(stdio i out err)(0 \<mapsto> x) = stdio x out err" "(stdio i out err)(1 \<mapsto> x) = stdio i x err"
  "(stdio i out err)(3 := None, 4 := None) = stdio i out err"
  by (auto simp: stdio_def fun_eq_iff)

lemmas run_simps = thenp_def call_def fork1_def pipe_call_def answer_def install_def lowest_stdio stdio_simps

lemma runcmd_launches:
  "redirs_ok cmd \<Longrightarrow> launches can (runcmd buf cmd) here (stdio i out err) = plan can (map_cmd (string_at buf) cmd) here i out err"
proof (induction cmd arbitrary: here i out err)
  case (ExecCmd rs)
  then show ?case by (simp add: run_simps hd_map)
next
  case (RedirCmd cmd r mode fd)
  then show ?case by (auto simp: run_simps launches_message [unfolded thenp_def])
next
  case (PipeCmd l r)
  then show ?case by (simp add: run_simps)
next
  case (ListCmd l r)
  then show ?case by (simp add: run_simps)
next
  case (BackCmd cmd)
  then show ?case by (simp add: run_simps)
qed

end
