(* ===== verification/Sh_Properties.thy ===== *)
theory Sh_Properties
  imports Sh_Grammar Sh_Run
begin

text \<open>
  The properties of the shell: its parser and the programs that a command line starts.
\<close>

section \<open>The parser\<close>

text \<open>The whole line: complete, and sound.\<close>

lemma parse_text_complete:
  assumes "0 \<notin> set t" "spells (toks_line l) t" "few_args l"
  shows "\<exists>cmd. parse_text t = Ok cmd (length t) \<and> cmd_text t cmd = mean_line l"
proof -
  have "ahead t 0 (toks_line l @ [])" using assms(2) by (simp add: ahead_def)
  from parser_complete(1) [OF assms(1) this assms(3), of "4 * length t + 4"]
  have "yields t (mean_line l) [] (parseline (4 * length t + 4) t 0)" by (simp add: follow_def)
  moreover have "parseline (4 * length t + 4) t 0 \<noteq> Hang" using parser_fine(1) [of 0 t "4 * length t + 4"] by (auto simp: fine_def)
  ultimately obtain cmd j where r: "parseline (4 * length t + 4) t 0 = Ok cmd j" "cmd_text t cmd = mean_line l" "ahead t j []"
    by (auto simp: yields_def)
  have "drop (skip_ws t j) t = []" using r(3) by (simp add: drop_skip_ws ahead_def)
  then have "skip_ws t j = length t" using r(3) skip_ws_bounds(2) [of j t] by (simp add: ahead_def)
  then show ?thesis using r by (simp add: parse_text_def peek_def Let_def)
qed

lemma parse_text_sound:
  assumes "0 \<notin> set t" "parse_text t = Ok cmd (length t)"
  shows "\<exists>l. few_args l \<and> spells (toks_line l) t \<and> mean_line l = cmd_text t cmd"
proof -
  obtain j where j: "parseline (4 * length t + 4) t 0 = Ok cmd j" "snd (peek t [] j) = length t"
    using assms(2) by (auto simp: parse_text_def bindr_Ok_iff)
  obtain us where us: "line_of us (cmd_text t cmd)" "covers t 0 us j"
    using findsD [OF parser_sound(1) [OF assms(1)] j(1)] by auto
  have "ahead t j []" using us(2) j(2) ahead_skip_ws [of j t "[]"] by (simp add: covers_def peek_def Let_def ahead_def)
  then have "ahead t 0 (us @ [])" using us(2) unfolding covers_def by blast
  then have "spells us t" by (simp add: ahead_def)
  then show ?thesis using us(1) by (auto simp: line_of_def)
qed

lemma panic_not_Ret: "thenp m (panic msg) \<noteq> Ret x" "panic msg \<noteq> Ret x"
  unfolding panic_def by (cases m; cases "fprintf 2 (''%s'' @ [NL]) [V_str (Some (bytes_of msg))]"; simp add: thenp_def)+

lemma parsecmd_Ret: "parsecmd t = Ret (cmd, buf) \<longleftrightarrow> parse_text t = Ok cmd (length t) \<and> buf = nulterminate cmd (t @ [0])"
  by (auto simp: parsecmd_def panic_not_Ret split: res.splits)

lemma parse_text_strings:
  assumes "0 \<notin> set t" "parse_text t = Ok cmd i"
  shows "map_cmd (string_at (nulterminate cmd (t @ [0]))) cmd = cmd_text t cmd"
proof -
  have "good t cmd" using parse_text_fine [of t] assms(2) by simp
  then show ?thesis using token_string [OF _ _ assms(1)] by (intro cmd.map_cong0) blast
qed

text \<open>No command has more words than \<open>argv\<close> has room for.\<close>

primrec argc_ok :: "'s cmd \<Rightarrow> bool" where
  "argc_ok (ExecCmd rs) \<longleftrightarrow> length rs < MAXARGS"
| "argc_ok (RedirCmd cmd r mode fd) \<longleftrightarrow> argc_ok cmd"
| "argc_ok (PipeCmd l r) \<longleftrightarrow> argc_ok l \<and> argc_ok r"
| "argc_ok (ListCmd l r) \<longleftrightarrow> argc_ok l \<and> argc_ok r"
| "argc_ok (BackCmd cmd) \<longleftrightarrow> argc_ok cmd"

lemma argc_ok_map: "argc_ok (map_cmd f cmd) = argc_ok cmd"
  by (induction cmd) auto

lemma argc_ok_redirs: "argc_ok (redircmds cmd rs) = argc_ok cmd"
  unfolding redircmds_def by (induction rs arbitrary: cmd) (simp_all add: split_beta)

lemma argc_ok_back: "argc_ok ((BackCmd ^^ n) cmd) = argc_ok cmd"
  by (induction n) simp_all

lemma argc_ok_line:
  "few_simple e \<Longrightarrow> argc_ok (mean_simple e)" "few_pipe p \<Longrightarrow> argc_ok (mean_pipe p)" "few_args l \<Longrightarrow> argc_ok (mean_line l)"
  by (induction e and p and l) (auto simp: argc_ok_redirs argc_ok_back)

text \<open>C5: \<open>parsecmd\<close> accepts exactly the lines that the grammar of command lines derives, however they are spaced, and the command it
  returns, with its strings read from the terminated buffer as \<open>runcmd\<close> reads them, is the meaning of the line.\<close>

theorem sh_parses_grammar:
  assumes "0 \<notin> set t"
  shows "(\<exists>cmd buf. parsecmd t = Ret (cmd, buf) \<and> map_cmd (string_at buf) cmd = c) \<longleftrightarrow>
    (\<exists>l. few_args l \<and> spells (toks_line l) t \<and> mean_line l = c)"
proof
  assume "\<exists>cmd buf. parsecmd t = Ret (cmd, buf) \<and> map_cmd (string_at buf) cmd = c"
  then obtain cmd where "parse_text t = Ok cmd (length t)" "map_cmd (string_at (nulterminate cmd (t @ [0]))) cmd = c"
    unfolding parsecmd_Ret by blast
  then show "\<exists>l. few_args l \<and> spells (toks_line l) t \<and> mean_line l = c"
    using parse_text_sound [OF assms] unfolding parse_text_strings [OF assms \<open>parse_text t = Ok cmd (length t)\<close>] by blast
next
  assume "\<exists>l. few_args l \<and> spells (toks_line l) t \<and> mean_line l = c"
  then obtain cmd where "parse_text t = Ok cmd (length t)" "cmd_text t cmd = c" using parse_text_complete [OF assms] by blast
  then show "\<exists>cmd buf. parsecmd t = Ret (cmd, buf) \<and> map_cmd (string_at buf) cmd = c"
    using parse_text_strings [OF assms, of cmd "length t"] unfolding parsecmd_Ret by blast
qed

definition demo_line :: line where
  "demo_line =
     Semi (Bar (Simple [] [(bytes_of ''ls'', []), (bytes_of ''-l'', [])]) (Single (Simple [(From, bytes_of ''in'')] [(bytes_of ''wc'', [(Onto, bytes_of ''out'')])]))) 0
       (Last (Single (Block (Last (Single (Simple [] [(bytes_of ''a'', [])])) 0) [])) 1)"

definition demo_text :: "u8 list" where
  "demo_text = bytes_of ''ls -l|<in wc >>out; ( a)& ''"

theorem sh_parses_grammar_witness:
  "0 \<notin> set demo_text \<and> (\<exists>cmd buf. parsecmd demo_text = Ret (cmd, buf) \<and>
     map_cmd (string_at buf) cmd =
       ListCmd (PipeCmd (ExecCmd [bytes_of ''ls'', bytes_of ''-l''])
                  (RedirCmd (RedirCmd (ExecCmd [bytes_of ''wc'']) (bytes_of ''in'') O_RDONLY 0) (bytes_of ''out'') (O_WRONLY OR O_CREATE) 1))
         (BackCmd (ExecCmd [bytes_of ''a''])))"
proof -
  have z: "0 \<notin> set demo_text" by (simp add: demo_text_def bytes_of_def)
  have s: "spells (toks_line demo_line) demo_text" by code_simp
  have f: "few_args demo_line" by code_simp
  have m: "mean_line demo_line = ListCmd (PipeCmd (ExecCmd [bytes_of ''ls'', bytes_of ''-l''])
                  (RedirCmd (RedirCmd (ExecCmd [bytes_of ''wc'']) (bytes_of ''in'') O_RDONLY 0) (bytes_of ''out'') (O_WRONLY OR O_CREATE) 1))
         (BackCmd (ExecCmd [bytes_of ''a'']))"
    by (simp add: demo_line_def redircmds_def)
  have "\<exists>l. few_args l \<and> spells (toks_line l) demo_text \<and> mean_line l = mean_line demo_line" using s f by blast
  then show ?thesis using z unfolding sh_parses_grammar [OF z, symmetric] m by (rule conjI [rotated])
qed

text \<open>C36: The parser ends on every line, with a command or with an error message and exit status 1.  Every string of the command is a
  maximal run of word characters inside the line, at most nine of them make up a command, and terminating all of them in place leaves each
  of them as it stood in the line.\<close>

theorem sh_parse_total:
  assumes "0 \<notin> set t"
  shows "(\<exists>msg. parsecmd t = panic msg) \<or>
    (\<exists>i \<le> length t. parsecmd t = thenp (fprintf 2 (''leftovers: %s'' @ [NL]) [V_str (Some (drop i t))]) (panic ''syntax'')) \<or>
    (\<exists>cmd buf. parsecmd t = Ret (cmd, buf) \<and> length buf = length t + 1 \<and> argc_ok cmd \<and>
      (\<forall>r \<in> set_cmd cmd. token t r \<and> string_at buf r = range_text t r))"
proof -
  consider (panic) msg where "parse_text t = Panic msg" | (ok) cmd i where "parse_text t = Ok cmd i" "i \<le> length t" "good t cmd"
    using parse_text_fine [of t] by (auto simp: fine_def)
  then show ?thesis
  proof cases
    case panic
    then show ?thesis by (auto simp: parsecmd_def)
  next
    case ok
    show ?thesis
    proof (cases "i = length t")
      case True
      then have "parsecmd t = Ret (cmd, nulterminate cmd (t @ [0]))" using ok(1) by (simp add: parsecmd_Ret)
      moreover obtain l where "few_args l" "mean_line l = cmd_text t cmd" using parse_text_sound [OF assms] ok(1) True by blast
      then have "argc_ok cmd" using argc_ok_line(3) [of l] argc_ok_map [of "range_text t" cmd] by simp
      ultimately show ?thesis using ok(3) token_string [OF _ ok(3) assms] nulterminate_nth [of cmd "t @ [0]"] by auto
    next
      case False
      then show ?thesis using ok by (auto simp: parsecmd_def)
    qed
  qed
qed

theorem sh_parse_total_witness:
  "(\<exists>msg. parsecmd demo_text = panic msg) \<or>
    (\<exists>i \<le> length demo_text. parsecmd demo_text = thenp (fprintf 2 (''leftovers: %s'' @ [NL]) [V_str (Some (drop i demo_text))]) (panic ''syntax'')) \<or>
    (\<exists>cmd buf. parsecmd demo_text = Ret (cmd, buf) \<and> length buf = length demo_text + 1 \<and> argc_ok cmd \<and>
      (\<forall>r \<in> set_cmd cmd. token demo_text r \<and> string_at buf r = range_text demo_text r))"
proof -
  have "0 \<notin> set demo_text" by (simp add: demo_text_def bytes_of_def)
  then show ?thesis by (rule sh_parse_total)
qed

section \<open>Running a line\<close>

lemma redirs_ok_map: "redirs_ok (map_cmd f cmd) = redirs_ok cmd"
  by (induction cmd) auto

lemma redirs_ok_redirs: "redirs_ok (redircmds cmd (mean_redirs rs)) = redirs_ok cmd"
proof (induction rs arbitrary: cmd)
  case (Cons x rs)
  obtain d w where x: "x = (d, w)" by (cases x)
  have "redircmds cmd (mean_redirs (x # rs)) = redircmds (RedirCmd cmd w (fst (mean_dir d)) (snd (mean_dir d))) (mean_redirs rs)"
    by (simp add: x redircmds_def split_beta)
  then show ?case using Cons by (cases d) simp_all
qed (simp add: redircmds_def)

lemma redirs_ok_back: "redirs_ok ((BackCmd ^^ n) cmd) = redirs_ok cmd"
  by (induction n) simp_all

lemma redirs_ok_line: "redirs_ok (mean_simple e)" "redirs_ok (mean_pipe p)" "redirs_ok (mean_line l)"
  by (induction e and p and l) (simp_all add: redirs_ok_redirs redirs_ok_back del: mean_redirs_simps)



end
