(* ===== verification/Trap.thy ===== *)
theory Trap
  imports Syscall
begin

text \<open>
  \<^verbatim>\<open>kernel/trap.c\<close>, \<^verbatim>\<open>kernel/plic.c\<close>, \<open>forkret\<close> of \<^verbatim>\<open>kernel/proc.c\<close> and \<^verbatim>\<open>kernel/main.c\<close>.  The supervisor registers a trap
  sets are per-hart fields; of \<open>sstatus\<close> the bits SPP and SPIE are kept apart from the interrupt-enable bit.  The
  PLIC is its memory-mapped registers.  \<open>usertrapret\<close> ends with the jump to \<^verbatim>\<open>userret\<close>, and its result is the
  \<open>satp\<close> value it passes on.  As in \<^verbatim>\<open>Proc\<close>, a handler that yields is cut at the switch, and what follows it is a
  definition of its own.
\<close>

record ktrap = ksys +
  r_scause :: "nat \<Rightarrow> u64"
  r_sepc :: "nat \<Rightarrow> u64"
  r_stval :: "nat \<Rightarrow> u64"
  r_stvec :: "nat \<Rightarrow> u64"
  r_sip :: "nat \<Rightarrow> u64"
  r_spp :: "nat \<Rightarrow> bool"
  r_spie :: "nat \<Rightarrow> bool"
  plic_regs :: "u64 \<Rightarrow> u32"
  sym_kernelvec :: u64
  sym_uservec :: u64
  sym_userret :: u64
  sym_usertrap :: u64
  first_proc :: bool
  started :: bool

section \<open>Interrupt controller\<close>

definition UART0_IRQ :: u32 where "UART0_IRQ = 10"
definition VIRTIO0_IRQ :: u32 where "VIRTIO0_IRQ = 1"

definition PLIC_SENABLE :: "nat \<Rightarrow> u64" where "PLIC_SENABLE hart = PLIC + 0x2080 + of_nat hart * 0x100"
definition PLIC_SPRIORITY :: "nat \<Rightarrow> u64" where "PLIC_SPRIORITY hart = PLIC + 0x201000 + of_nat hart * 0x2000"
definition PLIC_SCLAIM :: "nat \<Rightarrow> u64" where "PLIC_SCLAIM hart = PLIC + 0x201004 + of_nat hart * 0x2000"

definition plic_write :: "u64 \<Rightarrow> u32 \<Rightarrow> 'z ktrap_scheme \<Rightarrow> 'z ktrap_scheme" where
  "plic_write a v s = s\<lparr>plic_regs := (plic_regs s)(a := v)\<rparr>"

definition plicinit :: "'z ktrap_scheme \<Rightarrow> 'z ktrap_scheme" where
  "plicinit s = plic_write (PLIC + ucast VIRTIO0_IRQ * 4) 1 (plic_write (PLIC + ucast UART0_IRQ * 4) 1 s)"

definition plicinithart :: "'z ktrap_scheme \<Rightarrow> 'z ktrap_scheme" where
  "plicinithart s =
     (let hart = cpuid s
      in plic_write (PLIC_SPRIORITY hart) 0
           (plic_write (PLIC_SENABLE hart) (push_bit (unat UART0_IRQ) 1 OR push_bit (unat VIRTIO0_IRQ) 1) s))"

definition plic_claim :: "'z ktrap_scheme \<Rightarrow> u32" where
  "plic_claim s = plic_regs s (PLIC_SCLAIM (cpuid s))"

definition plic_complete :: "u32 \<Rightarrow> 'z ktrap_scheme \<Rightarrow> 'z ktrap_scheme" where
  "plic_complete irq s = plic_write (PLIC_SCLAIM (cpuid s)) irq s"

section \<open>Device and clock interrupts\<close>

definition trapinit :: "'z ktrap_scheme \<Rightarrow> 'z ktrap_scheme" where
  "trapinit s = initlock L_ticks ''time'' s"

definition trapinithart :: "'z ktrap_scheme \<Rightarrow> 'z ktrap_scheme" where
  "trapinithart s = s\<lparr>r_stvec := (r_stvec s)(tp s := sym_kernelvec s)\<rparr>"

definition clockintr :: "'z ktrap_scheme \<Rightarrow> (unit, 'z ktrap_scheme) kres" where
  "clockintr s =
     bindr (acquire L_ticks s) (\<lambda>_ s.
     bindr (wakeup (Some Ch_ticks) (s\<lparr>ticks := ticks s + 1\<rparr>)) (\<lambda>_ s. release L_ticks s))"

definition devintr :: "'z ktrap_scheme \<Rightarrow> (nat, 'z ktrap_scheme) kres" where
  "devintr s =
     (let scause = r_scause s (tp s)
      in if scause AND 0x8000000000000000 \<noteq> 0 \<and> scause AND 0xff = 9 then
           let irq = plic_claim s
           in bindr (if irq = UART0_IRQ then uartintr s
                     else if irq = VIRTIO0_IRQ then virtio_disk_intr s
                     else if irq \<noteq> 0 then kprintf (''unexpected interrupt irq=%d'' @ [CHR 0x0A]) [V_int irq] s
                     else Ok () s) (\<lambda>_ s.
              Ok 1 (if irq \<noteq> 0 then plic_complete irq s else s))
         else if scause = 0x8000000000000001 then
           bindr (if cpuid s = 0 then clockintr s else Ok () s) (\<lambda>_ s.
           Ok 2 (s\<lparr>r_sip := (r_sip s)(tp s := r_sip s (tp s) AND NOT 2)\<rparr>))
         else Ok 0 s)"

section \<open>Traps\<close>

definition usertrapret :: "'z ktrap_scheme \<Rightarrow> (u64, 'z ktrap_scheme) kres" where
  "usertrapret s =
     bindr (curproc s) (\<lambda>p s.
     let s = intr_off s;
         s = s\<lparr>r_stvec := (r_stvec s)(tp s := TRAMPOLINE + (sym_uservec s - sym_trampoline s))\<rparr>;
         tf = p_trapframe (procs s p);
         s = tf_set tf T_kernel_satp (satp s (tp s)) s;
         s = tf_set tf T_kernel_sp (p_kstack (procs s p) + PGSIZE) s;
         s = tf_set tf T_kernel_trap (sym_usertrap s) s;
         s = tf_set tf T_kernel_hartid (of_nat (tp s)) s;
         s = s\<lparr>r_spp := (r_spp s)(tp s := False), r_spie := (r_spie s)(tp s := True)\<rparr>;
         s = s\<lparr>r_sepc := (r_sepc s)(tp s := tf_get tf T_epc s)\<rparr>
     in Ok (MAKE_SATP (p_pagetable (procs s p))) s)"

definition usertrap :: "u8 list \<Rightarrow> 'z ktrap_scheme \<Rightarrow> (u64, 'z ktrap_scheme) kres" where
  "usertrap pad s =
     (if r_spp s (tp s) then Panic ''usertrap: not from user mode''
      else
        let s = s\<lparr>r_stvec := (r_stvec s)(tp s := sym_kernelvec s)\<rparr>
        in bindr (curproc s) (\<lambda>p s.
           let tf = p_trapframe (procs s p); s = tf_set tf T_epc (r_sepc s (tp s)) s
           in bindr (if r_scause s (tp s) = 8
                     then bindr (killed p s) (\<lambda>k s.
                          if k \<noteq> 0 then exit (- 1) s
                          else bindr (syscall pad (intr_on (tf_set tf T_epc (tf_get tf T_epc s + 4) s))) (\<lambda>_ s. Ok 0 s))
                     else bindr (devintr s) (\<lambda>which_dev s.
                          if which_dev \<noteq> 0 then Ok which_dev s
                          else bindr (kprintf (''usertrap(): unexpected scause %p pid=%d'' @ [CHR 0x0A])
                                        [V_ptr (r_scause s (tp s)), V_int (p_pid (procs s p))] s) (\<lambda>_ s.
                               bindr (kprintf (''            sepc=%p stval=%p'' @ [CHR 0x0A])
                                        [V_ptr (r_sepc s (tp s)), V_ptr (r_stval s (tp s))] s) (\<lambda>_ s.
                               bindr (setkilled p s) (\<lambda>_ s. Ok 0 s))))) (\<lambda>which_dev s.
              bindr (killed p s) (\<lambda>k s.
              if k \<noteq> 0 then exit (- 1) s
              else if which_dev = 2 then yield s
              else usertrapret s))))"

definition usertrap_return :: "nat \<Rightarrow> 'z ktrap_scheme \<Rightarrow> (u64, 'z ktrap_scheme) kres" where
  "usertrap_return p s = bindr (yield_return p s) (\<lambda>_ s. usertrapret s)"

definition restore_trap_regs :: "u64 \<Rightarrow> bool \<times> bool \<times> bool \<Rightarrow> 'z ktrap_scheme \<Rightarrow> 'z ktrap_scheme" where
  "restore_trap_regs sepc sstatus s =
     (case sstatus of (spp, spie, ie) \<Rightarrow>
        s\<lparr>r_sepc := (r_sepc s)(tp s := sepc), r_spp := (r_spp s)(tp s := spp), r_spie := (r_spie s)(tp s := spie),
          sie := (sie s)(tp s := ie)\<rparr>)"

definition kerneltrap :: "'z ktrap_scheme \<Rightarrow> (unit, 'z ktrap_scheme) kres" where
  "kerneltrap s =
     (let sepc = r_sepc s (tp s); sstatus = (r_spp s (tp s), r_spie s (tp s), intr_get s); scause = r_scause s (tp s)
      in if \<not> r_spp s (tp s) then Panic ''kerneltrap: not from supervisor mode''
         else if intr_get s then Panic ''kerneltrap: interrupts enabled''
         else bindr (devintr s) (\<lambda>which_dev s.
           if which_dev = 0
           then bindr (kprintf (''scause %p'' @ [CHR 0x0A]) [V_ptr scause] s) (\<lambda>_ s.
                bindr (kprintf (''sepc=%p stval=%p'' @ [CHR 0x0A]) [V_ptr (r_sepc s (tp s)), V_ptr (r_stval s (tp s))] s) (\<lambda>_ s.
                Panic ''kerneltrap''))
           else bindr (if which_dev = 2
                       then bindr (myproc s) (\<lambda>p s. case p of None \<Rightarrow> Ok False s
                            | Some p \<Rightarrow> bindr (curproc s) (\<lambda>p s. Ok (p_state (procs s p) = RUNNING) s))
                       else Ok False s) (\<lambda>y s.
             if y then yield s else Ok () (restore_trap_regs sepc sstatus s))))"

definition kerneltrap_return :: "nat \<Rightarrow> u64 \<Rightarrow> bool \<times> bool \<times> bool \<Rightarrow> 'z ktrap_scheme \<Rightarrow> (unit, 'z ktrap_scheme) kres" where
  "kerneltrap_return p sepc sstatus s =
     bindr (yield_return p s) (\<lambda>_ s. Ok () (restore_trap_regs sepc sstatus s))"

definition forkret :: "'z ktrap_scheme \<Rightarrow> (u64, 'z ktrap_scheme) kres" where
  "forkret s =
     bindr (curproc s) (\<lambda>p s.
     bindr (release (L_proc p) s) (\<lambda>_ s.
     bindr (if first_proc s then bindr (fsinit ROOTDEV s) (\<lambda>_ s. Ok () (s\<lparr>first_proc := False\<rparr>)) else Ok () s) (\<lambda>_ s.
     usertrapret s)))"

section \<open>Boot\<close>

text \<open>\<open>main\<close> up to the call of \<open>scheduler\<close>.\<close>

definition main :: "'z ktrap_scheme \<Rightarrow> (unit, 'z ktrap_scheme) kres" where
  "main s =
     (if cpuid s = 0 then
        let s = printfinit (consoleinit s)
        in bindr (kprintf [CHR 0x0A] [] s) (\<lambda>_ s.
           bindr (kprintf (''xv6 kernel is booting'' @ [CHR 0x0A]) [] s) (\<lambda>_ s.
           bindr (kprintf [CHR 0x0A] [] s) (\<lambda>_ s.
           bindr (kinit s) (\<lambda>_ s.
           bindr (kvminit s) (\<lambda>_ s.
           let s = fileinit (iinit (binit (plicinithart (plicinit (trapinithart (trapinit (procinit (kvminithart s))))))))
           in bindr (virtio_disk_init s) (\<lambda>_ s.
              bindr (userinit s) (\<lambda>_ s. Ok () (s\<lparr>started := True\<rparr>))))))))
      else if \<not> started s then Hang
      else bindr (kprintf (''hart %d starting'' @ [CHR 0x0A]) [V_int (of_nat (cpuid s))] s) (\<lambda>_ s.
           Ok () (plicinithart (trapinithart (kvminithart s)))))"

end
