(* ===== verification/Spec2Isabelle.thy ===== *)
theory Spec2Isabelle
  imports Pipe_Properties Console_Properties Log_Properties Umalloc_Properties Uprogs_Properties Sh_Properties Trap
begin

text \<open>
  A verification library for xv6, a small Unix for RISC-V (\<^verbatim>\<open>src/kernel\<close>, \<^verbatim>\<open>src/user\<close>).

  \<^bold>\<open>How the program is modelled.\<close>  Every C function is an executable function of a state record, with its name.
  Records extend one another in the order in which the kernel's files build on each other, so that a function of one
  layer works on the states of all layers above it:
  \<open>machine\<close> (harts, locks, interrupt bits, memory; Spinlock), \<open>kmem\<close> (Kalloc), \<open>vm\<close> (Vm), \<open>kdev\<close> (UART registers; Kprintf),
  \<open>kproc\<close> (Proc), \<open>ksleep\<close> (Sleeplock), \<open>kdisk\<close> (Virtio), \<open>klog\<close> (Log), \<open>kfs\<close> (Fs), \<open>kpipe\<close> (Pipe), \<open>kcons\<close> (Console),
  \<open>kfile\<close> (File), \<open>ksys\<close> (Syscall), \<open>ktrap\<close> (Trap).  Machine integers are words of their width, so that wrap-around is
  the machine's.  Memory is a map from 64-bit addresses to bytes.  A call ends in one of four ways (\<open>res\<close>, Prelude):
  \<open>Ok x s\<close> returns, \<open>Panic msg\<close> is a call of \<^verbatim>\<open>panic\<close>, \<open>Hang\<close> spins for ever, and \<open>Block ch s\<close> has switched to the scheduler
  and sleeps on channel \<open>ch\<close>.  A function that sleeps is cut at \<^verbatim>\<open>swtch\<close>; what it does when it is switched back to is
  the corresponding \<open>_return\<close> definition.  \<^verbatim>\<open>virtio_disk_rw\<close> composes the two halves with the scheduler, the device and its
  interrupt, so that the file system above it runs to its end.

  \<^bold>\<open>Theories and the code they model.\<close>
  \<^item> Prelude: results, byte lists, words.  Kstring: \<^verbatim>\<open>string.c\<close>.  Spinlock: \<^verbatim>\<open>spinlock.c\<close>, \<^verbatim>\<open>spinlock.h\<close>, the parts of
    \<^verbatim>\<open>riscv.h\<close> that concern interrupts.  Riscv: page table entries and addresses of \<^verbatim>\<open>riscv.h\<close>, \<^verbatim>\<open>memlayout.h\<close>.
  \<^item> Kalloc: \<^verbatim>\<open>kalloc.c\<close>.  Vm: \<^verbatim>\<open>vm.c\<close>; its facts are in Pagetable (page tables as finite trees and their translation),
    Uvm, Ucopy, Uspace, Ugrow and Vm_Properties.
  \<^item> Kprintf: \<^verbatim>\<open>printf.c\<close> and the polled output path of \<^verbatim>\<open>uart.c\<close> and \<^verbatim>\<open>console.c\<close>; Kprintf_Facts.
  \<^item> Proc: \<^verbatim>\<open>proc.c\<close>, \<^verbatim>\<open>proc.h\<close>; Lockset (critical sections as equations), Proc_Facts, Proc_Alloc, Proc_Properties.
  \<^item> Sleeplock: \<^verbatim>\<open>sleeplock.c\<close>; Sleeplock_Facts.  Virtio: \<^verbatim>\<open>virtio_disk.c\<close>; Disk_Facts.  Bio: \<^verbatim>\<open>bio.c\<close>; Block_Layer (the interface of
    a store of blocks, with its laws as a locale), Bio_Facts, Bio_Laws (the buffer cache obeys them), Bio_Properties.
    Log: \<^verbatim>\<open>log.c\<close>; Redo (redo logs on abstract disks, with every point at which the machine may stop), Block_Fields, Log_Facts,
    Log_Ops, Log_Crash, Log_Properties.  Fs: \<^verbatim>\<open>fs.c\<close>, \<^verbatim>\<open>fs.h\<close>, \<^verbatim>\<open>stat.h\<close>.
  \<^item> Ring: bounded queues in ring buffers with free-running counters.  Pipe: \<^verbatim>\<open>pipe.c\<close>; Pipe_Facts, Pipe_Properties.
    Console: \<^verbatim>\<open>console.c\<close> and the interrupt-driven half of \<^verbatim>\<open>uart.c\<close>; Console_Facts, Console_Properties.
  \<^item> File: \<^verbatim>\<open>file.c\<close>.  Procfs: \<^verbatim>\<open>fork\<close>, \<^verbatim>\<open>exit\<close>, \<^verbatim>\<open>wait\<close> and \<^verbatim>\<open>userinit\<close> of \<^verbatim>\<open>proc.c\<close>, which also touch files.  Exec: \<^verbatim>\<open>exec.c\<close>.
    Syscall: \<^verbatim>\<open>syscall.c\<close>, \<^verbatim>\<open>sysproc.c\<close>, \<^verbatim>\<open>sysfile.c\<close>.  Trap: \<^verbatim>\<open>trap.c\<close>, \<^verbatim>\<open>plic.c\<close>, \<^verbatim>\<open>main.c\<close>.
  \<^item> Umalloc: \<^verbatim>\<open>user/umalloc.c\<close> on the headers in memory, with \<open>sbrk\<close> as a locale; Umalloc_Properties interprets it with the
    kernel's \<open>growproc\<close>.
  \<^item> Usys: user programs as trees of system calls (\<^verbatim>\<open>user/usys.pl\<close>) and running them.  Ulib: \<^verbatim>\<open>user/ulib.c\<close>.  Uprintf: \<^verbatim>\<open>user/printf.c\<close>.
    Grep: the matcher and the line loop of \<^verbatim>\<open>user/grep.c\<close>.  Uprogs: \<^verbatim>\<open>cat\<close>, \<^verbatim>\<open>echo\<close>, \<^verbatim>\<open>wc\<close>, \<^verbatim>\<open>grep\<close>, \<^verbatim>\<open>ls\<close>, \<^verbatim>\<open>mkdir\<close>, \<^verbatim>\<open>rm\<close>, \<^verbatim>\<open>ln\<close>, \<^verbatim>\<open>kill\<close>,
    \<^verbatim>\<open>zombie\<close>, \<^verbatim>\<open>init\<close>, \<^verbatim>\<open>stressfs\<close>, \<^verbatim>\<open>forktest\<close>; Uprogs_Properties.
  \<^item> Sh: \<^verbatim>\<open>user/sh.c\<close>.  Sh_Facts (the parser ends and stays inside the line), Sh_Lexer (which texts spell which tokens), Sh_Grammar (the
    grammar of command lines, its meaning, soundness and completeness of the parser), Sh_Run (the programs that a command starts and
    their descriptors), Sh_Properties.
  \<^item> Demo_Kernel: a concrete kernel state at which the properties are exercised.

  \<^bold>\<open>What the properties show.\<close>  From the bottom up: mutual exclusion of spin locks; the page allocator hands out each free page
  once; page tables map what \<open>mappages\<close>, \<open>uvmalloc\<close> and \<open>uvmcopy\<close> promise, and copying to and from user memory follows them;
  sleeping and waking lose no wakeup and the scheduler is fair; the disk driver transfers blocks, the buffer cache implements a store of
  blocks, and a transaction of the log is atomic across a crash at any point, as is recovery itself; pipes, the console and the UART
  are queues; \<open>malloc\<close> hands out disjoint memory over the kernel's \<open>sbrk\<close>; \<open>grep\<close>, \<open>wc\<close> and \<open>cat\<close> compute what they promise however their
  input is cut by \<open>read\<close>; the shell parses exactly its grammar and connects the programs of a line as the line says.
  Properties named as errors show at a concrete state what the code does against its intention.

  \<^bold>\<open>Fuel and bounds.\<close>  \<open>freewalk\<close> takes fuel 3, one per level of the page table, and a table that contains itself
  makes it \<open>Hang\<close>.  \<open>ring_find\<close> walks the buffer ring with fuel \<open>NBUF + 1\<close>, the number of its nodes, and \<open>free_desc_chain\<close>
  follows at most \<open>NUM\<close> descriptors, since a descriptor that comes round again is a panic.  The shell's recursive descent has depth
  \<open>4 * length t + 4\<close>, four functions per byte of the line, which Sh_Facts proves enough.  Loops of user programs that only the kernel ends take
  a bound on the number of their reads or waits, and the properties say which bound is enough.  All other loops are total
  functions with a termination proof, or \<open>partial_function\<close>s whose termination is proved where it is claimed.

  \<^bold>\<open>What is not modelled.\<close>  The assembly files and the context switch itself; the boot code \<^verbatim>\<open>start.c\<close>, which sets machine-mode registers;
  the memory ram disk \<^verbatim>\<open>ramdisk.c\<close>, which is not built; \<^verbatim>\<open>mkfs.c\<close>, a program of the build host; the test programs \<^verbatim>\<open>usertests.c\<close> and
  \<^verbatim>\<open>grind.c\<close>; weak memory (harts interleave atomic steps).  Block writes of the disk are atomic.  Files, programs loaded by
  \<open>exec\<close>, system calls and traps are modelled and not the subject of properties of their own.
\<close>

end
